(* ===== verification/Prelude.thy ===== *)
theory Prelude
  imports Complex_Main "HOL-Library.Word"
begin

text \<open>
  Shared vocabulary of the development: the machine integers and strings of the C and C++ sources,
  the clock, the collections of rewrite rules that carry the component proofs, and the generic facts
  about lists and words that several components use.

  Conventions. The native code is compiled by MSVC for 64-bit Windows, so \<^verbatim>\<open>std::uint64_t\<close>,
  \<^verbatim>\<open>UInt64\<close> and \<^verbatim>\<open>std::size_t\<close> are 64-bit words, \<^verbatim>\<open>unsigned long\<close>, \<^verbatim>\<open>DWORD\<close>, \<^verbatim>\<open>UInt32\<close> are 32-bit
  words, \<^verbatim>\<open>wchar_t\<close> is a 16-bit word and \<^verbatim>\<open>std::wstring\<close> a list of them; \<^verbatim>\<open>std::string\<close> is a list of
  bytes (\<open>string\<close>). A \<^verbatim>\<open>steady_clock::time_point\<close> is an integer count of nanoseconds, with
  \<^verbatim>\<open>time_point{}\<close> as 0; the clock is read from the outside, so an operation that calls
  \<^verbatim>\<open>steady_clock::now()\<close> takes the time as an argument.
\<close>

section \<open>Types\<close>

type_synonym u8 = "8 word"
type_synonym u16 = "16 word"
type_synonym u32 = "32 word"
type_synonym u64 = "64 word"
type_synonym wstring = "16 word list"
type_synonym time = int

abbreviation (input) time_zero :: time where
  "time_zero \<equiv> 0"

text \<open>\<^verbatim>\<open>std::chrono::milliseconds\<close> converted to the nanosecond ticks of \<^verbatim>\<open>steady_clock\<close>.\<close>

definition ms_ticks :: "int \<Rightarrow> int" where
  "ms_ticks d = d * 1000000"

text \<open>A wide literal \<^verbatim>\<open>L"..."\<close> with ASCII contents.\<close>

definition wide :: "string \<Rightarrow> wstring" where
  "wide s = map of_char s"

lemma wide_simps [simp]:
  "wide [] = []"
  "wide (c # s) = of_char c # wide s"
  by (simp_all add: wide_def)

lemma length_wide [simp]: "length (wide s) = length s"
  by (simp add: wide_def)

lemma of_char_word_inj: "inj (of_char :: char \<Rightarrow> u16)"
proof (rule injI)
  fix c d assume "(of_char c :: u16) = of_char d"
  then have "(of_nat (of_char c) :: u16) = of_nat (of_char d)" by (simp add: of_nat_of_char)
  then have "unat (of_nat (of_char c) :: u16) = unat (of_nat (of_char d) :: u16)" by simp
  have small: "(of_char e :: nat) < 256" for e
    using of_char_mod_256 [of e, where 'a = nat] by (metis mod_less_divisor zero_less_numeral)
  have "unat (of_nat (of_char e) :: u16) = of_char e" for e
  proof -
    have "of_char e < (2 :: nat) ^ LENGTH(16)" by (rule less_trans [OF small]) simp
    then show ?thesis unfolding unat_of_nat by (rule mod_less)
  qed
  with \<open>unat _ = unat _\<close> show "c = d" by simp
qed

lemma wide_eq_iff: "wide a = wide b \<longleftrightarrow> a = b"
  by (simp add: wide_def inj_map_eq_map [OF of_char_word_inj])

section \<open>Collections of facts\<close>

named_theorems gate_defs \<open>critical sections of the volume space gate\<close>
named_theorems gate_simps \<open>what each critical section keeps\<close>
named_theorems ledger_defs \<open>operations of the CPU and memory ledgers\<close>

section \<open>Lists\<close>

lemma sorted_wrt_takeWhile:
  "sorted_wrt R xs \<Longrightarrow> sorted_wrt R (takeWhile P xs)"
  by (metis sorted_wrt_append takeWhile_dropWhile_id)

lemma sorted_wrt_dropWhile:
  "sorted_wrt R xs \<Longrightarrow> sorted_wrt R (dropWhile P xs)"
  by (metis sorted_wrt_append takeWhile_dropWhile_id)

text \<open>\<^verbatim>\<open>std::find\<close> followed by \<^verbatim>\<open>push_back\<close> when absent.\<close>

definition push_back_unique :: "'a \<Rightarrow> 'a list \<Rightarrow> 'a list" where
  "push_back_unique x xs = (if x \<in> set xs then xs else xs @ [x])"

lemma set_push_back_unique [simp]: "set (push_back_unique x xs) = insert x (set xs)"
  by (auto simp: push_back_unique_def)

lemma distinct_push_back_unique [simp]: "distinct (push_back_unique x xs) = distinct xs"
  by (auto simp: push_back_unique_def)

section \<open>Words\<close>

lemma unat_bound: "unat (a :: 'a::len word) < 2 ^ LENGTH('a)"
  by (rule unsigned_less)

lemma unat_ucast_up: "LENGTH('a) \<le> LENGTH('b) \<Longrightarrow> unat (ucast (a :: 'a::len word) :: 'b::len word) = unat a"
  by (simp add: unsigned_ucast_eq take_bit_nat_eq_self [OF less_le_trans [OF unat_bound]])

lemma unat_ucast_small: "unat a < 2 ^ LENGTH('b) \<Longrightarrow> unat (ucast (a :: 'a::len word) :: 'b::len word) = unat a"
  by (simp add: unsigned_ucast_eq take_bit_nat_eq_self)

lemma unat_diff_le:
  fixes a b :: "'a::len word"
  shows "b \<le> a \<Longrightarrow> unat (a - b) = unat a - unat b"
  by (rule unat_sub)

lemma unat_inc:
  fixes a :: "'a::len word"
  shows "unat a < 2 ^ LENGTH('a) - 1 \<Longrightarrow> unat (a + 1) = unat a + 1"
  by (simp add: unat_word_ariths)

lemma word_Collect_range:
  fixes a b :: "'a::len word"
  shows "unat ` {a..<b} = {unat a..<unat b}"
proof
  show "unat ` {a..<b} \<subseteq> {unat a..<unat b}"
    by (auto simp: word_le_nat_alt word_less_nat_alt)
  show "{unat a..<unat b} \<subseteq> unat ` {a..<b}"
  proof
    fix n assume n: "n \<in> {unat a..<unat b}"
    have "unat b < 2 ^ LENGTH('a)"
      by (rule unsigned_less)
    then have "n < 2 ^ LENGTH('a)"
      using n by (meson atLeastLessThan_iff less_trans)
    then have "unat (of_nat n :: 'a word) = n"
      by (simp add: unat_of_nat)
    with n show "n \<in> unat ` {a..<b}"
      by (intro image_eqI [where x = "of_nat n"]) (auto simp: word_le_nat_alt word_less_nat_alt)
  qed
qed

lemma card_word_range:
  fixes a b :: "'a::len word"
  shows "card {a..<b} = unat b - unat a"
proof -
  have "card {a..<b} = card (unat ` {a..<b})"
    by (rule card_image [symmetric]) (simp add: inj_on_def word_unat_eq_iff)
  then show ?thesis
    by (simp add: word_Collect_range)
qed

section \<open>Labelled systems and their invariants\<close>

text \<open>
  The reachable states of a labelled step relation, and the rule that carries every safety proof of
  the development: what holds initially and is kept by every step holds in every reachable state.
\<close>

inductive reach :: "('s \<Rightarrow> bool) \<Rightarrow> ('s \<Rightarrow> 'l \<Rightarrow> 's \<Rightarrow> bool) \<Rightarrow> 's \<Rightarrow> bool"
  for initial :: "'s \<Rightarrow> bool" and step :: "'s \<Rightarrow> 'l \<Rightarrow> 's \<Rightarrow> bool" where
  reach_initial: "initial s \<Longrightarrow> reach initial step s"
| reach_step: "reach initial step s \<Longrightarrow> step s l t \<Longrightarrow> reach initial step t"

locale invariant_system =
  fixes initial :: "'s \<Rightarrow> bool"
    and step :: "'s \<Rightarrow> 'l \<Rightarrow> 's \<Rightarrow> bool"
    and invar :: "'s \<Rightarrow> bool"
  assumes invar_initial: "initial s \<Longrightarrow> invar s"
    and invar_step: "invar s \<Longrightarrow> step s l t \<Longrightarrow> invar t"
begin

lemma invar_reach: "reach initial step s \<Longrightarrow> invar s"
  by (induction rule: reach.induct) (auto intro: invar_initial invar_step)

end

end
