(* ===== verification/Written_Ranges.thy ===== *)
theory Written_Ranges
  imports Prelude
begin

text \<open>
  The record of confirmed output bytes (\<^verbatim>\<open>native/sevenzip_bridge/src/internal/extraction_replay.hpp\<close>).
  Completions of asynchronous writes arrive out of order; \<open>written_ranges\<close> keeps a contiguous
  prefix and the sorted list of islands beyond it. The theory models \<open>add\<close>, \<open>next\<close> and \<open>bytes\<close>
  and shows that the pair is a canonical form of the set of written offsets: it depends on the set
  only, not on the order in which the completions arrived.
\<close>

section \<open>Model\<close>

type_synonym byte_range = "u64 \<times> u64"

record written_ranges =
  ranges :: "byte_range list"
  prefix :: u64

definition empty_ranges :: written_ranges where
  "empty_ranges = \<lparr>ranges = [], prefix = 0\<rparr>"

text \<open>The loop that swallows islands the grown prefix touches, with the following \<^verbatim>\<open>erase\<close>.\<close>

fun absorb_prefix :: "u64 \<Rightarrow> byte_range list \<Rightarrow> u64 \<times> byte_range list" where
  "absorb_prefix p [] = (p, [])"
| "absorb_prefix p ((b, e) # rs) =
     (if b \<le> p then absorb_prefix (max p e) rs else (p, (b, e) # rs))"

text \<open>The loop that merges the new interval with the islands it overlaps or touches.\<close>

fun merge_run :: "u64 \<Rightarrow> u64 \<Rightarrow> byte_range list \<Rightarrow> u64 \<times> u64 \<times> byte_range list" where
  "merge_run b e [] = (b, e, [])"
| "merge_run b e ((b', e') # rs) =
     (if b' \<le> e then merge_run (min b b') (max e e') rs else (b, e, (b', e') # rs))"

text \<open>
  \<^verbatim>\<open>std::lower_bound\<close> with \<^verbatim>\<open>range.second < offset\<close> returns the partition point of the list, which is
  where \<open>takeWhile\<close> stops; the list is partitioned because the islands are sorted.
\<close>

definition ranges_add :: "written_ranges \<Rightarrow> u64 \<Rightarrow> u64 \<Rightarrow> written_ranges" where
  "ranges_add w b e =
     (if b = e then w
      else if b \<le> prefix w then
        (case absorb_prefix (max (prefix w) e) (ranges w) of
           (p, rs) \<Rightarrow> w\<lparr>prefix := p, ranges := rs\<rparr>)
      else
        (let before = takeWhile (\<lambda>r. snd r < b) (ranges w);
             after = dropWhile (\<lambda>r. snd r < b) (ranges w)
         in case merge_run b e after of
              (b', e', rest) \<Rightarrow> w\<lparr>ranges := before @ (b', e') # rest\<rparr>))"

text \<open>\<^verbatim>\<open>std::upper_bound\<close> with \<^verbatim>\<open>value < range.second\<close>: the first island that ends beyond the offset.\<close>

definition ranges_next :: "written_ranges \<Rightarrow> u64 \<Rightarrow> u64 \<Rightarrow> bool \<times> u64" where
  "ranges_next w off sz =
     (if off < prefix w then (True, min sz (prefix w - off))
      else case dropWhile (\<lambda>r. \<not> off < snd r) (ranges w) of
             [] \<Rightarrow> (False, sz)
           | (b, e) # _ \<Rightarrow>
               if off < b then (False, min sz (b - off)) else (True, min sz (e - off)))"

definition ranges_bytes :: "written_ranges \<Rightarrow> u64" where
  "ranges_bytes w = fold (\<lambda>r acc. acc + (snd r - fst r)) (ranges w) (prefix w)"

text \<open>A run of completions, in the order in which they are reported.\<close>

definition ranges_add_all :: "written_ranges \<Rightarrow> byte_range list \<Rightarrow> written_ranges" where
  "ranges_add_all w rs = fold (\<lambda>(b, e) w. ranges_add w b e) rs w"

text \<open>
  What survives an extraction attempt: per output item the file and its confirmed bytes, the created
  directories, the identity of the handler, and the state of the password candidate transaction.
\<close>

record replay_file =
  rf_path :: wstring
  written :: written_ranges
  created :: bool
  complete :: bool
  has_mtime :: bool
  mtime :: u64

record extraction_replay =
  files :: "u32 \<rightharpoonup> replay_file"
  directories :: "wstring \<rightharpoonup> wstring"
  handler :: "u8 list"
  root_was_empty :: bool
  initialized :: bool
  candidate_index :: u64
  candidates_started :: bool
  candidate_output_owned :: bool
  candidate_discard_pending :: bool

definition empty_replay :: extraction_replay where
  "empty_replay = \<lparr>files = Map.empty, directories = Map.empty, handler = replicate 16 0,
     root_was_empty = False, initialized = False, candidate_index = 0, candidates_started = False,
     candidate_output_owned = False, candidate_discard_pending = False\<rparr>"

definition clear_output :: "extraction_replay \<Rightarrow> extraction_replay" where
  "clear_output r = r\<lparr>files := Map.empty, directories := Map.empty,
     handler := replicate (length (handler r)) 0, root_was_empty := False, initialized := False\<rparr>"

section \<open>Invariant and abstraction\<close>

definition island_set :: "byte_range list \<Rightarrow> u64 set" where
  "island_set rs = (\<Union>(b, e) \<in> set rs. {b..<e})"

definition covered :: "written_ranges \<Rightarrow> u64 set" where
  "covered w = {..<prefix w} \<union> island_set (ranges w)"

fun islands_from :: "u64 \<Rightarrow> byte_range list \<Rightarrow> bool" where
  "islands_from p [] \<longleftrightarrow> True"
| "islands_from p ((b, e) # rs) \<longleftrightarrow> p < b \<and> b < e \<and> islands_from e rs"

definition ranges_inv :: "written_ranges \<Rightarrow> bool" where
  "ranges_inv w \<longleftrightarrow> islands_from (prefix w) (ranges w)"

lemma island_set_simps [simp]:
  "island_set [] = {}"
  "island_set ((b, e) # rs) = {b..<e} \<union> island_set rs"
  "island_set (rs @ rs') = island_set rs \<union> island_set rs'"
  by (auto simp: island_set_def)

lemma islands_from_gt: "islands_from p rs \<Longrightarrow> x \<in> island_set rs \<Longrightarrow> p < x"
  by (induction p rs rule: islands_from.induct) force+

lemma islands_from_mono: "islands_from p rs \<Longrightarrow> q \<le> p \<Longrightarrow> islands_from q rs"
  by (cases rs) auto

lemma absorb_prefix_correct:
  assumes "islands_from q rs" and "absorb_prefix p rs = (p', rs')"
  shows "islands_from p' rs' \<and> {..<p'} \<union> island_set rs' = {..<p} \<union> island_set rs"
  using assms
proof (induction p rs arbitrary: q rule: absorb_prefix.induct)
  case (2 p b e rs)
  show ?case
  proof (cases "b \<le> p")
    case True
    with "2.prems" have "islands_from e rs" "absorb_prefix (max p e) rs = (p', rs')"
      by auto
    with "2.IH" [OF True] have
      "islands_from p' rs' \<and> {..<p'} \<union> island_set rs' = {..<max p e} \<union> island_set rs"
      by blast
    moreover have "{..<max p e} = {..<p} \<union> {b..<e}"
      using True by (auto simp: max_def not_le)
    ultimately show ?thesis by auto
  next
    case False
    with "2.prems" show ?thesis by auto
  qed
qed auto

lemma merge_run_correct:
  assumes "islands_from q rs" and "b < e" and "\<forall>r \<in> set rs. b \<le> snd r"
    and "merge_run b e rs = (b', e', rs')"
  shows "islands_from e' rs' \<and> b' < e' \<and> (b' = b \<or> q < b') \<and>
    {b'..<e'} \<union> island_set rs' = {b..<e} \<union> island_set rs"
  using assms
proof (induction b e rs arbitrary: q rule: merge_run.induct)
  case (2 b e c d rs)
  show ?case
  proof (cases "c \<le> e")
    case True
    have *: "q < c" "c < d" "islands_from d rs" "b \<le> d" "b < e"
      "merge_run (min b c) (max e d) rs = (b', e', rs')"
      using "2.prems" True by auto
    have le: "\<forall>r \<in> set rs. min b c \<le> snd r"
      using "2.prems"(3) by (auto simp: min_def)
    have lt: "min b c < max e d"
      using *(2,5) by (simp add: min_less_iff_disj less_max_iff_disj)
    have "islands_from e' rs' \<and> b' < e' \<and> (b' = min b c \<or> d < b') \<and>
      {b'..<e'} \<union> island_set rs' = {min b c..<max e d} \<union> island_set rs"
      using "2.IH" [OF True *(3) lt le *(6)] .
    moreover have "{min b c..<max e d} = {b..<e} \<union> {c..<d}"
      using True * by (auto simp: min_def max_def not_le split: if_splits)
    ultimately show ?thesis
      using * by (auto simp: min_def split: if_splits)
  next
    case False
    with "2.prems" show ?thesis by auto
  qed
qed auto

lemma islands_from_append:
  "islands_from p (rs @ (b, e) # rs') \<longleftrightarrow>
     islands_from p rs \<and> (rs = [] \<longrightarrow> p < b) \<and> (rs \<noteq> [] \<longrightarrow> snd (last rs) < b) \<and>
     b < e \<and> islands_from e rs'"
  by (induction p rs rule: islands_from.induct) auto

lemma islands_from_split:
  "islands_from p (rs @ rs') \<longleftrightarrow>
     islands_from p rs \<and> islands_from (if rs = [] then p else snd (last rs)) rs'"
  by (induction p rs rule: islands_from.induct) auto

lemma islands_from_snd_ge:
  "islands_from p rs \<Longrightarrow> (b, e) \<in> set rs \<Longrightarrow> p < b \<and> b < e"
  by (induction p rs rule: islands_from.induct) force+

lemma dropWhile_snd_ge:
  assumes "islands_from p rs"
  shows "\<forall>r \<in> set (dropWhile (\<lambda>r. snd r < b) rs). b \<le> snd r"
  using assms
proof (induction p rs rule: islands_from.induct)
  case (2 p c d rs)
  then show ?case
    by (auto simp: not_less dest: islands_from_snd_ge)
qed auto

lemma last_takeWhile: "takeWhile P xs \<noteq> [] \<Longrightarrow> P (last (takeWhile P xs))"
  by (metis last_in_set set_takeWhileD)

text \<open>The two facts about \<open>ranges_add\<close>: it adds exactly the new bytes and keeps the invariant.\<close>

lemma ranges_add_correct:
  assumes "ranges_inv w" and "b \<le> e"
  shows "ranges_inv (ranges_add w b e) \<and> covered (ranges_add w b e) = covered w \<union> {b..<e}"
proof -
  consider "b = e" | "b < e" "b \<le> prefix w" | "b < e" "prefix w < b"
    using assms(2) by fastforce
  then show ?thesis
  proof cases
    case 1
    with assms show ?thesis by (simp add: ranges_add_def)
  next
    case 2
    obtain p rs where ab: "absorb_prefix (max (prefix w) e) (ranges w) = (p, rs)"
      by fastforce
    have "{..<max (prefix w) e} = {..<prefix w} \<union> {b..<e}"
      using 2 by (auto simp: max_def)
    with absorb_prefix_correct [OF _ ab] assms(1) 2 ab show ?thesis
      by (auto simp: ranges_add_def ranges_inv_def covered_def)
  next
    case 3
    define pre where "pre = takeWhile (\<lambda>r. snd r < b) (ranges w)"
    define post where "post = dropWhile (\<lambda>r. snd r < b) (ranges w)"
    define q where "q = (if pre = [] then prefix w else snd (last pre))"
    have split: "ranges w = pre @ post"
      by (simp add: pre_def post_def)
    obtain b' e' rs where mr: "merge_run b e post = (b', e', rs)"
      by (metis prod_cases3)
    have isl: "islands_from (prefix w) pre" "islands_from q post"
      using assms(1) by (auto simp: ranges_inv_def split islands_from_split q_def)
    have "q < b"
      using 3 last_takeWhile [of "\<lambda>r. snd r < b" "ranges w"] by (auto simp: q_def pre_def)
    moreover have "\<forall>r \<in> set post. b \<le> snd r"
      using assms(1) unfolding post_def ranges_inv_def by (rule dropWhile_snd_ge)
    ultimately have res: "islands_from e' rs" "b' < e'" "q < b'"
      "{b'..<e'} \<union> island_set rs = {b..<e} \<union> island_set post"
      using merge_run_correct [OF isl(2) 3(1) _ mr] by auto
    have "ranges_add w b e = w\<lparr>ranges := pre @ (b', e') # rs\<rparr>"
      using 3 mr by (auto simp: ranges_add_def Let_def pre_def post_def)
    with res isl show ?thesis
      by (auto simp: ranges_inv_def covered_def split islands_from_append q_def split: if_splits)
  qed
qed

lemma ranges_add_inv [simp]: "ranges_inv w \<Longrightarrow> b \<le> e \<Longrightarrow> ranges_inv (ranges_add w b e)"
  using ranges_add_correct by blast

lemma covered_ranges_add [simp]:
  "ranges_inv w \<Longrightarrow> b \<le> e \<Longrightarrow> covered (ranges_add w b e) = covered w \<union> {b..<e}"
  using ranges_add_correct by blast

section \<open>The canonical form\<close>

lemma prefix_uncovered: "ranges_inv w \<Longrightarrow> prefix w \<notin> covered w"
  by (auto simp: ranges_inv_def covered_def dest: islands_from_gt)

lemma islands_from_hd:
  assumes "islands_from p ((b, e) # rs)"
  shows "{b..<e} \<subseteq> island_set ((b, e) # rs)" "e \<notin> island_set ((b, e) # rs)"
    "x \<in> island_set ((b, e) # rs) \<Longrightarrow> b \<le> x" "b \<in> island_set ((b, e) # rs)"
  using assms islands_from_gt [of e rs] by auto force+

lemma islands_from_unique:
  assumes "islands_from p rs" "islands_from q rs'" "island_set rs = island_set rs'"
  shows "rs = rs'"
  using assms
proof (induction p rs arbitrary: q rs' rule: islands_from.induct)
  case (1 p)
  then show ?case
    by (cases rs') fastforce+
next
  case (2 p b e rs)
  then obtain b' e' rs'' where rs': "rs' = (b', e') # rs''"
    by (cases rs') fastforce+
  note hd = islands_from_hd [OF "2.prems"(1)]
  note hd' = islands_from_hd [OF "2.prems"(2) [unfolded rs']]
  have "b = b'"
    using hd(3,4) hd'(3,4) "2.prems"(3) rs' by (metis order.antisym)
  moreover have "\<not> e < e'" "\<not> e' < e"
    using hd(1,2) hd'(1,2) "2.prems" rs' \<open>b = b'\<close> by auto
  ultimately have eq: "b = b'" "e = e'" by auto
  have "island_set rs = island_set ((b, e) # rs) - {b..<e}"
    using islands_from_gt [of e rs] "2.prems"(1) by fastforce
  also have "\<dots> = island_set rs''"
    using islands_from_gt [of e rs''] "2.prems"(2,3) unfolding rs' eq by fastforce
  finally show ?case
    using "2.IH" [of e rs''] "2.prems"(1,2) rs' eq by auto
qed

lemma ranges_canonical:
  assumes "ranges_inv w" "ranges_inv w'" "covered w = covered w'"
  shows "w = w'"
proof -
  have "\<not> prefix w < prefix w'" "\<not> prefix w' < prefix w"
    using prefix_uncovered [OF assms(1)] prefix_uncovered [OF assms(2)] assms(3)
    by (auto simp: covered_def)
  then have p: "prefix w = prefix w'" by auto
  have "island_set (ranges w) = covered w - {..<prefix w}"
    using assms(1) by (fastforce simp: covered_def ranges_inv_def dest: islands_from_gt)
  also have "\<dots> = island_set (ranges w')"
    using assms(2) unfolding p assms(3)
    by (fastforce simp: covered_def ranges_inv_def dest: islands_from_gt)
  finally have "ranges w = ranges w'"
    using islands_from_unique assms(1,2) by (auto simp: ranges_inv_def)
  with p show ?thesis by simp
qed

lemma empty_ranges_inv [simp]: "ranges_inv empty_ranges" "covered empty_ranges = {}"
  by (auto simp: ranges_inv_def covered_def empty_ranges_def)

section \<open>Homogeneous runs and the byte count\<close>

fun next_island :: "u64 \<Rightarrow> byte_range list \<Rightarrow> byte_range option" where
  "next_island off [] = None"
| "next_island off ((b, e) # rs) = (if off < e then Some (b, e) else next_island off rs)"

lemma dropWhile_next_island:
  "(case dropWhile (\<lambda>r. \<not> off < snd r) rs of [] \<Rightarrow> x | (b, e) # _ \<Rightarrow> f b e) =
     (case next_island off rs of None \<Rightarrow> x | Some (b, e) \<Rightarrow> f b e)"
  by (induction off rs rule: next_island.induct) auto

lemma next_island_None:
  "next_island off rs = None \<Longrightarrow> off \<le> x \<Longrightarrow> x \<notin> island_set rs"
  by (induction off rs rule: next_island.induct) (auto split: if_splits)

lemma next_island_Some:
  assumes "islands_from p rs" "next_island off rs = Some (b, e)"
  shows "off < e \<and> b < e \<and> {b..<e} \<subseteq> island_set rs \<and> e \<notin> island_set rs \<and>
    (\<forall>x. off \<le> x \<longrightarrow> x < b \<longrightarrow> x \<notin> island_set rs)"
  using assms
proof (induction p rs rule: islands_from.induct)
  case (2 p c d rs)
  show ?case
  proof (cases "off < d")
    case True
    with "2.prems" have "c = b" "d = e" by auto
    moreover have "x \<notin> island_set ((c, d) # rs)" if "x < c" for x
      using islands_from_hd(3) [OF "2.prems"(1)] that by (meson not_le)
    ultimately show ?thesis
      using "2.prems"(1) True islands_from_hd(1,2) [OF "2.prems"(1)] by auto
  next
    case False
    with "2.prems" "2.IH" have
      IH: "off < e \<and> b < e \<and> {b..<e} \<subseteq> island_set rs \<and> e \<notin> island_set rs \<and>
        (\<forall>x. off \<le> x \<longrightarrow> x < b \<longrightarrow> x \<notin> island_set rs)"
      by auto
    with False show ?thesis by auto
  qed
qed auto

lemma unat_offset:
  fixes off n b :: u64
  assumes "unat off + unat n \<le> unat b"
  shows "unat (off + n) = unat off + unat n"
proof -
  have "unat b < 2 ^ 64"
    using unsigned_less [of b] by simp
  with assms show ?thesis
    by (simp add: unat_word_ariths)
qed

text \<open>A run clipped at a boundary \<open>lim\<close> is the part of it below the boundary.\<close>

lemma clipped_run:
  fixes off sz lim :: u64
  assumes "off < lim" "0 < sz" "n = min sz (lim - off)"
    and "\<forall>x. off \<le> x \<longrightarrow> x < lim \<longrightarrow> P x = c" "P lim \<noteq> c"
  shows "0 < n \<and> n \<le> sz \<and> (\<forall>x. off \<le> x \<longrightarrow> unat x < unat off + unat n \<longrightarrow> P x = c) \<and>
    (n < sz \<longrightarrow> P (off + n) \<noteq> c)"
proof (intro conjI impI allI)
  have d: "unat (lim - off) = unat lim - unat off" "unat off < unat lim"
    using assms(1) by (simp_all add: unat_sub flip: word_less_nat_alt)
  then have un: "unat n \<le> unat lim - unat off"
    using assms(3) by (metis min.cobounded2 word_le_nat_alt)
  show "0 < n"
    using assms(1-3) d by (auto simp: min_def word_less_nat_alt split: if_splits)
  show "n \<le> sz"
    using assms(3) by simp
  fix x assume "off \<le> x" "unat x < unat off + unat n"
  then show "P x = c"
    using assms(4) un d by (auto simp: word_less_nat_alt)
next
  assume "n < sz"
  then have "n = lim - off"
    using assms(3) by (auto simp: min_def split: if_splits)
  then show "P (off + n) \<noteq> c"
    using assms(5) by simp
qed

lemma ranges_next_correct:
  assumes inv: "ranges_inv w" and sz: "0 < sz" and nx: "ranges_next w off sz = (c, n)"
  shows "0 < n \<and> n \<le> sz \<and>
    (\<forall>x. off \<le> x \<longrightarrow> unat x < unat off + unat n \<longrightarrow> (x \<in> covered w) = c) \<and>
    (n < sz \<longrightarrow> (off + n \<in> covered w) \<noteq> c)"
proof (cases "off < prefix w")
  case True
  with nx have "c" and n: "n = min sz (prefix w - off)"
    by (auto simp: ranges_next_def)
  with clipped_run [OF True sz n, of "\<lambda>x. x \<in> covered w" c] prefix_uncovered [OF inv]
  show ?thesis by (auto simp: covered_def)
next
  case ge: False
  show ?thesis
  proof (cases "next_island off (ranges w)")
    case None
    with nx ge have "\<not> c" "n = sz"
      by (auto simp: ranges_next_def dropWhile_next_island)
    with next_island_None [OF None] ge sz show ?thesis
      by (auto simp: covered_def)
  next
    case (Some r)
    obtain b e where r: "next_island off (ranges w) = Some (b, e)"
      using Some by (cases r) auto
    note isl = next_island_Some [OF inv [unfolded ranges_inv_def] r]
    show ?thesis
    proof (cases "off < b")
      case True
      with nx ge r have "\<not> c" and n: "n = min sz (b - off)"
        by (auto simp: ranges_next_def dropWhile_next_island)
      moreover have "b \<in> covered w" "\<forall>x. off \<le> x \<longrightarrow> x < b \<longrightarrow> x \<notin> covered w"
        using isl ge by (auto simp: covered_def)
      ultimately show ?thesis
        using clipped_run [OF True sz n, of "\<lambda>x. x \<in> covered w" c] by blast
    next
      case False
      with nx ge r have "c" and n: "n = min sz (e - off)"
        by (auto simp: ranges_next_def dropWhile_next_island)
      moreover have "x \<in> island_set (ranges w)" if "off \<le> x" "x < e" for x
        using isl that False by (intro subsetD [of "{b..<e}" "island_set (ranges w)"]) auto
      then have "e \<notin> covered w" "\<forall>x. off \<le> x \<longrightarrow> x < e \<longrightarrow> x \<in> covered w" "off < e"
        using isl ge by (auto simp: covered_def)
      ultimately show ?thesis
        using clipped_run [OF _ sz n, of "\<lambda>x. x \<in> covered w" c] by blast
    qed
  qed
qed

fun islands_len :: "byte_range list \<Rightarrow> nat" where
  "islands_len [] = 0"
| "islands_len ((b, e) # rs) = unat e - unat b + islands_len rs"

lemma islands_len_bound: "islands_from p rs \<Longrightarrow> unat p + islands_len rs < 2 ^ 64"
proof (induction p rs rule: islands_from.induct)
  case (1 p)
  show ?case using unsigned_less [of p] by simp
next
  case (2 p b e rs)
  then show ?case by (auto simp: word_less_nat_alt)
qed

lemma card_island_set: "islands_from p rs \<Longrightarrow> card (island_set rs) = islands_len rs"
proof (induction p rs rule: islands_from.induct)
  case (2 p b e rs)
  then have "{b..<e} \<inter> island_set rs = {}"
    using islands_from_gt [of e rs] by fastforce
  with 2 show ?case
    by (simp add: card_Un_disjoint card_word_range)
qed auto

lemma unat_fold_bytes:
  "islands_from p rs \<Longrightarrow> unat acc + islands_len rs < 2 ^ 64 \<Longrightarrow>
     unat (fold (\<lambda>r acc. acc + (snd r - fst r)) rs acc) = unat acc + islands_len rs"
proof (induction p rs arbitrary: acc rule: islands_from.induct)
  case (2 p b e rs)
  then have d: "unat (e - b) = unat e - unat b"
    by (auto intro: unat_sub)
  with "2.prems" have "unat (acc + (e - b)) = unat acc + (unat e - unat b)"
    by (auto simp: unat_word_ariths)
  with 2 show ?case by auto
qed auto

lemma card_covered: "ranges_inv w \<Longrightarrow> card (covered w) = unat (prefix w) + islands_len (ranges w)"
proof -
  assume inv: "ranges_inv w"
  then have "{..<prefix w} \<inter> island_set (ranges w) = {}"
    using islands_from_gt by (fastforce simp: ranges_inv_def)
  moreover have "card {..<prefix w} = unat (prefix w)"
    using card_word_range [of 0 "prefix w"] by (simp add: atLeastLessThan_def atLeast_def)
  ultimately show ?thesis
    using inv card_island_set [of "prefix w" "ranges w"]
    by (simp add: covered_def card_Un_disjoint ranges_inv_def)
qed

section \<open>The interface of a completion log\<close>

text \<open>
  What the extraction callbacks rely on: a log of intervals whose meaning is a set of offsets and
  whose representation is determined by that set. Everything about sequences of completions follows
  from these laws.
\<close>

locale completion_log =
  fixes empty :: 'l
    and add :: "'l \<Rightarrow> u64 \<Rightarrow> u64 \<Rightarrow> 'l"
    and denote :: "'l \<Rightarrow> u64 set"
    and invar :: "'l \<Rightarrow> bool"
  assumes invar_empty: "invar empty"
    and denote_empty: "denote empty = {}"
    and invar_add: "invar l \<Longrightarrow> b \<le> e \<Longrightarrow> invar (add l b e)"
    and denote_add: "invar l \<Longrightarrow> b \<le> e \<Longrightarrow> denote (add l b e) = denote l \<union> {b..<e}"
    and canonical: "invar l \<Longrightarrow> invar l' \<Longrightarrow> denote l = denote l' \<Longrightarrow> l = l'"
begin

lemma add_all:
  "invar l \<Longrightarrow> \<forall>(b, e) \<in> set rs. b \<le> e \<Longrightarrow>
     invar (fold (\<lambda>(b, e) l. add l b e) rs l) \<and>
     denote (fold (\<lambda>(b, e) l. add l b e) rs l) = denote l \<union> island_set rs"
proof (induction rs arbitrary: l)
  case (Cons r rs)
  then show ?case
    by (cases r) (simp add: invar_add denote_add Un_assoc)
qed simp

lemma order_irrelevant:
  assumes "invar l" "\<forall>(b, e) \<in> set rs. b \<le> e" "\<forall>(b, e) \<in> set rs'. b \<le> e"
    and "island_set rs = island_set rs'"
  shows "fold (\<lambda>(b, e) l. add l b e) rs l = fold (\<lambda>(b, e) l. add l b e) rs' l"
  using add_all [OF assms(1,2)] add_all [OF assms(1,3)] assms(4) by (intro canonical) auto

lemma add_idem: "invar l \<Longrightarrow> b \<le> e \<Longrightarrow> {b..<e} \<subseteq> denote l \<Longrightarrow> add l b e = l"
  by (intro canonical) (auto simp: invar_add denote_add)

end

interpretation wr: completion_log empty_ranges ranges_add covered ranges_inv
  by unfold_locales (simp_all add: ranges_canonical)

section \<open>Properties\<close>

text \<open>
  C6. Refinement of the completion log to a set of offsets: after any list of well-formed
  completions the structure is well formed and covers exactly the bytes that were covered before
  together with the bytes of the completions.
\<close>

theorem written_ranges_refine_set:
  assumes "ranges_inv w" and "\<forall>(b, e) \<in> set rs. b \<le> e"
  shows "ranges_inv (ranges_add_all w rs) \<and>
    covered (ranges_add_all w rs) = covered w \<union> (\<Union>(b, e) \<in> set rs. {b..<e})"
  using wr.add_all [OF assms] by (simp add: ranges_add_all_def island_set_def)

theorem written_ranges_refine_set_witness:
  "ranges_inv (ranges_add_all empty_ranges [(8, 12), (0, 4), (4, 8)]) \<and>
   covered (ranges_add_all empty_ranges [(8, 12), (0, 4), (4, 8)]) = {8..<12} \<union> {0..<4} \<union> {4..<8}"
  using written_ranges_refine_set [of empty_ranges "[(8, 12), (0, 4), (4, 8)]"]
  by (simp add: Un_assoc)

text \<open>
  Order independence: two lists of well-formed completions that cover the same bytes leave the
  structure in the same state, whatever their order, splits and repetitions.
\<close>

theorem written_ranges_order_irrelevant:
  assumes "ranges_inv w" and "\<forall>(b, e) \<in> set rs. b \<le> e" and "\<forall>(b, e) \<in> set rs'. b \<le> e"
    and "(\<Union>(b, e) \<in> set rs. {b..<e}) = (\<Union>(b, e) \<in> set rs'. {b..<e})"
  shows "ranges_add_all w rs = ranges_add_all w rs'"
  using wr.order_irrelevant [OF assms(1-3)] assms(4)
  by (simp add: ranges_add_all_def island_set_def)

theorem written_ranges_order_irrelevant_witness:
  "ranges_add_all empty_ranges [(4, 8), (0, 4)] = ranges_add_all empty_ranges [(0, 4), (4, 8)]"
  using written_ranges_order_irrelevant [of empty_ranges "[(4, 8), (0, 4)]" "[(0, 4), (4, 8)]"]
  by (simp add: Un_commute)

text \<open>
  C18. The run reported by \<open>ranges_next\<close> is non-empty, within the request, homogeneous (all of its
  bytes are written, or none of them is) and, unless it fills the request, maximal.
\<close>

theorem ranges_next_maximal_run:
  assumes "ranges_inv w" and "0 < sz" and "ranges_next w off sz = (c, n)"
  shows "0 < n \<and> n \<le> sz \<and>
    (\<forall>x. off \<le> x \<longrightarrow> unat x < unat off + unat n \<longrightarrow> (x \<in> covered w) = c) \<and>
    (n < sz \<longrightarrow> (off + n \<in> covered w) \<noteq> c)"
  using assms by (rule ranges_next_correct)

theorem ranges_next_maximal_run_witness:
  "let w = \<lparr>ranges = [(8, 12)], prefix = 4\<rparr> in
   ranges_inv w \<and> ranges_next w 4 100 = (False, 4) \<and> (0::u64) < 4 \<and> (4::u64) + 4 \<in> covered w"
proof -
  have inv: "ranges_inv \<lparr>ranges = [(8, 12)], prefix = 4\<rparr>"
    by (simp add: ranges_inv_def)
  have nx: "ranges_next \<lparr>ranges = [(8, 12)], prefix = 4\<rparr> 4 100 = (False, 4)"
    by (simp add: ranges_next_def)
  show ?thesis
    using ranges_next_maximal_run [OF inv _ nx] inv nx by simp
qed

text \<open>
  The byte count never wraps: the 64-bit sum of \<open>ranges_bytes\<close> is the number of written
  offsets.
\<close>

theorem ranges_bytes_exact:
  assumes "ranges_inv w"
  shows "unat (ranges_bytes w) = card (covered w)"
  using assms unat_fold_bytes [of "prefix w" "ranges w" "prefix w"]
    islands_len_bound [of "prefix w" "ranges w"]
  by (simp add: ranges_bytes_def card_covered ranges_inv_def)

theorem ranges_bytes_exact_witness:
  "card (covered \<lparr>ranges = [(8, 12)], prefix = 4\<rparr>) = 8"
  using ranges_bytes_exact [of "\<lparr>ranges = [(8, 12)], prefix = 4\<rparr>"]
  by (simp add: ranges_inv_def ranges_bytes_def)

end
