(* ===== verification/Space_Gate.thy ===== *)
theory Space_Gate
  imports Prelude
begin

text \<open>
  The volume space gate (\<^verbatim>\<open>native/sevenzip_bridge/src/internal/sevenzip_space_gate.hpp\<close>) and the
  classification of space errors (\<^verbatim>\<open>sevenzip_space_error.hpp\<close>).

  The gate's members are the record \<open>gate\<close>. Each region the code runs under the gate mutex is a
  definition of its own (suffix \<open>_locked\<close> or \<open>_commit\<close>) and a public operation composes the regions
  with the calls the code makes outside the lock. What an operation does to the outside world is a
  list of \<open>gate_effect\<close>s in program order: \<^verbatim>\<open>cv_.notify_all()\<close>, the \<^verbatim>\<open>wake()\<close> of a subscriber, a call of
  the change sink. The Win32 calls, the clock and the liveness of weak subscribers are the fields of
  an \<open>os\<close> record passed to the operations. Weak pointers to subscribers are numbers.
\<close>

section \<open>Space errors\<close>

text \<open>
  \<^verbatim>\<open>ERROR_DISK_FULL\<close> 112, \<^verbatim>\<open>ERROR_HANDLE_DISK_FULL\<close> 39, \<^verbatim>\<open>ERROR_DISK_RESOURCES_EXHAUSTED\<close> 314,
  \<^verbatim>\<open>ERROR_DISK_QUOTA_EXCEEDED\<close> 1295.
\<close>

definition is_space_exhaustion_error :: "u32 \<Rightarrow> bool" where
  "is_space_exhaustion_error e \<longleftrightarrow> e = 112 \<or> e = 39 \<or> e = 314 \<or> e = 1295"

datatype error_category = System_category | Generic_category

record error_code =
  ec_category :: error_category
  ec_value :: u32

definition no_error :: error_code where
  "no_error = \<lparr>ec_category = System_category, ec_value = 0\<rparr>"

text \<open>
  The comparison with \<^verbatim>\<open>std::errc::no_space_on_device\<close> of a code outside the system category holds for
  the generic category's \<^verbatim>\<open>ENOSPC\<close> (28).
\<close>

definition is_space_exhaustion_code :: "error_code \<Rightarrow> bool" where
  "is_space_exhaustion_code ec =
     (if ec_value ec = 0 then False
      else if ec_category ec = System_category then is_space_exhaustion_error (ec_value ec)
      else ec_category ec = Generic_category \<and> ec_value ec = 28)"

unbundle bit_operations_syntax

text \<open>\<^verbatim>\<open>HRESULT_FACILITY\<close> is bits 16 to 28, \<^verbatim>\<open>HRESULT_CODE\<close> the low 16 bits, \<^verbatim>\<open>FACILITY_WIN32\<close> 7.\<close>

definition is_space_exhaustion_hresult :: "u32 \<Rightarrow> bool" where
  "is_space_exhaustion_hresult hr \<longleftrightarrow>
     drop_bit 16 hr AND 0x1FFF = 7 \<and> is_space_exhaustion_error (hr AND 0xFFFF)"

section \<open>Volume identities and query roots\<close>

definition ascii_lower :: "u16 \<Rightarrow> u16" where
  "ascii_lower c = (if 65 \<le> c \<and> c \<le> 90 then c - 65 + 97 else c)"

text \<open>\<^verbatim>\<open>kPrefix\<close>: two backslashes, a question mark, a backslash and \<^verbatim>\<open>Volume{\<close>.\<close>

definition volume_guid_prefix :: wstring where
  "volume_guid_prefix = [92, 92, 63, 92] @ wide ''Volume{''"

fun prefix_matches_ci :: "wstring \<Rightarrow> wstring \<Rightarrow> bool" where
  "prefix_matches_ci [] key = True"
| "prefix_matches_ci (p # ps) [] = False"
| "prefix_matches_ci (p # ps) (k # ks) =
     (if ascii_lower k \<noteq> ascii_lower p then False else prefix_matches_ci ps ks)"

definition is_volume_guid_key :: "wstring \<Rightarrow> bool" where
  "is_volume_guid_key key =
     (if length key < length volume_guid_prefix then False
      else prefix_matches_ci volume_guid_prefix key)"

definition space_query_path :: "wstring \<Rightarrow> wstring" where
  "space_query_path key =
     (if \<not> is_volume_guid_key key then []
      else if key \<noteq> [] \<and> last key = 92 then key
      else key @ [92])"

text \<open>
  The outside world of one operation: the clock, \<^verbatim>\<open>GetVolumePathNameW\<close> (the contents of the buffer, or
  \<open>None\<close> when it fails), \<^verbatim>\<open>GetDiskFreeSpaceExW\<close> (the error code, or the bytes available to the caller and
  the volume size) and which weak subscribers can still be locked.
\<close>

record os =
  os_now :: time
  os_volume_path :: "wstring \<Rightarrow> wstring option"
  os_disk_free :: "wstring \<Rightarrow> u32 + u64 \<times> u64"
  os_alive :: "nat \<Rightarrow> bool"

definition resolve_query_root_from_path :: "os \<Rightarrow> wstring \<Rightarrow> wstring option" where
  "resolve_query_root_from_path os failed_path =
     (if failed_path = [] then None
      else case os_volume_path os failed_path of
             None \<Rightarrow> None
           | Some buffer \<Rightarrow>
               let resolved = takeWhile (\<lambda>c. c \<noteq> 0) buffer
               in if resolved = [] then None
                  else if last resolved \<noteq> 92 then Some (resolved @ [92])
                  else Some resolved)"

text \<open>The error is what \<^verbatim>\<open>GetLastError()\<close> returns after the failed query.\<close>

definition query_volume_free_bytes :: "os \<Rightarrow> wstring \<Rightarrow> u32 + u64 \<times> u64" where
  "query_volume_free_bytes os path =
     (if path = [] then Inl 0
      else case os_disk_free os path of
             Inl e \<Rightarrow> Inl e
           | Inr (available, total_bytes) \<Rightarrow> Inr (available, total_bytes))"

definition widen_ascii :: "string \<Rightarrow> wstring" where
  "widen_ascii text = map of_char text"

section \<open>The gate\<close>

datatype space_phase = Ready | Blocked | Probing

datatype transition_kind = Kind_Blocked | Kind_Status | Kind_Resumed

record space_transition =
  tr_kind :: transition_kind
  tr_volume_key :: string
  tr_episode_id :: u64
  tr_win32_error :: u32
  tr_free_bytes :: u64
  tr_pending_bytes :: u64
  tr_blocked_seconds :: rat
  tr_query_ok :: bool
  tr_query_error :: u32
  tr_discontinuity :: bool
  tr_job_ids :: "string list"

datatype gate_effect = Notify_all | Wake_target nat | Sink_call space_transition

record gate =
  wake_targets :: "nat list"
  phase :: space_phase
  episode_id :: u64
  blocked_event_emitted :: bool
  probe_owner_token :: u64
  next_token :: u64
  last_win32_error :: u32
  blocked_since :: time
  last_status_at :: time
  last_free_bytes :: u64
  last_query_ok :: bool
  last_query_error :: u32
  volume_key :: string
  query_root :: wstring
  query_root_resolved :: bool
  waiters :: "u64 list"
  affected_jobs :: "string list"
  wait_tick :: int
  has_sink :: bool
  next_waiter_token :: u64

definition new_gate :: "string \<Rightarrow> string \<Rightarrow> bool \<Rightarrow> int \<Rightarrow> gate" where
  "new_gate key hint sink tick =
     (let hinted = widen_ascii hint; derived = space_query_path (widen_ascii key);
          root = (if hinted \<noteq> [] then hinted else derived)
      in \<lparr>wake_targets = [], phase = Ready, episode_id = 0, blocked_event_emitted = False,
          probe_owner_token = 0, next_token = 1, last_win32_error = 0, blocked_since = time_zero,
          last_status_at = time_zero, last_free_bytes = 0, last_query_ok = True,
          last_query_error = 0, volume_key = key, query_root = root,
          query_root_resolved = (root \<noteq> []), waiters = [], affected_jobs = [],
          wait_tick = (if tick > 0 then tick else 1000), has_sink = sink, next_waiter_token = 1\<rparr>)"

subsection \<open>Notifications\<close>

definition make_transition_locked ::
    "os \<Rightarrow> transition_kind \<Rightarrow> bool \<Rightarrow> gate \<Rightarrow> space_transition" where
  "make_transition_locked os kind discontinuity g =
     \<lparr>tr_kind = kind, tr_volume_key = volume_key g, tr_episode_id = episode_id g,
      tr_win32_error = last_win32_error g, tr_free_bytes = last_free_bytes g, tr_pending_bytes = 0,
      tr_blocked_seconds =
        (if blocked_since g \<noteq> time_zero
         then of_int (os_now os - blocked_since g) / 1000000000 else 0),
      tr_query_ok = last_query_ok g, tr_query_error = last_query_error g,
      tr_discontinuity = discontinuity, tr_job_ids = affected_jobs g\<rparr>"

definition emit_transitions :: "gate \<Rightarrow> space_transition list \<Rightarrow> gate_effect list" where
  "emit_transitions g ts = (if \<not> has_sink g then [] else map Sink_call ts)"

definition wake_waiters :: "os \<Rightarrow> gate \<Rightarrow> gate \<times> gate_effect list" where
  "wake_waiters os g =
     (let live = filter (os_alive os) (wake_targets g)
      in (g\<lparr>wake_targets := live\<rparr>, Notify_all # map Wake_target live))"

definition subscribe :: "os \<Rightarrow> nat \<Rightarrow> gate \<Rightarrow> gate" where
  "subscribe os target g =
     g\<lparr>wake_targets := filter (os_alive os) (wake_targets g) @ [target]\<rparr>"

subsection \<open>Jobs\<close>

definition register_job_locked ::
    "os \<Rightarrow> string \<Rightarrow> gate \<Rightarrow> bool \<times> gate \<times> space_transition list" where
  "register_job_locked os job g =
     (if job \<in> set (affected_jobs g) then (False, g, [])
      else
        let g' = g\<lparr>affected_jobs := affected_jobs g @ [job]\<rparr>
        in if phase g' \<noteq> Ready \<and> blocked_event_emitted g'
           then (True, g',
                 [(make_transition_locked os Kind_Blocked False g')\<lparr>tr_job_ids := [job]\<rparr>])
           else (True, g', []))"

definition register_job :: "os \<Rightarrow> string \<Rightarrow> gate \<Rightarrow> bool \<times> gate \<times> gate_effect list" where
  "register_job os job g =
     (if job = [] then (False, g, [])
      else case register_job_locked os job g of
             (r, g', ts) \<Rightarrow> (r, g', emit_transitions g' ts))"

definition unregister_job_locked :: "string \<Rightarrow> gate \<Rightarrow> gate" where
  "unregister_job_locked job g =
     (let jobs = filter (\<lambda>j. j \<noteq> job) (affected_jobs g); g' = g\<lparr>affected_jobs := jobs\<rparr>
      in if jobs = [] then g'\<lparr>last_status_at := time_zero\<rparr> else g')"

definition unregister_job :: "string \<Rightarrow> gate \<Rightarrow> gate" where
  "unregister_job job g = (if job = [] then g else unregister_job_locked job g)"

subsection \<open>Failures and queries\<close>

text \<open>
  Resolution of the query root: a locked check, the Win32 call outside the lock, and a locked commit
  that keeps the result of whoever came first.
\<close>

definition query_root_commit :: "wstring \<Rightarrow> gate \<Rightarrow> gate" where
  "query_root_commit resolved g =
     (if \<not> query_root_resolved g
      then g\<lparr>query_root := resolved, query_root_resolved := True\<rparr> else g)"

definition resolve_query_root_outside_lock :: "os \<Rightarrow> wstring \<Rightarrow> gate \<Rightarrow> gate" where
  "resolve_query_root_outside_lock os failed_path g =
     (if query_root_resolved g then g
      else if failed_path = [] then g
      else case resolve_query_root_from_path os failed_path of
             None \<Rightarrow> g
           | Some resolved \<Rightarrow> query_root_commit resolved g)"

definition report_failure_locked ::
    "os \<Rightarrow> u32 \<Rightarrow> gate \<Rightarrow> bool \<times> gate \<times> space_transition list" where
  "report_failure_locked os win32_error g0 =
     (let g = g0\<lparr>last_win32_error := win32_error\<rparr>
      in if phase g = Ready then
           let g1 = g\<lparr>episode_id := episode_id g + 1, phase := Blocked, probe_owner_token := 0,
                      blocked_event_emitted := False, blocked_since := os_now os,
                      last_status_at := time_zero\<rparr>
           in if phase g1 \<noteq> Ready
              then (True, g1\<lparr>blocked_event_emitted := True\<rparr>,
                    [make_transition_locked os Kind_Blocked True g1])
              else (True, g1\<lparr>blocked_event_emitted := False\<rparr>, [])
         else (False, g, []))"

definition report_space_failure ::
    "os \<Rightarrow> u32 \<Rightarrow> wstring \<Rightarrow> gate \<Rightarrow> bool \<times> gate \<times> gate_effect list" where
  "report_space_failure os win32_error failed_path g =
     (case report_failure_locked os win32_error
             (resolve_query_root_outside_lock os failed_path g) of
        (opened, g1, ts) \<Rightarrow>
          (case wake_waiters os g1 of
             (g2, woken) \<Rightarrow> (opened, g2, woken @ emit_transitions g2 ts)))"

definition record_query_failure_locked :: "u32 \<Rightarrow> gate \<Rightarrow> bool \<times> gate" where
  "record_query_failure_locked win32_error g0 =
     (let g = g0\<lparr>last_query_ok := False, last_query_error := win32_error\<rparr>
      in if phase g \<noteq> Probing then (False, g)
         else (True, g\<lparr>phase := Blocked, probe_owner_token := 0\<rparr>))"

definition query_success_locked :: "u64 \<Rightarrow> gate \<Rightarrow> gate" where
  "query_success_locked free g =
     g\<lparr>last_query_ok := True, last_query_error := 0, last_free_bytes := free\<rparr>"

definition wake_if :: "os \<Rightarrow> bool \<Rightarrow> gate \<Rightarrow> gate \<times> gate_effect list" where
  "wake_if os invalidated g = (if invalidated then wake_waiters os g else (g, []))"

text \<open>\<^verbatim>\<open>ERROR_PATH_NOT_FOUND\<close> is 3.\<close>

definition query_free_bytes ::
    "os \<Rightarrow> gate \<Rightarrow> (u64 \<times> u64) option \<times> gate \<times> gate_effect list" where
  "query_free_bytes os g =
     (if query_root g = [] then
        (case record_query_failure_locked 3 g of
           (invalidated, g1) \<Rightarrow> (case wake_if os invalidated g1 of (g2, woken) \<Rightarrow> (None, g2, woken)))
      else
        (case query_volume_free_bytes os (query_root g) of
           Inr (free, total_bytes) \<Rightarrow> (Some (free, total_bytes), query_success_locked free g, [])
         | Inl error \<Rightarrow>
             (case record_query_failure_locked error g of
                (invalidated, g1) \<Rightarrow>
                  (case wake_if os invalidated g1 of (g2, woken) \<Rightarrow> (None, g2, woken)))))"

definition note_query_failure :: "os \<Rightarrow> u32 \<Rightarrow> gate \<Rightarrow> gate \<times> gate_effect list" where
  "note_query_failure os win32_error g =
     (case record_query_failure_locked win32_error g of (invalidated, g1) \<Rightarrow> wake_if os invalidated g1)"

definition poll_locked :: "u64 \<Rightarrow> gate \<Rightarrow> bool \<times> gate" where
  "poll_locked free_bytes_now g0 =
     (let g = g0\<lparr>last_free_bytes := free_bytes_now\<rparr>
      in if phase g \<noteq> Blocked \<or> free_bytes_now = 0 then (False, g)
         else (True, g\<lparr>phase := Probing, probe_owner_token := 0\<rparr>))"

definition poll :: "os \<Rightarrow> u64 \<Rightarrow> gate \<Rightarrow> bool \<times> gate \<times> gate_effect list" where
  "poll os free_bytes_now g =
     (case poll_locked free_bytes_now g of
        (False, g1) \<Rightarrow> (False, g1, [])
      | (True, g1) \<Rightarrow> (case wake_waiters os g1 of (g2, woken) \<Rightarrow> (True, g2, woken)))"

definition take_status_report :: "time \<Rightarrow> int \<Rightarrow> gate \<Rightarrow> bool \<times> gate" where
  "take_status_report now interval g =
     (if phase g = Ready \<or>
         (last_status_at g \<noteq> time_zero \<and> now - last_status_at g < ms_ticks interval)
      then (False, g)
      else (True, g\<lparr>last_status_at := now\<rparr>))"

subsection \<open>Waiting\<close>

datatype wait_result = Wait_Ready | Wait_Probe u64 | Wait_Pending | Wait_Terminal

definition decide_locked :: "bool \<Rightarrow> bool \<Rightarrow> gate \<Rightarrow> wait_result \<times> gate" where
  "decide_locked self terminal g =
     (if \<not> self \<or> terminal then (Wait_Terminal, g)
      else if phase g = Ready then (Wait_Ready, g)
      else if phase g = Probing \<and> probe_owner_token g = 0 then
        (Wait_Probe (next_token g),
         g\<lparr>next_token := next_token g + 1, probe_owner_token := next_token g\<rparr>)
      else (Wait_Pending, g))"

definition try_wait :: "bool \<Rightarrow> bool \<Rightarrow> gate \<Rightarrow> wait_result \<times> gate" where
  "try_wait self terminal g =
     decide_locked self terminal (g\<lparr>next_waiter_token := next_waiter_token g + 1\<rparr>)"

fun remove_first :: "'a \<Rightarrow> 'a list \<Rightarrow> 'a list" where
  "remove_first x [] = []"
| "remove_first x (y # ys) = (if y = x then ys else y # remove_first x ys)"

definition remove_waiter_locked :: "u64 \<Rightarrow> gate \<Rightarrow> gate" where
  "remove_waiter_locked token g = g\<lparr>waiters := remove_first token (waiters g)\<rparr>"

text \<open>
  The blocking loop. Each element of the list is one passage through the loop: what other threads did
  to the gate while the lock was released (before the first passage, or during \<^verbatim>\<open>cv_.wait_for\<close>), and
  what the terminal predicate then returns. The result is \<open>None\<close> while the thread is still asleep.
\<close>

fun wait_loop ::
    "u64 \<Rightarrow> bool \<Rightarrow> ((gate \<Rightarrow> gate) \<times> bool) list \<Rightarrow> gate \<Rightarrow> (wait_result \<times> gate) option" where
  "wait_loop token registered [] g = None"
| "wait_loop token registered ((others, terminal) # ticks) g =
     (case decide_locked True terminal (others g) of
        (Wait_Pending, g1) \<Rightarrow>
          wait_loop token True ticks
            (if \<not> registered then g1\<lparr>waiters := waiters g1 @ [token]\<rparr> else g1)
      | (decision, g1) \<Rightarrow>
          Some (decision, if registered then remove_waiter_locked token g1 else g1))"

definition wait :: "bool \<Rightarrow> ((gate \<Rightarrow> gate) \<times> bool) list \<Rightarrow> gate \<Rightarrow> (wait_result \<times> gate) option" where
  "wait self ticks g =
     (if \<not> self then Some (Wait_Terminal, g)
      else wait_loop (next_waiter_token g) False ticks
             (g\<lparr>next_waiter_token := next_waiter_token g + 1\<rparr>))"

subsection \<open>Settling a probe\<close>

definition owns_probe_locked :: "u64 \<Rightarrow> gate \<Rightarrow> bool" where
  "owns_probe_locked token g \<longleftrightarrow> phase g = Probing \<and> token \<noteq> 0 \<and> probe_owner_token g = token"

definition settle_success_locked ::
    "os \<Rightarrow> u64 \<Rightarrow> gate \<Rightarrow> bool \<times> gate \<times> space_transition list" where
  "settle_success_locked os token g =
     (if \<not> owns_probe_locked token g then (False, g, [])
      else
        let g' = g\<lparr>phase := Ready, probe_owner_token := 0, last_win32_error := 0,
                   blocked_event_emitted := False, blocked_since := time_zero\<rparr>
        in (True, g', [make_transition_locked os Kind_Resumed True g']))"

definition settle_success :: "os \<Rightarrow> u64 \<Rightarrow> gate \<Rightarrow> gate \<times> gate_effect list" where
  "settle_success os token g =
     (case settle_success_locked os token g of
        (False, g1, ts) \<Rightarrow> (g1, [])
      | (True, g1, ts) \<Rightarrow>
          (case wake_waiters os g1 of (g2, woken) \<Rightarrow> (g2, woken @ emit_transitions g2 ts)))"

definition settle_failure_locked :: "u64 \<Rightarrow> u32 \<Rightarrow> gate \<Rightarrow> bool \<times> gate" where
  "settle_failure_locked token win32_error g =
     (if \<not> owns_probe_locked token g then (False, g)
      else (True, g\<lparr>phase := Blocked, probe_owner_token := 0, last_win32_error := win32_error\<rparr>))"

definition settle_space_failure ::
    "os \<Rightarrow> u64 \<Rightarrow> u32 \<Rightarrow> wstring \<Rightarrow> gate \<Rightarrow> gate \<times> gate_effect list" where
  "settle_space_failure os token win32_error failed_path g =
     (case settle_failure_locked token win32_error
             (resolve_query_root_outside_lock os failed_path g) of
        (False, g1) \<Rightarrow> (g1, [])
      | (True, g1) \<Rightarrow> wake_waiters os g1)"

definition settle_inconclusive_locked :: "u64 \<Rightarrow> gate \<Rightarrow> bool \<times> gate" where
  "settle_inconclusive_locked token g =
     (if \<not> owns_probe_locked token g then (False, g)
      else (True, g\<lparr>probe_owner_token := 0\<rparr>))"

definition settle_inconclusive :: "os \<Rightarrow> u64 \<Rightarrow> gate \<Rightarrow> gate \<times> gate_effect list" where
  "settle_inconclusive os token g =
     (case settle_inconclusive_locked token g of
        (False, g1) \<Rightarrow> (g1, [])
      | (True, g1) \<Rightarrow> wake_waiters os g1)"

text \<open>Observers.\<close>

definition gate_blocked :: "gate \<Rightarrow> bool" where
  "gate_blocked g \<longleftrightarrow> phase g \<noteq> Ready"

definition has_affected_jobs :: "gate \<Rightarrow> bool" where
  "has_affected_jobs g \<longleftrightarrow> affected_jobs g \<noteq> []"

definition waiter_count :: "gate \<Rightarrow> nat" where
  "waiter_count g = length (waiters g)"

definition wait_call_count :: "gate \<Rightarrow> u64" where
  "wait_call_count g = next_waiter_token g - 1"

section \<open>Probe leases\<close>

text \<open>
  A lease holds its gate (\<open>lease_attached\<close>: the shared pointer is not null), a token, and whether it was
  settled. The operations take the gate the lease points to.
\<close>

record probe_lease =
  lease_attached :: bool
  lease_token :: u64
  lease_settled :: bool

definition empty_lease :: probe_lease where
  "empty_lease = \<lparr>lease_attached = False, lease_token = 0, lease_settled = True\<rparr>"

definition new_lease :: "u64 \<Rightarrow> probe_lease" where
  "new_lease token = \<lparr>lease_attached = True, lease_token = token, lease_settled = False\<rparr>"

definition lease_valid :: "probe_lease \<Rightarrow> bool" where
  "lease_valid l \<longleftrightarrow> lease_attached l \<and> \<not> lease_settled l"

definition settle_unfinished ::
    "os \<Rightarrow> probe_lease \<Rightarrow> gate \<Rightarrow> probe_lease \<times> gate \<times> gate_effect list" where
  "settle_unfinished os l g =
     (if lease_attached l \<and> \<not> lease_settled l then
        (case settle_inconclusive os (lease_token l) g of
           (g', es) \<Rightarrow> (l\<lparr>lease_settled := True, lease_attached := False\<rparr>, g', es))
      else (l\<lparr>lease_attached := False\<rparr>, g, []))"

definition lease_report_success ::
    "os \<Rightarrow> probe_lease \<Rightarrow> gate \<Rightarrow> probe_lease \<times> gate \<times> gate_effect list" where
  "lease_report_success os l g =
     (if \<not> lease_attached l \<or> lease_settled l then (l, g, [])
      else case settle_success os (lease_token l) g of
             (g', es) \<Rightarrow> (l\<lparr>lease_settled := True, lease_attached := False\<rparr>, g', es))"

definition lease_report_space_failure ::
    "os \<Rightarrow> probe_lease \<Rightarrow> u32 \<Rightarrow> wstring \<Rightarrow> gate \<Rightarrow> probe_lease \<times> gate \<times> gate_effect list" where
  "lease_report_space_failure os l win32_error failed_path g =
     (if \<not> lease_attached l \<or> lease_settled l then (l, g, [])
      else case settle_space_failure os (lease_token l) win32_error failed_path g of
             (g', es) \<Rightarrow> (l\<lparr>lease_settled := True, lease_attached := False\<rparr>, g', es))"

definition lease_report_inconclusive ::
    "os \<Rightarrow> probe_lease \<Rightarrow> gate \<Rightarrow> probe_lease \<times> gate \<times> gate_effect list" where
  "lease_report_inconclusive os l g =
     (if \<not> lease_attached l \<or> lease_settled l then (l, g, [])
      else case settle_inconclusive os (lease_token l) g of
             (g', es) \<Rightarrow> (l\<lparr>lease_settled := True, lease_attached := False\<rparr>, g', es))"

text \<open>Move construction returns the new lease and what is left of the source.\<close>

definition lease_move :: "probe_lease \<Rightarrow> probe_lease \<times> probe_lease" where
  "lease_move other =
     (\<lparr>lease_attached = lease_attached other, lease_token = lease_token other,
       lease_settled = lease_settled other\<rparr>,
      \<lparr>lease_attached = False, lease_token = 0, lease_settled = True\<rparr>)"

definition lease_move_assign ::
    "os \<Rightarrow> probe_lease \<Rightarrow> probe_lease \<Rightarrow> gate \<Rightarrow>
     probe_lease \<times> probe_lease \<times> gate \<times> gate_effect list" where
  "lease_move_assign os self other g =
     (case settle_unfinished os self g of
        (_, g', es) \<Rightarrow> (case lease_move other of (self', other') \<Rightarrow> (self', other', g', es)))"

end
