(* ===== verification/Space_Gate_Safety.thy ===== *)
theory Space_Gate_Safety
  imports Space_Gate
begin

text \<open>
  The gate under concurrency. Every thread of the worker (directory creation, the write completion
  port, the space monitor, job registration) touches a gate only in critical sections, so the system is
  the relation \<open>space_step\<close> with one rule per critical section of \<^verbatim>\<open>sevenzip_space_gate.hpp\<close>, taken in any
  order by any thread. The state adds to the gate the probe leases handed out so far and the
  transitions generated for the sink, in the order in which they are generated under the lock.
\<close>

section \<open>The system\<close>

record space_sys =
  sg :: gate
  leases :: "probe_lease list"
  glog :: "space_transition list"

datatype space_label =
    L_failure u32
  | L_poll u64
  | L_query_failed u32
  | L_probe u64
  | L_success nat
  | L_failed nat
  | L_inconclusive nat
  | L_other

definition settled_lease :: "probe_lease \<Rightarrow> probe_lease" where
  "settled_lease l = l\<lparr>lease_settled := True, lease_attached := False\<rparr>"

inductive space_step :: "space_sys \<Rightarrow> space_label \<Rightarrow> space_sys \<Rightarrow> bool" where
  register: "job \<noteq> [] \<Longrightarrow> register_job_locked os job (sg s) = (r, g, ts) \<Longrightarrow>
    space_step s L_other (s\<lparr>sg := g, glog := glog s @ ts\<rparr>)"
| unregister: "job \<noteq> [] \<Longrightarrow>
    space_step s L_other (s\<lparr>sg := unregister_job_locked job (sg s)\<rparr>)"
| resolve: "path \<noteq> [] \<Longrightarrow>
    space_step s L_other (s\<lparr>sg := query_root_commit path (sg s)\<rparr>)"
| failure: "report_failure_locked os err (sg s) = (opened, g, ts) \<Longrightarrow>
    space_step s (L_failure err) (s\<lparr>sg := g, glog := glog s @ ts\<rparr>)"
| wait_token:
    "space_step s L_other (s\<lparr>sg := (sg s)\<lparr>next_waiter_token := next_waiter_token (sg s) + 1\<rparr>\<rparr>)"
| decide_probe: "decide_locked self terminal (sg s) = (Wait_Probe t, g) \<Longrightarrow>
    space_step s (L_probe t) (s\<lparr>sg := g, leases := leases s @ [new_lease t]\<rparr>)"
| decide_other: "decide_locked self terminal (sg s) = (d, g) \<Longrightarrow> (\<forall>t. d \<noteq> Wait_Probe t) \<Longrightarrow>
    space_step s L_other (s\<lparr>sg := g\<rparr>)"
| enqueue_waiter:
    "space_step s L_other (s\<lparr>sg := (sg s)\<lparr>waiters := waiters (sg s) @ [token]\<rparr>\<rparr>)"
| dequeue_waiter:
    "space_step s L_other (s\<lparr>sg := remove_waiter_locked token (sg s)\<rparr>)"
| query_failed: "record_query_failure_locked err (sg s) = (invalidated, g) \<Longrightarrow>
    space_step s (L_query_failed err) (s\<lparr>sg := g\<rparr>)"
| query_succeeded:
    "space_step s L_other (s\<lparr>sg := query_success_locked free (sg s)\<rparr>)"
| polled: "poll_locked free (sg s) = (granted, g) \<Longrightarrow>
    space_step s (L_poll free) (s\<lparr>sg := g\<rparr>)"
| status: "take_status_report now interval (sg s) = (due, g) \<Longrightarrow>
    space_step s L_other (s\<lparr>sg := g\<rparr>)"
| subscribed:
    "space_step s L_other (s\<lparr>sg := subscribe os target (sg s)\<rparr>)"
| woken: "wake_waiters os (sg s) = (g, es) \<Longrightarrow>
    space_step s L_other (s\<lparr>sg := g\<rparr>)"
| success: "i < length (leases s) \<Longrightarrow> lease_valid (leases s ! i) \<Longrightarrow>
    settle_success_locked os (lease_token (leases s ! i)) (sg s) = (owned, g, ts) \<Longrightarrow>
    space_step s (L_success i)
      (s\<lparr>sg := g, leases := (leases s)[i := settled_lease (leases s ! i)], glog := glog s @ ts\<rparr>)"
| failed: "i < length (leases s) \<Longrightarrow> lease_valid (leases s ! i) \<Longrightarrow>
    settle_failure_locked (lease_token (leases s ! i)) err (sg s) = (owned, g) \<Longrightarrow>
    space_step s (L_failed i)
      (s\<lparr>sg := g, leases := (leases s)[i := settled_lease (leases s ! i)]\<rparr>)"
| inconclusive: "i < length (leases s) \<Longrightarrow> lease_valid (leases s ! i) \<Longrightarrow>
    settle_inconclusive_locked (lease_token (leases s ! i)) (sg s) = (owned, g) \<Longrightarrow>
    space_step s (L_inconclusive i)
      (s\<lparr>sg := g, leases := (leases s)[i := settled_lease (leases s ! i)]\<rparr>)"

definition space_init :: "string \<Rightarrow> string \<Rightarrow> bool \<Rightarrow> int \<Rightarrow> space_sys" where
  "space_init key hint sink tick = \<lparr>sg = new_gate key hint sink tick, leases = [], glog = []\<rparr>"

inductive space_steps :: "space_sys \<Rightarrow> space_sys \<Rightarrow> bool" where
  refl: "space_steps s s"
| step: "space_steps s t \<Longrightarrow> space_step t l u \<Longrightarrow> space_steps s u"

text \<open>The states a gate can be in, whatever the interleaving.\<close>

inductive space_reach :: "space_sys \<Rightarrow> bool" where
  init: "space_reach (space_init key hint sink tick)"
| step: "space_reach s \<Longrightarrow> space_step s l t \<Longrightarrow> space_reach t"

lemma space_reach_steps: "space_steps s t \<Longrightarrow> space_reach s \<Longrightarrow> space_reach t"
  by (induction rule: space_steps.induct) (auto intro: space_reach.step)

declare register_job_locked_def [gate_defs] unregister_job_locked_def [gate_defs]
  query_root_commit_def [gate_defs] report_failure_locked_def [gate_defs]
  decide_locked_def [gate_defs] remove_waiter_locked_def [gate_defs]
  record_query_failure_locked_def [gate_defs] query_success_locked_def [gate_defs]
  poll_locked_def [gate_defs] take_status_report_def [gate_defs] subscribe_def [gate_defs]
  wake_waiters_def [gate_defs] owns_probe_locked_def [gate_defs]
  settle_success_locked_def [gate_defs] settle_failure_locked_def [gate_defs]
  settle_inconclusive_locked_def [gate_defs] make_transition_locked_def [gate_defs]
  settled_lease_def [gate_defs] new_lease_def [gate_defs]

section \<open>What one critical section can do\<close>

text \<open>The edges of the phase automaton, with the label that causes each of them.\<close>

definition phase_edge :: "space_phase \<Rightarrow> space_label \<Rightarrow> space_phase \<Rightarrow> bool" where
  "phase_edge p l q \<longleftrightarrow>
     (case l of
        L_failure e \<Rightarrow> if p = Ready then q = Blocked else q = p
      | L_poll free \<Rightarrow> if p = Blocked \<and> free \<noteq> 0 then q = Probing else q = p
      | L_query_failed e \<Rightarrow> if p = Probing then q = Blocked else q = p
      | L_success i \<Rightarrow> q = p \<or> p = Probing \<and> q = Ready
      | L_failed i \<Rightarrow> q = p \<or> p = Probing \<and> q = Blocked
      | _ \<Rightarrow> q = p)"

lemma phase_edge_step: "space_step s l t \<Longrightarrow> phase_edge (phase (sg s)) l (phase (sg t))"
  by (induction rule: space_step.induct)
    (auto simp: gate_defs phase_edge_def Let_def split: if_splits)

section \<open>The gate invariant\<close>

definition gate_inv :: "gate \<Rightarrow> bool" where
  "gate_inv g \<longleftrightarrow>
     (probe_owner_token g \<noteq> 0 \<longrightarrow> phase g = Probing) \<and>
     (blocked_event_emitted g \<longleftrightarrow> phase g \<noteq> Ready) \<and>
     distinct (affected_jobs g) \<and> [] \<notin> set (affected_jobs g) \<and>
     (query_root_resolved g \<longleftrightarrow> query_root g \<noteq> [])"

lemma new_gate_inv: "gate_inv (new_gate key hint sink tick)"
  by (simp add: gate_inv_def new_gate_def Let_def)

lemma gate_inv_step: "space_step s l t \<Longrightarrow> gate_inv (sg s) \<Longrightarrow> gate_inv (sg t)"
  by (induction rule: space_step.induct) (auto simp: gate_defs gate_inv_def Let_def split: if_splits)

text \<open>
  Leases and tokens: the i-th lease carries the token \<open>i + 1\<close>, the next token is fresh, and a token
  that owns the probe belongs to a lease that has not been settled.
\<close>

definition lease_inv :: "space_sys \<Rightarrow> bool" where
  "lease_inv s \<longleftrightarrow>
     next_token (sg s) = of_nat (length (leases s) + 1) \<and>
     (\<forall>i < length (leases s). lease_token (leases s ! i) = of_nat (i + 1)) \<and>
     (probe_owner_token (sg s) \<noteq> 0 \<longrightarrow>
        (\<exists>i < length (leases s). lease_token (leases s ! i) = probe_owner_token (sg s) \<and>
           lease_valid (leases s ! i)))"

lemma lease_invI:
  assumes "next_token (sg s) = of_nat (length (leases s) + 1)"
    and "\<forall>i < length (leases s). lease_token (leases s ! i) = of_nat (i + 1)"
    and "j < length (leases s)" "lease_token (leases s ! j) = probe_owner_token (sg s)"
    and "lease_valid (leases s ! j)"
  shows "lease_inv s"
  using assms unfolding lease_inv_def by blast

lemma lease_inv_frame:
  assumes "lease_inv s" "leases t = leases s" "next_token (sg t) = next_token (sg s)"
    and "probe_owner_token (sg t) = probe_owner_token (sg s) \<or> probe_owner_token (sg t) = 0"
  shows "lease_inv t"
  using assms by (auto simp: lease_inv_def)

lemma lease_inv_settle:
  assumes "lease_inv s" "i < length (leases s)"
    and "leases t = (leases s)[i := settled_lease (leases s ! i)]"
    and "next_token (sg t) = next_token (sg s)"
    and "probe_owner_token (sg t) =
      (if probe_owner_token (sg s) = lease_token (leases s ! i) then 0 else probe_owner_token (sg s))"
  shows "lease_inv t"
  using assms by (fastforce simp: lease_inv_def settled_lease_def nth_list_update)

lemma settle_owner:
  assumes "gate_inv g"
  shows "settle_success_locked os token g = (owned, g', ts) \<Longrightarrow>
      next_token g' = next_token g \<and>
      probe_owner_token g' = (if probe_owner_token g = token then 0 else probe_owner_token g)"
    and "settle_failure_locked token err g = (owned, g') \<Longrightarrow>
      next_token g' = next_token g \<and>
      probe_owner_token g' = (if probe_owner_token g = token then 0 else probe_owner_token g)"
    and "settle_inconclusive_locked token g = (owned, g') \<Longrightarrow>
      next_token g' = next_token g \<and>
      probe_owner_token g' = (if probe_owner_token g = token then 0 else probe_owner_token g)"
  using assms
  by (auto simp: settle_success_locked_def settle_failure_locked_def settle_inconclusive_locked_def
      owns_probe_locked_def gate_inv_def Let_def split: if_splits)

lemma lease_inv_step:
  assumes "space_step s l t" "lease_inv s" "gate_inv (sg s)"
  shows "lease_inv t"
  using assms
proof (induction rule: space_step.induct)
  case (decide_probe self terminal s t g)
  then have *: "t = next_token (sg s)" "probe_owner_token g = t" "next_token g = t + 1"
    by (auto simp: decide_locked_def split: if_splits)
  let ?ls = "leases s @ [new_lease t]"
  have inv: "t = of_nat (length (leases s) + 1)"
    "\<forall>i < length (leases s). lease_token (leases s ! i) = of_nat (i + 1)"
    using decide_probe.prems(1) * by (simp_all add: lease_inv_def)
  have tok: "\<forall>i < length ?ls. lease_token (?ls ! i) = of_nat (i + 1)"
    using inv by (simp add: nth_append new_lease_def less_Suc_eq)
  have nxt: "next_token g = of_nat (length ?ls + 1)"
    using *(3) inv(1) by simp
  show ?case
  proof (rule lease_invI [where j = "length (leases s)"], goal_cases)
    case 1 show ?case using nxt by simp
  next
    case 2 show ?case using tok by simp
  next
    case 4 show ?case using *(2) by (simp add: new_lease_def)
  qed (simp_all add: new_lease_def lease_valid_def)
next
  case (success i s os owned g ts)
  show ?case
    using settle_owner(1) [OF success.prems(2) success.hyps(3)]
    by (intro lease_inv_settle [OF success.prems(1) success.hyps(1)]) simp_all
next
  case (failed i s err owned g)
  show ?case
    using settle_owner(2) [OF failed.prems(2) failed.hyps(3)]
    by (intro lease_inv_settle [OF failed.prems(1) failed.hyps(1)]) simp_all
next
  case (inconclusive i s owned g)
  show ?case
    using settle_owner(3) [OF inconclusive.prems(2) inconclusive.hyps(3)]
    by (intro lease_inv_settle [OF inconclusive.prems(1) inconclusive.hyps(1)]) simp_all
qed (rule lease_inv_frame, assumption, (auto simp: gate_defs gate_inv_def Let_def split: if_splits)[3])+

section \<open>Episodes in the event log\<close>

definition edges_of :: "space_transition list \<Rightarrow> (transition_kind \<times> u64) list" where
  "edges_of ts = map (\<lambda>t. (tr_kind t, tr_episode_id t)) (filter tr_discontinuity ts)"

text \<open>The log of \<open>n\<close> episodes, the last of them still open or not.\<close>

fun episode_edges :: "nat \<Rightarrow> bool \<Rightarrow> (transition_kind \<times> u64) list" where
  "episode_edges 0 is_open = []"
| "episode_edges (Suc n) is_open =
     episode_edges n False @ (Kind_Blocked, of_nat (Suc n)) #
     (if is_open then [] else [(Kind_Resumed, of_nat (Suc n))])"

definition log_inv :: "space_sys \<Rightarrow> bool" where
  "log_inv s \<longleftrightarrow>
     (\<exists>n. episode_id (sg s) = of_nat n \<and> (n = 0 \<longrightarrow> phase (sg s) = Ready) \<and>
        edges_of (glog s) = episode_edges n (phase (sg s) \<noteq> Ready))"

lemma edges_of_append [simp]: "edges_of (ts @ us) = edges_of ts @ edges_of us"
  by (simp add: edges_of_def)

lemma edges_of_simps [simp]:
  "edges_of [] = []"
  "edges_of (t # ts) = (if tr_discontinuity t then [(tr_kind t, tr_episode_id t)] else []) @ edges_of ts"
  by (simp_all add: edges_of_def)

lemma log_inv_frame:
  assumes "log_inv s" "edges_of (glog t) = edges_of (glog s)"
    and "episode_id (sg t) = episode_id (sg s)" "(phase (sg t) = Ready) = (phase (sg s) = Ready)"
  shows "log_inv t"
  using assms by (auto simp: log_inv_def)

lemma log_inv_open:
  assumes "log_inv s" "phase (sg s) = Ready" "phase (sg t) \<noteq> Ready"
    and "episode_id (sg t) = episode_id (sg s) + 1"
    and "edges_of (glog t) = edges_of (glog s) @ [(Kind_Blocked, episode_id (sg t))]"
  shows "log_inv t"
proof -
  obtain n where "episode_id (sg s) = of_nat n" "edges_of (glog s) = episode_edges n False"
    using assms(1,2) by (auto simp: log_inv_def)
  with assms show ?thesis
    unfolding log_inv_def by (intro exI [of _ "Suc n"]) (simp add: add.commute)
qed

lemma log_inv_close:
  assumes "log_inv s" "phase (sg s) \<noteq> Ready" "phase (sg t) = Ready"
    and "episode_id (sg t) = episode_id (sg s)"
    and "edges_of (glog t) = edges_of (glog s) @ [(Kind_Resumed, episode_id (sg t))]"
  shows "log_inv t"
proof -
  obtain m where m: "episode_id (sg s) = of_nat m" "m \<noteq> 0" "edges_of (glog s) = episode_edges m True"
    using assms(1,2) by (auto simp: log_inv_def)
  then obtain n where "m = Suc n"
    using not0_implies_Suc by blast
  note m = m [unfolded this]
  with assms show ?thesis
    unfolding log_inv_def by (intro exI [of _ "Suc n"]) simp
qed

lemma report_failure_edges:
  assumes "report_failure_locked os err g = (opened, g', ts)"
  shows "if phase g = Ready
    then phase g' = Blocked \<and> episode_id g' = episode_id g + 1 \<and>
      edges_of ts = [(Kind_Blocked, episode_id g')]
    else phase g' = phase g \<and> episode_id g' = episode_id g \<and> ts = []"
  using assms by (auto simp: report_failure_locked_def make_transition_locked_def Let_def split: if_splits)

lemma settle_success_edges:
  assumes "settle_success_locked os token g = (owned, g', ts)"
  shows "if owns_probe_locked token g
    then phase g = Probing \<and> phase g' = Ready \<and> episode_id g' = episode_id g \<and>
      edges_of ts = [(Kind_Resumed, episode_id g')]
    else g' = g \<and> ts = []"
  using assms
  by (auto simp: settle_success_locked_def owns_probe_locked_def make_transition_locked_def Let_def
      split: if_splits)

lemma log_inv_step:
  assumes "space_step s l t" "log_inv s"
  shows "log_inv t"
  using assms
proof (induction rule: space_step.induct)
  case (failure os err s opened g ts)
  note edges = report_failure_edges [OF failure.hyps]
  show ?case
  proof (cases "phase (sg s) = Ready")
    case True
    with edges show ?thesis
      by (intro log_inv_open [OF failure.prems]) simp_all
  next
    case False
    with edges show ?thesis
      by (intro log_inv_frame [OF failure.prems]) simp_all
  qed
next
  case (success i s os owned g ts)
  note edges = settle_success_edges [OF success.hyps(3)]
  show ?case
  proof (cases "owns_probe_locked (lease_token (leases s ! i)) (sg s)")
    case True
    with edges show ?thesis
      by (intro log_inv_close [OF success.prems]) simp_all
  next
    case False
    with edges show ?thesis
      by (intro log_inv_frame [OF success.prems]) simp_all
  qed
qed (rule log_inv_frame, assumption, (auto simp: gate_defs Let_def split: if_splits)[3])+

section \<open>Every affected job is told\<close>

definition told_inv :: "space_sys \<Rightarrow> bool" where
  "told_inv s \<longleftrightarrow>
     (phase (sg s) \<noteq> Ready \<longrightarrow>
        (\<forall>j \<in> set (affected_jobs (sg s)).
           \<exists>t \<in> set (glog s). tr_kind t = Kind_Blocked \<and> tr_episode_id t = episode_id (sg s) \<and>
             j \<in> set (tr_job_ids t)))"

lemma told_inv_step:
  assumes "space_step s l t" "told_inv s" "gate_inv (sg s)"
  shows "told_inv t"
  using assms
  by (induction rule: space_step.induct)
    (auto simp: gate_defs told_inv_def gate_inv_def Let_def split: if_splits)

section \<open>All invariants of a reachable state\<close>

definition space_inv :: "space_sys \<Rightarrow> bool" where
  "space_inv s \<longleftrightarrow> gate_inv (sg s) \<and> lease_inv s \<and> log_inv s \<and> told_inv s"

lemma space_inv_init: "space_inv (space_init key hint sink tick)"
  using new_gate_inv
  by (auto simp: space_inv_def space_init_def lease_inv_def log_inv_def told_inv_def new_gate_def
      Let_def intro!: exI [of _ "0::nat"])

lemma space_inv_step: "space_step s l t \<Longrightarrow> space_inv s \<Longrightarrow> space_inv t"
  unfolding space_inv_def
  by (blast intro: gate_inv_step lease_inv_step log_inv_step told_inv_step)

lemma space_reach_inv: "space_reach s \<Longrightarrow> space_inv s"
  by (induction rule: space_reach.induct) (auto intro: space_inv_init space_inv_step)

section \<open>Ownership over time\<close>

lemma token_distinct:
  fixes i j :: nat
  assumes "i < 2 ^ 64 - 1" "j < 2 ^ 64 - 1" "(of_nat (i + 1) :: u64) = of_nat (j + 1)"
  shows "i = j"
proof -
  have "unat (of_nat (i + 1) :: u64) = i + 1" "unat (of_nat (j + 1) :: u64) = j + 1"
    using assms(1,2) by (simp_all add: unat_of_nat del: of_nat_add of_nat_Suc)
  with assms(3) show ?thesis by simp
qed

lemma lease_inv_token:
  "lease_inv s \<Longrightarrow> i < length (leases s) \<Longrightarrow> lease_token (leases s ! i) = of_nat (i + 1)"
  by (simp add: lease_inv_def)

lemma length_leases_step: "space_step s l t \<Longrightarrow> length (leases s) \<le> length (leases t)"
  by (induction rule: space_step.induct) auto

text \<open>The owner after a critical section is the old one, nobody, or the token just issued.\<close>

lemma owner_step:
  assumes "space_step s l t"
  shows "probe_owner_token (sg t) = probe_owner_token (sg s) \<or> probe_owner_token (sg t) = 0 \<or>
    l = L_probe (next_token (sg s)) \<and> probe_owner_token (sg t) = next_token (sg s) \<and>
    length (leases t) = Suc (length (leases s))"
  using assms
  by (induction rule: space_step.induct) (auto simp: gate_defs Let_def split: if_splits)

lemma not_owner_step:
  assumes "space_step s l t" "space_inv s" "length (leases t) < 2 ^ 64" "i < length (leases s)"
    and "\<not> owns_probe_locked (of_nat (i + 1)) (sg s)"
  shows "\<not> owns_probe_locked (of_nat (i + 1)) (sg t)"
proof
  assume own: "owns_probe_locked (of_nat (i + 1)) (sg t)"
  then have t: "probe_owner_token (sg t) = of_nat (i + 1)" "(of_nat (i + 1) :: u64) \<noteq> 0"
    by (auto simp: owns_probe_locked_def)
  have "probe_owner_token (sg s) \<noteq> of_nat (i + 1)"
    using assms(2,5) t(2) by (auto simp: owns_probe_locked_def space_inv_def gate_inv_def)
  then have "next_token (sg s) = of_nat (i + 1)" "length (leases t) = Suc (length (leases s))"
    using owner_step [OF assms(1)] t by auto
  moreover have "next_token (sg s) = of_nat (length (leases s) + 1)"
    using assms(2) by (simp add: space_inv_def lease_inv_def)
  ultimately have "i = length (leases s)"
    using assms(3,4) by (intro token_distinct) auto
  with assms(4) show False by simp
qed

lemma not_owner_steps:
  assumes "space_steps s t" "space_reach s" "length (leases t) < 2 ^ 64" "i < length (leases s)"
    and "\<not> owns_probe_locked (of_nat (i + 1)) (sg s)"
  shows "i < length (leases t) \<and> \<not> owns_probe_locked (of_nat (i + 1)) (sg t)"
  using assms
proof (induction rule: space_steps.induct)
  case (step s t l u)
  have le: "length (leases t) \<le> length (leases u)"
    using step.hyps(2) by (rule length_leases_step)
  with step.IH step.prems have IH: "i < length (leases t)" "\<not> owns_probe_locked (of_nat (i + 1)) (sg t)"
    by auto
  have "space_inv t"
    using step.hyps(1) step.prems(1) by (blast intro: space_reach_inv space_reach_steps)
  with not_owner_step [OF step.hyps(2) _ step.prems(2) IH] le IH show ?case by simp
qed auto

section \<open>Recovery\<close>

lemma space_steps_trans: "space_steps t u \<Longrightarrow> space_steps s t \<Longrightarrow> space_steps s u"
  by (induction rule: space_steps.induct) (auto intro: space_steps.step)

lemma space_step_steps: "space_step s l t \<Longrightarrow> space_steps s t"
  by (blast intro: space_steps.intros)

lemma owner_can_succeed:
  assumes "space_inv s" "phase (sg s) = Probing" "probe_owner_token (sg s) \<noteq> 0"
  shows "\<exists>t. space_steps s t \<and> phase (sg t) = Ready"
proof -
  obtain i where i: "i < length (leases s)" "lease_token (leases s ! i) = probe_owner_token (sg s)"
    "lease_valid (leases s ! i)"
    using assms(1,3) by (auto simp: space_inv_def lease_inv_def)
  then have own: "owns_probe_locked (lease_token (leases s ! i)) (sg s)"
    using assms by (simp add: owns_probe_locked_def)
  obtain owned g ts where st: "settle_success_locked undefined (lease_token (leases s ! i)) (sg s) = (owned, g, ts)"
    by (metis prod_cases3)
  with settle_success_edges [OF st] own have "phase g = Ready"
    by simp
  with space_step_steps [OF success [OF i(1) i(3) st]] show ?thesis by force
qed

lemma free_permit_can_succeed:
  assumes "space_reach s" "phase (sg s) = Probing" "length (leases s) < 2 ^ 64 - 1"
  shows "\<exists>t. space_steps s t \<and> phase (sg t) = Ready"
proof (cases "probe_owner_token (sg s) = 0")
  case True
  have inv: "space_inv s" using assms(1) by (rule space_reach_inv)
  then have "next_token (sg s) = of_nat (length (leases s) + 1)"
    by (simp add: space_inv_def lease_inv_def)
  then have "unat (next_token (sg s)) = length (leases s) + 1"
    using assms(3) by (simp add: unat_of_nat del: of_nat_add of_nat_Suc)
  then have nz: "next_token (sg s) \<noteq> 0" by auto
  let ?g = "(sg s)\<lparr>next_token := next_token (sg s) + 1, probe_owner_token := next_token (sg s)\<rparr>"
  have "decide_locked True False (sg s) = (Wait_Probe (next_token (sg s)), ?g)"
    using assms(2) True by (simp add: decide_locked_def)
  note st = decide_probe [OF this]
  obtain t where "space_steps (s\<lparr>sg := ?g, leases := leases s @ [new_lease (next_token (sg s))]\<rparr>) t"
    "phase (sg t) = Ready"
    using owner_can_succeed [OF space_inv_step [OF st inv]] assms(2) nz by auto
  with space_steps_trans space_step_steps [OF st] show ?thesis by blast
next
  case False
  with assms show ?thesis
    using owner_can_succeed [OF space_reach_inv] by blast
qed

lemma always_recoverable:
  assumes "space_reach s" "length (leases s) < 2 ^ 64 - 1"
  shows "\<exists>t. space_steps s t \<and> phase (sg t) = Ready"
proof (cases "phase (sg s)")
  case Ready
  then show ?thesis by (blast intro: space_steps.refl)
next
  case Blocked
  let ?s = "s\<lparr>sg := (sg s)\<lparr>last_free_bytes := 1, phase := Probing, probe_owner_token := 0\<rparr>\<rparr>"
  have "poll_locked 1 (sg s) = (True, sg ?s)"
    using Blocked by (simp add: poll_locked_def)
  note st = polled [OF this, simplified]
  then have "space_reach ?s"
    using assms(1) space_reach.step by fastforce
  then obtain t where "space_steps ?s t" "phase (sg t) = Ready"
    using free_permit_can_succeed [of ?s] assms(2) by auto
  with space_steps_trans space_step_steps st show ?thesis by fastforce
next
  case Probing
  with assms show ?thesis by (intro free_permit_can_succeed)
qed

section \<open>Public operations as runs of critical sections\<close>

definition sink_calls :: "gate_effect list \<Rightarrow> space_transition list" where
  "sink_calls es = List.map_filter (\<lambda>e. case e of Sink_call t \<Rightarrow> Some t | _ \<Rightarrow> None) es"

lemma sink_calls_simps [simp]:
  "sink_calls [] = []"
  "sink_calls (Notify_all # es) = sink_calls es"
  "sink_calls (Wake_target n # es) = sink_calls es"
  "sink_calls (Sink_call t # es) = t # sink_calls es"
  "sink_calls (es @ es') = sink_calls es @ sink_calls es'"
  "sink_calls (map Wake_target ns) = []"
  "sink_calls (map Sink_call ts) = ts"
  by (simp_all add: sink_calls_def List.map_filter_def filter_map comp_def)

text \<open>
  A run of the operation: it takes the system to the given gate, adding the given transitions to the
  log, and the sink (when there is one) is called with exactly these transitions.
\<close>

definition op_run :: "space_sys \<Rightarrow> gate \<Rightarrow> gate_effect list \<Rightarrow> bool" where
  "op_run s g es \<longleftrightarrow>
     (\<exists>ts. space_steps s (s\<lparr>sg := g, glog := glog s @ ts\<rparr>) \<and> (has_sink g \<longrightarrow> sink_calls es = ts))"

lemma op_runI:
  assumes "space_steps s (s\<lparr>sg := g, glog := glog s @ ts\<rparr>)" "has_sink g \<longrightarrow> sink_calls es = ts"
  shows "op_run s g es"
  using assms by (auto simp: op_run_def)

lemma space_sys_update_swap: "s\<lparr>glog := ts, sg := g\<rparr> = s\<lparr>sg := g, glog := ts\<rparr>"
  by (cases s) simp

lemma resolve_steps: "space_steps s (s\<lparr>sg := resolve_query_root_outside_lock os path (sg s)\<rparr>)"
proof -
  have "r \<noteq> []" if "resolve_query_root_from_path os path = Some r" for r
    using that
    by (auto simp: resolve_query_root_from_path_def Let_def split: if_splits option.splits)
  then show ?thesis
    by (auto simp: resolve_query_root_outside_lock_def split: option.splits
        intro: space_steps.refl space_step_steps resolve)
qed

lemma wake_steps:
  assumes "wake_waiters os (sg s) = (g, es)"
  shows "space_steps s (s\<lparr>sg := g\<rparr>)" "has_sink g = has_sink (sg s)" "sink_calls es = []"
  using assms space_step_steps [OF woken [OF assms]] by (auto simp: wake_waiters_def Let_def)

lemma register_job_run:
  assumes "register_job os job (sg s) = (r, g, es)"
  shows "op_run s g es"
proof (cases "job = []")
  case True
  with assms show ?thesis
    by (intro op_runI [where ts = "[]"]) (auto simp: register_job_def intro: space_steps.refl)
next
  case False
  obtain r' g' ts where l: "register_job_locked os job (sg s) = (r', g', ts)"
    by (metis prod_cases3)
  with False assms show ?thesis
    using space_step_steps [OF register [OF False l]]
    by (intro op_runI [where ts = ts]) (auto simp: register_job_def emit_transitions_def)
qed

lemma report_space_failure_run:
  assumes "report_space_failure os err path (sg s) = (opened, g, es)"
  shows "op_run s g es"
proof -
  let ?s1 = "s\<lparr>sg := resolve_query_root_outside_lock os path (sg s)\<rparr>"
  obtain o1 g1 ts where l: "report_failure_locked os err (sg ?s1) = (o1, g1, ts)"
    by (metis prod_cases3)
  obtain g2 woken where w: "wake_waiters os g1 = (g2, woken)"
    by fastforce
  let ?s2 = "?s1\<lparr>sg := g1, glog := glog ?s1 @ ts\<rparr>"
  have res: "g = g2" "es = woken @ emit_transitions g2 ts"
    using assms l w by (auto simp: report_space_failure_def)
  have st1: "space_steps s ?s2"
    using space_steps.step [OF resolve_steps failure [OF l]] .
  have st2: "space_steps ?s2 (?s2\<lparr>sg := g2\<rparr>)" "sink_calls woken = []"
    using wake_steps [of os ?s2 g2 woken] w by auto
  have "space_steps s (s\<lparr>sg := g2, glog := glog s @ ts\<rparr>)"
    using space_steps_trans [OF st2(1) st1] by (simp add: space_sys_update_swap)
  then show ?thesis
    using res \<open>sink_calls woken = []\<close> by (intro op_runI [where ts = ts]) (auto simp: emit_transitions_def)
qed

lemma quiet_run:
  assumes "space_step s l (s\<lparr>sg := g1\<rparr>)" "wake_waiters os g1 = (g2, es)"
  shows "op_run s g2 es"
proof -
  have "space_steps (s\<lparr>sg := g1\<rparr>) (s\<lparr>sg := g2\<rparr>)" "sink_calls es = []"
    using wake_steps [of os "s\<lparr>sg := g1\<rparr>" g2 es] assms(2) by auto
  then show ?thesis
    using space_steps_trans [OF _ space_step_steps [OF assms(1)]]
    by (intro op_runI [where ts = "[]"]) auto
qed

lemma silent_run: "space_step s l (s\<lparr>sg := g\<rparr>) \<Longrightarrow> op_run s g []"
  using space_step_steps by (intro op_runI [where ts = "[]"]) auto

lemma query_failure_run:
  assumes "record_query_failure_locked err (sg s) = (revoked, g1)" "wake_if os revoked g1 = (g2, es)"
  shows "op_run s g2 es"
  using assms quiet_run [OF query_failed [OF assms(1)], of os g2 es] silent_run [OF query_failed [OF assms(1)]]
  by (auto simp: wake_if_def split: if_splits)

lemma query_free_bytes_run:
  assumes "query_free_bytes os (sg s) = (r, g, es)"
  shows "op_run s g es"
  using assms query_failure_run silent_run [OF query_succeeded]
  by (auto simp: query_free_bytes_def split: if_splits sum.splits prod.splits)

lemma note_query_failure_run:
  "note_query_failure os err (sg s) = (g, es) \<Longrightarrow> op_run s g es"
  using query_failure_run by (auto simp: note_query_failure_def split: prod.splits)

lemma poll_run:
  assumes "poll os free (sg s) = (r, g, es)"
  shows "op_run s g es"
proof -
  obtain b g1 where p: "poll_locked free (sg s) = (b, g1)" by fastforce
  show ?thesis
    using assms p quiet_run [OF polled [OF p]] silent_run [OF polled [OF p]]
    by (auto simp: poll_def split: bool.splits prod.splits)
qed

section \<open>A run to a taken probe\<close>

definition demo_os :: os where
  "demo_os = \<lparr>os_now = 5, os_volume_path = (\<lambda>_. None), os_disk_free = (\<lambda>_. Inr (1, 1)),
     os_alive = (\<lambda>_. True)\<rparr>"

definition demo_start :: space_sys where
  "demo_start = space_init ''job:1'' [] True 1000"

definition demo_joined :: space_sys where
  "demo_joined = (case register_job_locked demo_os ''a'' (sg demo_start) of
     (r, g, ts) \<Rightarrow> demo_start\<lparr>sg := g, glog := glog demo_start @ ts\<rparr>)"

definition demo_blocked :: space_sys where
  "demo_blocked = (case report_failure_locked demo_os 112 (sg demo_joined) of
     (opened, g, ts) \<Rightarrow> demo_joined\<lparr>sg := g, glog := glog demo_joined @ ts\<rparr>)"

definition demo_polled :: space_sys where
  "demo_polled = (case poll_locked 4096 (sg demo_blocked) of
     (granted, g) \<Rightarrow> demo_blocked\<lparr>sg := g\<rparr>)"

definition demo_probing :: space_sys where
  "demo_probing = (case decide_locked True False (sg demo_polled) of
     (d, g) \<Rightarrow> demo_polled\<lparr>sg := g, leases := leases demo_polled @ [new_lease 1]\<rparr>)"

definition demo_revoked :: space_sys where
  "demo_revoked = (case record_query_failure_locked 21 (sg demo_probing) of
     (revoked, g) \<Rightarrow> demo_probing\<lparr>sg := g\<rparr>)"

lemmas demo_defs = demo_start_def demo_joined_def demo_blocked_def demo_polled_def demo_probing_def
  demo_revoked_def space_init_def new_gate_def demo_os_def widen_ascii_def space_query_path_def
  is_volume_guid_key_def volume_guid_prefix_def

lemma demo_reach:
  "space_reach demo_start" "space_reach demo_joined" "space_reach demo_blocked"
  "space_reach demo_polled" "space_reach demo_probing"
proof -
  show start: "space_reach demo_start"
    unfolding demo_start_def by (rule space_reach.init)
  show joined: "space_reach demo_joined"
    unfolding demo_joined_def
    by (auto split: prod.splits intro!: space_reach.step [OF start register])
  show blocked: "space_reach demo_blocked"
    unfolding demo_blocked_def
    by (auto split: prod.splits intro!: space_reach.step [OF joined failure])
  show polled: "space_reach demo_polled"
    unfolding demo_polled_def
    by (auto split: prod.splits intro!: space_reach.step [OF blocked Space_Gate_Safety.polled])
  have "decide_locked True False (sg demo_polled) = (Wait_Probe 1, sg demo_probing)"
    by (simp add: demo_defs gate_defs Let_def)
  from space_reach.step [OF polled decide_probe [OF this]] show "space_reach demo_probing"
    by (simp add: demo_probing_def split: prod.splits)
qed

lemma demo_probing_state:
  "phase (sg demo_probing) = Probing" "probe_owner_token (sg demo_probing) = 1"
  "leases demo_probing = [new_lease 1]" "episode_id (sg demo_probing) = 1"
  "affected_jobs (sg demo_probing) = [''a'']"
  by (simp_all add: demo_defs gate_defs Let_def)

lemma demo_revoked_step: "space_step demo_probing (L_query_failed 21) demo_revoked"
  unfolding demo_revoked_def by (auto split: prod.splits intro!: query_failed)

lemma demo_revoked_state:
  "phase (sg demo_revoked) = Blocked" "probe_owner_token (sg demo_revoked) = 0"
  "leases demo_revoked = [new_lease 1]"
  using demo_probing_state
  by (simp_all add: demo_revoked_def record_query_failure_locked_def Let_def)

section \<open>Properties\<close>

text \<open>
  C8. Phase discipline: in every interleaving a phase changes along four edges only. A gate leaves
  \<open>Ready\<close> only on a reported space failure, a permit is opened only by a poll with free bytes, and the
  only way back to \<open>Ready\<close> is the success of the lease that owns the probe; a space failure of that
  lease or a failed volume query closes the permit.
\<close>

theorem space_phase_discipline:
  assumes "space_step s l t" and "phase (sg s) \<noteq> phase (sg t)"
  shows "phase (sg s) = Ready \<and> phase (sg t) = Blocked \<and> (\<exists>e. l = L_failure e) \<or>
    phase (sg s) = Blocked \<and> phase (sg t) = Probing \<and> (\<exists>free. l = L_poll free \<and> free \<noteq> 0) \<or>
    phase (sg s) = Probing \<and> phase (sg t) = Ready \<and>
      (\<exists>i. l = L_success i \<and> owns_probe_locked (lease_token (leases s ! i)) (sg s)) \<or>
    phase (sg s) = Probing \<and> phase (sg t) = Blocked \<and>
      ((\<exists>i. l = L_failed i \<and> owns_probe_locked (lease_token (leases s ! i)) (sg s)) \<or>
       (\<exists>e. l = L_query_failed e))"
  using assms
  by (induction rule: space_step.induct) (auto simp: gate_defs Let_def split: if_splits)

theorem space_phase_discipline_witness:
  "phase (sg demo_probing) \<noteq> phase (sg demo_revoked) \<and> (\<exists>e. L_query_failed 21 = L_query_failed e)"
  using space_phase_discipline [OF demo_revoked_step] demo_probing_state(1) demo_revoked_state(1)
  by simp

text \<open>
  C19. One probe at a time: in every reachable state at most one lease ever handed out owns the probe,
  and that lease has not been settled (token counters have not wrapped).
\<close>

theorem probe_owner_unique:
  assumes "space_reach s" and "length (leases s) < 2 ^ 64 - 1"
    and "i < length (leases s)" and "owns_probe_locked (lease_token (leases s ! i)) (sg s)"
    and "j < length (leases s)" and "owns_probe_locked (lease_token (leases s ! j)) (sg s)"
  shows "i = j \<and> lease_valid (leases s ! i)"
proof -
  have inv: "lease_inv s" using space_reach_inv [OF assms(1)] by (simp add: space_inv_def)
  note tok = lease_inv_token [OF inv]
  have same: "k = i" if "k < length (leases s)" "lease_token (leases s ! k) = probe_owner_token (sg s)" for k
    using that assms(2-4) tok [of k] tok [of i]
    by (intro token_distinct) (auto simp: owns_probe_locked_def)
  obtain k where "k < length (leases s)" "lease_token (leases s ! k) = probe_owner_token (sg s)"
    "lease_valid (leases s ! k)"
    using inv assms(4) by (auto simp: lease_inv_def owns_probe_locked_def)
  moreover have "lease_token (leases s ! j) = probe_owner_token (sg s)"
    using assms(6) by (simp add: owns_probe_locked_def)
  ultimately show ?thesis
    using same assms(5) by metis
qed

theorem probe_owner_unique_witness: "lease_valid (leases demo_probing ! 0)"
  using probe_owner_unique [OF demo_reach(5), of 0 0]
  by (simp add: demo_probing_state owns_probe_locked_def new_lease_def)



text \<open>
  C21. Episodes: whatever the threads do, the discontinuity events generated for the sink are
  \<open>Blocked 1, Resumed 1, Blocked 2, Resumed 2, \<dots>\<close>, one pair per episode, and the last pair is open
  exactly while the gate is not \<open>Ready\<close>.
\<close>

theorem discontinuities_alternate:
  assumes "space_reach s"
  shows "\<exists>n. episode_id (sg s) = of_nat n \<and>
    edges_of (glog s) = episode_edges n (phase (sg s) \<noteq> Ready)"
  using space_reach_inv [OF assms] by (auto simp: space_inv_def log_inv_def)

theorem discontinuities_alternate_witness:
  "\<exists>n. episode_id (sg demo_probing) = of_nat n \<and>
    edges_of (glog demo_probing) = episode_edges n True"
  using discontinuities_alternate [OF demo_reach(5)] by (simp add: demo_probing_state)

text \<open>
  C22. Nobody waits uninformed: in every reachable state of a blocked gate, each registered job has
  received a \<open>Blocked\<close> event of the current episode, through the fan-out or through the event that
  registration adds.
\<close>

theorem blocked_jobs_are_told:
  assumes "space_reach s" and "phase (sg s) \<noteq> Ready" and "job \<in> set (affected_jobs (sg s))"
  shows "\<exists>t \<in> set (glog s). tr_kind t = Kind_Blocked \<and> tr_episode_id t = episode_id (sg s) \<and>
    job \<in> set (tr_job_ids t)"
  using space_reach_inv [OF assms(1)] assms(2,3) by (auto simp: space_inv_def told_inv_def)

theorem blocked_jobs_are_told_witness:
  "\<exists>t \<in> set (glog demo_probing). tr_kind t = Kind_Blocked \<and> tr_episode_id t = 1 \<and>
    ''a'' \<in> set (tr_job_ids t)"
  using blocked_jobs_are_told [OF demo_reach(5), of "''a''"] by (simp add: demo_probing_state)

text \<open>
  C23. A volume is never stranded: from every reachable state (token counters not exhausted) some
  continuation brings the gate back to \<open>Ready\<close>; in particular a permit that was handed out belongs to
  a lease that can still settle it.
\<close>

theorem gate_always_recoverable:
  assumes "space_reach s" and "length (leases s) < 2 ^ 64 - 1"
  shows "\<exists>t. space_steps s t \<and> phase (sg t) = Ready"
  using assms by (rule always_recoverable)

theorem gate_always_recoverable_witness:
  "phase (sg demo_probing) = Probing \<and> (\<exists>t. space_steps demo_probing t \<and> phase (sg t) = Ready)"
  using gate_always_recoverable [OF demo_reach(5)] by (simp add: demo_probing_state)



end
