(* ===== verification/Space_Retry.thy ===== *)
theory Space_Retry
  imports Space_Gate
begin

text \<open>
  The blocking retry skeleton (\<^verbatim>\<open>sevenzip_space_retry.hpp\<close>) and its only caller outside the write
  queue, the directory creation of \<^verbatim>\<open>sevenzip_space_directory.hpp\<close>.

  The loop has no bound of its own, so its environment is a list of rounds: what the gate mutex lets
  other threads do while this thread sleeps (the ticks of \<open>wait\<close>) and while it is in the file system
  (\<open>rd_during\<close>), and what the real operation returns. The model returns \<open>None\<close> exactly when the list
  ends before the loop has returned.
\<close>

section \<open>Model\<close>

datatype attempt_kind = Succeeded | Space_failure | Permanent_failure | Attempt_terminal

record attempt_result =
  ar_kind :: attempt_kind
  ar_error :: u32

definition report_retry_space_failure ::
    "os \<Rightarrow> u32 \<Rightarrow> wstring \<Rightarrow> gate option \<Rightarrow> gate option \<times> gate_effect list" where
  "report_retry_space_failure os err path gate =
     (case gate of
        None \<Rightarrow> (None, [])
      | Some g \<Rightarrow> (case report_space_failure os err path g of (_, g', es) \<Rightarrow> (Some g', es)))"

definition settle_space_attempt ::
    "os \<Rightarrow> probe_lease \<Rightarrow> attempt_result \<Rightarrow> wstring \<Rightarrow> gate \<Rightarrow> probe_lease \<times> gate \<times> gate_effect list" where
  "settle_space_attempt os l result path g =
     (if \<not> lease_valid l then (l, g, [])
      else if ar_kind result = Succeeded then lease_report_success os l g
      else if ar_kind result = Space_failure then
        lease_report_space_failure os l (ar_error result) path g
      else lease_report_inconclusive os l g)"

record retry_round =
  rd_os :: os
  rd_ticks :: "((gate \<Rightarrow> gate) \<times> bool) list"
  rd_during :: "gate \<Rightarrow> gate"
  rd_attempt :: attempt_result

text \<open>
  One iteration after a decision that is not terminal: the lease is taken over if there is one, the
  attempt runs, the lease is settled, a failure without a permit is reported, and the lease is
  destroyed at the end of the scope.
\<close>

definition retry_iteration ::
    "wstring \<Rightarrow> retry_round \<Rightarrow> wait_result \<Rightarrow> gate \<Rightarrow> gate \<times> gate_effect list" where
  "retry_iteration path r decision g =
     (case (case decision of
              Wait_Probe t \<Rightarrow> lease_move_assign (rd_os r) empty_lease (new_lease t) g
            | _ \<Rightarrow> (empty_lease, empty_lease, g, [])) of
        (l, _, g1, es1) \<Rightarrow>
          let held_probe = lease_valid l
          in case settle_space_attempt (rd_os r) l (rd_attempt r) path (rd_during r g1) of
               (l2, g2, es2) \<Rightarrow>
                 (case (if ar_kind (rd_attempt r) = Space_failure \<and> \<not> held_probe
                        then report_retry_space_failure (rd_os r) (ar_error (rd_attempt r)) path (Some g2)
                        else (Some g2, [])) of
                    (None, es3) \<Rightarrow> (g2, es1 @ es2 @ es3)
                  | (Some g3, es3) \<Rightarrow>
                      (case settle_unfinished (rd_os r) l2 g3 of
                         (_, g4, es4) \<Rightarrow> (g4, es1 @ es2 @ es3 @ es4))))"

fun retry_rounds ::
    "wstring \<Rightarrow> retry_round list \<Rightarrow> gate \<Rightarrow> (attempt_result \<times> gate \<times> gate_effect list) option" where
  "retry_rounds path [] g = None"
| "retry_rounds path (r # rounds) g =
     (case wait True (rd_ticks r) g of
        None \<Rightarrow> None
      | Some (decision, g1) \<Rightarrow>
          if decision = Wait_Terminal
          then Some (\<lparr>ar_kind = Attempt_terminal, ar_error = 0\<rparr>, g1, [])
          else
            (case retry_iteration path r decision g1 of
               (g2, es) \<Rightarrow>
                 if ar_kind (rd_attempt r) \<noteq> Space_failure then Some (rd_attempt r, g2, es)
                 else map_option (\<lambda>(res, g', es'). (res, g', es @ es')) (retry_rounds path rounds g2)))"

definition retry_with_space_gate ::
    "os \<Rightarrow> wstring \<Rightarrow> attempt_result \<Rightarrow> retry_round list \<Rightarrow> gate option \<Rightarrow>
     (attempt_result \<times> gate option \<times> gate_effect list) option" where
  "retry_with_space_gate os path result rounds gate =
     (if ar_kind result \<noteq> Space_failure then Some (result, gate, [])
      else case report_retry_space_failure os (ar_error result) path gate of
             (None, _) \<Rightarrow> Some (result, None, [])
           | (Some g, es) \<Rightarrow>
               map_option (\<lambda>(res, g', es'). (res, Some g', es @ es')) (retry_rounds path rounds g))"

text \<open>
  Directory creation. The classifier injected by unit tests may throw, which is \<open>None\<close>. The terminal
  predicate is \<open>None\<close> when the function object is empty.
\<close>

definition is_directory_space_failure :: "(error_code \<Rightarrow> bool option) option \<Rightarrow> error_code \<Rightarrow> bool" where
  "is_directory_space_failure injected ec =
     (case injected of
        Some f \<Rightarrow> (case f ec of Some b \<Rightarrow> b | None \<Rightarrow> False)
      | None \<Rightarrow> is_space_exhaustion_code ec)"

definition directory_attempt :: "(error_code \<Rightarrow> bool option) option \<Rightarrow> error_code \<Rightarrow> attempt_result" where
  "directory_attempt injected ec =
     (if ec_value ec = 0 then \<lparr>ar_kind = Succeeded, ar_error = 0\<rparr>
      else \<lparr>ar_kind = (if is_directory_space_failure injected ec then Space_failure else Permanent_failure),
            ar_error = ec_value ec\<rparr>)"

definition invalid_argument_code :: error_code where
  "invalid_argument_code = \<lparr>ec_category = Generic_category, ec_value = 22\<rparr>"

definition operation_canceled_code :: error_code where
  "operation_canceled_code = \<lparr>ec_category = Generic_category, ec_value = 105\<rparr>"

text \<open>
  The result: whether the directory is available, the error code, how often \<^verbatim>\<open>create_directories\<close> was
  called before the loop (0 or 1), and the gate. The \<open>error_code\<close> of round \<open>k\<close> is what the k-th retried
  call returns.
\<close>

definition create_directories_with_space_gate ::
    "os \<Rightarrow> (error_code \<Rightarrow> bool option) option \<Rightarrow> wstring \<Rightarrow> bool option \<Rightarrow> error_code \<Rightarrow>
     (retry_round \<times> error_code) list \<Rightarrow> gate option \<Rightarrow>
     (bool \<times> error_code \<times> gate option \<times> gate_effect list) option" where
  "create_directories_with_space_gate os injected directory terminal first rounds gate =
     (if directory = [] then Some (False, invalid_argument_code, gate, [])
      else if gate \<noteq> None \<and> terminal = Some True then Some (False, operation_canceled_code, gate, [])
      else
        (case retry_with_space_gate os directory (directory_attempt injected first)
                (map (\<lambda>(r, ec). r\<lparr>rd_attempt := directory_attempt injected ec\<rparr>) rounds) gate of
           None \<Rightarrow> None
         | Some (result, gate', es) \<Rightarrow>
             if ar_kind result = Succeeded then Some (True, no_error, gate', es)
             else if ar_kind result = Attempt_terminal
             then Some (False, operation_canceled_code, gate', es)
             else Some (False, \<lparr>ec_category = System_category, ec_value = ar_error result\<rparr>, gate', es)))"

text \<open>A round in which the permit is opened while the thread sleeps and the attempt fails for another reason.\<close>

definition demo_round :: retry_round where
  "demo_round = \<lparr>rd_os = \<lparr>os_now = 1, os_volume_path = (\<lambda>_. None), os_disk_free = (\<lambda>_. Inl 21),
       os_alive = (\<lambda>_. True)\<rparr>,
     rd_ticks = [(\<lambda>g. g\<lparr>phase := Probing\<rparr>, False)], rd_during = id,
     rd_attempt = \<lparr>ar_kind = Permanent_failure, ar_error = 5\<rparr>\<rparr>"

section \<open>Waiting\<close>

lemma wait_loop_not_pending:
  "wait_loop token registered ticks g = Some (d, g') \<Longrightarrow> d \<noteq> Wait_Pending"
  by (induction token registered ticks g rule: wait_loop.induct)
    (auto split: wait_result.splits prod.splits)

lemma wait_loop_terminal:
  "\<exists>tick \<in> set ticks. snd tick \<Longrightarrow> \<exists>d g'. wait_loop token registered ticks g = Some (d, g')"
proof (induction token registered ticks g rule: wait_loop.induct)
  case (2 token registered others terminal ticks g)
  then show ?case
    by (cases terminal) (fastforce simp: decide_locked_def split: wait_result.splits prod.splits)+
qed simp

lemma wait_terminal:
  "\<exists>tick \<in> set ticks. snd tick \<Longrightarrow> \<exists>d g'. wait True ticks g = Some (d, g')"
  using wait_loop_terminal by (simp add: wait_def)

section \<open>Settlement\<close>

lemma settle_releases:
  assumes "lease_valid l" "settle_space_attempt os l result path g = (l', g', es)"
  shows "\<not> lease_valid l' \<and> \<not> owns_probe_locked (lease_token l) g'"
  using assms
  by (auto simp: settle_space_attempt_def lease_report_success_def lease_report_space_failure_def
      lease_report_inconclusive_def lease_valid_def settle_success_def settle_success_locked_def
      settle_space_failure_def settle_failure_locked_def settle_inconclusive_def
      settle_inconclusive_locked_def owns_probe_locked_def wake_waiters_def Let_def
      split: if_splits bool.splits prod.splits)

lemma settle_outcome:
  assumes "lease_valid l" "settle_space_attempt os l result path g = (l', g', es)"
    and "owns_probe_locked (lease_token l) g"
  shows "phase g' = (case ar_kind result of Succeeded \<Rightarrow> Ready | Space_failure \<Rightarrow> Blocked | _ \<Rightarrow> Probing)"
proof -
  have "owns_probe_locked (lease_token l) (resolve_query_root_outside_lock os path g)"
    using assms(3)
    by (auto simp: owns_probe_locked_def resolve_query_root_outside_lock_def query_root_commit_def
        split: option.splits)
  with assms show ?thesis
    by (cases "ar_kind result")
      (auto simp: settle_space_attempt_def lease_report_success_def lease_report_space_failure_def
        lease_report_inconclusive_def lease_valid_def settle_success_def settle_success_locked_def
        settle_space_failure_def settle_failure_locked_def settle_inconclusive_def
        settle_inconclusive_locked_def wake_waiters_def owns_probe_locked_def Let_def
        split: bool.splits prod.splits)
qed

lemma retry_iteration_releases:
  assumes "retry_iteration path r (Wait_Probe t) g = (g', es)"
  shows "\<not> owns_probe_locked t g' \<and>
    (owns_probe_locked t (rd_during r g) \<longrightarrow>
       phase g' = (case ar_kind (rd_attempt r) of
         Succeeded \<Rightarrow> Ready | Space_failure \<Rightarrow> Blocked | _ \<Rightarrow> Probing))"
proof -
  obtain l2 g2 es2 where st:
    "settle_space_attempt (rd_os r) (new_lease t) (rd_attempt r) path (rd_during r g) = (l2, g2, es2)"
    by (metis prod_cases3)
  have lv: "lease_valid (new_lease t)"
    by (simp add: lease_valid_def new_lease_def)
  have mv: "lease_move_assign (rd_os r) empty_lease (new_lease t) g =
      (new_lease t, empty_lease, g, [])"
    by (simp add: lease_move_assign_def settle_unfinished_def empty_lease_def lease_move_def new_lease_def)
  have "\<not> lease_valid l2" "\<not> owns_probe_locked t g2"
    using settle_releases [OF lv st] by (simp_all add: new_lease_def)
  moreover from this(1) have "g' = g2"
    using assms st mv lv by (auto simp: retry_iteration_def settle_unfinished_def lease_valid_def)
  ultimately show ?thesis
    using settle_outcome [OF lv st] by (simp add: new_lease_def)
qed

section \<open>Results of the loop\<close>

lemma retry_rounds_result:
  assumes "retry_rounds path rounds g = Some (res, g', es)"
  shows "ar_kind res \<noteq> Space_failure \<and>
    (res \<in> rd_attempt ` set rounds \<or> res = \<lparr>ar_kind = Attempt_terminal, ar_error = 0\<rparr>)"
  using assms
  by (induction path rounds g arbitrary: res g' es rule: retry_rounds.induct)
    (fastforce split: option.splits prod.splits if_splits)+

lemma retry_rounds_cancel:
  assumes "\<forall>r \<in> set rounds. \<exists>tick \<in> set (rd_ticks r). snd tick" "retry_rounds path rounds g = None"
  shows "\<forall>r \<in> set rounds. ar_kind (rd_attempt r) = Space_failure"
  using assms
proof (induction path rounds g rule: retry_rounds.induct)
  case (2 path r rounds g)
  obtain d g1 where w: "wait True (rd_ticks r) g = Some (d, g1)"
    using wait_terminal [of "rd_ticks r" g] "2.prems"(1) by auto
  obtain g2 es where it: "retry_iteration path r d g1 = (g2, es)" by fastforce
  from "2.prems"(2) w it have
    "d \<noteq> Wait_Terminal" "ar_kind (rd_attempt r) = Space_failure" "retry_rounds path rounds g2 = None"
    by (auto split: if_splits)
  with "2.IH" [OF w _ _ it [symmetric]] "2.prems"(1) it show ?case by auto
qed simp

lemma directory_attempt_error:
  "ar_kind (directory_attempt injected ec) \<noteq> Succeeded \<Longrightarrow> ar_error (directory_attempt injected ec) \<noteq> 0"
  by (auto simp: directory_attempt_def)

lemma directory_attempt_not_terminal: "ar_kind (directory_attempt injected ec) \<noteq> Attempt_terminal"
  by (simp add: directory_attempt_def)

section \<open>Properties\<close>

text \<open>
  C25. With a gate the retry never reports a space failure to its caller: it returns the result of a
  real attempt that was not one, or \<open>Attempt_terminal\<close>; and an operation that does not fail for space
  never touches the gate.
\<close>

theorem retry_never_leaks_space_failure:
  assumes "retry_with_space_gate os path result rounds (Some g) = Some (res, gate', es)"
  shows "ar_kind res \<noteq> Space_failure \<and>
    (res = result \<or> res \<in> rd_attempt ` set rounds \<or>
      res = \<lparr>ar_kind = Attempt_terminal, ar_error = 0\<rparr>) \<and>
    (ar_kind result \<noteq> Space_failure \<longrightarrow> res = result \<and> gate' = Some g \<and> es = [])"
  using assms retry_rounds_result
  by (fastforce simp: retry_with_space_gate_def report_retry_space_failure_def
      split: if_splits prod.splits option.splits)

theorem retry_never_leaks_space_failure_witness:
  "\<exists>g' es. retry_with_space_gate undefined [] \<lparr>ar_kind = Succeeded, ar_error = 0\<rparr> []
      (Some (new_gate ''k'' [] False 0)) = Some (\<lparr>ar_kind = Succeeded, ar_error = 0\<rparr>, g', es) \<and>
    g' = Some (new_gate ''k'' [] False 0)"
proof -
  let ?r = "\<lparr>ar_kind = Succeeded, ar_error = 0\<rparr>" and ?g = "new_gate ''k'' [] False 0"
  have "retry_with_space_gate undefined [] ?r [] (Some ?g) = Some (?r, Some ?g, [])"
    by (simp add: retry_with_space_gate_def)
  from this retry_never_leaks_space_failure [OF this] show ?thesis by blast
qed



text \<open>
  C27. A permit never outlives its iteration: whatever other threads do during the attempt and however
  the attempt ends, the token that \<open>wait\<close> granted does not own the probe when the iteration is over.
  If the permit was still owned when the attempt ended, the attempt alone decides the phase: success
  reopens the volume, a space failure blocks it again, anything else keeps the permit available.
\<close>

theorem retry_settles_its_permit:
  assumes "retry_iteration path r (Wait_Probe t) g = (g', es)"
  shows "\<not> owns_probe_locked t g' \<and>
    (owns_probe_locked t (rd_during r g) \<longrightarrow>
       phase g' = (case ar_kind (rd_attempt r) of
         Succeeded \<Rightarrow> Ready | Space_failure \<Rightarrow> Blocked | _ \<Rightarrow> Probing))"
  using assms by (rule retry_iteration_releases)

theorem retry_settles_its_permit_witness:
  "\<exists>g1 g2 es. wait True (rd_ticks demo_round) (new_gate ''k'' [] False 0) = Some (Wait_Probe 1, g1) \<and>
     retry_iteration [] demo_round (Wait_Probe 1) g1 = (g2, es) \<and> phase g2 = Probing"
proof -
  obtain g1 where w: "wait True (rd_ticks demo_round) (new_gate ''k'' [] False 0) = Some (Wait_Probe 1, g1)"
    and o: "owns_probe_locked 1 g1"
    by (simp add: demo_round_def wait_def decide_locked_def new_gate_def owns_probe_locked_def Let_def)
  obtain g2 es where it: "retry_iteration [] demo_round (Wait_Probe 1) g1 = (g2, es)"
    by fastforce
  have "phase g2 = Probing"
    using retry_settles_its_permit [OF it] o by (simp add: demo_round_def)
  with w it show ?thesis by blast
qed

text \<open>
  C28. Directory creation reports success exactly when it reports no error: every failure, including
  a cancellation in which no attempt was made, carries a non-zero error code.
\<close>

theorem create_directories_error_iff:
  assumes "create_directories_with_space_gate os injected directory terminal first rounds gate =
    Some (available, ec, gate', es)"
  shows "available \<longleftrightarrow> ec_value ec = 0"
proof -
  let ?rounds = "map (\<lambda>(r, ec). r\<lparr>rd_attempt := directory_attempt injected ec\<rparr>) rounds"
  have att: "ar_error a \<noteq> 0" if "a \<in> rd_attempt ` set ?rounds \<union> {directory_attempt injected first}"
    "ar_kind a \<noteq> Succeeded" for a
    using that directory_attempt_error by (auto simp: image_image split: prod.splits)
  have res: "ar_error res \<noteq> 0"
    if "retry_with_space_gate os directory (directory_attempt injected first) ?rounds gate =
      Some (res, g, e)" "ar_kind res \<noteq> Succeeded" "ar_kind res \<noteq> Attempt_terminal" for res g e
  proof -
    have "res = directory_attempt injected first \<or> res \<in> rd_attempt ` set ?rounds"
      using that retry_rounds_result
      by (fastforce simp: retry_with_space_gate_def split: if_splits prod.splits option.splits)
    with att that(2) show ?thesis by blast
  qed
  show ?thesis
    using assms res
    by (auto simp: create_directories_with_space_gate_def invalid_argument_code_def no_error_def
        operation_canceled_code_def split: if_splits option.splits)
qed

theorem create_directories_error_iff_witness:
  "\<exists>ec gate' es. create_directories_with_space_gate undefined None (wide ''d'') (Some True) no_error []
     (Some (new_gate ''k'' [] False 0)) = Some (False, ec, gate', es) \<and> ec_value ec \<noteq> 0"
proof -
  have "create_directories_with_space_gate undefined None (wide ''d'') (Some True) no_error []
     (Some (new_gate ''k'' [] False 0)) =
     Some (False, operation_canceled_code, Some (new_gate ''k'' [] False 0), [])"
    by (simp add: create_directories_with_space_gate_def)
  from this create_directories_error_iff [OF this] show ?thesis by blast
qed

end
