(* ===== verification/Cpu_Budget.thy ===== *)
theory Cpu_Budget
  imports Prelude
begin

text \<open>
  The CPU credit budget (\<^verbatim>\<open>native_cpu_budget.hpp\<close>, \<^verbatim>\<open>native_cpu_budget.cpp\<close>, \<^verbatim>\<open>native_worker_sizing.hpp\<close>) and
  the C interface the decoders call (\<^verbatim>\<open>decoder_cpu_budget.h\<close>).

  Every counter is a lock-free atomic updated in a compare-and-swap loop. \<open>acquire_loop\<close> and
  \<open>release_loop\<close> model the loops with their interference: each element of the list is one execution of
  \<^verbatim>\<open>compare_exchange_weak\<close>, with the value the atomic then really has and whether the instruction fails
  spuriously. They are shown to take effect at one instant, as the atomic operations \<open>acquire_up_to\<close>
  and \<open>budget_release\<close>; the system \<open>cpu_step\<close> interleaves these.
\<close>

section \<open>Model\<close>

record cpu_budget =
  nominal_capacity :: u64
  reserved_credits :: u64
  has_callback :: bool

definition derive_native_sizing_plan :: "u64 \<Rightarrow> u64" where
  "derive_native_sizing_plan logical_processors = max 1 logical_processors"

definition new_budget :: "u64 \<Rightarrow> bool \<Rightarrow> cpu_budget" where
  "new_budget nominal callback =
     \<lparr>nominal_capacity = max 1 nominal, reserved_credits = 0, has_callback = callback\<rparr>"

text \<open>
  The part of an iteration before the compare-and-swap: \<open>None\<close> is \<^verbatim>\<open>return 0\<close>, \<open>Some\<close> the grant to
  install.
\<close>

definition acquire_offer :: "u64 \<Rightarrow> u64 \<Rightarrow> u64 \<Rightarrow> u64 \<Rightarrow> u64 option" where
  "acquire_offer nominal wanted minimum reserved =
     (if reserved \<ge> nominal then None
      else let available = nominal - reserved; grant = min wanted available
           in if grant < minimum then None else Some grant)"

fun acquire_loop :: "u64 \<Rightarrow> u64 \<Rightarrow> u64 \<Rightarrow> u64 \<Rightarrow> (u64 \<times> bool) list \<Rightarrow> (u64 \<times> u64 option) option" where
  "acquire_loop nominal wanted minimum reserved attempts =
     (case acquire_offer nominal wanted minimum reserved of
        None \<Rightarrow> Some (0, None)
      | Some grant \<Rightarrow>
          (case attempts of
             [] \<Rightarrow> None
           | (actual, spurious) # rest \<Rightarrow>
               if actual = reserved \<and> \<not> spurious then Some (grant, Some (reserved + grant))
               else acquire_loop nominal wanted minimum actual rest))"

text \<open>The whole operation without interference: the grant and the budget afterwards.\<close>

definition acquire_up_to :: "u64 \<Rightarrow> u64 \<Rightarrow> cpu_budget \<Rightarrow> u64 \<times> cpu_budget" where
  "acquire_up_to wanted minimum_grant b =
     (if wanted = 0 then (0, b)
      else let minimum = max 1 minimum_grant
           in if minimum > wanted then (0, b)
              else case acquire_offer (nominal_capacity b) wanted minimum (reserved_credits b) of
                     None \<Rightarrow> (0, b)
                   | Some grant \<Rightarrow> (grant, b\<lparr>reserved_credits := reserved_credits b + grant\<rparr>))"

definition try_acquire_base :: "cpu_budget \<Rightarrow> bool \<times> cpu_budget" where
  "try_acquire_base b = (case acquire_up_to 1 1 b of (grant, b') \<Rightarrow> (grant = 1, b'))"

definition acquire_all_available :: "cpu_budget \<Rightarrow> u64 \<times> cpu_budget" where
  "acquire_all_available b = acquire_up_to (- 1) 1 b"

definition release_next :: "u64 \<Rightarrow> u64 \<Rightarrow> u64" where
  "release_next count reserved = (if count \<ge> reserved then 0 else reserved - count)"

text \<open>The loop of \<^verbatim>\<open>release\<close>: the value replaced and the value installed.\<close>

fun release_loop :: "u64 \<Rightarrow> u64 \<Rightarrow> (u64 \<times> bool) list \<Rightarrow> (u64 \<times> u64) option" where
  "release_loop count reserved [] = None"
| "release_loop count reserved ((actual, spurious) # rest) =
     (if actual = reserved \<and> \<not> spurious then Some (reserved, release_next count reserved)
      else release_loop count actual rest)"

text \<open>The budget after the release, and whether \<^verbatim>\<open>capacity_available_\<close> is called.\<close>

definition budget_release :: "u64 \<Rightarrow> cpu_budget \<Rightarrow> cpu_budget \<times> bool" where
  "budget_release count b =
     (if count = 0 then (b, False)
      else let reserved = reserved_credits b; next = release_next count reserved
           in (b\<lparr>reserved_credits := next\<rparr>,
               has_callback b \<and> reserved \<ge> nominal_capacity b \<and> next < nominal_capacity b))"

definition can_acquire_base :: "cpu_budget \<Rightarrow> bool" where
  "can_acquire_base b \<longleftrightarrow> reserved_credits b < nominal_capacity b"

text \<open>A job's account of borrowed credits.\<close>

record cpu_job =
  current_extra :: u64
  peak_extra :: u64

definition new_cpu_job :: cpu_job where
  "new_cpu_job = \<lparr>current_extra = 0, peak_extra = 0\<rparr>"

definition account_grant :: "u64 \<Rightarrow> cpu_job \<Rightarrow> cpu_job" where
  "account_grant granted j =
     (let current = current_extra j + granted
      in \<lparr>current_extra = current, peak_extra = (if peak_extra j < current then current else peak_extra j)\<rparr>)"

definition job_acquire_extra :: "u64 \<Rightarrow> u64 \<Rightarrow> cpu_job \<Rightarrow> cpu_budget \<Rightarrow> u64 \<times> cpu_job \<times> cpu_budget" where
  "job_acquire_extra wanted minimum_grant j b =
     (case acquire_up_to wanted minimum_grant b of
        (granted, b') \<Rightarrow> if granted = 0 then (0, j, b') else (granted, account_grant granted j, b'))"

definition job_acquire_all_available :: "cpu_job \<Rightarrow> cpu_budget \<Rightarrow> u64 \<times> cpu_job \<times> cpu_budget" where
  "job_acquire_all_available j b =
     (case acquire_all_available b of
        (granted, b') \<Rightarrow> if granted = 0 then (0, j, b') else (granted, account_grant granted j, b'))"

definition job_release_extra :: "u64 \<Rightarrow> cpu_job \<Rightarrow> cpu_budget \<Rightarrow> cpu_job \<times> cpu_budget \<times> bool" where
  "job_release_extra count j b =
     (if count = 0 then (j, b, False)
      else let released = min count (current_extra j)
           in case budget_release released b of
                (b', woken) \<Rightarrow> (j\<lparr>current_extra := current_extra j - released\<rparr>, b', woken))"

text \<open>The destructor of the job context.\<close>

definition job_destroy :: "cpu_job \<Rightarrow> cpu_budget \<Rightarrow> cpu_budget \<times> bool" where
  "job_destroy j b =
     (if current_extra j = 0 then (b, False) else budget_release (current_extra j) b)"

text \<open>
  The C interface: a null context grants whatever is wanted to a bounded request, nothing to an
  unbounded one, and ignores releases. \<^verbatim>\<open>unsigned\<close> is 32 bits wide.
\<close>

definition cpu_acquire_extra_for_context ::
    "cpu_job option \<Rightarrow> u32 \<Rightarrow> u32 \<Rightarrow> cpu_budget \<Rightarrow> u32 \<times> cpu_job option \<times> cpu_budget" where
  "cpu_acquire_extra_for_context context wanted minimum_grant b =
     (case context of
        None \<Rightarrow> (wanted, None, b)
      | Some j \<Rightarrow> (case job_acquire_extra (ucast wanted) (ucast minimum_grant) j b of
                      (granted, j', b') \<Rightarrow> (ucast granted, Some j', b')))"

definition cpu_acquire_all_available_for_context ::
    "cpu_job option \<Rightarrow> cpu_budget \<Rightarrow> u32 \<times> cpu_job option \<times> cpu_budget" where
  "cpu_acquire_all_available_for_context context b =
     (case context of
        None \<Rightarrow> (0, None, b)
      | Some j \<Rightarrow> (case job_acquire_all_available j b of
                      (granted, j', b') \<Rightarrow> (ucast granted, Some j', b')))"

definition cpu_release_extra_for_context ::
    "cpu_job option \<Rightarrow> u32 \<Rightarrow> cpu_budget \<Rightarrow> cpu_job option \<times> cpu_budget \<times> bool" where
  "cpu_release_extra_for_context context count b =
     (case context of
        None \<Rightarrow> (None, b, False)
      | Some j \<Rightarrow> (case job_release_extra (ucast count) j b of (j', b', woken) \<Rightarrow> (Some j', b', woken)))"

text \<open>The thread-local context pointer; a scope installs one and its destructor restores the other.\<close>

definition exchange_context :: "'c option \<Rightarrow> 'c option \<Rightarrow> 'c option \<times> 'c option" where
  "exchange_context context current = (current, context)"

definition context_scope :: "'c option \<Rightarrow> ('c option \<Rightarrow> 'c option) \<Rightarrow> 'c option \<Rightarrow> 'c option" where
  "context_scope context body current =
     (case exchange_context context current of
        (previous, current') \<Rightarrow> snd (exchange_context previous (body current')))"

section \<open>The system of jobs\<close>

text \<open>
  All holders of credits: the executor's base credits (one per running job) and the accounts of the
  live job contexts.
\<close>

record cpu_sys =
  cs_budget :: cpu_budget
  cs_base :: nat
  cs_jobs :: "cpu_job list"

datatype cpu_label = C_base bool | C_base_release bool | C_new | C_grant nat u64 | C_return nat bool | C_destroy nat bool

inductive cpu_step :: "cpu_sys \<Rightarrow> cpu_label \<Rightarrow> cpu_sys \<Rightarrow> bool" where
  base: "try_acquire_base (cs_budget s) = (ok, b) \<Longrightarrow>
    cpu_step s (C_base ok) (s\<lparr>cs_budget := b, cs_base := cs_base s + (if ok then 1 else 0)\<rparr>)"
| base_release: "0 < cs_base s \<Longrightarrow> budget_release 1 (cs_budget s) = (b, w) \<Longrightarrow>
    cpu_step s (C_base_release w) (s\<lparr>cs_budget := b, cs_base := cs_base s - 1\<rparr>)"
| new_job: "cpu_step s C_new (s\<lparr>cs_jobs := cs_jobs s @ [new_cpu_job]\<rparr>)"
| acquire: "i < length (cs_jobs s) \<Longrightarrow>
    job_acquire_extra wanted minimum (cs_jobs s ! i) (cs_budget s) = (g, j, b) \<Longrightarrow>
    cpu_step s (C_grant i g) (s\<lparr>cs_budget := b, cs_jobs := (cs_jobs s)[i := j]\<rparr>)"
| acquire_all: "i < length (cs_jobs s) \<Longrightarrow>
    job_acquire_all_available (cs_jobs s ! i) (cs_budget s) = (g, j, b) \<Longrightarrow>
    cpu_step s (C_grant i g) (s\<lparr>cs_budget := b, cs_jobs := (cs_jobs s)[i := j]\<rparr>)"
| release: "i < length (cs_jobs s) \<Longrightarrow>
    job_release_extra count (cs_jobs s ! i) (cs_budget s) = (j, b, w) \<Longrightarrow>
    cpu_step s (C_return i w) (s\<lparr>cs_budget := b, cs_jobs := (cs_jobs s)[i := j]\<rparr>)"
| destroy: "i < length (cs_jobs s) \<Longrightarrow>
    job_destroy (cs_jobs s ! i) (cs_budget s) = (b, w) \<Longrightarrow>
    cpu_step s (C_destroy i w)
      (s\<lparr>cs_budget := b, cs_jobs := take i (cs_jobs s) @ drop (Suc i) (cs_jobs s)\<rparr>)"

definition cpu_initial :: "cpu_sys \<Rightarrow> bool" where
  "cpu_initial s \<longleftrightarrow> (\<exists>n c. s = \<lparr>cs_budget = new_budget n c, cs_base = 0, cs_jobs = []\<rparr>)"

definition held_credits :: "cpu_sys \<Rightarrow> nat" where
  "held_credits s = cs_base s + sum_list (map (\<lambda>j. unat (current_extra j)) (cs_jobs s))"

definition job_ok :: "cpu_budget \<Rightarrow> cpu_job \<Rightarrow> bool" where
  "job_ok b j \<longleftrightarrow> current_extra j \<le> peak_extra j \<and> peak_extra j \<le> nominal_capacity b"

definition cpu_inv :: "cpu_sys \<Rightarrow> bool" where
  "cpu_inv s \<longleftrightarrow>
     unat (reserved_credits (cs_budget s)) = held_credits s \<and>
     reserved_credits (cs_budget s) \<le> nominal_capacity (cs_budget s) \<and>
     1 \<le> nominal_capacity (cs_budget s) \<and>
     (\<forall>j \<in> set (cs_jobs s). job_ok (cs_budget s) j)"

section \<open>Linearisation of the compare-and-swap loops\<close>

lemma acquire_loop_linear:
  assumes "acquire_loop nominal wanted minimum reserved attempts = Some (grant, written)"
  shows "\<exists>value \<in> insert reserved (fst ` set attempts).
    (case acquire_offer nominal wanted minimum value of
       None \<Rightarrow> grant = 0 \<and> written = None
     | Some g \<Rightarrow> grant = g \<and> written = Some (value + g) \<and> (value, False) \<in> set attempts)"
  using assms
proof (induction attempts arbitrary: reserved)
  case Nil
  then show ?case by (auto split: option.splits)
next
  case (Cons a attempts)
  obtain actual spurious where a: "a = (actual, spurious)" by fastforce
  show ?case
  proof (cases "acquire_offer nominal wanted minimum reserved")
    case None
    with Cons.prems show ?thesis by auto
  next
    case (Some g)
    show ?thesis
    proof (cases "actual = reserved \<and> \<not> spurious")
      case True
      with Cons.prems Some a show ?thesis by auto
    next
      case False
      with Cons.prems Some a have "acquire_loop nominal wanted minimum actual attempts = Some (grant, written)"
        by auto
      from Cons.IH [OF this] obtain v where "v \<in> insert actual (fst ` set attempts)"
        "case acquire_offer nominal wanted minimum v of
           None \<Rightarrow> grant = 0 \<and> written = None
         | Some g \<Rightarrow> grant = g \<and> written = Some (v + g) \<and> (v, False) \<in> set attempts"
        by blast
      then show ?thesis
        using a by (intro bexI [of _ v]) (auto split: option.splits)
    qed
  qed
qed

lemma release_loop_linear:
  "release_loop count reserved attempts = Some (old, new) \<Longrightarrow>
     (old, False) \<in> set attempts \<and> new = release_next count old"
  by (induction count reserved attempts rule: release_loop.induct) (auto split: if_splits)

section \<open>Single operations\<close>

lemma acquire_offer_Some:
  assumes "acquire_offer nominal wanted minimum reserved = Some grant"
  shows "reserved < nominal" "grant \<le> wanted" "minimum \<le> grant" "reserved + grant \<le> nominal"
    "unat (reserved + grant) = unat reserved + unat grant"
proof -
  have *: "reserved < nominal" "grant = min wanted (nominal - reserved)" "\<not> grant < minimum"
    using assms by (auto simp: acquire_offer_def Let_def not_le split: if_splits)
  then show "reserved < nominal" "grant \<le> wanted" by auto
  show "minimum \<le> grant" using *(3) by simp
  have d: "unat (nominal - reserved) = unat nominal - unat reserved" "unat reserved < unat nominal"
    using *(1) by (simp_all add: unat_sub flip: word_less_nat_alt)
  have "grant \<le> nominal - reserved"
    using *(2) by simp
  then have g: "unat reserved + unat grant \<le> unat nominal"
    using d by (simp add: word_le_nat_alt)
  moreover have "unat nominal < 2 ^ 64"
    using unsigned_less [of nominal] by simp
  ultimately show u: "unat (reserved + grant) = unat reserved + unat grant"
    by (simp add: unat_word_ariths)
  with g show "reserved + grant \<le> nominal"
    by (simp add: word_le_nat_alt)
qed

lemma acquire_up_to_cases:
  assumes "acquire_up_to wanted minimum b = (grant, b')"
  obtains (none) "grant = 0" "b' = b"
  | (granted) "0 < grant" "max 1 minimum \<le> grant" "grant \<le> wanted"
      "b' = b\<lparr>reserved_credits := reserved_credits b + grant\<rparr>"
      "unat (reserved_credits b') = unat (reserved_credits b) + unat grant"
      "reserved_credits b' \<le> nominal_capacity b"
proof (cases "wanted = 0 \<or> max 1 minimum > wanted \<or>
    acquire_offer (nominal_capacity b) wanted (max 1 minimum) (reserved_credits b) = None")
  case True
  with assms show ?thesis
    by (intro none) (auto simp: acquire_up_to_def Let_def split: if_splits)
next
  case False
  then obtain g where g: "acquire_offer (nominal_capacity b) wanted (max 1 minimum) (reserved_credits b) = Some g"
    by auto
  with False assms have "grant = g" "b' = b\<lparr>reserved_credits := reserved_credits b + g\<rparr>"
    by (auto simp: acquire_up_to_def Let_def)
  moreover have "0 < g"
    using acquire_offer_Some(3) [OF g] by (metis max.boundedE word_gt_0 word_le_0_iff zero_neq_one)
  ultimately show ?thesis
    using granted acquire_offer_Some [OF g] by simp
qed

lemma budget_release_exact:
  assumes "budget_release count b = (b', w)" "count \<le> reserved_credits b"
  shows "unat (reserved_credits b') = unat (reserved_credits b) - unat count"
    "nominal_capacity b' = nominal_capacity b" "reserved_credits b' \<le> reserved_credits b"
proof -
  have "release_next count (reserved_credits b) = reserved_credits b - count"
    using assms(2) by (auto simp: release_next_def)
  moreover have "unat (reserved_credits b - count) = unat (reserved_credits b) - unat count"
    using assms(2) by (simp add: unat_sub)
  ultimately show "unat (reserved_credits b') = unat (reserved_credits b) - unat count"
    "nominal_capacity b' = nominal_capacity b" "reserved_credits b' \<le> reserved_credits b"
    using assms by (auto simp: budget_release_def Let_def word_le_nat_alt split: if_splits)
qed

section \<open>Conservation\<close>

lemma held_update:
  assumes "i < length (cs_jobs s)"
  shows "held_credits (s\<lparr>cs_budget := b, cs_jobs := (cs_jobs s)[i := j]\<rparr>) + unat (current_extra (cs_jobs s ! i)) =
    held_credits s + unat (current_extra j)"
proof -
  have "unat (current_extra (cs_jobs s ! i)) \<le> sum_list (map (\<lambda>j. unat (current_extra j)) (cs_jobs s))"
    using elem_le_sum_list [of i "map (\<lambda>j. unat (current_extra j)) (cs_jobs s)"] assms by simp
  then show ?thesis
    using assms by (simp add: held_credits_def map_update sum_list_update)
qed

lemma held_remove:
  assumes "i < length (cs_jobs s)"
  shows "held_credits (s\<lparr>cs_budget := b, cs_jobs := take i (cs_jobs s) @ drop (Suc i) (cs_jobs s)\<rparr>) +
    unat (current_extra (cs_jobs s ! i)) = held_credits s"
proof -
  have "cs_jobs s = take i (cs_jobs s) @ cs_jobs s ! i # drop (Suc i) (cs_jobs s)"
    using assms by (rule id_take_nth_drop)
  then have "sum_list (map (\<lambda>j. unat (current_extra j)) (cs_jobs s)) =
    sum_list (map (\<lambda>j. unat (current_extra j)) (take i (cs_jobs s) @ cs_jobs s ! i # drop (Suc i) (cs_jobs s)))"
    by simp
  then show ?thesis by (simp add: held_credits_def)
qed

lemma job_extra_le_reserved:
  assumes "cpu_inv s" "i < length (cs_jobs s)"
  shows "current_extra (cs_jobs s ! i) \<le> reserved_credits (cs_budget s)"
proof -
  have "unat (current_extra (cs_jobs s ! i)) \<le> held_credits s"
    using held_remove [OF assms(2)] by (metis le_add2)
  then show ?thesis
    using assms(1) by (simp add: cpu_inv_def word_le_nat_alt)
qed

lemma account_grant_ok:
  assumes "job_ok b j" "unat (current_extra j) + unat g \<le> unat (nominal_capacity b)"
  shows "job_ok b (account_grant g j)"
    "unat (current_extra (account_grant g j)) = unat (current_extra j) + unat g"
proof -
  have "unat (nominal_capacity b) < 2 ^ 64"
    using unsigned_less [of "nominal_capacity b"] by simp
  with assms(2) have u: "unat (current_extra j + g) = unat (current_extra j) + unat g"
    by (simp add: unat_word_ariths)
  then show "unat (current_extra (account_grant g j)) = unat (current_extra j) + unat g"
    by (simp add: account_grant_def Let_def)
  show "job_ok b (account_grant g j)"
    using assms u by (auto simp: job_ok_def account_grant_def Let_def word_le_nat_alt word_less_nat_alt)
qed

text \<open>A grant of any size to a job, or none.\<close>

lemma cpu_inv_grant:
  assumes inv: "cpu_inv s" and i: "i < length (cs_jobs s)"
    and acq: "acquire_up_to wanted minimum (cs_budget s) = (g, b)"
    and j: "j = (if g = 0 then cs_jobs s ! i else account_grant g (cs_jobs s ! i))"
  shows "cpu_inv (s\<lparr>cs_budget := b, cs_jobs := (cs_jobs s)[i := j]\<rparr>)"
  using acq
proof (cases rule: acquire_up_to_cases)
  case none
  with j have "(cs_jobs s)[i := j] = cs_jobs s" "b = cs_budget s" by auto
  with inv show ?thesis by (simp add: cpu_inv_def held_credits_def)
next
  case granted
  let ?j = "cs_jobs s ! i"
  have ok: "job_ok (cs_budget s) ?j" and R: "unat (reserved_credits (cs_budget s)) = held_credits s"
    using inv i by (auto simp: cpu_inv_def)
  have "unat (current_extra ?j) + unat g \<le> unat (nominal_capacity (cs_budget s))"
    using job_extra_le_reserved [OF inv i] granted(5,6) by (simp add: word_le_nat_alt)
  note acc = account_grant_ok [OF ok this]
  have je: "j = account_grant g ?j"
    using j granted(1) by auto
  have "held_credits (s\<lparr>cs_budget := b, cs_jobs := (cs_jobs s)[i := j]\<rparr>) = held_credits s + unat g"
    using held_update [OF i, where b = b and j = j] acc(2) je by simp
  moreover have "\<forall>j' \<in> set ((cs_jobs s)[i := j]). job_ok b j'"
    using inv acc(1) granted(4) je by (auto simp: cpu_inv_def job_ok_def dest!: set_update_subset_insert [THEN subsetD])
  ultimately show ?thesis
    using inv R granted(4-6) by (simp add: cpu_inv_def)
qed

lemma cpu_inv_base:
  assumes "cpu_inv s" "try_acquire_base (cs_budget s) = (ok, b)"
  shows "cpu_inv (s\<lparr>cs_budget := b, cs_base := cs_base s + (if ok then 1 else 0)\<rparr>)"
proof -
  obtain g where acq: "acquire_up_to 1 1 (cs_budget s) = (g, b)" and ok: "ok = (g = 1)"
    using assms(2) by (auto simp: try_acquire_base_def split: prod.splits)
  from acq show ?thesis
  proof (cases rule: acquire_up_to_cases)
    case none
    with assms(1) ok show ?thesis by (simp add: cpu_inv_def held_credits_def)
  next
    case granted
    then have "g = 1" by auto
    with granted assms(1) ok show ?thesis
      by (auto simp: cpu_inv_def held_credits_def job_ok_def)
  qed
qed

lemma cpu_inv_return:
  assumes inv: "cpu_inv s" and i: "i < length (cs_jobs s)"
    and rel: "budget_release n (cs_budget s) = (b, w)" and n: "n \<le> current_extra (cs_jobs s ! i)"
  shows "cpu_inv (s\<lparr>cs_budget := b,
    cs_jobs := (cs_jobs s)[i := (cs_jobs s ! i)\<lparr>current_extra := current_extra (cs_jobs s ! i) - n\<rparr>]\<rparr>)"
    (is "cpu_inv ?t")
proof -
  let ?j = "cs_jobs s ! i"
  have le: "n \<le> reserved_credits (cs_budget s)"
    using job_extra_le_reserved [OF inv i] n by simp
  note ex = budget_release_exact [OF rel le]
  have u: "unat (current_extra ?j - n) = unat (current_extra ?j) - unat n" "unat n \<le> unat (current_extra ?j)"
    using n by (simp_all add: unat_sub word_le_nat_alt)
  have "current_extra ?j - n \<le> peak_extra ?j"
  proof -
    have "unat (current_extra ?j) \<le> unat (peak_extra ?j)"
      using inv i by (auto simp: cpu_inv_def job_ok_def simp flip: word_le_nat_alt)
    with u show ?thesis by (simp add: word_le_nat_alt)
  qed
  then have "\<forall>j \<in> set (cs_jobs ?t). job_ok b j"
    using inv i ex(2) by (auto simp: cpu_inv_def job_ok_def dest!: set_update_subset_insert [THEN subsetD])
  moreover have "held_credits ?t + unat n = held_credits s"
    using held_update [OF i, where b = b and j = "?j\<lparr>current_extra := current_extra ?j - n\<rparr>"] u by simp
  moreover have "reserved_credits b \<le> nominal_capacity (cs_budget s)"
    using inv ex(3) by (auto simp: cpu_inv_def)
  ultimately show ?thesis
    using inv ex(1,2) by (auto simp: cpu_inv_def)
qed

lemma cpu_inv_step:
  assumes "cpu_inv s" "cpu_step s l t"
  shows "cpu_inv t"
  using assms(2,1)
proof (induction rule: cpu_step.induct)
  case (base s ok b)
  then show ?case by (intro cpu_inv_base)
next
  case (base_release s b w)
  have "1 \<le> reserved_credits (cs_budget s)"
    using base_release.hyps(1) base_release.prems by (simp add: cpu_inv_def held_credits_def word_le_nat_alt)
  note ex = budget_release_exact [OF base_release.hyps(2) this]
  show ?case
    using base_release.prems base_release.hyps(1) ex
    by (auto simp: cpu_inv_def held_credits_def job_ok_def)
next
  case (new_job s)
  then show ?case
    by (auto simp: cpu_inv_def held_credits_def job_ok_def new_cpu_job_def)
next
  case (acquire i s wanted minimum g j b)
  then show ?case
    by (intro cpu_inv_grant [of s i wanted minimum g b j])
      (auto simp: job_acquire_extra_def split: prod.splits if_splits)
next
  case (acquire_all i s g j b)
  then show ?case
    by (intro cpu_inv_grant [of s i "-1" 1 g b j])
      (auto simp: job_acquire_all_available_def acquire_all_available_def split: prod.splits if_splits)
next
  case (release i s count j b w)
  show ?case
  proof (cases "count = 0")
    case True
    with release show ?thesis by (auto simp: job_release_extra_def)
  next
    case False
    with release show ?thesis
      using cpu_inv_return [of s i "min count (current_extra (cs_jobs s ! i))" b w]
      by (auto simp: job_release_extra_def Let_def split: prod.splits)
  qed
next
  case (destroy i s b w)
  let ?j = "cs_jobs s ! i"
  have rel: "budget_release (current_extra ?j) (cs_budget s) = (b, w)"
    using destroy.hyps(2) by (auto simp: job_destroy_def budget_release_def split: if_splits)
  note ex = budget_release_exact [OF rel job_extra_le_reserved [OF destroy.prems destroy.hyps(1)]]
  have "\<forall>j \<in> set (take i (cs_jobs s) @ drop (Suc i) (cs_jobs s)). job_ok b j"
    using destroy.prems ex(2) by (auto simp: cpu_inv_def job_ok_def dest: in_set_takeD in_set_dropD)
  moreover have "reserved_credits b \<le> nominal_capacity (cs_budget s)"
    using destroy.prems ex(3) by (auto simp: cpu_inv_def)
  ultimately show ?case
    using held_remove [OF destroy.hyps(1), where b = b] destroy.prems ex(1,2) by (auto simp: cpu_inv_def)
qed

interpretation cpu: invariant_system cpu_initial cpu_step cpu_inv
proof
  show "cpu_inv s" if "cpu_initial s" for s
    using that by (auto simp: cpu_initial_def cpu_inv_def held_credits_def new_budget_def)
  show "cpu_inv t" if "cpu_inv s" "cpu_step s l t" for s l t
    using that by (rule cpu_inv_step)
qed

section \<open>Properties\<close>

text \<open>
  C9. Credits are conserved: in every interleaving of base credits, decoder grants, returns and job
  teardown, the reserved count is exactly what the holders hold together, never exceeds the capacity,
  and no job borrows more than its recorded peak.
\<close>

theorem cpu_credits_conserved:
  assumes "reach cpu_initial cpu_step s"
  shows "unat (reserved_credits (cs_budget s)) = held_credits s \<and>
    reserved_credits (cs_budget s) \<le> nominal_capacity (cs_budget s) \<and>
    (\<forall>j \<in> set (cs_jobs s). current_extra j \<le> peak_extra j)"
  using cpu.invar_reach [OF assms] by (auto simp: cpu_inv_def job_ok_def)

theorem cpu_credits_conserved_witness:
  "\<exists>s. reach cpu_initial cpu_step s \<and> cs_base s = 1 \<and>
     unat (reserved_credits (cs_budget s)) = held_credits s"
proof -
  let ?s = "\<lparr>cs_budget = new_budget 2 True, cs_base = 0, cs_jobs = []\<rparr>"
  have r0: "reach cpu_initial cpu_step ?s"
    by (intro reach_initial) (auto simp: cpu_initial_def)
  have st: "try_acquire_base (cs_budget ?s) = (True, (new_budget 2 True)\<lparr>reserved_credits := 1\<rparr>)"
    by (simp add: try_acquire_base_def acquire_up_to_def acquire_offer_def new_budget_def Let_def)
  note r = reach_step [OF r0 base [OF st]]
  show ?thesis
    using r cpu_credits_conserved [OF r] by (intro exI conjI) auto
qed

text \<open>
  C29. The compare-and-swap loop of \<open>acquire_up_to\<close> is linearisable: whatever values and spurious
  failures it meets, a grant is the offer computed on the value its successful exchange replaced, and
  a refusal is the verdict on a value that was really read. Two grants therefore never spend the same
  credits.
\<close>

theorem acquire_loop_linearisable:
  assumes "acquire_loop nominal wanted minimum reserved attempts = Some (grant, written)"
  shows "\<exists>value \<in> insert reserved (fst ` set attempts).
    (case acquire_offer nominal wanted minimum value of
       None \<Rightarrow> grant = 0 \<and> written = None
     | Some g \<Rightarrow> grant = g \<and> written = Some (value + g) \<and> (value, False) \<in> set attempts)"
  using assms by (rule acquire_loop_linear)

theorem acquire_loop_linearisable_witness:
  "acquire_loop 4 3 1 0 [(2, False), (2, False)] = Some (2, Some 4) \<and>
   (\<exists>value \<in> {0, 2}. case acquire_offer 4 3 1 value of
       None \<Rightarrow> False | Some g \<Rightarrow> (2::u64) = g \<and> Some (4::u64) = Some (value + g))"
proof -
  have "acquire_loop 4 3 1 0 [(2, False), (2, False)] = Some (2, Some 4)"
    by (simp add: acquire_offer_def Let_def)
  from this acquire_loop_linearisable [OF this] show ?thesis
    by (auto split: option.splits)
qed

text \<open>
  The capacity callback: a release calls it exactly when it takes the budget from saturated to
  available, so an admission loop that sleeps only while the budget is saturated is always woken and
  never woken needlessly.
\<close>

theorem release_wakes_exactly_on_desaturation:
  assumes "budget_release count b = (b', woken)" and "has_callback b"
  shows "woken \<longleftrightarrow> \<not> can_acquire_base b \<and> can_acquire_base b'"
  using assms by (auto simp: budget_release_def can_acquire_base_def Let_def split: if_splits)

theorem release_wakes_exactly_on_desaturation_witness:
  "can_acquire_base (fst (budget_release 1 \<lparr>nominal_capacity = 2, reserved_credits = 2, has_callback = True\<rparr>))"
proof -
  let ?b = "\<lparr>nominal_capacity = 2, reserved_credits = 2, has_callback = True\<rparr>"
  obtain b' where r: "budget_release 1 ?b = (b', True)"
    by (simp add: budget_release_def release_next_def Let_def)
  from release_wakes_exactly_on_desaturation [OF r] r show ?thesis by simp
qed

text \<open>
  The 32-bit C interface does not truncate a bounded grant: what the decoder is told is what the
  ledger reserved for it, and it is at most what it asked for.
\<close>

theorem decoder_grant_exact:
  assumes "cpu_acquire_extra_for_context (Some j) wanted minimum b = (granted, j', b')"
  shows "unat (reserved_credits b') = unat (reserved_credits b) + unat granted \<and> granted \<le> wanted"
proof -
  obtain g where acq: "acquire_up_to (ucast wanted) (ucast minimum) b = (g, b')" and gr: "granted = ucast g"
    using assms
    by (auto simp: cpu_acquire_extra_for_context_def job_acquire_extra_def split: prod.splits if_splits)
  from acq show ?thesis
  proof (cases rule: acquire_up_to_cases)
    case none
    with gr show ?thesis by simp
  next
    case granted
    have lt: "unat wanted < 2 ^ 32"
      using unsigned_less [of wanted] by simp
    then have "unat (ucast wanted :: u64) = unat wanted"
      by (simp add: unsigned_ucast_eq take_bit_nat_eq_self)
    then have "unat g \<le> unat wanted"
      using granted(3) by (simp add: word_le_nat_alt)
    with lt have "unat g \<le> unat wanted" "unat wanted < 2 ^ 32"
      by simp_all
    then have "unat (ucast g :: u32) = unat g"
      by (simp add: unsigned_ucast_eq take_bit_nat_eq_self)
    with granted gr \<open>unat g \<le> unat wanted\<close> show ?thesis
      by (simp add: word_le_nat_alt)
  qed
qed

theorem decoder_grant_exact_witness:
  "\<exists>g j' b'. cpu_acquire_extra_for_context (Some new_cpu_job) 3 1 (new_budget 2 False) = (g, j', b') \<and>
     unat (reserved_credits b') = unat g \<and> g \<le> 3"
proof -
  obtain g j' b' where "cpu_acquire_extra_for_context (Some new_cpu_job) 3 1 (new_budget 2 False) = (g, j', b')"
    by (metis prod_cases3)
  with decoder_grant_exact [OF this] show ?thesis by (auto simp: new_budget_def)
qed

end
