(* ===== verification/Writer_Meters.thy ===== *)
theory Writer_Meters
  imports Space_Gate
begin

text \<open>
  The byte ledger of the asynchronous writers (\<^verbatim>\<open>sevenzip_writer_meters.hpp\<close>, \<^verbatim>\<open>sevenzip_volume_state.hpp\<close>
  and the \<^verbatim>\<open>account_*\<close> helpers of \<^verbatim>\<open>AsyncFileWriter\<close>) and the configuration that is read from the
  environment (\<^verbatim>\<open>sevenzip_writer_meters.cpp\<close>).

  Every byte goes through one \<^verbatim>\<open>account_*\<close> helper, which updates two sets of counters: the meters of
  the process and the counters of the volume. \<open>meter_step\<close> lets the writers of any number of volumes
  interleave their calls; the main theorem is the ledger equation of both sets and their agreement.
\<close>

section \<open>Counters\<close>

record writer_counters =
  accepted_bytes :: u64
  written_bytes :: u64
  discarded_bytes :: u64
  pending_bytes :: u64
  completed_files :: u64
  completed_jobs :: u64

definition zero_counters :: writer_counters where
  "zero_counters = \<lparr>accepted_bytes = 0, written_bytes = 0, discarded_bytes = 0, pending_bytes = 0,
     completed_files = 0, completed_jobs = 0\<rparr>"

definition counters_reset :: "writer_counters \<Rightarrow> writer_counters" where
  "counters_reset c = c\<lparr>accepted_bytes := 0, written_bytes := 0, discarded_bytes := 0,
     pending_bytes := 0, completed_files := 0, completed_jobs := 0\<rparr>"

definition pending_bytes_of :: "writer_counters \<Rightarrow> u64" where
  "pending_bytes_of c = pending_bytes c"

text \<open>A snapshot has the fields of the counters; reading them without interference copies the record.\<close>

type_synonym meter_snapshot = writer_counters

definition snapshot_counters :: "writer_counters \<Rightarrow> meter_snapshot" where
  "snapshot_counters c = \<lparr>accepted_bytes = accepted_bytes c, written_bytes = written_bytes c,
     discarded_bytes = discarded_bytes c, pending_bytes = pending_bytes c,
     completed_files = completed_files c, completed_jobs = completed_jobs c\<rparr>"

definition snapshot_eq :: "meter_snapshot \<Rightarrow> meter_snapshot \<Rightarrow> bool" where
  "snapshot_eq a b \<longleftrightarrow> accepted_bytes a = accepted_bytes b \<and> written_bytes a = written_bytes b \<and>
     discarded_bytes a = discarded_bytes b \<and> pending_bytes a = pending_bytes b \<and>
     completed_files a = completed_files b \<and> completed_jobs a = completed_jobs b"

record volume_state =
  vs_key :: string
  persistent :: bool
  vs_counters :: writer_counters
  accounting_violations :: u64
  vs_gate :: "gate option"

definition make_volume_state :: "string \<Rightarrow> bool \<Rightarrow> volume_state" where
  "make_volume_state k p = \<lparr>vs_key = k, persistent = p, vs_counters = zero_counters,
     accounting_violations = 0, vs_gate = None\<rparr>"

section \<open>Accounting\<close>

text \<open>
  \<^verbatim>\<open>release_pending\<close> of a release build: a compare-exchange loop. The list holds, for each attempt, the
  value the counter has when the exchange runs and whether it fails spuriously; the result is the
  value replaced, the value stored and the number of violations counted on the way.
\<close>

definition release_value :: "u64 \<Rightarrow> u64 \<Rightarrow> u64" where
  "release_value value current = (if current > value then current - value else 0)"

fun release_pending_loop :: "u64 \<Rightarrow> u64 \<Rightarrow> (u64 \<times> bool) list \<Rightarrow> (u64 \<times> u64 \<times> u64) option" where
  "release_pending_loop value current [] = None"
| "release_pending_loop value current ((seen, spurious) # rest) =
     (let violation = (if current < value then 1 else 0) in
      if current = seen \<and> \<not> spurious then Some (current, release_value value current, violation)
      else map_option (\<lambda>(old, new, n). (old, new, violation + n)) (release_pending_loop value seen rest))"

definition release_pending :: "u64 \<Rightarrow> u64 \<Rightarrow> volume_state \<Rightarrow> u64 \<times> volume_state" where
  "release_pending value pending v =
     (release_value value pending,
      if pending < value then v\<lparr>accounting_violations := accounting_violations v + 1\<rparr> else v)"

definition account_pending_release :: "u64 \<Rightarrow> writer_counters \<times> volume_state \<Rightarrow> writer_counters \<times> volume_state" where
  "account_pending_release bytes = (\<lambda>(meters, v).
     let (mp, v) = release_pending bytes (pending_bytes meters) v;
         (vp, v) = release_pending bytes (pending_bytes (vs_counters v)) v
     in (meters\<lparr>pending_bytes := mp\<rparr>, v\<lparr>vs_counters := (vs_counters v)\<lparr>pending_bytes := vp\<rparr>\<rparr>))"

definition add_accepted :: "u64 \<Rightarrow> writer_counters \<Rightarrow> writer_counters" where
  "add_accepted n c = c\<lparr>accepted_bytes := accepted_bytes c + n, pending_bytes := pending_bytes c + n\<rparr>"

definition account_accepted :: "u64 \<Rightarrow> writer_counters \<times> volume_state \<Rightarrow> writer_counters \<times> volume_state" where
  "account_accepted bytes = (\<lambda>(meters, v).
     (add_accepted bytes meters, v\<lparr>vs_counters := add_accepted bytes (vs_counters v)\<rparr>))"

definition add_written :: "u64 \<Rightarrow> writer_counters \<Rightarrow> writer_counters" where
  "add_written n c = c\<lparr>written_bytes := written_bytes c + n\<rparr>"

definition account_written :: "u64 \<Rightarrow> writer_counters \<times> volume_state \<Rightarrow> writer_counters \<times> volume_state" where
  "account_written bytes = (\<lambda>(meters, v). account_pending_release bytes
     (add_written bytes meters, v\<lparr>vs_counters := add_written bytes (vs_counters v)\<rparr>))"

definition add_discarded :: "u64 \<Rightarrow> writer_counters \<Rightarrow> writer_counters" where
  "add_discarded n c = c\<lparr>discarded_bytes := discarded_bytes c + n\<rparr>"

definition account_discarded :: "u64 \<Rightarrow> writer_counters \<times> volume_state \<Rightarrow> writer_counters \<times> volume_state" where
  "account_discarded bytes = (\<lambda>(meters, v). if bytes = 0 then (meters, v) else account_pending_release bytes
     (add_discarded bytes meters, v\<lparr>vs_counters := add_discarded bytes (vs_counters v)\<rparr>))"

section \<open>Configuration\<close>

text \<open>
  \<^verbatim>\<open>std::wcstoull\<close> in base 10. Which characters are white space and which are digits depends on the
  locale of the run-time library, so both are parameters; \<open>c_locale\<close> is the ASCII instance. The result
  is the value and the index of the first character that was not consumed, 0 when there is no number.
\<close>

record wctype =
  wspace :: "u16 \<Rightarrow> bool"
  wdigit :: "u16 \<Rightarrow> nat option"

definition c_locale :: wctype where
  "c_locale = \<lparr>wspace = (\<lambda>c. c = 32 \<or> (9 \<le> c \<and> c \<le> 13)),
     wdigit = (\<lambda>c. if 48 \<le> c \<and> c \<le> 57 then Some (unat c - 48) else None)\<rparr>"

fun read_digits :: "wctype \<Rightarrow> nat \<Rightarrow> wstring \<Rightarrow> nat \<times> nat" where
  "read_digits w acc [] = (acc, 0)"
| "read_digits w acc (c # cs) =
     (case wdigit w c of None \<Rightarrow> (acc, 0)
      | Some d \<Rightarrow> (let (value, used) = read_digits w (acc * 10 + d) cs in (value, Suc used)))"

definition wcstoull :: "wctype \<Rightarrow> wstring \<Rightarrow> u64 \<times> nat" where
  "wcstoull w text =
     (let blanks = length (takeWhile (wspace w) text);
          body = drop blanks text;
          sign = (if body \<noteq> [] \<and> (hd body = 43 \<or> hd body = 45) then 1 else 0);
          (value, used) = read_digits w 0 (drop sign body)
      in if used = 0 then (0, 0)
         else (if value \<ge> 2 ^ 64 then - 1
               else if sign = 1 \<and> hd body = 45 then - of_nat value else of_nat value,
               blanks + sign + used))"

text \<open>
  The environment maps a name to its value. \<^verbatim>\<open>GetEnvironmentVariableW\<close> returns 0 when there is none, the
  length when the buffer holds the value and its terminator, and the size it needs otherwise.
\<close>

type_synonym environment = "wstring \<Rightarrow> wstring option"

definition get_environment_variable :: "environment \<Rightarrow> wstring \<Rightarrow> nat \<Rightarrow> nat \<times> wstring" where
  "get_environment_variable env name capacity =
     (case env name of None \<Rightarrow> (0, [])
      | Some v \<Rightarrow> if length v < capacity then (length v, v) else (length v + 1, []))"

definition char_at :: "wstring \<Rightarrow> nat \<Rightarrow> u16" where
  "char_at text i = (if i < length text then text ! i else 0)"

definition configured_size :: "wctype \<Rightarrow> environment \<Rightarrow> string \<Rightarrow> u64 \<Rightarrow> u64 \<Rightarrow> u64 \<Rightarrow> u64" where
  "configured_size w env name fallback minimum maximum =
     (let (len, text) = get_environment_variable env (wide name) 32
      in if len = 0 \<or> len \<ge> 32 then fallback
         else let (parsed, stop) = wcstoull w text
              in if stop = 0 \<or> char_at text stop \<noteq> 0 \<or> parsed < minimum \<or> parsed > maximum then fallback
                 else parsed)"

definition configured_ull :: "wctype \<Rightarrow> environment \<Rightarrow> string \<Rightarrow> u64 \<Rightarrow> u64 \<Rightarrow> u64" where
  "configured_ull w env name fallback maximum =
     (let (len, text) = get_environment_variable env (wide name) 32
      in if len = 0 \<or> len \<ge> 32 then fallback
         else let (parsed, stop) = wcstoull w text
              in if stop = 0 \<or> char_at text stop \<noteq> 0 \<or> parsed > maximum then fallback
                 else parsed)"

definition configured_flag :: "environment \<Rightarrow> string \<Rightarrow> bool" where
  "configured_flag env name =
     (let (len, text) = get_environment_variable env (wide name) 8
      in if len \<noteq> 1 then False else char_at text 0 = 49 \<or> char_at text 0 = 121 \<or> char_at text 0 = 89)"

record async_writer_config =
  threads_per_volume :: u64
  buffer_count :: u64
  queue_limit :: u64
  write_through :: bool
  idle_timeout :: int
  space_poll_interval :: int
  space_status_report_interval :: int

definition default_async_writer_config :: async_writer_config where
  "default_async_writer_config = \<lparr>threads_per_volume = 4, buffer_count = 64, queue_limit = 4096,
     write_through = False, idle_timeout = 20000, space_poll_interval = 1000,
     space_status_report_interval = 15000\<rparr>"

definition configured_async_writer_config :: "wctype \<Rightarrow> environment \<Rightarrow> async_writer_config" where
  "configured_async_writer_config w env =
     (let idle_seconds = configured_ull w env ''SUNPACK_ASYNC_WRITER_IDLE_SECONDS''
                           (20000 div 1000) (24 * 60 * 60 * 1000 div 1000)
      in default_async_writer_config
           \<lparr>buffer_count := configured_size w env ''SUNPACK_ASYNC_WRITER_BUFFERS'' 64 4 256,
            write_through := configured_flag env ''SUNPACK_ASYNC_WRITER_WRITE_THROUGH'',
            idle_timeout := sint (idle_seconds * 1000),
            space_poll_interval := sint (configured_size w env ''SUNPACK_VOLUME_SPACE_POLL_MS'' 1000 50 60000),
            space_status_report_interval :=
              sint (configured_size w env ''SUNPACK_VOLUME_SPACE_STATUS_REPORT_MS'' 15000 1000 600000)\<rparr>)"


section \<open>The ledger\<close>

record meter_sys =
  ms_meters :: writer_counters
  ms_volumes :: "volume_state list"

datatype account_call = Accept u64 | Written u64 | Discarded u64

definition account :: "account_call \<Rightarrow> writer_counters \<times> volume_state \<Rightarrow> writer_counters \<times> volume_state" where
  "account call = (case call of Accept n \<Rightarrow> account_accepted n | Written n \<Rightarrow> account_written n
     | Discarded n \<Rightarrow> account_discarded n)"

text \<open>
  What the writer guarantees of a call: the bytes it accepts fit in memory beside the pending ones,
  and the bytes it reports written or discarded are pending in the volume.
\<close>

definition account_allowed :: "account_call \<Rightarrow> writer_counters \<times> volume_state \<Rightarrow> bool" where
  "account_allowed call mv = (case call of
       Accept n \<Rightarrow> unat (pending_bytes (fst mv)) + unat n < 2 ^ 64
     | Written n \<Rightarrow> n \<le> pending_bytes (vs_counters (snd mv))
     | Discarded n \<Rightarrow> n \<le> pending_bytes (vs_counters (snd mv)))"

datatype meter_label = M_open string bool | M_call nat account_call | M_forget nat

inductive meter_step :: "meter_sys \<Rightarrow> meter_label \<Rightarrow> meter_sys \<Rightarrow> bool" where
  open_volume: "meter_step s (M_open k p) (s\<lparr>ms_volumes := ms_volumes s @ [make_volume_state k p]\<rparr>)"
| call: "i < length (ms_volumes s) \<Longrightarrow> account_allowed c (ms_meters s, ms_volumes s ! i) \<Longrightarrow>
    account c (ms_meters s, ms_volumes s ! i) = (m, v) \<Longrightarrow>
    meter_step s (M_call i c) \<lparr>ms_meters = m, ms_volumes = (ms_volumes s)[i := v]\<rparr>"
| forget: "i < length (ms_volumes s) \<Longrightarrow> pending_bytes (vs_counters (ms_volumes s ! i)) = 0 \<Longrightarrow>
    meter_step s (M_forget i)
      (s\<lparr>ms_volumes := take i (ms_volumes s) @ drop (Suc i) (ms_volumes s)\<rparr>)"

inductive_simps meter_step_simps:
  "meter_step s (M_open k p) t" "meter_step s (M_call i c) t" "meter_step s (M_forget i) t"

definition meter_initial :: "meter_sys \<Rightarrow> bool" where
  "meter_initial s \<longleftrightarrow> s = \<lparr>ms_meters = zero_counters, ms_volumes = []\<rparr>"

definition balanced :: "writer_counters \<Rightarrow> bool" where
  "balanced c \<longleftrightarrow> accepted_bytes c = written_bytes c + discarded_bytes c + pending_bytes c"

definition volume_pending :: "volume_state \<Rightarrow> nat" where
  "volume_pending v = unat (pending_bytes (vs_counters v))"

definition meter_inv :: "meter_sys \<Rightarrow> bool" where
  "meter_inv s \<longleftrightarrow> balanced (ms_meters s) \<and>
     (\<forall>v \<in> set (ms_volumes s). balanced (vs_counters v) \<and> accounting_violations v = 0) \<and>
     unat (pending_bytes (ms_meters s)) = sum_list (map volume_pending (ms_volumes s))"

lemma release_value_le: "n \<le> p \<Longrightarrow> release_value n p = p - n"
  by (auto simp: release_value_def not_less)

lemma account_pending_release_exact:
  assumes "n \<le> pending_bytes m" "n \<le> pending_bytes (vs_counters v)"
  shows "account_pending_release n (m, v) =
    (m\<lparr>pending_bytes := pending_bytes m - n\<rparr>,
     v\<lparr>vs_counters := (vs_counters v)\<lparr>pending_bytes := pending_bytes (vs_counters v) - n\<rparr>\<rparr>)"
  using assms by (simp add: account_pending_release_def release_pending_def release_value_le Let_def not_less)

text \<open>
  The effect of an allowed call on the ledger: both sets of counters stay balanced, no violation is
  counted and the two gauges move together.
\<close>

lemma account_counters:
  assumes "account c (m, v) = (m', v')" "account_allowed c (m, v)"
    and "pending_bytes (vs_counters v) \<le> pending_bytes m"
  shows "balanced m' = balanced m" "balanced (vs_counters v') = balanced (vs_counters v)"
    and "accounting_violations v' = accounting_violations v"
    and "unat (pending_bytes m') + volume_pending v = unat (pending_bytes m) + volume_pending v'"
proof -
  have eqs: "balanced m' = balanced m \<and> balanced (vs_counters v') = balanced (vs_counters v) \<and>
      accounting_violations v' = accounting_violations v \<and>
      unat (pending_bytes m') + volume_pending v = unat (pending_bytes m) + volume_pending v'"
  proof (cases c)
    case (Accept n)
    then have fits: "unat (pending_bytes m) + unat n < 2 ^ 64"
      using assms(2) by (simp add: account_allowed_def)
    moreover have "unat (pending_bytes (vs_counters v)) \<le> unat (pending_bytes m)"
      using assms(3) by (simp add: word_le_nat_alt)
    ultimately have "unat (pending_bytes m + n) = unat (pending_bytes m) + unat n"
      "unat (pending_bytes (vs_counters v) + n) = unat (pending_bytes (vs_counters v)) + unat n"
      by (simp_all add: unat_word_ariths)
    with Accept assms(1) show ?thesis
      by (auto simp: account_def account_accepted_def add_accepted_def balanced_def volume_pending_def)
  next
    case (Written n)
    then have "n \<le> pending_bytes (vs_counters v)"
      using assms(2) by (simp add: account_allowed_def)
    moreover from this have "n \<le> pending_bytes m"
      using assms(3) by simp
    ultimately show ?thesis
      using Written assms(1,3)
      by (auto simp: account_def account_written_def add_written_def balanced_def volume_pending_def
          account_pending_release_exact unat_sub word_le_nat_alt)
  next
    case (Discarded n)
    then have "n \<le> pending_bytes (vs_counters v)"
      using assms(2) by (simp add: account_allowed_def)
    moreover from this have "n \<le> pending_bytes m"
      using assms(3) by simp
    ultimately show ?thesis
      using Discarded assms(1,3)
      by (auto simp: account_def account_discarded_def add_discarded_def balanced_def volume_pending_def
          account_pending_release_exact unat_sub word_le_nat_alt split: if_splits)
  qed
  then show "balanced m' = balanced m" "balanced (vs_counters v') = balanced (vs_counters v)"
    "accounting_violations v' = accounting_violations v"
    "unat (pending_bytes m') + volume_pending v = unat (pending_bytes m) + volume_pending v'"
    by simp_all
qed

lemma sum_list_split:
  fixes f :: "'a \<Rightarrow> nat"
  assumes "i < length xs"
  shows "sum_list (map f xs) = sum_list (map f (take i xs @ drop (Suc i) xs)) + f (xs ! i)"
  using arg_cong [OF id_take_nth_drop [OF assms], of "\<lambda>ys. sum_list (map f ys)"] by simp

lemma sum_list_update:
  fixes f :: "'a \<Rightarrow> nat"
  assumes "i < length xs"
  shows "sum_list (map f (xs[i := y])) + f (xs ! i) = sum_list (map f xs) + f y"
  using assms sum_list_split [OF assms, of f] by (simp add: upd_conv_take_nth_drop)

lemma meter_inv_step:
  assumes "meter_inv s" "meter_step s l t"
  shows "meter_inv t"
  using assms(2)
proof cases
  case (open_volume k p)
  with assms(1) show ?thesis
    by (auto simp: meter_inv_def make_volume_state_def zero_counters_def balanced_def volume_pending_def)
next
  case (call i c m v)
  let ?w = "ms_volumes s ! i"
  have mem: "?w \<in> set (ms_volumes s)"
    using call by simp
  have "volume_pending ?w \<le> sum_list (map volume_pending (ms_volumes s))"
    using sum_list_split [OF call(3), of volume_pending] by simp
  then have le: "pending_bytes (vs_counters ?w) \<le> pending_bytes (ms_meters s)"
    using assms(1) by (simp add: meter_inv_def volume_pending_def word_le_nat_alt)
  note eqs = account_counters [OF call(5,4) le]
  have "unat (pending_bytes m) = sum_list (map volume_pending ((ms_volumes s)[i := v]))"
    using eqs(4) sum_list_update [OF call(3), of volume_pending v] assms(1)
    by (simp add: meter_inv_def)
  moreover have "balanced (vs_counters v) \<and> accounting_violations v = 0"
    using eqs(2,3) mem assms(1) by (simp add: meter_inv_def)
  ultimately show ?thesis
    using eqs(1) assms(1) call(2) set_update_subset_insert [of "ms_volumes s" i v]
    by (auto simp: meter_inv_def)
next
  case (forget i)
  then show ?thesis
    using assms(1) sum_list_split [OF forget(3), of volume_pending]
    by (auto simp: meter_inv_def volume_pending_def dest: in_set_takeD in_set_dropD)
qed

interpretation meters: invariant_system meter_initial meter_step meter_inv
  by unfold_locales
    (simp add: meter_initial_def meter_inv_def zero_counters_def balanced_def, rule meter_inv_step)

section \<open>Reading a number\<close>

text \<open>The decimal notation of a number, most significant digit first.\<close>

definition wide_digit :: "nat \<Rightarrow> u16" where
  "wide_digit d = of_nat (48 + d)"

lemma unat_wide_digit: "d < 10 \<Longrightarrow> unat (wide_digit d) = 48 + d"
  by (simp add: wide_digit_def unat_of_nat del: of_nat_add)

fun decimal :: "nat \<Rightarrow> wstring" where
  "decimal n = (if n < 10 then [wide_digit n] else decimal (n div 10) @ [wide_digit (n mod 10)])"

declare decimal.simps [simp del]

lemma wdigit_decimal [simp]: "d < 10 \<Longrightarrow> wdigit c_locale (wide_digit d) = Some d"
  by (simp add: c_locale_def word_le_nat_alt unat_wide_digit)

lemma read_digits_append:
  assumes "read_digits w acc xs = (v, length xs)"
  shows "read_digits w acc (xs @ ys) = (let (v', n) = read_digits w v ys in (v', length xs + n))"
  using assms
proof (induction xs arbitrary: acc)
  case (Cons c cs)
  then show ?case
    by (cases "wdigit w c") (auto split: prod.splits)
qed simp

lemma read_digits_decimal: "read_digits c_locale 0 (decimal n) = (n, length (decimal n))"
proof (induction n rule: decimal.induct)
  case (1 n)
  show ?case
  proof (cases "n < 10")
    case True
    then show ?thesis
      by (simp add: decimal.simps [of n])
  next
    case False
    with 1 have "read_digits c_locale 0 (decimal (n div 10)) = (n div 10, length (decimal (n div 10)))"
      by simp
    from read_digits_append [OF this, of "[wide_digit (n mod 10)]"] False show ?thesis
      by (simp add: decimal.simps [of n])
  qed
qed

lemma length_decimal: "n < 10 ^ k \<Longrightarrow> 0 < k \<Longrightarrow> length (decimal n) \<le> k"
proof (induction n arbitrary: k rule: decimal.induct)
  case (1 n)
  show ?case
  proof (cases "n < 10")
    case True
    with 1 show ?thesis by (simp add: decimal.simps [of n])
  next
    case False
    then have "k \<noteq> 1"
      using 1 by (metis power_one_right)
    then obtain j where k: "k = Suc j" "0 < j"
      using 1 by (metis One_nat_def gr0_conv_Suc neq0_conv)
    have "length (decimal (n div 10)) \<le> j"
      using 1 k False by (intro "1.IH") auto
    with k False show ?thesis by (simp add: decimal.simps [of n])
  qed
qed

lemma hd_decimal: "\<exists>d < 10. \<exists>rest. decimal n = wide_digit d # rest"
proof (induction n rule: decimal.induct)
  case (1 n)
  then show ?case
    by (cases "n < 10") (auto simp: decimal.simps [of n])
qed

lemma wcstoull_decimal:
  assumes "n < 2 ^ 64"
  shows "wcstoull c_locale (decimal n) = (of_nat n, length (decimal n))"
proof -
  obtain d rest where d: "d < 10" and shape: "decimal n = wide_digit d # rest"
    using hd_decimal by blast
  have digit: "\<not> wspace c_locale (wide_digit d)" "wide_digit d \<noteq> 43"
    "wide_digit d \<noteq> 45"
    using d by (auto simp: c_locale_def word_le_nat_alt unat_wide_digit word_unat_eq_iff)
  then have "takeWhile (wspace c_locale) (decimal n) = []" "hd (decimal n) \<noteq> 43" "hd (decimal n) \<noteq> 45"
    "length (decimal n) \<noteq> 0"
    by (simp_all only: shape takeWhile.simps list.sel list.size if_False) simp_all
  then show ?thesis
    using assms by (simp add: wcstoull_def read_digits_decimal)
qed


lemma configured_size_range:
  "lo \<le> fallback \<Longrightarrow> fallback \<le> hi \<Longrightarrow> lo \<le> configured_size w env name fallback lo hi"
  "lo \<le> fallback \<Longrightarrow> fallback \<le> hi \<Longrightarrow> configured_size w env name fallback lo hi \<le> hi"
  by (auto simp: configured_size_def Let_def not_less split: prod.splits)

lemma configured_ull_range: "fallback \<le> hi \<Longrightarrow> configured_ull w env name fallback hi \<le> hi"
  by (auto simp: configured_ull_def Let_def not_less split: prod.splits)

lemma sint_small:
  fixes x :: u64
  assumes "x \<le> y" "uint y < 2 ^ 63"
  shows "sint x = uint x"
proof -
  have "uint x < 2 ^ 63"
    using assms by (simp add: word_le_def)
  moreover have "- (2 ^ 63) \<le> uint x"
    by (rule order_trans [of _ 0]) simp_all
  ultimately show ?thesis
    by (simp add: sint_uint signed_take_bit_int_eq_self)
qed

lemma release_pending_loop_cases:
  "release_pending_loop value current obs = Some (old, new, n) \<Longrightarrow>
     old \<in> insert current (fst ` set obs) \<and> new = release_value value old \<and>
     ((\<forall>x \<in> insert current (fst ` set obs). value \<le> x) \<longrightarrow> n = 0)"
proof (induction obs arbitrary: current n)
  case (Cons o' obs)
  obtain seen spurious where o': "o' = (seen, spurious)"
    by (cases o')
  show ?case
  proof (cases "current = seen \<and> \<not> spurious")
    case True
    with Cons.prems o' show ?thesis by (auto simp: Let_def split: if_splits)
  next
    case False
    with Cons.prems o' obtain k where "release_pending_loop value seen obs = Some (old, new, k)"
      and n: "n = (if current < value then 1 else 0) + k"
      by (auto simp: Let_def split: if_splits)
    from Cons.IH [OF this(1)] n o' show ?thesis
      by (auto simp: not_less)
  qed
qed simp

text \<open>A volume that accepted five bytes and wrote two of them.\<close>

definition demo_counters :: writer_counters where
  "demo_counters = zero_counters\<lparr>accepted_bytes := 5, written_bytes := 2, pending_bytes := 3\<rparr>"

definition demo_volume :: volume_state where
  "demo_volume = (make_volume_state ''v'' True)\<lparr>vs_counters := demo_counters\<rparr>"

definition demo_ledger :: meter_sys where
  "demo_ledger = \<lparr>ms_meters = demo_counters, ms_volumes = [demo_volume]\<rparr>"

lemma demo_ledger_reach: "reach meter_initial meter_step demo_ledger"
proof -
  let ?a = "\<lparr>ms_meters = zero_counters, ms_volumes = [make_volume_state ''v'' True]\<rparr>"
  let ?b = "\<lparr>ms_meters = add_accepted 5 zero_counters,
     ms_volumes = [(make_volume_state ''v'' True)\<lparr>vs_counters := add_accepted 5 zero_counters\<rparr>]\<rparr>"
  have "reach meter_initial meter_step \<lparr>ms_meters = zero_counters, ms_volumes = []\<rparr>"
    by (rule reach_initial) (simp add: meter_initial_def)
  moreover have "meter_step \<lparr>ms_meters = zero_counters, ms_volumes = []\<rparr> (M_open ''v'' True) ?a"
    by (simp add: meter_step_simps)
  ultimately have "reach meter_initial meter_step ?a"
    by (rule reach_step)
  moreover have "meter_step ?a (M_call 0 (Accept 5)) ?b"
    by (simp add: meter_step_simps account_def account_allowed_def account_accepted_def
        make_volume_state_def zero_counters_def)
  ultimately have "reach meter_initial meter_step ?b"
    by (rule reach_step)
  moreover have "meter_step ?b (M_call 0 (Written 2)) demo_ledger"
    by (simp add: meter_step_simps account_def account_written_def add_written_def account_allowed_def
        add_accepted_def zero_counters_def make_volume_state_def account_pending_release_exact
        demo_ledger_def demo_counters_def demo_volume_def)
  ultimately show ?thesis
    by (rule reach_step)
qed

section \<open>Properties\<close>

text \<open>
  C30. The ledger equation. Whatever the writers of the volumes do, and in whatever order, in the
  process meters and in every volume the accepted bytes are the written, the discarded and the pending
  ones, no accounting violation is ever counted, and the gauge of the process is exactly the sum of the
  gauges of the volumes.
\<close>

theorem writer_ledger_balanced:
  assumes "reach meter_initial meter_step s"
  shows "balanced (ms_meters s) \<and>
    list_all (\<lambda>v. balanced (vs_counters v) \<and> accounting_violations v = 0) (ms_volumes s) \<and>
    unat (pending_bytes (ms_meters s)) = sum_list (map volume_pending (ms_volumes s))"
  using meters.invar_reach [OF assms] by (auto simp: meter_inv_def list_all_iff)

theorem writer_ledger_balanced_witness:
  "unat (pending_bytes demo_counters) = volume_pending demo_volume \<and> balanced demo_counters"
  using writer_ledger_balanced [OF demo_ledger_reach] by (simp add: demo_ledger_def)

text \<open>
  Every environment gives a usable configuration: between 4 and 256 buffers, an idle timeout of at
  most a day, a poll interval between 50 ms and a minute and a report interval between a second and ten
  minutes; the products and conversions do not wrap.
\<close>

theorem async_writer_config_bounds:
  "buffer_count (configured_async_writer_config w env) \<in> {4..256} \<and>
   idle_timeout (configured_async_writer_config w env) \<in> {0..86400000} \<and>
   space_poll_interval (configured_async_writer_config w env) \<in> {50..60000} \<and>
   space_status_report_interval (configured_async_writer_config w env) \<in> {1000..600000}"
proof -
  let ?p = "configured_size w env ''SUNPACK_VOLUME_SPACE_POLL_MS'' 1000 50 60000"
  let ?r = "configured_size w env ''SUNPACK_VOLUME_SPACE_STATUS_REPORT_MS'' 15000 1000 600000"
  let ?i = "configured_ull w env ''SUNPACK_ASYNC_WRITER_IDLE_SECONDS'' 20 86400"
  have "?p \<le> 60000" "50 \<le> ?p" "?r \<le> 600000" "1000 \<le> ?r" "?i \<le> 86400"
    by (simp_all add: configured_size_range configured_ull_range)
  moreover from this have "sint ?p = uint ?p" "sint ?r = uint ?r"
    using sint_small [of ?p 60000] sint_small [of ?r 600000] by simp_all
  moreover have "unat (?i * 1000) = unat ?i * 1000"
    using \<open>?i \<le> 86400\<close> by (simp add: unat_word_ariths word_le_nat_alt)
  moreover from this have "?i * 1000 \<le> 86400000"
    using \<open>?i \<le> 86400\<close> by (simp add: word_le_nat_alt)
  moreover from this have "sint (?i * 1000) = uint (?i * 1000)"
    using sint_small [of "?i * 1000" 86400000] by simp
  moreover have "buffer_count (configured_async_writer_config w env) \<in> {4..256}"
    by (simp add: configured_async_writer_config_def Let_def configured_size_range)
  ultimately show ?thesis
    by (auto simp: configured_async_writer_config_def Let_def word_le_def)
qed

text \<open>
  C31. A number in the accepted range that is written in decimal is read back exactly, so a setting is
  never silently replaced by the fallback.
\<close>

theorem configured_size_reads_decimal:
  assumes "env (wide name) = Some (decimal n)" "n < 2 ^ 64" "unat lo \<le> n" "n \<le> unat hi"
  shows "configured_size c_locale env name fallback lo hi = of_nat n"
proof -
  have "(2::nat) ^ 64 < 10 ^ 20"
    by simp
  then have len: "length (decimal n) \<le> 20"
    using assms(2) by (intro length_decimal) simp_all
  have ne: "length (decimal n) \<noteq> 0"
    using hd_decimal [of n] by auto
  have "unat (of_nat n :: u64) = n"
    using assms(2) by (simp add: unat_of_nat)
  then show ?thesis
    using len ne assms
    by (simp add: configured_size_def get_environment_variable_def wcstoull_decimal char_at_def
        word_less_nat_alt)
qed

theorem configured_size_reads_decimal_witness:
  "configured_size c_locale (\<lambda>_. Some (decimal 128)) ''SUNPACK_ASYNC_WRITER_BUFFERS'' 64 4 256 = 128"
  using configured_size_reads_decimal [of "\<lambda>_. Some (decimal 128)" "''SUNPACK_ASYNC_WRITER_BUFFERS''" 128 4 256 64]
  by simp

end
