(* ===== verification/Volume_Registry.thy ===== *)
theory Volume_Registry
  imports Writer_Meters "HOL-Library.Multiset"
begin

text \<open>
  The registry of writer facilities (\<^verbatim>\<open>sevenzip_volume_registry.hpp/.cpp\<close>): one entry per volume, with
  the long-lived volume state (counters and space gate), the writer while it exists, the number of
  leases on it and the deadline after which an idle writer is reaped.

  Volume states and writers are shared objects: \<open>r_states\<close> and \<open>r_writers\<close> are the stores that hold them,
  an address is an index. The entries are an association list, because the iteration order of the
  hash table is unspecified: a new entry goes to any place, and \<open>reg_step\<close> may permute them at any time.
\<close>

section \<open>Data\<close>

text \<open>
  What the registry asks of an \<^verbatim>\<open>AsyncFileWriter\<close>: its queued buffers, its open files, its jobs (\<open>True\<close>
  for a weak pointer that has expired) and its free buffers (\<open>True\<close> for one that has memory).
\<close>

record facility =
  fac_state :: nat
  queued_jobs :: u64
  active_files :: nat
  active_jobs_expired :: "bool list"
  free_buffers :: "bool list"

definition new_facility :: "nat \<Rightarrow> u64 \<Rightarrow> facility" where
  "new_facility st buffers = \<lparr>fac_state = st, queued_jobs = 0, active_files = 0,
     active_jobs_expired = [], free_buffers = replicate (unat (max 4 buffers)) False\<rparr>"

definition is_quiescent :: "facility \<Rightarrow> bool" where
  "is_quiescent w \<longleftrightarrow> \<not> (queued_jobs w \<noteq> 0 \<or> active_files w \<noteq> 0) \<and> list_all (\<lambda>e. e) (active_jobs_expired w)"

definition has_active_jobs :: "facility \<Rightarrow> bool" where
  "has_active_jobs w \<longleftrightarrow> list_ex (\<lambda>e. \<not> e) (active_jobs_expired w)"

definition k_buffer_size :: u64 where
  "k_buffer_size = 2 ^ 20"

fun idle_bytes :: "bool list \<Rightarrow> u64" where
  "idle_bytes [] = 0"
| "idle_bytes (b # bs) = (if b then k_buffer_size + idle_bytes bs else idle_bytes bs)"

definition idle_memory_bytes :: "facility \<Rightarrow> u64" where
  "idle_memory_bytes w = idle_bytes (free_buffers w)"

definition writer_reclaim_idle_memory :: "facility \<Rightarrow> facility" where
  "writer_reclaim_idle_memory w = w\<lparr>free_buffers := map (\<lambda>b. False) (free_buffers w)\<rparr>"

record reg_entry =
  e_state :: nat
  e_writer :: "nat option"
  e_leases :: u64
  e_deadline :: time

record registry =
  r_meters :: writer_counters
  r_config :: async_writer_config
  r_sink :: bool
  r_entries :: "(string \<times> reg_entry) list"
  r_reclaimed :: u64
  r_states :: "volume_state list"
  r_writers :: "facility list"

definition new_registry :: "writer_counters option \<Rightarrow> async_writer_config \<Rightarrow> bool \<Rightarrow> registry" where
  "new_registry meters config sink =
     \<lparr>r_meters = (case meters of Some m \<Rightarrow> m | None \<Rightarrow> zero_counters), r_config = config, r_sink = sink,
      r_entries = [], r_reclaimed = 0, r_states = [], r_writers = []\<rparr>"

record reg_lease =
  l_registry :: bool
  l_writer :: "nat option"
  l_created :: bool

definition empty_reg_lease :: reg_lease where
  "empty_reg_lease = \<lparr>l_registry = False, l_writer = None, l_created = False\<rparr>"

definition is_persistent_key :: "string \<Rightarrow> bool" where
  "is_persistent_key key \<longleftrightarrow> key \<noteq> [] \<and> take 4 key \<noteq> ''job:''"

text \<open>The transition a gate of the registry hands to the sink of the registry, if there is one;
  \<open>alive\<close> tells whether the weak pointer to the volume state can still be locked.\<close>

definition enrich_transition :: "registry \<Rightarrow> nat \<Rightarrow> bool \<Rightarrow> space_transition \<Rightarrow> space_transition option" where
  "enrich_transition r st alive t =
     (if \<not> r_sink r then None
      else if \<not> alive then Some t
      else Some (t\<lparr>tr_pending_bytes := pending_bytes_of (vs_counters (r_states r ! st))\<rparr>))"

section \<open>Operations\<close>

text \<open>
  \<^verbatim>\<open>acquire\<close>. The argument \<open>place\<close> is where the hash table puts a new entry, \<open>constructed\<close> whether the
  constructor of the writer succeeds; it runs before the entry is published, so a failure leaves the
  entries as they were. The constructor subscribes the wake target of the writer to the gate.
\<close>

definition ensure_gate :: "registry \<Rightarrow> string \<Rightarrow> volume_state \<Rightarrow> volume_state" where
  "ensure_gate r key st =
     (if vs_gate st = None \<and> key \<noteq> [] then st\<lparr>vs_gate := Some (new_gate key [] True 1000)\<rparr> else st)"

definition subscribe_writer :: "os \<Rightarrow> nat \<Rightarrow> volume_state \<Rightarrow> volume_state" where
  "subscribe_writer os wr st = st\<lparr>vs_gate := map_option (subscribe os wr) (vs_gate st)\<rparr>"

definition lease_entry :: "registry \<Rightarrow> nat \<Rightarrow> nat option \<Rightarrow> u64 \<Rightarrow> nat \<times> bool \<times> reg_entry" where
  "lease_entry r st writer n =
     (let wr = (case writer of Some wr \<Rightarrow> wr | None \<Rightarrow> length (r_writers r))
      in (wr, writer = None, \<lparr>e_state = st, e_writer = Some wr, e_leases = n + 1, e_deadline = time_zero\<rparr>))"

definition add_writer :: "os \<Rightarrow> nat \<Rightarrow> registry \<Rightarrow> registry" where
  "add_writer os st r =
     r\<lparr>r_writers := r_writers r @ [new_facility st (buffer_count (r_config r))],
       r_states := (r_states r)[st := subscribe_writer os (length (r_writers r)) (r_states r ! st)]\<rparr>"

definition acquire :: "os \<Rightarrow> nat \<Rightarrow> bool \<Rightarrow> string \<Rightarrow> registry \<Rightarrow> (reg_lease \<times> registry) option" where
  "acquire os place constructed key r =
     (case map_of (r_entries r) key of
        None \<Rightarrow>
          if \<not> constructed then None
          else
            let st = length (r_states r);
                r1 = r\<lparr>r_states := r_states r @ [ensure_gate r key (make_volume_state key (is_persistent_key key))]\<rparr>;
                (wr, created, entry) = lease_entry r1 st None 0
            in Some (\<lparr>l_registry = True, l_writer = Some wr, l_created = created\<rparr>,
                     (add_writer os st r1)\<lparr>r_entries :=
                        take place (r_entries r) @ (key, entry) # drop place (r_entries r)\<rparr>)
      | Some old \<Rightarrow>
          if e_writer old = None \<and> \<not> constructed then None
          else
            let st = e_state old;
                r1 = r\<lparr>r_states := (r_states r)[st := ensure_gate r key (r_states r ! st)]\<rparr>;
                (wr, created, entry) = lease_entry r1 st (e_writer old) (e_leases old);
                r2 = (if e_writer old = None then add_writer os st r1 else r1)
            in Some (\<lparr>l_registry = True, l_writer = Some wr, l_created = created\<rparr>,
                     r2\<lparr>r_entries := map (\<lambda>(k, e). (k, if k = key then entry else e)) (r_entries r)\<rparr>))"

definition release_entry :: "time \<Rightarrow> registry \<Rightarrow> reg_entry \<Rightarrow> reg_entry" where
  "release_entry now r e0 =
     (let e = (if e_leases e0 \<noteq> 0 then e0\<lparr>e_leases := e_leases e0 - 1\<rparr> else e0)
      in if e_leases e = 0 then
           e\<lparr>e_deadline :=
              (if persistent (r_states r ! e_state e)
               then (if idle_timeout (r_config r) > 0 then now + ms_ticks (idle_timeout (r_config r)) else time_zero)
               else now)\<rparr>
         else e)"

definition release :: "time \<Rightarrow> string \<Rightarrow> registry \<Rightarrow> registry" where
  "release now key r =
     (case map_of (r_entries r) key of
        None \<Rightarrow> r
      | Some _ \<Rightarrow> r\<lparr>r_entries := map (\<lambda>(k, e). (k, if k = key then release_entry now r e else e)) (r_entries r)\<rparr>)"

definition writer_key :: "registry \<Rightarrow> nat \<Rightarrow> string" where
  "writer_key r wr = vs_key (r_states r ! fac_state (r_writers r ! wr))"

definition lease_reset :: "time \<Rightarrow> reg_lease \<Rightarrow> registry \<Rightarrow> reg_lease \<times> registry" where
  "lease_reset now l r =
     (empty_reg_lease,
      case l_writer l of Some wr \<Rightarrow> if l_registry l then release now (writer_key r wr) r else r | None \<Rightarrow> r)"

definition reg_lease_move :: "reg_lease \<Rightarrow> reg_lease \<times> reg_lease" where
  "reg_lease_move l = (l, empty_reg_lease)"

definition reg_lease_move_assign :: "time \<Rightarrow> reg_lease \<Rightarrow> reg_lease \<Rightarrow> registry \<Rightarrow> reg_lease \<times> reg_lease \<times> registry" where
  "reg_lease_move_assign now dst src r =
     (case lease_reset now dst r of (_, r1) \<Rightarrow> (src, empty_reg_lease, r1))"

definition lease_volume :: "reg_lease \<Rightarrow> registry \<Rightarrow> nat option" where
  "lease_volume l r = map_option (\<lambda>wr. fac_state (r_writers r ! wr)) (l_writer l)"

record aggregate =
  ag_meters :: meter_snapshot
  live_facilities :: nat
  any_active_jobs :: bool

definition live_writers :: "registry \<Rightarrow> nat list" where
  "live_writers r = List.map_filter (\<lambda>(k, e). e_writer e) (r_entries r)"

definition registry_snapshot :: "registry \<Rightarrow> aggregate" where
  "registry_snapshot r =
     \<lparr>ag_meters = snapshot_counters (r_meters r), live_facilities = length (live_writers r),
      any_active_jobs = list_ex (\<lambda>wr. has_active_jobs (r_writers r ! wr)) (live_writers r)\<rparr>"

subsection \<open>Reaping\<close>

definition reapable :: "time \<Rightarrow> registry \<Rightarrow> reg_entry \<Rightarrow> bool" where
  "reapable now r e =
     (case e_writer e of None \<Rightarrow> False
      | Some wr \<Rightarrow> \<not> (e_leases e \<noteq> 0 \<or> e_deadline e = time_zero \<or> now < e_deadline e \<or>
                      \<not> is_quiescent (r_writers r ! wr)))"

fun reap_entries :: "time \<Rightarrow> registry \<Rightarrow> (string \<times> reg_entry) list \<Rightarrow> string list \<times> (string \<times> reg_entry) list" where
  "reap_entries now r [] = ([], [])"
| "reap_entries now r ((key, e) # rest) =
     (let (reclaimed, kept) = reap_entries now r rest
      in if \<not> reapable now r e then (reclaimed, (key, e) # kept)
         else if persistent (r_states r ! e_state e)
         then (key # reclaimed, (key, e\<lparr>e_writer := None, e_deadline := time_zero\<rparr>) # kept)
         else (key # reclaimed, kept))"

definition is_retained_state :: "registry \<Rightarrow> reg_entry \<Rightarrow> bool" where
  "is_retained_state r e \<longleftrightarrow> persistent (r_states r ! e_state e) \<and> e_leases e = 0 \<and> e_writer e = None"

definition k_max_retained :: nat where
  "k_max_retained = 64"

fun trim_entries :: "(reg_entry \<Rightarrow> bool) \<Rightarrow> nat \<Rightarrow> (string \<times> reg_entry) list \<Rightarrow> (string \<times> reg_entry) list" where
  "trim_entries retained n [] = []"
| "trim_entries retained n ((key, e) # rest) =
     (if n = 0 then (key, e) # rest
      else if retained e then trim_entries retained (n - 1) rest
      else (key, e) # trim_entries retained n rest)"

definition retained_count :: "registry \<Rightarrow> (string \<times> reg_entry) list \<Rightarrow> nat" where
  "retained_count r es = length (filter (\<lambda>(k, e). is_retained_state r e) es)"

definition reap_idle :: "time \<Rightarrow> registry \<Rightarrow> string list \<times> registry" where
  "reap_idle now r =
     (let (reclaimed, kept) = reap_entries now r (r_entries r);
          n = retained_count r kept;
          trimmed = (if n > k_max_retained then trim_entries (is_retained_state r) (n - k_max_retained) kept else kept)
      in (reclaimed, r\<lparr>r_entries := trimmed, r_reclaimed := r_reclaimed r + of_nat (length reclaimed)\<rparr>))"

fun earliest_deadline :: "time option \<Rightarrow> (string \<times> reg_entry) list \<Rightarrow> time option" where
  "earliest_deadline best [] = best"
| "earliest_deadline best ((key, e) # rest) =
     (if e_leases e \<noteq> 0 \<or> e_writer e = None \<or> e_deadline e = time_zero then earliest_deadline best rest
      else case best of
             None \<Rightarrow> earliest_deadline (Some (e_deadline e)) rest
           | Some d \<Rightarrow> earliest_deadline (if e_deadline e < d then Some (e_deadline e) else best) rest)"

definition next_reap_deadline :: "registry \<Rightarrow> time option" where
  "next_reap_deadline r = earliest_deadline None (r_entries r)"

definition volume_keys :: "registry \<Rightarrow> string list" where
  "volume_keys r = map fst (r_entries r)"

definition blocked_volumes :: "bool \<Rightarrow> registry \<Rightarrow> nat list" where
  "blocked_volumes require_affected_jobs r =
     filter (\<lambda>st. case vs_gate (r_states r ! st) of None \<Rightarrow> False
              | Some g \<Rightarrow> \<not> (\<not> gate_blocked g \<or> (require_affected_jobs \<and> \<not> has_affected_jobs g)))
       (map (\<lambda>(k, e). e_state e) (r_entries r))"

definition total_idle :: "registry \<Rightarrow> u64" where
  "total_idle r = foldl (\<lambda>bytes wr. bytes + idle_memory_bytes (r_writers r ! wr)) 0 (live_writers r)"

definition reclaim_idle_memory :: "registry \<Rightarrow> registry" where
  "reclaim_idle_memory r =
     (if total_idle r \<ge> 8 * 2 ^ 20
      then r\<lparr>r_writers := foldl (\<lambda>ws wr. ws[wr := writer_reclaim_idle_memory (ws ! wr)]) (r_writers r) (live_writers r)\<rparr>
      else r)"

fun wake_states :: "os \<Rightarrow> nat list \<Rightarrow> volume_state list \<Rightarrow> volume_state list \<times> gate_effect list" where
  "wake_states os [] states = (states, [])"
| "wake_states os (st # rest) states =
     (case vs_gate (states ! st) of
        None \<Rightarrow> wake_states os rest states
      | Some g \<Rightarrow> (let (g', woken) = wake_waiters os g;
                       (states', more) = wake_states os rest (states[st := (states ! st)\<lparr>vs_gate := Some g'\<rparr>])
                   in (states', woken @ more)))"

definition abort_all_space_gates :: "os \<Rightarrow> registry \<Rightarrow> registry \<times> gate_effect list" where
  "abort_all_space_gates os r =
     (let (states, effects) = wake_states os (blocked_volumes False r) (r_states r)
      in (r\<lparr>r_states := states\<rparr>, effects))"

definition registry_shutdown :: "registry \<Rightarrow> registry" where
  "registry_shutdown r = r\<lparr>r_entries := []\<rparr>"

section \<open>Job registration\<close>

definition space_job_register ::
    "os \<Rightarrow> reg_lease \<Rightarrow> string \<Rightarrow> registry \<Rightarrow> nat option \<times> registry \<times> gate_effect list" where
  "space_job_register os l job r =
     (if job = [] then (None, r, [])
      else case lease_volume l r of
             None \<Rightarrow> (None, r, [])
           | Some st \<Rightarrow>
               (case vs_gate (r_states r ! st) of
                  None \<Rightarrow> (None, r, [])
                | Some g \<Rightarrow>
                    (case register_job os job g of
                       (_, g', effects) \<Rightarrow>
                         (Some st, r\<lparr>r_states := (r_states r)[st := (r_states r ! st)\<lparr>vs_gate := Some g'\<rparr>]\<rparr>, effects))))"

definition space_job_unregister :: "nat option \<Rightarrow> string \<Rightarrow> registry \<Rightarrow> registry" where
  "space_job_unregister registered job r =
     (case registered of None \<Rightarrow> r
      | Some st \<Rightarrow> r\<lparr>r_states := (r_states r)[st := (r_states r ! st)\<lparr>vs_gate := map_option (unregister_job job) (vs_gate (r_states r ! st))\<rparr>]\<rparr>)"


section \<open>The registry as a map\<close>

text \<open>
  Everything the registry promises is about the finite map its entries represent. The following lemmas
  give the effect of each operation on that map.
\<close>

abbreviation ent :: "registry \<Rightarrow> string \<Rightarrow> reg_entry option" where
  "ent r \<equiv> map_of (r_entries r)"

lemma map_of_insert_at:
  assumes "map_of es k = None"
  shows "(map_of (drop p es))(k \<mapsto> e) ++ map_of (take p es) = (map_of es)(k \<mapsto> e)"
proof
  fix x
  have "map_of es = map_of (drop p es) ++ map_of (take p es)"
    by (metis append_take_drop_id map_of_append)
  then have eq: "map_of es x = (map_of (drop p es) ++ map_of (take p es)) x"
    and "map_of (take p es) k = None"
    using assms by (simp_all add: map_add_None)
  then show "((map_of (drop p es))(k \<mapsto> e) ++ map_of (take p es)) x = ((map_of es)(k \<mapsto> e)) x"
    by (cases "x = k") (simp_all add: map_add_def split: option.split)
qed

lemma map_of_update_key:
  "map_of (map (\<lambda>(k, e). (k, if k = key then f e else e)) es) =
     (\<lambda>k. if k = key then map_option f (map_of es k) else map_of es k)"
  by (induction es) (auto simp: fun_eq_iff)

lemma keys_update_key [simp]:
  "map fst (map (\<lambda>(k, e). (k, if k = key then f k e else e)) es) = map fst es"
  by (induction es) auto

lemma map_of_permuted:
  assumes "mset es = mset es'" "distinct (map fst es)"
  shows "map_of es = map_of es'" "distinct (map fst es')"
proof -
  have keys: "mset (map fst es) = mset (map fst es')"
    using assms(1) by simp
  then show "distinct (map fst es')"
    using assms(2) by (metis mset_eq_imp_distinct_iff)
  then show "map_of es = map_of es'"
    using map_of_inject_set [OF assms(2)] mset_eq_setD [OF assms(1)] by blast
qed

text \<open>The stores only grow, and an object keeps its key, its kind and the volume it belongs to.\<close>

definition stores_extend :: "registry \<Rightarrow> registry \<Rightarrow> bool" where
  "stores_extend r r' \<longleftrightarrow> r_config r' = r_config r \<and>
     length (r_states r) \<le> length (r_states r') \<and> length (r_writers r) \<le> length (r_writers r') \<and>
     (\<forall>i < length (r_states r). vs_key (r_states r' ! i) = vs_key (r_states r ! i) \<and>
        persistent (r_states r' ! i) = persistent (r_states r ! i)) \<and>
     (\<forall>i < length (r_writers r). fac_state (r_writers r' ! i) = fac_state (r_writers r ! i))"

lemma stores_extend_refl [simp]: "stores_extend r r"
  by (simp add: stores_extend_def)

lemma stores_extend_same:
  "r_config r' = r_config r \<Longrightarrow> r_states r' = r_states r \<Longrightarrow> r_writers r' = r_writers r \<Longrightarrow> stores_extend r r'"
  by (simp add: stores_extend_def)

lemma release_ent:
  "ent (release now key r) = (case ent r key of None \<Rightarrow> ent r | Some e \<Rightarrow> (ent r)(key \<mapsto> release_entry now r e))"
  by (auto simp: release_def map_of_update_key fun_eq_iff split: option.splits)

lemma release_frame [simp]:
  "r_states (release now key r) = r_states r" "r_writers (release now key r) = r_writers r"
  "r_config (release now key r) = r_config r" "map fst (r_entries (release now key r)) = map fst (r_entries r)"
  by (auto simp: release_def split: option.splits)

text \<open>What \<^verbatim>\<open>acquire\<close> returns and leaves behind.\<close>

definition acquired :: "registry \<Rightarrow> string \<Rightarrow> reg_lease \<Rightarrow> registry \<Rightarrow> nat \<Rightarrow> nat \<Rightarrow> u64 \<Rightarrow> bool" where
  "acquired r key l r' st wr n \<longleftrightarrow>
     ent r' = (ent r)(key \<mapsto> \<lparr>e_state = st, e_writer = Some wr, e_leases = n + 1, e_deadline = time_zero\<rparr>) \<and>
     l_registry l \<and> l_writer l = Some wr \<and> stores_extend r r' \<and>
     wr < length (r_writers r') \<and> fac_state (r_writers r' ! wr) = st \<and>
     st < length (r_states r') \<and> vs_key (r_states r' ! st) = key \<and>
     persistent (r_states r' ! st) = is_persistent_key key"

definition entry_wf :: "registry \<Rightarrow> string \<Rightarrow> reg_entry \<Rightarrow> bool" where
  "entry_wf r k e \<longleftrightarrow> e_state e < length (r_states r) \<and> vs_key (r_states r ! e_state e) = k \<and>
     persistent (r_states r ! e_state e) = is_persistent_key k \<and>
     (case e_writer e of None \<Rightarrow> True
      | Some wr \<Rightarrow> wr < length (r_writers r) \<and> fac_state (r_writers r ! wr) = e_state e)"

lemma ensure_gate_frame [simp]:
  "vs_key (ensure_gate r key v) = vs_key v" "persistent (ensure_gate r key v) = persistent v"
  by (simp_all add: ensure_gate_def)

lemma subscribe_writer_frame [simp]:
  "vs_key (subscribe_writer os wr v) = vs_key v" "persistent (subscribe_writer os wr v) = persistent v"
  by (simp_all add: subscribe_writer_def)

lemma acquire_new:
  assumes "acquire os place ok key r = Some (l, r')" "ent r key = None"
  shows "acquired r key l r' (length (r_states r)) (length (r_writers r)) 0"
  using assms
  by (auto simp: acquire_def acquired_def lease_entry_def add_writer_def map_of_insert_at stores_extend_def
      new_facility_def nth_append nth_list_update make_volume_state_def Let_def split: if_splits)

lemma acquire_old:
  assumes "acquire os place ok key r = Some (l, r')" "ent r key = Some e" "entry_wf r key e"
  shows "\<exists>wr. acquired r key l r' (e_state e) wr (e_leases e) \<and>
    (e_writer e = Some wr \<or> e_writer e = None \<and> wr = length (r_writers r))"
  using assms
  by (cases "e_writer e")
    (auto simp: acquire_def acquired_def entry_wf_def lease_entry_def add_writer_def map_of_update_key
      stores_extend_def new_facility_def nth_append nth_list_update Let_def fun_eq_iff split: if_splits)


subsection \<open>Reaping\<close>

definition reaped :: "time \<Rightarrow> registry \<Rightarrow> reg_entry \<Rightarrow> reg_entry option" where
  "reaped now r e = (if \<not> reapable now r e then Some e
     else if persistent (r_states r ! e_state e) then Some (e\<lparr>e_writer := None, e_deadline := time_zero\<rparr>)
     else None)"

lemma reap_entries_keys:
  "fst (reap_entries now r es) = map fst (filter (\<lambda>x. reapable now r (snd x)) es)"
  by (induction es) (auto simp: Let_def split: prod.splits)

lemma reap_idle_keys:
  "fst (reap_idle now r) = map fst (filter (\<lambda>x. reapable now r (snd x)) (r_entries r))"
  by (simp add: reap_idle_def Let_def case_prod_unfold reap_entries_keys)

lemma reap_entries_spec:
  assumes "distinct (map fst es)"
  shows "map_of (snd (reap_entries now r es)) = (\<lambda>k. Option.bind (map_of es k) (reaped now r))"
    and "distinct (map fst (snd (reap_entries now r es)))"
    and "set (map fst (snd (reap_entries now r es))) \<subseteq> set (map fst es)"
proof -
  have sub: "set (map fst (snd (reap_entries now r es))) \<subseteq> set (map fst es)" for es
    by (induction es) (auto simp: Let_def image_subset_iff split: prod.splits if_splits)
  then show "set (map fst (snd (reap_entries now r es))) \<subseteq> set (map fst es)"
    by blast
  show "distinct (map fst (snd (reap_entries now r es)))"
    using assms
  proof (induction es)
    case (Cons x es)
    then have "fst x \<notin> set (map fst (snd (reap_entries now r es)))"
      using sub [of es] by auto
    with Cons show ?case
      by (cases x) (auto simp: Let_def split: prod.splits)
  qed simp
  show "map_of (snd (reap_entries now r es)) = (\<lambda>k. Option.bind (map_of es k) (reaped now r))"
    using assms
  proof (induction es)
    case (Cons x es)
    obtain k e where x: "x = (k, e)"
      by (cases x)
    have "map_of es k = None"
      using Cons.prems x by (simp add: map_of_eq_None_iff)
    with Cons x show ?case
      by (auto simp: Let_def reaped_def fun_eq_iff split: prod.splits)
  qed simp
qed

lemma trim_entries_spec:
  assumes "distinct (map fst es)"
  shows "map_of (trim_entries p n es) k = None \<or> map_of (trim_entries p n es) k = map_of es k"
    and "map_of es k = Some e \<Longrightarrow> \<not> p e \<Longrightarrow> map_of (trim_entries p n es) k = Some e"
    and "distinct (map fst (trim_entries p n es))"
    and "set (trim_entries p n es) \<subseteq> set es"
    and "length (filter (p \<circ> snd) (trim_entries p n es)) = length (filter (p \<circ> snd) es) - n"
proof -
  have sub: "set (trim_entries p n es) \<subseteq> set es" for p n es
    by (induction p n es rule: trim_entries.induct) auto
  then show "set (trim_entries p n es) \<subseteq> set es"
    by blast
  show dist: "distinct (map fst (trim_entries p n es))"
    using assms
  proof (induction p n es rule: trim_entries.induct)
    case (2 p n key e rest)
    have "key \<notin> set (map fst (trim_entries p n rest))"
      using 2(3) sub [of p n rest] by auto
    with 2 show ?case by (cases "n = 0") auto
  qed simp
  show "length (filter (p \<circ> snd) (trim_entries p n es)) = length (filter (p \<circ> snd) es) - n"
    by (induction p n es rule: trim_entries.induct) auto
  show "map_of (trim_entries p n es) k = None \<or> map_of (trim_entries p n es) k = map_of es k"
  proof (cases "map_of (trim_entries p n es) k")
    case (Some e')
    then have "(k, e') \<in> set es"
      using sub [of p n es] by (auto dest: map_of_SomeD)
    with Some assms show ?thesis by simp
  qed simp
  have keep: "(k, e) \<in> set es \<Longrightarrow> \<not> p e \<Longrightarrow> (k, e) \<in> set (trim_entries p n es)" for es n
    by (induction p n es rule: trim_entries.induct) auto
  show "map_of es k = Some e \<Longrightarrow> \<not> p e \<Longrightarrow> map_of (trim_entries p n es) k = Some e"
    using keep [of es n] dist by (auto dest: map_of_SomeD)
qed

lemma reap_idle_spec:
  assumes "distinct (map fst (r_entries r))" "reap_idle now r = (keys, r')"
  shows "keys = map fst (filter (\<lambda>x. reapable now r (snd x)) (r_entries r))"
    and "ent r' k = Some e \<Longrightarrow> Option.bind (ent r k) (reaped now r) = Some e"
    and "Option.bind (ent r k) (reaped now r) = Some e \<Longrightarrow> \<not> is_retained_state r e \<Longrightarrow> ent r' k = Some e"
    and "distinct (map fst (r_entries r'))"
    and "retained_count r' (r_entries r') \<le> k_max_retained"
    and "r_states r' = r_states r" "r_writers r' = r_writers r" "r_config r' = r_config r"
proof -
  let ?kept = "snd (reap_entries now r (r_entries r))"
  let ?n = "retained_count r ?kept"
  note spec = reap_entries_spec [OF assms(1), of now r]
  note trim = trim_entries_spec [OF spec(2), where p = "is_retained_state r" and n = "?n - k_max_retained"]
  have r': "r' = r\<lparr>r_entries := (if ?n > k_max_retained then trim_entries (is_retained_state r) (?n - k_max_retained) ?kept else ?kept),
       r_reclaimed := r_reclaimed r + of_nat (length keys)\<rparr>" and keys: "keys = fst (reap_entries now r (r_entries r))"
    using assms(2) by (auto simp: reap_idle_def Let_def split: prod.splits)
  show "keys = map fst (filter (\<lambda>x. reapable now r (snd x)) (r_entries r))"
    using keys by (simp add: reap_entries_keys)
  show "r_states r' = r_states r" "r_writers r' = r_writers r" "r_config r' = r_config r"
    by (simp_all add: r')
  show "distinct (map fst (r_entries r'))"
    using spec(2) trim(3) by (simp add: r')
  show "ent r' k = Some e \<Longrightarrow> Option.bind (ent r k) (reaped now r) = Some e"
    using trim(1) [where k = k] fun_cong [OF spec(1), of k] by (auto simp: r' split: if_splits)
  show "Option.bind (ent r k) (reaped now r) = Some e \<Longrightarrow> \<not> is_retained_state r e \<Longrightarrow> ent r' k = Some e"
    using trim(2) [where k = k and e = e] fun_cong [OF spec(1), of k] by (auto simp: r' split: if_splits)
  have count: "retained_count r' es = length (filter (is_retained_state r \<circ> snd) es)" for es
    by (simp add: retained_count_def is_retained_state_def r' case_prod_unfold comp_def)
  have "?n = length (filter (is_retained_state r \<circ> snd) ?kept)"
    by (simp add: retained_count_def case_prod_unfold comp_def)
  then show "retained_count r' (r_entries r') \<le> k_max_retained"
    unfolding count using trim(5) by (auto simp: r')
qed


section \<open>Leases and entries\<close>

record reg_sys =
  rs_reg :: registry
  rs_leases :: "reg_lease list"

datatype reg_label = R_acquire string | R_reset nat | R_move nat nat | R_reap "string list" | R_rehash | R_progress

inductive reg_step :: "reg_sys \<Rightarrow> reg_label \<Rightarrow> reg_sys \<Rightarrow> bool" where
  acquired: "acquire os place constructed key (rs_reg s) = Some (l, r) \<Longrightarrow> length (rs_leases s) < 2 ^ 64 - 1 \<Longrightarrow>
    reg_step s (R_acquire key) \<lparr>rs_reg = r, rs_leases = rs_leases s @ [l]\<rparr>"
| reset: "i < length (rs_leases s) \<Longrightarrow> 0 < now \<Longrightarrow> lease_reset now (rs_leases s ! i) (rs_reg s) = (l, r) \<Longrightarrow>
    reg_step s (R_reset i) \<lparr>rs_reg = r, rs_leases = (rs_leases s)[i := l]\<rparr>"
| move: "i < length (rs_leases s) \<Longrightarrow> j < length (rs_leases s) \<Longrightarrow> i \<noteq> j \<Longrightarrow> 0 < now \<Longrightarrow>
    reg_lease_move_assign now (rs_leases s ! i) (rs_leases s ! j) (rs_reg s) = (dst, src, r) \<Longrightarrow>
    reg_step s (R_move i j) \<lparr>rs_reg = r, rs_leases = (rs_leases s)[i := dst, j := src]\<rparr>"
| reap: "reap_idle now (rs_reg s) = (keys, r) \<Longrightarrow> reg_step s (R_reap keys) (s\<lparr>rs_reg := r\<rparr>)"
| rehash: "mset es = mset (r_entries (rs_reg s)) \<Longrightarrow>
    reg_step s R_rehash (s\<lparr>rs_reg := (rs_reg s)\<lparr>r_entries := es\<rparr>\<rparr>)"
| progress: "stores_extend (rs_reg s) r \<Longrightarrow> length (r_states r) = length (r_states (rs_reg s)) \<Longrightarrow>
    length (r_writers r) = length (r_writers (rs_reg s)) \<Longrightarrow> r_entries r = r_entries (rs_reg s) \<Longrightarrow>
    reg_step s R_progress (s\<lparr>rs_reg := r\<rparr>)"

definition reg_initial :: "reg_sys \<Rightarrow> bool" where
  "reg_initial s \<longleftrightarrow> (\<exists>m c k. s = \<lparr>rs_reg = new_registry m c k, rs_leases = []\<rparr>)"

definition lease_on :: "registry \<Rightarrow> string \<Rightarrow> reg_lease \<Rightarrow> bool" where
  "lease_on r k l \<longleftrightarrow> (case l_writer l of None \<Rightarrow> False | Some wr \<Rightarrow> writer_key r wr = k)"

definition lease_count :: "reg_sys \<Rightarrow> string \<Rightarrow> nat" where
  "lease_count s k = length (filter (lease_on (rs_reg s) k) (rs_leases s))"

definition lease_ok :: "registry \<Rightarrow> reg_lease \<Rightarrow> bool" where
  "lease_ok r l \<longleftrightarrow> (case l_writer l of None \<Rightarrow> \<not> l_registry l
     | Some wr \<Rightarrow> l_registry l \<and> (\<exists>e. ent r (writer_key r wr) = Some e \<and> e_writer e = Some wr))"

definition armed_ok :: "registry \<Rightarrow> reg_entry \<Rightarrow> bool" where
  "armed_ok r e \<longleftrightarrow> (if e_leases e \<noteq> 0 then e_deadline e = time_zero
     else e_writer e \<noteq> None \<longrightarrow> e_deadline e \<noteq> time_zero \<or>
       persistent (r_states r ! e_state e) \<and> idle_timeout (r_config r) \<le> 0)"

definition reg_inv :: "reg_sys \<Rightarrow> bool" where
  "reg_inv s \<longleftrightarrow> distinct (map fst (r_entries (rs_reg s))) \<and> length (rs_leases s) < 2 ^ 64 \<and>
     (\<forall>k e. ent (rs_reg s) k = Some e \<longrightarrow>
        entry_wf (rs_reg s) k e \<and> armed_ok (rs_reg s) e \<and> unat (e_leases e) = lease_count s k) \<and>
     (\<forall>l \<in> set (rs_leases s). lease_ok (rs_reg s) l)"

lemma entry_wf_extend: "entry_wf r k e \<Longrightarrow> stores_extend r r' \<Longrightarrow> entry_wf r' k e"
  by (auto simp: entry_wf_def stores_extend_def split: option.splits)

lemma armed_ok_extend: "armed_ok r e \<Longrightarrow> entry_wf r k e \<Longrightarrow> stores_extend r r' \<Longrightarrow> armed_ok r' e"
  by (auto simp: armed_ok_def entry_wf_def stores_extend_def)

lemma writer_key_entry:
  "entry_wf r k e \<Longrightarrow> e_writer e = Some wr \<Longrightarrow> writer_key r wr = k"
  by (simp add: entry_wf_def writer_key_def)

lemma reg_invD:
  assumes "reg_inv s"
  shows "ent (rs_reg s) k = Some e \<Longrightarrow> entry_wf (rs_reg s) k e"
    and "ent (rs_reg s) k = Some e \<Longrightarrow> armed_ok (rs_reg s) e"
    and "ent (rs_reg s) k = Some e \<Longrightarrow> unat (e_leases e) = lease_count s k"
    and "l \<in> set (rs_leases s) \<Longrightarrow> lease_ok (rs_reg s) l"
    and "distinct (map fst (r_entries (rs_reg s)))"
    and "length (rs_leases s) < 2 ^ 64"
  using assms unfolding reg_inv_def by blast+

lemma reg_invI:
  assumes "distinct (map fst (r_entries (rs_reg s)))" "length (rs_leases s) < 2 ^ 64"
    and "\<And>k e. ent (rs_reg s) k = Some e \<Longrightarrow>
      entry_wf (rs_reg s) k e \<and> armed_ok (rs_reg s) e \<and> unat (e_leases e) = lease_count s k"
    and "\<And>l. l \<in> set (rs_leases s) \<Longrightarrow> lease_ok (rs_reg s) l"
  shows "reg_inv s"
  using assms unfolding reg_inv_def by blast

text \<open>The entry a live lease stands on.\<close>

lemma lease_entryE:
  assumes "reg_inv s" "l \<in> set (rs_leases s)" "l_writer l = Some wr"
  obtains e where "ent (rs_reg s) (writer_key (rs_reg s) wr) = Some e" "e_writer e = Some wr"
    "entry_wf (rs_reg s) (writer_key (rs_reg s) wr) e" "e_leases e \<noteq> 0" "l_registry l"
proof -
  obtain e where e: "ent (rs_reg s) (writer_key (rs_reg s) wr) = Some e" "e_writer e = Some wr" "l_registry l"
    using reg_invD(4) [OF assms(1,2)] assms(3) by (auto simp only: lease_ok_def option.case)
  have "l \<in> set (filter (lease_on (rs_reg s) (writer_key (rs_reg s) wr)) (rs_leases s))"
    using assms(2,3) by (simp add: lease_on_def)
  then have "lease_count s (writer_key (rs_reg s) wr) \<noteq> 0"
    by (auto simp: lease_count_def filter_empty_conv)
  then have "e_leases e \<noteq> 0"
    using reg_invD(3) [OF assms(1) e(1)] by (metis unat_0)
  with that e reg_invD(1) [OF assms(1) e(1)] show thesis
    by blast
qed

text \<open>A lease keeps its key when the stores grow.\<close>

lemma writer_key_extend:
  assumes "reg_inv s" "l \<in> set (rs_leases s)" "stores_extend (rs_reg s) r'" "l_writer l = Some wr"
  shows "writer_key r' wr = writer_key (rs_reg s) wr"
proof -
  obtain e where e: "entry_wf (rs_reg s) (writer_key (rs_reg s) wr) e" "e_writer e = Some wr"
    using lease_entryE [OF assms(1,2,4)] by metis
  from entry_wf_extend [OF e(1) assms(3)] e(2) show ?thesis
    by (rule writer_key_entry)
qed

lemma lease_on_extend:
  assumes "reg_inv s" "l \<in> set (rs_leases s)" "stores_extend (rs_reg s) r'"
  shows "lease_on r' k l = lease_on (rs_reg s) k l"
  using writer_key_extend [OF assms] by (auto simp: lease_on_def split: option.splits)

lemma lease_count_extend:
  assumes "reg_inv s" "stores_extend (rs_reg s) r'"
  shows "lease_count \<lparr>rs_reg = r', rs_leases = rs_leases s\<rparr> k = lease_count s k"
proof -
  have "filter (lease_on r' k) (rs_leases s) = filter (lease_on (rs_reg s) k) (rs_leases s)"
    using lease_on_extend [OF assms(1) _ assms(2)] by (intro filter_cong) auto
  then show ?thesis by (simp add: lease_count_def)
qed

text \<open>A change of the registry that keeps the entries of the leased volumes keeps the invariant.\<close>

lemma reg_inv_registry:
  assumes inv: "reg_inv s" and ext: "stores_extend (rs_reg s) r'"
    and dist: "distinct (map fst (r_entries r'))"
    and new: "\<And>k e. ent r' k = Some e \<Longrightarrow> entry_wf r' k e \<and> armed_ok r' e \<and>
      (\<exists>e0. ent (rs_reg s) k = Some e0 \<and> e_leases e0 = e_leases e)"
    and kept: "\<And>k e. ent (rs_reg s) k = Some e \<Longrightarrow> e_leases e \<noteq> 0 \<Longrightarrow> ent r' k = Some e"
  shows "reg_inv \<lparr>rs_reg = r', rs_leases = rs_leases s\<rparr>"
proof (rule reg_invI, goal_cases)
  case 1 show ?case using dist by simp
next
  case 2 show ?case using reg_invD(6) [OF inv] by simp
next
  case (3 k e)
  then obtain e0 where "ent (rs_reg s) k = Some e0" "e_leases e0 = e_leases e"
    using new [of k e] by auto
  moreover have "unat (e_leases e0) = lease_count s k"
    using reg_invD(3) [OF inv] calculation(1) .
  ultimately show ?case
    using new [of k e] 3 by (simp add: lease_count_extend [OF inv ext])
next
  case (4 l)
  show ?case
  proof (cases "l_writer l")
    case None
    then show ?thesis
      using reg_invD(4) [OF inv, of l] 4 by (simp add: lease_ok_def)
  next
    case (Some wr)
    have mem: "l \<in> set (rs_leases s)" using 4 by simp
    obtain e where "ent (rs_reg s) (writer_key (rs_reg s) wr) = Some e" "e_writer e = Some wr"
      "e_leases e \<noteq> 0" "l_registry l"
      using lease_entryE [OF inv mem Some] by metis
    with kept Some show ?thesis
      by (auto simp: lease_ok_def writer_key_extend [OF inv mem ext Some])
  qed
qed

lemma reg_inv_leases:
  assumes "reg_inv s" "mset ls = mset (rs_leases s)"
  shows "reg_inv (s\<lparr>rs_leases := ls\<rparr>)"
proof (rule reg_invI, goal_cases)
  case (3 k e)
  have "lease_count (s\<lparr>rs_leases := ls\<rparr>) k = size (filter_mset (lease_on (rs_reg s) k) (mset ls))"
    by (simp add: lease_count_def flip: mset_filter)
  also have "\<dots> = lease_count s k"
    unfolding assms(2) by (simp add: lease_count_def flip: mset_filter)
  finally show ?case
    using 3 reg_invD(1-3) [OF assms(1), of k e] by simp
next
  case (4 l)
  then show ?case
    using reg_invD(4) [OF assms(1), of l] mset_eq_setD [OF assms(2)] by simp
qed (use reg_invD(5,6) [OF assms(1)] mset_eq_length [OF assms(2)] in simp_all)


lemma same_stores:
  assumes "r_states r' = r_states r" "r_writers r' = r_writers r" "r_config r' = r_config r"
  shows "entry_wf r' = entry_wf r" "armed_ok r' = armed_ok r" "writer_key r' = writer_key r"
  by (simp_all add: entry_wf_def armed_ok_def writer_key_def fun_eq_iff assms split: option.split)

lemma reg_inv_reap:
  assumes inv: "reg_inv s" and reap: "reap_idle now (rs_reg s) = (keys, r')"
  shows "reg_inv \<lparr>rs_reg = r', rs_leases = rs_leases s\<rparr>"
proof -
  note spec = reap_idle_spec [OF reg_invD(5) [OF inv] reap]
  note same = same_stores [OF spec(6-8)]
  show ?thesis
  proof (rule reg_inv_registry [OF inv])
    show "stores_extend (rs_reg s) r'"
      by (rule stores_extend_same) (simp_all add: spec)
    show "distinct (map fst (r_entries r'))"
      by (rule spec(4))
  next
    fix k e assume "ent r' k = Some e"
    then have "Option.bind (ent (rs_reg s) k) (reaped now (rs_reg s)) = Some e"
      by (rule spec(2))
    then obtain e0 where "ent (rs_reg s) k = Some e0" "reaped now (rs_reg s) e0 = Some e"
      by (auto simp only: bind_eq_Some_conv)
    with reg_invD(1,2) [OF inv this(1)]
    show "entry_wf r' k e \<and> armed_ok r' e \<and> (\<exists>e0. ent (rs_reg s) k = Some e0 \<and> e_leases e0 = e_leases e)"
      by (auto simp: same reaped_def reapable_def entry_wf_def armed_ok_def split: if_splits option.splits)
  next
    fix k e assume e: "ent (rs_reg s) k = Some e" "e_leases e \<noteq> 0"
    then have "reaped now (rs_reg s) e = Some e" "\<not> is_retained_state (rs_reg s) e"
      by (auto simp: reaped_def reapable_def is_retained_state_def split: option.splits)
    with e(1) show "ent r' k = Some e"
      by (intro spec(3)) simp_all
  qed
qed

lemma reg_inv_rehash:
  assumes inv: "reg_inv s" and perm: "mset es = mset (r_entries (rs_reg s))"
  shows "reg_inv \<lparr>rs_reg = (rs_reg s)\<lparr>r_entries := es\<rparr>, rs_leases = rs_leases s\<rparr>"
proof -
  note eq = map_of_permuted [OF perm [symmetric] reg_invD(5) [OF inv]]
  have same: "entry_wf ((rs_reg s)\<lparr>r_entries := es\<rparr>) = entry_wf (rs_reg s)"
    "armed_ok ((rs_reg s)\<lparr>r_entries := es\<rparr>) = armed_ok (rs_reg s)"
    by (rule same_stores; simp)+
  show ?thesis
    by (rule reg_inv_registry [OF inv])
      (use eq reg_invD(1,2) [OF inv] in \<open>simp_all add: same stores_extend_same del: map_of_eq_Some_iff\<close>)
qed

lemma reg_inv_progress:
  assumes inv: "reg_inv s" and ext: "stores_extend (rs_reg s) r'" and es: "r_entries r' = r_entries (rs_reg s)"
  shows "reg_inv \<lparr>rs_reg = r', rs_leases = rs_leases s\<rparr>"
proof (rule reg_inv_registry [OF inv ext])
  fix k e assume "ent r' k = Some e"
  then have e: "ent (rs_reg s) k = Some e"
    by (simp only: es)
  with reg_invD(1,2) [OF inv this] ext
  show "entry_wf r' k e \<and> armed_ok r' e \<and> (\<exists>e0. ent (rs_reg s) k = Some e0 \<and> e_leases e0 = e_leases e)"
    by (metis entry_wf_extend armed_ok_extend)
qed (simp_all add: es reg_invD(5) [OF inv] del: map_of_eq_Some_iff)

lemma filter_update_count:
  assumes "i < length xs" "P (xs ! i)" "\<not> P y"
  shows "length (filter P (xs[i := y])) = length (filter P xs) - 1"
proof -
  have "filter P xs = filter P (take i xs) @ xs ! i # filter P (drop (Suc i) xs)"
    using assms by (subst id_take_nth_drop [OF assms(1)]) simp
  with assms show ?thesis
    by (simp add: upd_conv_take_nth_drop)
qed

lemma filter_update_same:
  assumes "i < length xs" "P (xs ! i) = P y"
  shows "length (filter P (xs[i := y])) = length (filter P xs)"
proof -
  have "length (filter P xs) = length (filter P (take i xs @ xs ! i # drop (Suc i) xs))"
    using id_take_nth_drop [OF assms(1)] by simp
  with assms show ?thesis
    by (simp add: upd_conv_take_nth_drop)
qed

lemma release_entry_simps [simp]:
  "e_state (release_entry now r e) = e_state e" "e_writer (release_entry now r e) = e_writer e"
  "e_leases (release_entry now r e) = (if e_leases e \<noteq> 0 then e_leases e - 1 else 0)"
  by (simp_all add: release_entry_def Let_def)

lemma armed_ok_release:
  assumes "armed_ok r e" "e_leases e \<noteq> 0" "0 < now"
  shows "armed_ok r (release_entry now r e)"
  using assms by (auto simp: armed_ok_def release_entry_def Let_def ms_ticks_def)


lemma reg_inv_reset:
  assumes inv: "reg_inv s" and i: "i < length (rs_leases s)" and now: "0 < now"
    and reset: "lease_reset now (rs_leases s ! i) (rs_reg s) = (l, r')"
  shows "reg_inv \<lparr>rs_reg = r', rs_leases = (rs_leases s)[i := l]\<rparr>"
proof -
  let ?r = "rs_reg s" and ?ls = "rs_leases s" and ?t = "\<lparr>rs_reg = r', rs_leases = (rs_leases s)[i := l]\<rparr>"
  have l: "l = empty_reg_lease"
    using reset by (simp add: lease_reset_def)
  have mem: "?ls ! i \<in> set ?ls"
    using i by simp
  have others: "m \<in> set (?ls[i := l]) \<Longrightarrow> m = empty_reg_lease \<or> m \<in> set ?ls" for m
    using set_update_subset_insert [of ?ls i l] l by auto
  have empty_ok: "lease_ok r empty_reg_lease" "\<not> lease_on r k empty_reg_lease" for r k
    by (simp_all add: lease_ok_def lease_on_def empty_reg_lease_def)
  show ?thesis
  proof (cases "l_writer (?ls ! i)")
    case None
    then have r': "r' = ?r"
      using reset by (simp add: lease_reset_def)
    have count: "lease_count ?t k = lease_count s k" for k
      unfolding lease_count_def
      using filter_update_same [OF i, of "lease_on ?r k" l] None l empty_ok by (simp add: r' lease_on_def)
    have "lease_ok ?r m" if "m \<in> set (?ls[i := l])" for m
      using others [OF that] empty_ok reg_invD(4) [OF inv] by blast
    then show ?thesis
      using count inv by (simp add: r' reg_inv_def)
  next
    case (Some wr)
    let ?k = "writer_key ?r wr"
    obtain e where e: "ent ?r ?k = Some e" "e_writer e = Some wr" "entry_wf ?r ?k e" "e_leases e \<noteq> 0"
      "l_registry (?ls ! i)"
      using lease_entryE [OF inv mem Some] by metis
    have r': "r' = release now ?k ?r"
      using reset Some e(5) by (simp add: lease_reset_def)
    have ent': "ent r' = (ent ?r)(?k \<mapsto> release_entry now ?r e)"
      by (simp add: r' release_ent e(1))
    have "r_states r' = r_states ?r" "r_writers r' = r_writers ?r" "r_config r' = r_config ?r"
      by (simp_all add: r')
    note same = same_stores(1,2) [OF this] and keys = same_stores(3) [OF this]
    have on: "lease_on r' k = lease_on ?r k" for k
      by (simp add: lease_on_def keys fun_eq_iff split: option.split)
    have count: "lease_count ?t k = (if k = ?k then lease_count s k - 1 else lease_count s k)" for k
    proof -
      have "lease_on ?r k (?ls ! i) \<longleftrightarrow> k = ?k"
        using Some by (auto simp: lease_on_def)
      then show ?thesis
        using filter_update_count [OF i, of "lease_on ?r k" l] filter_update_same [OF i, of "lease_on ?r k" l] l empty_ok
        by (cases "k = ?k") (simp_all add: lease_count_def on)
    qed
    show ?thesis
    proof (rule reg_invI, goal_cases)
      case 1 show ?case using reg_invD(5) [OF inv] by (simp add: r')
    next
      case 2 show ?case using reg_invD(6) [OF inv] by simp
    next
      case (3 k e')
      show ?case
      proof (cases "k = ?k")
        case True
        with 3 have e': "e' = release_entry now ?r e"
          by (simp add: ent')
        have "unat (e_leases e - 1) = unat (e_leases e) - 1"
          using e(4) by (simp add: unat_minus_one)
        moreover have "entry_wf ?r ?k e'"
          using e(2,3) by (simp add: e' entry_wf_def)
        ultimately show ?thesis
          using e(4) armed_ok_release [OF reg_invD(2) [OF inv e(1)] e(4) now] reg_invD(3) [OF inv e(1)] True
          by (simp add: same count) (simp add: e')
      next
        case False
        with 3 have "ent ?r k = Some e'"
          by (simp add: ent')
        with False reg_invD(1-3) [OF inv this] show ?thesis
          by (simp add: same count)
      qed
    next
      case (4 m)
      with others consider "m = empty_reg_lease" | "m \<in> set ?ls"
        by auto
      then show ?case
      proof cases
        case 2
        with reg_invD(4) [OF inv this] e show ?thesis
          by (auto simp: lease_ok_def ent' keys split: option.splits simp del: map_of_eq_Some_iff)
      qed (simp add: empty_ok)
    qed
  qed
qed


lemma reg_inv_move:
  assumes inv: "reg_inv s" and i: "i < length (rs_leases s)" and j: "j < length (rs_leases s)" and ij: "i \<noteq> j"
    and now: "0 < now"
    and move: "reg_lease_move_assign now (rs_leases s ! i) (rs_leases s ! j) (rs_reg s) = (dst, src, r')"
  shows "reg_inv \<lparr>rs_reg = r', rs_leases = (rs_leases s)[i := dst, j := src]\<rparr>"
proof -
  obtain l where reset: "lease_reset now (rs_leases s ! i) (rs_reg s) = (l, r')"
    and ds: "dst = rs_leases s ! j" "src = empty_reg_lease" and l: "l = empty_reg_lease"
    using move by (auto simp: reg_lease_move_assign_def lease_reset_def split: prod.splits)
  let ?t = "\<lparr>rs_reg = r', rs_leases = (rs_leases s)[i := l]\<rparr>"
  have "mset ((rs_leases ?t)[i := rs_leases ?t ! j, j := rs_leases ?t ! i]) = mset (rs_leases ?t)"
    using i j by (intro mset_swap) simp_all
  then have "mset ((rs_leases s)[i := dst, j := src]) = mset (rs_leases ?t)"
    using i j ij by (simp add: ds l)
  from reg_inv_leases [OF reg_inv_reset [OF inv i now reset] this] show ?thesis
    by simp
qed

lemma acquire_cases:
  assumes inv: "reg_inv s" and acq: "acquire os place ok key (rs_reg s) = Some (l, r')"
  obtains st wr n where "acquired (rs_reg s) key l r' st wr n" "unat n = lease_count s key"
    and "\<And>e. ent (rs_reg s) key = Some e \<Longrightarrow> e_leases e \<noteq> 0 \<Longrightarrow> e_writer e = Some wr \<and> e_state e = st"
proof (cases "ent (rs_reg s) key")
  case None
  have "\<not> lease_on (rs_reg s) key m" if "m \<in> set (rs_leases s)" for m
  proof
    assume "lease_on (rs_reg s) key m"
    then obtain wr where "l_writer m = Some wr" "writer_key (rs_reg s) wr = key"
      by (auto simp: lease_on_def split: option.splits)
    with lease_entryE [OF inv that this(1)] None show False
      by (metis option.distinct(1))
  qed
  then have "lease_count s key = 0"
    by (simp add: lease_count_def filter_empty_conv)
  with that [OF acquire_new [OF acq None]] None show thesis
    by simp
next
  case (Some e)
  have wf: "entry_wf (rs_reg s) key e" and n: "unat (e_leases e) = lease_count s key"
    using reg_invD(1,3) [OF inv Some] by simp_all
  have writer: "e_writer e \<noteq> None" if "e_leases e \<noteq> 0"
  proof -
    have "lease_count s key \<noteq> 0"
      using n that by (metis unat_eq_0)
    then obtain m where m: "m \<in> set (rs_leases s)" "lease_on (rs_reg s) key m"
      by (auto simp: lease_count_def filter_empty_conv)
    then obtain wr where wr: "l_writer m = Some wr" "writer_key (rs_reg s) wr = key"
      by (auto simp: lease_on_def split: option.splits)
    show ?thesis
      using lease_entryE [OF inv m(1) wr(1)] wr(2) Some by (metis option.distinct(1) option.inject)
  qed
  obtain wr where "acquired (rs_reg s) key l r' (e_state e) wr (e_leases e)"
    "e_writer e = Some wr \<or> e_writer e = None \<and> wr = length (r_writers (rs_reg s))"
    using acquire_old [OF acq Some wf] by blast
  then show thesis
    using n writer Some by (intro that) auto
qed

lemma reg_inv_acquire:
  assumes inv: "reg_inv s" and acq: "acquire os place ok key (rs_reg s) = Some (l, r')"
    and room: "length (rs_leases s) < 2 ^ 64 - 1"
    and dist: "distinct (map fst (r_entries r'))"
  shows "reg_inv \<lparr>rs_reg = r', rs_leases = rs_leases s @ [l]\<rparr>"
proof -
  let ?r = "rs_reg s" and ?t = "\<lparr>rs_reg = r', rs_leases = rs_leases s @ [l]\<rparr>"
  obtain st wr n where a: "acquired ?r key l r' st wr n" and n: "unat n = lease_count s key"
    and old: "\<And>e. ent ?r key = Some e \<Longrightarrow> e_leases e \<noteq> 0 \<Longrightarrow> e_writer e = Some wr \<and> e_state e = st"
    using acquire_cases [OF inv acq] by metis
  define e' where "e' = \<lparr>e_state = st, e_writer = Some wr, e_leases = n + 1, e_deadline = time_zero\<rparr>"
  have ext: "stores_extend ?r r'" and ent': "ent r' = (ent ?r)(key \<mapsto> e')"
    and l: "l_registry l" "l_writer l = Some wr" and wf: "entry_wf r' key e'"
    using a by (simp_all add: acquired_def e'_def entry_wf_def)
  have wk: "writer_key r' wr = key"
    by (rule writer_key_entry [OF wf]) (simp add: e'_def)
  have count: "lease_count ?t k = lease_count s k + (if k = key then 1 else 0)" for k
    using lease_count_extend [OF inv ext, of k] wk by (simp add: lease_count_def) (simp add: lease_on_def l)
  have "lease_count s key < 2 ^ 64 - 1"
    unfolding lease_count_def by (rule le_less_trans [OF length_filter_le room])
  then have inc: "unat (n + 1) = unat n + 1"
    using n by (intro unat_inc) simp
  then have "n + 1 \<noteq> 0"
    by (metis add_is_0 one_neq_zero unat_0)
  show ?thesis
  proof (rule reg_invI, goal_cases)
    case 1 show ?case using dist by simp
  next
    case 2 show ?case using room by simp
  next
    case (3 k e)
    show ?case
    proof (cases "k = key")
      case True
      with 3 ent' have "e = e'" by simp
      with True wf inc n \<open>n + 1 \<noteq> 0\<close> show ?thesis
        by (simp add: count e'_def armed_ok_def)
    next
      case False
      with 3 ent' have e: "ent ?r k = Some e" by simp
      with reg_invD(1-3) [OF inv e] False show ?thesis
        using entry_wf_extend [OF _ ext] armed_ok_extend [OF _ _ ext] by (simp add: count)
    qed
  next
    case (4 m)
    then consider "m = l" | "m \<in> set (rs_leases s)" by auto
    then show ?case
    proof cases
      case 1
      with l wk ent' show ?thesis by (simp add: lease_ok_def e'_def)
    next
      case 2
      show ?thesis
      proof (cases "l_writer m")
        case None
        with reg_invD(4) [OF inv 2] show ?thesis by (simp add: lease_ok_def)
      next
        case (Some w)
        obtain e where e: "ent ?r (writer_key ?r w) = Some e" "e_writer e = Some w" "e_leases e \<noteq> 0" "l_registry m"
          using lease_entryE [OF inv 2 Some] by metis
        have "writer_key r' w = writer_key ?r w"
          by (rule writer_key_extend [OF inv 2 ext Some])
        with e old Some ent' show ?thesis
          by (cases "writer_key ?r w = key") (auto simp: lease_ok_def e'_def)
      qed
    qed
  qed
qed


lemma acquire_keys:
  assumes "acquire os place ok key r = Some (l, r')" "distinct (map fst (r_entries r))"
  shows "distinct (map fst (r_entries r'))"
proof (cases "ent r key")
  case None
  let ?es = "r_entries r"
  have "map fst (r_entries r') = take place (map fst ?es) @ key # drop place (map fst ?es)"
    using assms(1) None by (auto simp: acquire_def lease_entry_def add_writer_def Let_def take_map drop_map split: if_splits)
  moreover have "key \<notin> set (map fst ?es)"
    using None by (simp add: map_of_eq_None_iff)
  moreover have "distinct (take place (map fst ?es) @ drop place (map fst ?es))"
    using assms(2) by simp
  ultimately show ?thesis
    using set_take_disj_set_drop_if_distinct [OF assms(2), of place place]
    by (auto dest: in_set_takeD in_set_dropD)
next
  case (Some e)
  then have "map fst (r_entries r') = map fst (r_entries r)"
    using assms(1) by (auto simp: acquire_def lease_entry_def add_writer_def Let_def split: if_splits)
  with assms(2) show ?thesis by simp
qed

lemma reg_inv_step:
  assumes "reg_inv s" "reg_step s l t"
  shows "reg_inv t"
  using assms(2)
proof cases
  case (acquired os place constructed key l r)
  then show ?thesis
    using reg_inv_acquire [OF assms(1)] acquire_keys reg_invD(5) [OF assms(1)] by blast
next
  case (reset i now l r)
  then show ?thesis using reg_inv_reset [OF assms(1)] by blast
next
  case (move i j now dst src r)
  then show ?thesis using reg_inv_move [OF assms(1)] by blast
next
  case (reap now keys r)
  then show ?thesis using reg_inv_reap [OF assms(1) reap(3)] by (cases s) simp
next
  case (rehash es)
  then show ?thesis using reg_inv_rehash [OF assms(1) rehash(3)] by (cases s) simp
next
  case (progress r)
  then show ?thesis using reg_inv_progress [OF assms(1) progress(3,6)] by (cases s) simp
qed

interpretation reg: invariant_system reg_initial reg_step reg_inv
proof
  fix s assume "reg_initial s"
  then show "reg_inv s"
    by (auto simp: reg_initial_def reg_inv_def new_registry_def)
qed (rule reg_inv_step)

text \<open>The deadlines the reaper has to look at.\<close>

fun armed_deadlines :: "(string \<times> reg_entry) list \<Rightarrow> time list" where
  "armed_deadlines [] = []"
| "armed_deadlines ((k, e) # es) =
     (if e_leases e = 0 \<and> e_writer e \<noteq> None \<and> e_deadline e \<noteq> time_zero then e_deadline e # armed_deadlines es
      else armed_deadlines es)"

lemma earliest_deadline_Some:
  "earliest_deadline (Some d) es = Some (fold min (armed_deadlines es) d)"
  by (induction es arbitrary: d) (auto simp: min_def)

lemma earliest_deadline_None:
  "earliest_deadline None es = (if armed_deadlines es = [] then None else Some (Min (set (armed_deadlines es))))"
proof (induction es)
  case (Cons x es)
  then show ?case
    by (cases x) (auto simp: earliest_deadline_Some Min.set_eq_fold simp del: list.set)
qed simp

lemma reapable_armed:
  "(k, e) \<in> set es \<Longrightarrow> reapable now r e \<Longrightarrow> e_deadline e \<in> set (armed_deadlines es) \<and> e_deadline e \<le> now"
  by (induction es) (auto simp: reapable_def split: option.splits)


text \<open>What \<^verbatim>\<open>acquire\<close> keeps of a gate it finds: everything but the list of wake targets.\<close>

lemma acquire_keeps_gate:
  assumes "acquire os place ok key r = Some (l, r')" "ent r key = Some e" "entry_wf r key e"
    and "vs_gate (r_states r ! e_state e) = Some g"
  shows "\<exists>ts. vs_gate (r_states r' ! e_state e) = Some (g\<lparr>wake_targets := ts\<rparr>)"
proof (cases "e_writer e")
  case None
  with assms show ?thesis
    by (auto simp: acquire_def lease_entry_def add_writer_def subscribe_writer_def subscribe_def ensure_gate_def
        entry_wf_def Let_def split: if_splits)
next
  case (Some wr)
  with assms have "vs_gate (r_states r' ! e_state e) = Some g"
    by (auto simp: acquire_def lease_entry_def ensure_gate_def entry_wf_def Let_def)
  then have "vs_gate (r_states r' ! e_state e) = Some (g\<lparr>wake_targets := wake_targets g\<rparr>)"
    by simp
  then show ?thesis
    by blast
qed

text \<open>A volume that was used by one job which finished at time 5.\<close>

definition reg_demo_os :: os where
  "reg_demo_os = \<lparr>os_now = 1, os_volume_path = (\<lambda>_. None), os_disk_free = (\<lambda>_. Inl 5), os_alive = (\<lambda>_. True)\<rparr>"

definition demo_registry :: registry where
  "demo_registry = new_registry None default_async_writer_config True"

definition demo_leased :: reg_sys where
  "demo_leased = (case acquire reg_demo_os 0 True ''v'' demo_registry of
     Some (l, r) \<Rightarrow> \<lparr>rs_reg = r, rs_leases = [l]\<rparr> | None \<Rightarrow> \<lparr>rs_reg = demo_registry, rs_leases = []\<rparr>)"

definition demo_idle :: reg_sys where
  "demo_idle = (case lease_reset 5 (rs_leases demo_leased ! 0) (rs_reg demo_leased) of
     (l, r) \<Rightarrow> \<lparr>rs_reg = r, rs_leases = [l]\<rparr>)"

lemmas demo_registry_defs = demo_registry_def new_registry_def default_async_writer_config_def acquire_def
  lease_entry_def add_writer_def Let_def

lemma demo_leased_eq:
  "r_entries (rs_reg demo_leased) = [(''v'', \<lparr>e_state = 0, e_writer = Some 0, e_leases = 1, e_deadline = 0\<rparr>)]"
  "rs_leases demo_leased = [\<lparr>l_registry = True, l_writer = Some 0, l_created = True\<rparr>]"
  "length (r_states (rs_reg demo_leased)) = 1" "vs_key (r_states (rs_reg demo_leased) ! 0) = ''v''"
  "persistent (r_states (rs_reg demo_leased) ! 0)" "idle_timeout (r_config (rs_reg demo_leased)) = 20000"
  "length (r_writers (rs_reg demo_leased)) = 1" "fac_state (r_writers (rs_reg demo_leased) ! 0) = 0"
  "is_quiescent (r_writers (rs_reg demo_leased) ! 0)"
  by (simp_all add: demo_leased_def demo_registry_defs new_facility_def make_volume_state_def
      is_persistent_key_def is_quiescent_def)

lemma demo_leased_reach: "reach reg_initial reg_step demo_leased"
proof -
  let ?s = "\<lparr>rs_reg = demo_registry, rs_leases = []\<rparr>"
  have "reach reg_initial reg_step ?s"
    by (rule reach_initial) (auto simp: reg_initial_def demo_registry_def)
  moreover obtain l r where "acquire reg_demo_os 0 True ''v'' demo_registry = Some (l, r)"
    by (simp add: demo_registry_defs)
  then have "reg_step ?s (R_acquire ''v'') demo_leased"
    using reg_step.acquired [of reg_demo_os 0 True "''v''" ?s l r] by (simp add: demo_leased_def)
  ultimately show ?thesis
    by (rule reach_step)
qed

lemma demo_idle_eq:
  "r_entries (rs_reg demo_idle) =
     [(''v'', \<lparr>e_state = 0, e_writer = Some 0, e_leases = 0, e_deadline = 20000000005\<rparr>)]"
  "r_states (rs_reg demo_idle) = r_states (rs_reg demo_leased)"
  "r_writers (rs_reg demo_idle) = r_writers (rs_reg demo_leased)"
  "r_config (rs_reg demo_idle) = r_config (rs_reg demo_leased)"
  by (simp_all add: demo_idle_def lease_reset_def demo_leased_eq writer_key_def release_def release_entry_def
      ms_ticks_def Let_def)

lemma demo_idle_reach: "reach reg_initial reg_step demo_idle"
proof -
  obtain l r where "lease_reset 5 (rs_leases demo_leased ! 0) (rs_reg demo_leased) = (l, r)"
    by fastforce
  then have "reg_step demo_leased (R_reset 0) demo_idle"
    using reg_step.reset [of 0 demo_leased 5 l r] by (simp add: demo_idle_def demo_leased_eq)
  with demo_leased_reach show ?thesis
    by (rule reach_step)
qed


section \<open>Properties\<close>

text \<open>
  C10. A lease pins its writer. In every reachable state the volume of a live lease has an entry with
  exactly that writer, the entry counts exactly the leases that exist, and no reaping pass, at whatever
  time, changes it.
\<close>

theorem leases_pin_their_writer:
  assumes "reach reg_initial reg_step s" "l \<in> set (rs_leases s)" "l_writer l = Some wr"
    and "reap_idle now (rs_reg s) = (keys, r')"
  shows "\<exists>e. ent (rs_reg s) (writer_key (rs_reg s) wr) = Some e \<and> e_writer e = Some wr \<and>
    unat (e_leases e) = lease_count s (writer_key (rs_reg s) wr) \<and>
    ent r' (writer_key (rs_reg s) wr) = Some e"
proof -
  have inv: "reg_inv s"
    by (rule reg.invar_reach [OF assms(1)])
  obtain e where e: "ent (rs_reg s) (writer_key (rs_reg s) wr) = Some e" "e_writer e = Some wr" "e_leases e \<noteq> 0"
    using lease_entryE [OF inv assms(2,3)] by metis
  moreover from e have "reaped now (rs_reg s) e = Some e" "\<not> is_retained_state (rs_reg s) e"
    by (auto simp: reaped_def reapable_def is_retained_state_def)
  then have "ent r' (writer_key (rs_reg s) wr) = Some e"
    using reap_idle_spec(3) [OF reg_invD(5) [OF inv] assms(4)] e(1) by simp
  ultimately show ?thesis
    using reg_invD(3) [OF inv e(1)] by blast
qed

theorem leases_pin_their_writer_witness:
  "\<exists>e. ent (rs_reg demo_leased) ''v'' = Some e \<and> unat (e_leases e) = lease_count demo_leased ''v'' \<and>
     ent (snd (reap_idle 100 (rs_reg demo_leased))) ''v'' = Some e"
proof -
  obtain keys r' where r: "reap_idle 100 (rs_reg demo_leased) = (keys, r')"
    by fastforce
  have "writer_key (rs_reg demo_leased) 0 = ''v''"
    by (simp add: writer_key_def demo_leased_eq)
  with leases_pin_their_writer [OF demo_leased_reach _ _ r, of "rs_leases demo_leased ! 0" 0] r show ?thesis
    by (auto simp: demo_leased_eq(2) simp del: map_of_eq_Some_iff)
qed





text \<open>
  Waking for the announced deadline is early enough and never too early: before it, or when none is
  announced, a reaping pass reports nothing.
\<close>

theorem next_reap_deadline_exact:
  assumes "case next_reap_deadline r of None \<Rightarrow> True | Some d \<Rightarrow> now < d"
  shows "fst (reap_idle now r) = []"
proof -
  have "\<not> reapable now r e" if "(k, e) \<in> set (r_entries r)" for k e
  proof
    assume "reapable now r e"
    with reapable_armed [OF that] have "e_deadline e \<in> set (armed_deadlines (r_entries r))" "e_deadline e \<le> now"
      by simp_all
    with assms show False
      by (auto simp: next_reap_deadline_def earliest_deadline_None split: if_splits)
  qed
  then show ?thesis
    by (auto simp: reap_idle_keys filter_empty_conv)
qed

theorem next_reap_deadline_exact_witness:
  "fst (reap_idle 7 (rs_reg demo_idle)) = []"
  by (rule next_reap_deadline_exact) (simp add: next_reap_deadline_def demo_idle_eq)

text \<open>
  The gate of a volume outlives its writer. If a volume still has an entry after a reaping pass, the
  next job that acquires it works on the same volume state, and finds the gate as it was: phase, episode,
  probe owner, jobs and diagnostics, everything but the list of writers to wake.
\<close>

theorem gate_survives_reaping:
  assumes "reach reg_initial reg_step s" "ent (rs_reg s) key = Some e"
    and "vs_gate (r_states (rs_reg s) ! e_state e) = Some g"
    and "reap_idle now (rs_reg s) = (keys, r1)" "ent r1 key \<noteq> None"
    and "acquire os place ok key r1 = Some (l, r2)"
  shows "lease_volume l r2 = Some (e_state e) \<and>
    (\<exists>ts. vs_gate (r_states r2 ! e_state e) = Some (g\<lparr>wake_targets := ts\<rparr>))"
proof -
  have inv: "reg_inv s"
    by (rule reg.invar_reach [OF assms(1)])
  note spec = reap_idle_spec [OF reg_invD(5) [OF inv] assms(4)]
  obtain e1 where e1: "ent r1 key = Some e1"
    using assms(5) by blast
  have same: "e_state e1 = e_state e"
    using spec(2) [OF e1] assms(2) by (auto simp: reaped_def simp del: map_of_eq_Some_iff split: if_splits)
  have wf: "entry_wf r1 key e1"
    using reg_invD(1) [OF reg_inv_reap [OF inv assms(4)], of key e1] e1 by (simp del: map_of_eq_Some_iff)
  obtain wr where a: "acquired r1 key l r2 (e_state e1) wr (e_leases e1)"
    using acquire_old [OF assms(6) e1 wf] by blast
  have "lease_volume l r2 = Some (e_state e)"
    using a by (simp add: acquired_def lease_volume_def same)
  moreover have "vs_gate (r_states r1 ! e_state e1) = Some g"
    using assms(3) by (simp add: spec(6) same)
  ultimately show ?thesis
    using acquire_keeps_gate [OF assms(6) e1 wf] same by simp
qed

theorem gate_survives_reaping_witness:
  "\<exists>g ts. vs_gate (r_states (rs_reg demo_idle) ! 0) = Some g \<and>
     map_option (\<lambda>(l, r). vs_gate (r_states r ! 0))
       (acquire reg_demo_os 0 True ''v'' (snd (reap_idle 30000000000 (rs_reg demo_idle)))) = Some (Some (g\<lparr>wake_targets := ts\<rparr>))"
proof -
  let ?e = "\<lparr>e_state = 0, e_writer = Some 0, e_leases = 0, e_deadline = 20000000005\<rparr>"
  obtain keys r1 where r1: "reap_idle 30000000000 (rs_reg demo_idle) = (keys, r1)"
    by fastforce
  have ent1: "ent r1 ''v'' \<noteq> None"
    using r1 by (auto simp: reap_idle_def demo_idle_eq demo_leased_eq reapable_def retained_count_def k_max_retained_def
        is_retained_state_def)
  obtain g where g: "vs_gate (r_states (rs_reg demo_idle) ! e_state ?e) = Some g"
    by (simp add: demo_idle_eq demo_leased_def demo_registry_defs make_volume_state_def ensure_gate_def
        subscribe_writer_def)
  have "acquire reg_demo_os 0 True ''v'' r1 \<noteq> None"
    by (simp add: acquire_def lease_entry_def Let_def split: option.split)
  then obtain l r2 where r2: "acquire reg_demo_os 0 True ''v'' r1 = Some (l, r2)"
    by auto
  have "ent (rs_reg demo_idle) ''v'' = Some ?e"
    by (simp add: demo_idle_eq)
  from gate_survives_reaping [OF demo_idle_reach this g r1 ent1 r2] r1 r2 g show ?thesis
    by auto
qed

end
