(* ===== verification/Space_Monitor.thy ===== *)
theory Space_Monitor
  imports Volume_Registry Space_Gate_Safety
begin

text \<open>
  The sampler of blocked volumes (\<^verbatim>\<open>sevenzip_space_monitor.hpp\<close>). It keeps no membership of its own: each
  tick asks the registry for the blocked volumes, queries their free space and hands the result to the
  gates. The word \<^verbatim>\<open>sampling_generation_\<close> holds an activity bit and a counter of blocked events, so that
  an empty snapshot switches off only the generation it was taken in.
\<close>

section \<open>The monitor\<close>

record monitor =
  poll_interval :: int
  status_report_interval :: int
  has_provider :: bool
  has_status :: bool
  sampling_generation :: u64
  next_poll_at :: time

definition new_monitor :: "int \<Rightarrow> int \<Rightarrow> bool \<Rightarrow> bool \<Rightarrow> monitor" where
  "new_monitor poll_ms status_ms provider status =
     (let p = (if poll_ms \<le> 0 then 1000 else poll_ms);
          q = (if status_ms < p then p else status_ms)
      in \<lparr>poll_interval = p, status_report_interval = q, has_provider = provider, has_status = status,
          sampling_generation = 0, next_poll_at = time_zero\<rparr>)"

definition default_monitor :: monitor where
  "default_monitor = new_monitor 1000 15000 False False"

definition sampling :: "monitor \<Rightarrow> bool" where
  "sampling m \<longleftrightarrow> and (sampling_generation m) 1 \<noteq> 0"

definition note_blocked :: "monitor \<Rightarrow> monitor" where
  "note_blocked m = m\<lparr>sampling_generation := or (sampling_generation m + 2) 1\<rparr>"

record status_report =
  sr_volume :: nat
  sr_free_bytes :: u64
  sr_pending_bytes :: u64
  sr_query_ok :: bool
  sr_query_error :: u32

definition maybe_emit_status ::
    "monitor \<Rightarrow> nat \<Rightarrow> u64 \<Rightarrow> bool \<Rightarrow> u32 \<Rightarrow> time \<Rightarrow> writer_counters \<Rightarrow> gate \<Rightarrow> gate \<times> status_report list" where
  "maybe_emit_status m st free_bytes query_ok query_error now counters g =
     (if \<not> has_status m then (g, [])
      else case take_status_report now (status_report_interval m) g of
             (False, g1) \<Rightarrow> (g1, [])
           | (True, g1) \<Rightarrow>
               (g1, [\<lparr>sr_volume = st, sr_free_bytes = free_bytes, sr_pending_bytes = pending_bytes counters,
                      sr_query_ok = query_ok, sr_query_error = query_error\<rparr>]))"

text \<open>One volume of a tick.\<close>

definition sample_gate ::
    "os \<Rightarrow> time \<Rightarrow> monitor \<Rightarrow> nat \<Rightarrow> writer_counters \<Rightarrow> gate \<Rightarrow> gate \<times> status_report list \<times> gate_effect list" where
  "sample_gate os now m st counters g =
     (case query_free_bytes os g of
        (None, g1, woken) \<Rightarrow>
          let error = last_query_error g1;
              (g2, woken2) = note_query_failure os error g1;
              (g3, reports) = maybe_emit_status m st 0 False error now counters g2
          in (g3, reports, woken @ woken2)
      | (Some (free, total_bytes), g1, woken) \<Rightarrow>
          let (granted, g2, woken2) = poll os free g1;
              (g3, reports) = maybe_emit_status m st free True 0 now counters g2
          in (g3, reports, woken @ woken2))"

definition sample_volume ::
    "os \<Rightarrow> time \<Rightarrow> monitor \<Rightarrow> nat \<Rightarrow> volume_state \<Rightarrow> volume_state \<times> status_report list \<times> gate_effect list" where
  "sample_volume os now m st v =
     (case vs_gate v of None \<Rightarrow> (v, [], [])
      | Some g \<Rightarrow> (let (g', reports, woken) = sample_gate os now m st (vs_counters v) g
                   in (v\<lparr>vs_gate := Some g'\<rparr>, reports, woken)))"

fun sample_volumes ::
    "os \<Rightarrow> time \<Rightarrow> monitor \<Rightarrow> nat list \<Rightarrow> volume_state list \<Rightarrow> volume_state list \<times> status_report list \<times> gate_effect list" where
  "sample_volumes os now m [] states = (states, [], [])"
| "sample_volumes os now m (st # rest) states =
     (let (v, reports, woken) = sample_volume os now m st (states ! st);
          (states', reports', woken') = sample_volumes os now m rest (states[st := v])
      in (states', reports @ reports', woken @ woken'))"

text \<open>
  The end of a tick whose snapshot is empty: the poll time is reset, and the compare-exchange clears the
  activity bit if the generation is still the one the tick read at its beginning.
\<close>

definition stop_sampling :: "u64 \<Rightarrow> monitor \<Rightarrow> monitor" where
  "stop_sampling generation m =
     (let m1 = m\<lparr>next_poll_at := time_zero\<rparr>
      in if sampling_generation m1 = generation
         then m1\<lparr>sampling_generation := and generation (not 1)\<rparr> else m1)"

text \<open>
  A whole tick. The function \<open>during\<close> is what other threads do to the monitor while the provider runs;
  the provider either throws (\<open>None\<close>) or returns the addresses of the blocked volumes.
\<close>

definition tick ::
    "os \<Rightarrow> time \<Rightarrow> nat list option \<Rightarrow> (monitor \<Rightarrow> monitor) \<Rightarrow> monitor \<Rightarrow> volume_state list \<Rightarrow>
     monitor \<times> volume_state list \<times> status_report list \<times> gate_effect list" where
  "tick os now provided during m states =
     (if \<not> sampling m then (m, states, [], [])
      else if \<not> has_provider m then (m, states, [], [])
      else
        let generation = sampling_generation m; m1 = during m
        in case provided of
             None \<Rightarrow> (m1, states, [], [])
           | Some addresses \<Rightarrow>
               if addresses = [] then (stop_sampling generation m1, states, [], [])
               else if next_poll_at m1 \<noteq> time_zero \<and> now < next_poll_at m1 then (m1, states, [], [])
               else (m1\<lparr>next_poll_at := now + ms_ticks (poll_interval m1)\<rparr>,
                     sample_volumes os now m1 addresses states))"


section \<open>Generations\<close>

lemma sampling_odd: "sampling m \<longleftrightarrow> odd (sampling_generation m)"
  by (simp add: sampling_def and_one_eq odd_iff_mod_2_eq_one)

lemma note_blocked_simps [simp]:
  "sampling_generation (note_blocked m) = sampling_generation m + 2 + of_bool (even (sampling_generation m))"
  "next_poll_at (note_blocked m) = next_poll_at m" "has_provider (note_blocked m) = has_provider m"
  by (simp_all add: note_blocked_def or_one_eq)

lemma note_blocked_samples: "sampling (note_blocked m)"
  by (simp add: sampling_odd)

lemma note_blocked_power:
  assumes "sampling m"
  shows "sampling_generation ((note_blocked ^^ n) m) = sampling_generation m + of_nat (2 * n)"
proof (induction n)
  case (Suc n)
  have "odd (sampling_generation ((note_blocked ^^ n) m))"
    using assms by (simp add: Suc sampling_odd)
  then show ?case
    by (simp add: Suc)
qed simp

text \<open>Fewer than \<open>2 ^ 63\<close> events cannot bring the generation back to where it was.\<close>

lemma note_blocked_fresh:
  assumes "sampling m" "n < 2 ^ 63"
  shows "sampling_generation ((note_blocked ^^ n) m) = sampling_generation m \<longleftrightarrow> n = 0"
proof -
  have "(of_nat (2 * n) :: u64) = 0 \<longleftrightarrow> 2 ^ 64 dvd 2 * n"
    by (simp only: word_of_nat_eq_0_iff) simp
  also have "\<dots> \<longleftrightarrow> n = 0"
    using assms(2) by (auto dest!: dvd_imp_le)
  finally show ?thesis
    by (simp only: note_blocked_power [OF assms(1)] add_cancel_left_right)
qed

section \<open>Sampling as critical sections of the gate\<close>

lemma quiet_steps:
  assumes "space_step s l (s\<lparr>sg := g1\<rparr>)" "wake_waiters os g1 = (g2, es)"
  shows "space_steps s (s\<lparr>sg := g2\<rparr>)"
  using space_steps_trans [OF _ space_step_steps [OF assms(1)]] wake_steps(1) [of os "s\<lparr>sg := g1\<rparr>" g2 es] assms(2)
  by simp

lemma query_failure_steps:
  assumes "record_query_failure_locked err (sg s) = (revoked, g1)" "wake_if os revoked g1 = (g2, es)"
  shows "space_steps s (s\<lparr>sg := g2\<rparr>)"
  using assms quiet_steps [OF query_failed [OF assms(1)], of os g2 es] space_step_steps [OF query_failed [OF assms(1)]]
  by (auto simp: wake_if_def split: if_splits)

lemma query_free_bytes_steps:
  "query_free_bytes os (sg s) = (r, g, es) \<Longrightarrow> space_steps s (s\<lparr>sg := g\<rparr>)"
  using query_failure_steps space_step_steps [OF query_succeeded]
  by (auto simp: query_free_bytes_def split: if_splits sum.splits prod.splits)

lemma note_query_failure_steps:
  "note_query_failure os err (sg s) = (g, es) \<Longrightarrow> space_steps s (s\<lparr>sg := g\<rparr>)"
  using query_failure_steps by (auto simp: note_query_failure_def split: prod.splits)

lemma poll_steps:
  assumes "poll os free (sg s) = (r, g, es)"
  shows "space_steps s (s\<lparr>sg := g\<rparr>)"
proof -
  obtain b g1 where p: "poll_locked free (sg s) = (b, g1)" by fastforce
  show ?thesis
    using assms p quiet_steps [OF polled [OF p]] space_step_steps [OF polled [OF p]]
    by (auto simp: poll_def split: bool.splits prod.splits)
qed

lemma maybe_emit_status_steps:
  assumes "maybe_emit_status m st free ok err now c (sg s) = (g, rs)"
  shows "space_steps s (s\<lparr>sg := g\<rparr>)"
proof -
  obtain due g1 where t: "take_status_report now (status_report_interval m) (sg s) = (due, g1)"
    by fastforce
  show ?thesis
    using assms t space_step_steps [OF status [OF t]] space_steps.refl [of s]
    by (auto simp: maybe_emit_status_def split: if_splits bool.splits)
qed

lemma steps_then:
  assumes "space_steps s (s\<lparr>sg := g\<rparr>)" "\<And>u. sg u = g \<Longrightarrow> space_steps u (u\<lparr>sg := h\<rparr>)"
  shows "space_steps s (s\<lparr>sg := h\<rparr>)"
  using space_steps_trans [OF assms(2) assms(1)] by simp

lemma sample_gate_steps:
  assumes "sample_gate os now m st c (sg s) = (g', rs, es)"
  shows "space_steps s (s\<lparr>sg := g'\<rparr>)"
proof -
  obtain r g1 w1 where q: "query_free_bytes os (sg s) = (r, g1, w1)"
    by (metis prod_cases3)
  note start = query_free_bytes_steps [OF q]
  show ?thesis
  proof (cases r)
    case None
    obtain g2 w2 where n: "note_query_failure os (last_query_error g1) g1 = (g2, w2)" by fastforce
    obtain g3 rs' where e: "maybe_emit_status m st 0 False (last_query_error g1) now c g2 = (g3, rs')" by fastforce
    have "g' = g3"
      using assms q None n e by (simp add: sample_gate_def)
    moreover have "space_steps s (s\<lparr>sg := g2\<rparr>)"
      by (rule steps_then [OF start]) (use n note_query_failure_steps in blast)
    then have "space_steps s (s\<lparr>sg := g3\<rparr>)"
      by (rule steps_then) (use e maybe_emit_status_steps in blast)
    ultimately show ?thesis by simp
  next
    case (Some ft)
    obtain free tot where ft: "ft = (free, tot)" by fastforce
    obtain b g2 w2 where n: "poll os free g1 = (b, g2, w2)" by (metis prod_cases3)
    obtain g3 rs' where e: "maybe_emit_status m st free True 0 now c g2 = (g3, rs')" by fastforce
    have "g' = g3"
      using assms q Some ft n e by (simp add: sample_gate_def)
    moreover have "space_steps s (s\<lparr>sg := g2\<rparr>)"
      by (rule steps_then [OF start]) (use n poll_steps in blast)
    then have "space_steps s (s\<lparr>sg := g3\<rparr>)"
      by (rule steps_then) (use e maybe_emit_status_steps in blast)
    ultimately show ?thesis by simp
  qed
qed


text \<open>The phase of a gate after a sample, given what the query returned.\<close>

definition sampled_phase :: "os \<Rightarrow> gate \<Rightarrow> space_phase" where
  "sampled_phase os g =
     (case fst (query_free_bytes os g) of
        None \<Rightarrow> (if phase g = Probing then Blocked else phase g)
      | Some (free, total_bytes) \<Rightarrow> (if phase g = Blocked \<and> free \<noteq> 0 then Probing else phase g))"

lemma wake_waiters_phase [simp]: "wake_waiters os g = (g', es) \<Longrightarrow> phase g' = phase g"
  by (auto simp: wake_waiters_def Let_def)

lemma wake_if_phase [simp]: "wake_if os b g = (g', es) \<Longrightarrow> phase g' = phase g"
  by (auto simp: wake_if_def split: if_splits)

lemma query_free_bytes_phase:
  assumes "query_free_bytes os g = (r, g', es)"
  shows "phase g' = (if r = None \<and> phase g = Probing then Blocked else phase g)"
  using assms by (auto simp: query_free_bytes_def record_query_failure_locked_def query_success_locked_def Let_def
      split: if_splits sum.splits prod.splits dest!: wake_if_phase)

lemma note_query_failure_phase:
  "note_query_failure os e g = (g', es) \<Longrightarrow> phase g' = (if phase g = Probing then Blocked else phase g)"
  by (auto simp: note_query_failure_def record_query_failure_locked_def Let_def split: if_splits prod.splits
      dest!: wake_if_phase)

lemma poll_phase:
  "poll os free g = (b, g', es) \<Longrightarrow> phase g' = (if phase g = Blocked \<and> free \<noteq> 0 then Probing else phase g)"
  by (auto simp: poll_def poll_locked_def Let_def split: if_splits prod.splits bool.splits dest!: wake_waiters_phase)

lemma maybe_emit_status_phase:
  "maybe_emit_status m st free ok err now c g = (g', rs) \<Longrightarrow> phase g' = phase g"
  by (auto simp: maybe_emit_status_def take_status_report_def split: if_splits prod.splits bool.splits)

lemma sample_gate_phase:
  assumes "sample_gate os now m st c g = (g', rs, es)"
  shows "phase g' = sampled_phase os g"
  using assms
  by (auto simp: sample_gate_def sampled_phase_def Let_def split: option.splits prod.splits
      dest!: query_free_bytes_phase note_query_failure_phase poll_phase maybe_emit_status_phase)

lemma sample_volumes_nth:
  assumes "sample_volumes os now m sts states = (states', rs, es)" "distinct sts" "i < length states"
  shows "length states' = length states"
    and "states' ! i = (if i \<in> set sts then fst (sample_volume os now m i (states ! i)) else states ! i)"
  using assms
proof (induction sts arbitrary: states states' rs es)
  case (Cons st sts)
  {
    case 1
    then show ?case
      using Cons.IH(1) by (auto simp: Let_def split: prod.splits)
  next
    case 2
    obtain v r1 e1 where v: "sample_volume os now m st (states ! st) = (v, r1, e1)"
      by (metis prod_cases3)
    obtain r2 e2 where rest: "sample_volumes os now m sts (states[st := v]) = (states', r2, e2)"
      using 2 v by (auto simp: Let_def split: prod.splits)
    have "states' ! i = (if i \<in> set sts then fst (sample_volume os now m i (states[st := v] ! i)) else states[st := v] ! i)"
      using Cons.IH(2) [OF rest] 2 by simp
    with 2 v show ?case
      by (cases "i = st") auto
  }
qed simp_all

lemma tick_samples:
  assumes "tick os now (Some sts) during m states = (m', states', rs, es)" "sampling m" "has_provider m" "sts \<noteq> []"
    and "next_poll_at (during m) = time_zero \<or> next_poll_at (during m) \<le> now"
  shows "sample_volumes os now (during m) sts states = (states', rs, es)"
    and "m' = (during m)\<lparr>next_poll_at := now + ms_ticks (poll_interval (during m))\<rparr>"
  using assms by (auto simp: tick_def Let_def split: if_splits)

section \<open>Properties\<close>

text \<open>
  A blocked event is never lost. When a tick finds no blocked volume, sampling stops exactly if no
  blocked event was noted while the snapshot was taken; with one or more of them (fewer than \<open>2 ^ 63\<close>)
  it stays on, whatever the snapshot said.
\<close>

theorem blocked_event_survives_empty_snapshot:
  assumes "sampling m" "has_provider m" "n < 2 ^ 63"
    and "tick os now (Some []) (note_blocked ^^ n) m states = (m', states', rs, es)"
  shows "sampling m' \<longleftrightarrow> n \<noteq> 0"
proof -
  let ?g = "sampling_generation m" and ?m = "(note_blocked ^^ n) m"
  have m': "m' = stop_sampling ?g ?m"
    using assms by (simp add: tick_def)
  have odd_m: "odd (sampling_generation ?m)"
    using assms(1) by (simp add: note_blocked_power sampling_odd)
  show ?thesis
    using note_blocked_fresh [OF assms(1,3)] odd_m
    by (simp add: m' stop_sampling_def sampling_odd even_and_iff Let_def)
qed

theorem blocked_event_survives_empty_snapshot_witness:
  "sampling (fst (tick reg_demo_os 1 (Some []) (note_blocked ^^ 2) (note_blocked (new_monitor 1000 15000 True True)) []))"
proof -
  let ?m = "note_blocked (new_monitor 1000 15000 True True)"
  obtain m' states' rs es where t: "tick reg_demo_os 1 (Some []) (note_blocked ^^ 2) ?m [] = (m', states', rs, es)"
    by (metis prod_cases4)
  have "has_provider ?m"
    by (simp add: new_monitor_def)
  with blocked_event_survives_empty_snapshot [OF note_blocked_samples _ _ t] show ?thesis
    by (simp add: t)
qed

text \<open>
  C34. What a tick does to a blocked volume. Every volume of the snapshot is sampled: a failed query
  revokes the probe in flight, a successful one with free space opens a permit, nothing else changes the
  phase and no gate becomes ready; the effect on the gate is a run of its critical sections.
\<close>

theorem tick_samples_blocked_volumes:
  assumes "tick os now (Some sts) during m states = (m', states', rs, es)" "sampling m" "has_provider m"
    and "next_poll_at (during m) = time_zero \<or> next_poll_at (during m) \<le> now"
    and "distinct sts" "st \<in> set sts" "st < length states" "vs_gate (states ! st) = Some (sg s)"
  shows "\<exists>g'. vs_gate (states' ! st) = Some g' \<and> phase g' = sampled_phase os (sg s) \<and>
    (phase g' = Ready \<longleftrightarrow> phase (sg s) = Ready) \<and> space_steps s (s\<lparr>sg := g'\<rparr>)"
proof -
  have ne: "sts \<noteq> []"
    using assms(6) by auto
  note sampled = tick_samples(1) [OF assms(1-3) ne assms(4)]
  obtain g' r e where g': "sample_gate os now (during m) st (vs_counters (states ! st)) (sg s) = (g', r, e)"
    by (metis prod_cases3)
  have "states' ! st = fst (sample_volume os now (during m) st (states ! st))"
    using sample_volumes_nth(2) [OF sampled assms(5,7)] assms(6) by simp
  then have "vs_gate (states' ! st) = Some g'"
    using assms(8) g' by (simp add: sample_volume_def)
  moreover have "phase g' = sampled_phase os (sg s)"
    by (rule sample_gate_phase [OF g'])
  moreover have "sampled_phase os (sg s) = Ready \<longleftrightarrow> phase (sg s) = Ready"
    by (auto simp: sampled_phase_def split: option.splits prod.splits)
  ultimately show ?thesis
    using sample_gate_steps [OF g'] by auto
qed

theorem tick_samples_blocked_volumes_witness:
  "\<exists>g'. phase g' = sampled_phase reg_demo_os (sg demo_blocked) \<and> space_steps demo_blocked (demo_blocked\<lparr>sg := g'\<rparr>)"
proof -
  let ?m = "note_blocked (new_monitor 1000 15000 True True)"
  let ?states = "[(make_volume_state ''v'' True)\<lparr>vs_gate := Some (sg demo_blocked)\<rparr>]"
  obtain m' states' rs es where t: "tick reg_demo_os 1 (Some [0]) (\<lambda>x. x) ?m ?states = (m', states', rs, es)"
    by (metis prod_cases4)
  from tick_samples_blocked_volumes [OF t, of 0 demo_blocked] show ?thesis
    by (auto simp: note_blocked_samples new_monitor_def)
qed

text \<open>
  Sampling is rate limited: after a tick that sampled, no tick before the poll interval has passed
  touches a volume or reports anything, whatever it is given.
\<close>

theorem ticks_are_rate_limited:
  assumes "tick os now (Some sts) during m states = (m', states', rs, es)" "sampling m" "has_provider m" "sts \<noteq> []"
    and "next_poll_at (during m) = time_zero \<or> next_poll_at (during m) \<le> now"
    and "0 \<le> now" "0 < poll_interval (during m)" "now2 < now + ms_ticks (poll_interval (during m))"
  shows "snd (tick os2 now2 provided (\<lambda>x. x) m' vs) = (vs, [], [])"
proof -
  have "next_poll_at m' = now + ms_ticks (poll_interval (during m))"
    using tick_samples(2) [OF assms(1-5)] by simp
  moreover from this have "next_poll_at m' \<noteq> 0" "now2 < next_poll_at m'"
    using assms(6-8) by (simp_all add: ms_ticks_def)
  ultimately show ?thesis
    by (simp add: tick_def Let_def split: option.split)
qed

theorem ticks_are_rate_limited_witness:
  "\<exists>m'. snd (tick reg_demo_os 999999999 (Some [0]) (\<lambda>x. x) m' []) = ([], [], [])"
proof -
  let ?m = "note_blocked (new_monitor 1000 15000 True True)"
  obtain m' states' rs es where t: "tick reg_demo_os 1 (Some [0]) (\<lambda>x. x) ?m [make_volume_state ''v'' True] = (m', states', rs, es)"
    by (metis prod_cases4)
  have p: "poll_interval ?m = 1000" "next_poll_at ?m = 0"
    by (simp_all add: note_blocked_def new_monitor_def)
  from ticks_are_rate_limited [OF t, of 999999999 reg_demo_os "Some [0]" "[]"] show ?thesis
    using p by (auto simp: note_blocked_samples new_monitor_def ms_ticks_def)
qed

end
