(* ===== verification/Native_Memory.thy ===== *)
theory Native_Memory
  imports Prelude "HOL-Library.Multiset"
begin

text \<open>
  The memory arbitrator of the worker (\<^verbatim>\<open>native_memory.hpp/.cpp\<close>): large allocations of the decoders are
  charged to their job and admitted against a ledger of the head room the operating system reports;
  under pressure the monitor thread revokes the largest job, and a job that failed waits, parked, until
  its workspace fits again.

  Byte counts are 64-bit words. A head room is a signed 64-bit value in the source, whose overflow is
  undefined behaviour; it is an unbounded \<open>int\<close> here, and a cast of a byte count to it is \<open>sint\<close>. The
  mutex makes each operation atomic. The operating system answers are arguments: the \<open>n\<close>-th sample of an
  operation reads the clock and the memory status \<open>env n\<close>.
\<close>

section \<open>Data\<close>

record mem_status =
  headroom :: int
  available :: u64
  reserve :: u64

record mem_job =
  m_cancel :: bool
  m_revoked :: bool
  m_denied :: bool
  m_has_wake :: bool
  m_committed :: u64
  m_peak :: u64
  m_admission :: u64
  m_required :: u64
  m_failed_headroom :: int
  m_retry_headroom :: int
  m_running :: bool
  m_wake_pending :: bool

definition int64_max :: int where
  "int64_max = 2 ^ 63 - 1"

definition new_mem_job :: mem_job where
  "new_mem_job = \<lparr>m_cancel = False, m_revoked = False, m_denied = False, m_has_wake = False, m_committed = 0,
     m_peak = 0, m_admission = 0, m_required = 0, m_failed_headroom = - 1, m_retry_headroom = int64_max,
     m_running = False, m_wake_pending = False\<rparr>"

record waiter =
  w_job :: nat
  w_has_notice :: bool
  w_announced :: bool

text \<open>
  The manager, the jobs by address, and the table of large allocations: address, owner and size.
\<close>

record manager =
  mm_reserve :: u64
  mm_store :: "mem_job list"
  mm_jobs :: "nat list"
  mm_waiters :: "waiter list"
  mm_stopping :: bool
  mm_reclaim_requested :: bool
  mm_cached :: mem_status
  mm_sampled_at :: u64
  mm_resample :: bool
  mm_event :: bool
  mm_allocs :: "(u64 \<times> nat \<times> u64) list"

type_synonym mem_env = "nat \<Rightarrow> u64 \<times> mem_status"

definition new_manager :: "u64 \<Rightarrow> manager" where
  "new_manager r = \<lparr>mm_reserve = r, mm_store = [], mm_jobs = [], mm_waiters = [], mm_stopping = False,
     mm_reclaim_requested = False, mm_cached = \<lparr>headroom = 0, available = 0, reserve = 0\<rparr>, mm_sampled_at = 0,
     mm_resample = True, mm_event = False, mm_allocs = []\<rparr>"

section \<open>Arithmetic\<close>

definition quantum :: u64 where
  "quantum = 4 * 2 ^ 20"

definition small_workspace_bytes_per_credit :: u64 where
  "small_workspace_bytes_per_credit = 16 * 2 ^ 20"

definition default_reserve_bytes :: "u64 \<Rightarrow> u64" where
  "default_reserve_bytes cpu_credits =
     (let base = 128 * 2 ^ 20; per_credit = small_workspace_bytes_per_credit;
          credits = (if cpu_credits = 0 then 1 else cpu_credits);
          maximum = (0x7fffffffffffffff - base) div per_credit
      in base + (if credits > maximum then maximum else credits) * per_credit)"

definition commitment :: "u64 \<Rightarrow> u64" where
  "commitment n = (if n > - 1 - 4095 then - 1 else and (n + 4095) (not 4095))"

definition can_fit :: "int \<Rightarrow> u64 \<Rightarrow> bool" where
  "can_fit h bytes \<longleftrightarrow> h \<ge> 0 \<and> bytes \<le> of_int h"

definition difference :: "u64 \<Rightarrow> u64 \<Rightarrow> int" where
  "difference a b =
     (if a \<ge> b then sint (min (a - b) 0x7fffffffffffffff) else - sint (min (b - a) 0x7fffffffffffffff))"

record win_memory =
  wm_global :: "(u64 \<times> u64) option"
  wm_private_working_set :: u64
  wm_working_set :: u64
  wm_private_usage :: u64
  wm_performance :: "(u64 \<times> u64 \<times> u64) option"

text \<open>
  The fields are what \<^verbatim>\<open>GlobalMemoryStatusEx\<close> (physical memory, page file), \<^verbatim>\<open>GetProcessMemoryInfo\<close> (zero
  where neither form of the call filled them) and \<^verbatim>\<open>GetPerformanceInfo\<close> (limit, total, page size) report.
\<close>

definition query_windows :: "win_memory \<Rightarrow> u64 \<Rightarrow> mem_status" where
  "query_windows w r =
     (case wm_global w of
        None \<Rightarrow> \<lparr>headroom = int64_max, available = 0, reserve = 0\<rparr>
      | Some (phys, page) \<Rightarrow>
          let resident = (if wm_private_working_set w \<noteq> 0 then wm_private_working_set w else wm_working_set w);
              debt = (if wm_private_usage w > resident then wm_private_usage w - resident else 0);
              room = min (difference phys (r + debt)) (difference page 0);
              room2 = (case wm_performance w of None \<Rightarrow> room
                       | Some (limit, tot, pagesize) \<Rightarrow> min room (difference (limit * pagesize) (tot * pagesize + r)))
          in \<lparr>headroom = room2, available = phys, reserve = r\<rparr>)"

section \<open>The ledger\<close>

definition jb :: "manager \<Rightarrow> nat \<Rightarrow> mem_job" where
  "jb m j = mm_store m ! j"

definition upd :: "nat \<Rightarrow> (mem_job \<Rightarrow> mem_job) \<Rightarrow> manager \<Rightarrow> manager" where
  "upd j f m = m\<lparr>mm_store := (mm_store m)[j := f (jb m j)]\<rparr>"

definition set_event :: "manager \<Rightarrow> manager" where
  "set_event m = m\<lparr>mm_event := True\<rparr>"

definition changed :: "manager \<Rightarrow> manager" where
  "changed m = m\<lparr>mm_resample := True, mm_event := True\<rparr>"

definition admissions :: "manager \<Rightarrow> int" where
  "admissions m = sum_list (map (\<lambda>j. sint (m_admission (jb m j))) (mm_jobs m))"

definition sample_locked :: "u64 \<times> mem_status \<Rightarrow> bool \<Rightarrow> manager \<Rightarrow> mem_status \<times> manager" where
  "sample_locked now_query fresh m =
     (let requested = mm_resample m;
          m1 = m\<lparr>mm_resample := False\<rparr>;
          m2 = (if fresh \<or> requested \<or> fst now_query - mm_sampled_at m1 \<ge> 250
                then m1\<lparr>mm_cached := snd now_query, mm_sampled_at := fst now_query\<rparr> else m1);
          h = headroom (mm_cached m2) - admissions m2
      in ((mm_cached m2)\<lparr>headroom := h, available := of_int (max h 0)\<rparr>, m2))"

definition mem_begin :: "nat \<Rightarrow> bool \<Rightarrow> manager \<Rightarrow> manager" where
  "mem_begin j wake m =
     (let m1 = upd j (\<lambda>x. x\<lparr>m_running := True, m_wake_pending := False, m_failed_headroom := - 1,
                    m_retry_headroom := int64_max, m_required := (if m_revoked x then m_required x else 0),
                    m_peak := m_committed x, m_revoked := False, m_denied := False, m_cancel := False,
                    m_has_wake := wake\<rparr>) m
      in set_event (m1\<lparr>mm_jobs := push_back_unique j (mm_jobs m1)\<rparr>))"

definition mem_end :: "nat \<Rightarrow> manager \<Rightarrow> manager" where
  "mem_end j m =
     (let m1 = upd j (\<lambda>x. x\<lparr>m_running := False, m_wake_pending := False, m_admission := 0, m_has_wake := False\<rparr>) m
      in set_event (m1\<lparr>mm_jobs := filter (\<lambda>i. i \<noteq> j) (mm_jobs m1)\<rparr>))"

definition set_wake :: "nat \<Rightarrow> bool \<Rightarrow> manager \<Rightarrow> manager" where
  "set_wake j wake m =
     (let m1 = upd j (\<lambda>x. x\<lparr>m_has_wake := wake\<rparr>) m
      in if m_revoked (jb m1 j) then set_event (upd j (\<lambda>x. x\<lparr>m_wake_pending := True\<rparr>) m1) else m1)"

definition revoke_locked :: "nat \<Rightarrow> manager \<Rightarrow> manager" where
  "revoke_locked j m =
     (if m_revoked (jb m j) then m
      else upd j (\<lambda>x. x\<lparr>m_revoked := True, m_cancel := True, m_wake_pending := True\<rparr>) m)"

definition failed_locked :: "nat \<Rightarrow> u64 \<Rightarrow> mem_status \<Rightarrow> manager \<Rightarrow> manager" where
  "failed_locked j required status =
     upd j (\<lambda>x. x\<lparr>m_required := max (m_required x) required,
               m_retry_headroom := headroom status + sint (m_committed x + m_admission x)\<rparr>)"

definition mem_retry :: "u64 \<times> mem_status \<Rightarrow> nat \<Rightarrow> manager \<Rightarrow> manager" where
  "mem_retry now_query j m =
     (let m1 = (if \<not> m_revoked (jb m j) \<and> \<not> m_denied (jb m j)
                then case sample_locked now_query True m of
                       (status, m') \<Rightarrow> failed_locked j (max (m_peak (jb m j)) (m_committed (jb m j) + quantum)) status m'
                else m)
      in set_event (revoke_locked j m1))"

section \<open>Allocation\<close>

text \<open>
  \<^verbatim>\<open>allocate\<close>. Arguments: the samples, whether the low-memory event is signalled, what \<^verbatim>\<open>VirtualAlloc\<close>
  returns, whether the table can be extended, the job and the size. A table that cannot be extended
  throws: the memory is given back and the job is retried.
\<close>

definition deny :: "nat \<Rightarrow> u64 \<Rightarrow> mem_status \<Rightarrow> manager \<Rightarrow> manager" where
  "deny j total_bytes status m = upd j (\<lambda>x. x\<lparr>m_denied := True\<rparr>) (failed_locked j total_bytes status m)"

definition charge :: "nat \<Rightarrow> u64 \<Rightarrow> u64 \<Rightarrow> manager \<Rightarrow> manager" where
  "charge j credit wanted m =
     (upd j (\<lambda>x. x\<lparr>m_admission := m_admission x - credit, m_committed := m_committed x + wanted\<rparr>) m)
       \<lparr>mm_cached := (mm_cached m)\<lparr>headroom := headroom (mm_cached m) - sint wanted\<rparr>\<rparr>"

definition return_cushion :: "u64 \<times> mem_status \<Rightarrow> nat \<Rightarrow> manager \<Rightarrow> manager" where
  "return_cushion now_query j m =
     (if m_admission (jb m j) \<noteq> 0 \<and> m_committed (jb m j) \<ge> m_required (jb m j)
      then snd (sample_locked now_query True (upd j (\<lambda>x. x\<lparr>m_admission := 0\<rparr>) m))
      else m)"

definition ledger_sample :: "mem_env \<Rightarrow> bool \<Rightarrow> u64 \<Rightarrow> manager \<Rightarrow> mem_status \<times> manager" where
  "ledger_sample env low bytes m =
     (let (status, m1) = sample_locked (env 0) False m
      in if \<not> can_fit (headroom status) bytes \<or> low then sample_locked (env 1) True m1 else (status, m1))"

definition allocate_admitted ::
    "mem_env \<Rightarrow> u64 option \<Rightarrow> bool \<Rightarrow> nat \<Rightarrow> u64 \<Rightarrow> u64 \<Rightarrow> u64 \<Rightarrow> manager \<Rightarrow> u64 option \<times> manager" where
  "allocate_admitted env virtual table_ok j n total_bytes credit m =
     (case virtual of
        None \<Rightarrow>
          let (status, m1) = sample_locked (env 2) True m;
              m2 = upd j (\<lambda>x. x\<lparr>m_failed_headroom := headroom status + sint (m_committed x + m_admission x)\<rparr>) m1
          in (None, changed (deny j total_bytes status m2))
      | Some a \<Rightarrow>
          if \<not> table_ok then (None, mem_retry (env 2) j m)
          else (Some a, return_cushion (env 2) j (charge j credit (commitment n) (m\<lparr>mm_allocs := (a, j, n) # mm_allocs m\<rparr>))))"

definition allocate ::
    "mem_env \<Rightarrow> bool \<Rightarrow> u64 option \<Rightarrow> bool \<Rightarrow> nat \<Rightarrow> u64 \<Rightarrow> manager \<Rightarrow> u64 option \<times> manager" where
  "allocate env low virtual table_ok j n m0 =
     (if m_revoked (jb m0 j) then (None, m0)
      else
        let wanted = commitment n;
            total_bytes = (if wanted > - 1 - m_committed (jb m0 j) then - 1 else m_committed (jb m0 j) + wanted);
            m1 = upd j (\<lambda>x. x\<lparr>m_peak := max (m_peak x) total_bytes\<rparr>) m0;
            credit = min wanted (m_admission (jb m1 j));
            (status, m2) = ledger_sample env low (wanted - credit) m1
        in if \<not> can_fit (headroom status) (wanted - credit)
           then (None, set_event (deny j total_bytes status (m2\<lparr>mm_reclaim_requested := True\<rparr>)))
           else allocate_admitted env virtual table_ok j n total_bytes credit m2)"

definition released :: "bool \<Rightarrow> nat \<Rightarrow> u64 \<Rightarrow> manager \<Rightarrow> manager" where
  "released freed j n m =
     (if \<not> freed then m
      else set_event ((upd j (\<lambda>x. x\<lparr>m_committed := m_committed x - commitment n\<rparr>) m)
             \<lparr>mm_cached := (mm_cached m)\<lparr>headroom := headroom (mm_cached m) + sint (commitment n)\<rparr>\<rparr>))"

definition may_start_thread :: "mem_env \<Rightarrow> nat \<Rightarrow> manager \<Rightarrow> bool \<times> manager" where
  "may_start_thread env j m0 =
     (if m_revoked (jb m0 j) then (False, m0)
      else
        let (status1, m1) = sample_locked (env 0) False m0;
            (status, m2) = (if headroom status1 + sint (m_admission (jb m1 j)) < 0
                            then sample_locked (env 1) True m1 else (status1, m1))
        in if headroom status + sint (m_admission (jb m2 j)) \<ge> 0 then (True, m2)
           else (False, set_event (failed_locked j (m_committed (jb m2 j) + quantum) status
                          (upd j (\<lambda>x. x\<lparr>m_denied := True\<rparr>) m2))))"

text \<open>The C interface: only addresses aligned to 64 KiB can be in the table.\<close>

definition unmanaged_address :: "u64 \<Rightarrow> bool" where
  "unmanaged_address a \<longleftrightarrow> and a 65535 \<noteq> 0 \<or> a = 0"

definition memory_size :: "bool \<Rightarrow> u64 \<Rightarrow> manager \<Rightarrow> u64" where
  "memory_size ready a m =
     (if unmanaged_address a \<or> \<not> ready then 0
      else case map_of (mm_allocs m) a of None \<Rightarrow> 0 | Some (j, n) \<Rightarrow> n)"

fun erase_alloc :: "u64 \<Rightarrow> (u64 \<times> nat \<times> u64) list \<Rightarrow> (u64 \<times> nat \<times> u64) list" where
  "erase_alloc a [] = []"
| "erase_alloc a (x # xs) = (if fst x = a then xs else x # erase_alloc a xs)"

definition memory_free :: "bool \<Rightarrow> bool \<Rightarrow> bool \<Rightarrow> u64 \<Rightarrow> manager \<Rightarrow> bool \<times> manager" where
  "memory_free ready bookkeeping freed a m =
     (if unmanaged_address a \<or> bookkeeping \<or> \<not> ready then (False, m)
      else case map_of (mm_allocs m) a of
             None \<Rightarrow> (False, m)
           | Some (j, n) \<Rightarrow> (True, released freed j n (m\<lparr>mm_allocs := erase_alloc a (mm_allocs m)\<rparr>)))"

definition memory_alloc ::
    "mem_env \<Rightarrow> bool \<Rightarrow> u64 option \<Rightarrow> bool \<Rightarrow> nat option \<Rightarrow> u64 \<Rightarrow> manager \<Rightarrow> u64 option \<times> manager" where
  "memory_alloc env low virtual table_ok ctx n m =
     (case ctx of None \<Rightarrow> (None, m) | Some j \<Rightarrow> allocate env low virtual table_ok j n m)"

definition decoder_allocate ::
    "mem_env \<Rightarrow> bool \<Rightarrow> u64 option \<Rightarrow> bool \<Rightarrow> u64 option \<Rightarrow> nat option \<Rightarrow> u64 \<Rightarrow> manager \<Rightarrow> u64 option \<times> manager" where
  "decoder_allocate env low virtual table_ok malloc ctx n m =
     (if n \<ge> quantum \<and> ctx \<noteq> None then memory_alloc env low virtual table_ok ctx n m else (malloc, m))"

definition memory_may_start_thread :: "mem_env \<Rightarrow> nat option \<Rightarrow> manager \<Rightarrow> bool \<times> manager" where
  "memory_may_start_thread env ctx m =
     (case ctx of None \<Rightarrow> (True, m) | Some j \<Rightarrow> may_start_thread env j m)"

section \<open>Parking and the monitor\<close>

text \<open>\<^verbatim>\<open>park\<close> returns whether the waiter was queued; otherwise \<^verbatim>\<open>ready(false)\<close> is called at once.\<close>

definition park :: "nat \<Rightarrow> bool \<Rightarrow> manager \<Rightarrow> bool \<times> manager" where
  "park j notice m =
     (if \<not> mm_stopping m then
        let m1 = upd j (\<lambda>x. x\<lparr>m_failed_headroom := (if m_failed_headroom x \<ge> 0 then m_failed_headroom x - sint (m_committed x) else m_failed_headroom x),
                       m_retry_headroom := (if m_retry_headroom x \<noteq> int64_max then m_retry_headroom x - sint (m_committed x) else m_retry_headroom x)\<rparr>) m
        in (True, changed (m1\<lparr>mm_waiters := mm_waiters m1 @ [\<lparr>w_job = j, w_has_notice = notice, w_announced = False\<rparr>]\<rparr>))
      else (False, m))"

definition stop :: "manager \<Rightarrow> manager" where
  "stop m = changed (m\<lparr>mm_stopping := True\<rparr>)"

datatype mem_callback = Cb_wake nat | Cb_notice nat int u64 | Cb_resume nat bool "(int \<times> u64) option"

text \<open>The first critical section of a pass: refund the forecasts under pressure.\<close>

fun refund_all :: "nat list \<Rightarrow> manager \<Rightarrow> manager" where
  "refund_all [] m = m"
| "refund_all (j # js) m = refund_all js (upd j (\<lambda>x. x\<lparr>m_admission := 0\<rparr>) m)"

definition monitor_refund :: "mem_env \<Rightarrow> bool \<Rightarrow> manager \<Rightarrow> bool \<times> manager" where
  "monitor_refund env fresh m0 =
     (let (status0, m1) = sample_locked (env 0) fresh m0;
          (status1, m2) = sample_locked (env 1) False m1;
          m3 = (if headroom status1 < 0 then refund_all (mm_jobs m2) m2 else m2);
          (pressure, m4) =
            (if mm_stopping m3 then (False, m3)
             else if mm_reclaim_requested m3 then (True, m3)
             else (case sample_locked (env 2) False m3 of (status2, m') \<Rightarrow> (headroom status2 < 0, m')))
      in (pressure, m4\<lparr>mm_reclaim_requested := False\<rparr>))"

text \<open>The second critical section: revoke at most one victim, collect the wake-ups, admit waiters.\<close>

fun scan_victim :: "manager \<Rightarrow> nat list \<Rightarrow> u64 \<Rightarrow> nat option \<Rightarrow> u64 \<times> nat option" where
  "scan_victim m [] retiring victim = (retiring, victim)"
| "scan_victim m (j # js) retiring victim =
     (if m_revoked (jb m j) then scan_victim m js (retiring + m_committed (jb m j)) victim
      else if m_running (jb m j) \<and> m_committed (jb m j) \<noteq> 0 \<and>
              (case victim of None \<Rightarrow> True | Some v \<Rightarrow> m_committed (jb m v) < m_committed (jb m j))
      then scan_victim m js retiring (Some j)
      else scan_victim m js retiring victim)"

definition monitor_revoke :: "mem_status \<Rightarrow> manager \<Rightarrow> manager" where
  "monitor_revoke status m =
     (if \<not> mm_stopping m \<and> headroom status < 0 then
        (case scan_victim m (mm_jobs m) 0 None of
           (retiring, Some v) \<Rightarrow>
             if retiring < of_int (- headroom status)
             then revoke_locked v (failed_locked v (m_committed (jb m v)) status m) else m
         | (retiring, None) \<Rightarrow> m)
      else m)"

fun collect_wakes :: "nat list \<Rightarrow> manager \<Rightarrow> mem_callback list \<times> manager" where
  "collect_wakes [] m = ([], m)"
| "collect_wakes (j # js) m =
     (if m_wake_pending (jb m j) \<and> m_has_wake (jb m j)
      then let (cs, m') = collect_wakes js (upd j (\<lambda>x. x\<lparr>m_wake_pending := False\<rparr>) m) in (Cb_wake j # cs, m')
      else collect_wakes js m)"

definition needed_bytes :: "mem_job \<Rightarrow> u64" where
  "needed_bytes x = (if m_required x > m_committed x then m_required x - m_committed x else 0)"

definition reservation_bytes :: "u64 \<Rightarrow> u64" where
  "reservation_bytes needed =
     (if needed > - 1 - small_workspace_bytes_per_credit then - 1 else needed + small_workspace_bytes_per_credit)"

definition progressing :: "manager \<Rightarrow> bool" where
  "progressing m = list_ex (\<lambda>j. m_running (jb m j) \<or> m_admission (jb m j) \<noteq> 0) (mm_jobs m)"

definition growth :: "int \<Rightarrow> mem_job \<Rightarrow> bool" where
  "growth h x \<longleftrightarrow> h \<ge> sint quantum \<and> m_retry_headroom x \<le> h - sint quantum"

definition fits :: "int \<Rightarrow> bool \<Rightarrow> mem_job \<Rightarrow> bool" where
  "fits h prog x \<longleftrightarrow>
     (can_fit h (reservation_bytes (needed_bytes x)) \<or> (\<not> prog \<and> can_fit h (needed_bytes x)) \<or> growth h x) \<and>
     (m_failed_headroom x < 0 \<or> h > m_failed_headroom x)"

definition admit :: "nat \<Rightarrow> int \<Rightarrow> manager \<Rightarrow> manager" where
  "admit j h m =
     (let m1 = upd j (\<lambda>x. x\<lparr>m_admission := min (reservation_bytes (needed_bytes x)) (of_int (max h 0))\<rparr>) m
      in m1\<lparr>mm_jobs := mm_jobs m1 @ [j]\<rparr>)"

fun admit_waiters ::
    "mem_env \<Rightarrow> nat \<Rightarrow> bool \<Rightarrow> (nat \<Rightarrow> bool) \<Rightarrow> waiter list \<Rightarrow> manager \<Rightarrow> waiter list \<times> mem_callback list \<times> manager" where
  "admit_waiters env i stopped canceled [] m = ([], [], m)"
| "admit_waiters env i stopped canceled (w # ws) m =
     (let j = w_job w;
          cancel = (stopped \<or> canceled j);
          (status, m1) = sample_locked (env i) False m;
          h = headroom status;
          prog = progressing m1
      in if cancel \<or> fits h prog (jb m1 j) then
           let m2 = (if \<not> cancel then admit j h m1 else m1);
               note = (if w_announced w \<and> w_has_notice w then Some (h, m_required (jb m2 j)) else None);
               (kept, cs, m3) = admit_waiters env (Suc i) stopped canceled ws m2
           in (kept, Cb_resume j (\<not> cancel) note # cs, m3)
         else if \<not> w_announced w \<and> \<not> prog \<and> w_has_notice w then
           let (kept, cs, m3) = admit_waiters env (Suc i) stopped canceled ws m1
           in (w\<lparr>w_announced := True\<rparr> # kept, Cb_notice j h (m_required (jb m1 j)) # cs, m3)
         else
           let (kept, cs, m3) = admit_waiters env (Suc i) stopped canceled ws m1
           in (w # kept, cs, m3))"

definition monitor_admit ::
    "mem_env \<Rightarrow> bool \<Rightarrow> (nat \<Rightarrow> bool) \<Rightarrow> manager \<Rightarrow> mem_callback list \<times> manager" where
  "monitor_admit env pressure canceled m0 =
     (let stopped = mm_stopping m0;
          (status, m1) = sample_locked (env 0) pressure m0;
          m2 = monitor_revoke status m1;
          (wakes, m3) = collect_wakes (mm_jobs m2) m2;
          (kept, cs, m4) = admit_waiters env 1 stopped canceled (mm_waiters m3) m3
      in (wakes @ cs, m4\<lparr>mm_waiters := kept\<rparr>))"


section \<open>Frames\<close>

lemma jb_frame [simp]:
  "jb (m\<lparr>mm_jobs := a\<rparr>) = jb m" "jb (m\<lparr>mm_waiters := b\<rparr>) = jb m" "jb (m\<lparr>mm_stopping := c\<rparr>) = jb m"
  "jb (m\<lparr>mm_reclaim_requested := d\<rparr>) = jb m" "jb (m\<lparr>mm_cached := e\<rparr>) = jb m" "jb (m\<lparr>mm_sampled_at := f\<rparr>) = jb m"
  "jb (m\<lparr>mm_resample := g\<rparr>) = jb m" "jb (m\<lparr>mm_event := h\<rparr>) = jb m" "jb (m\<lparr>mm_allocs := i\<rparr>) = jb m"
  by (simp_all add: jb_def fun_eq_iff)

lemma upd_frame [simp]:
  "mm_jobs (upd j f m) = mm_jobs m" "mm_waiters (upd j f m) = mm_waiters m" "mm_stopping (upd j f m) = mm_stopping m"
  "mm_reclaim_requested (upd j f m) = mm_reclaim_requested m" "mm_cached (upd j f m) = mm_cached m"
  "mm_sampled_at (upd j f m) = mm_sampled_at m" "mm_resample (upd j f m) = mm_resample m"
  "mm_allocs (upd j f m) = mm_allocs m" "length (mm_store (upd j f m)) = length (mm_store m)"
  by (simp_all add: upd_def)

lemma jb_upd: "jb (upd j f m) i = (if i = j \<and> j < length (mm_store m) then f (jb m j) else jb m i)"
  by (auto simp: jb_def upd_def nth_list_update list_update_beyond not_less)

lemma upd_field [simp]: "(\<And>x. g (f x) = g x) \<Longrightarrow> g (jb (upd j f m) i) = g (jb m i)"
  by (simp add: jb_upd)

lemma sample_frame:
  assumes "sample_locked q fresh m = (status, m')"
  shows "jb m' = jb m" "mm_store m' = mm_store m" "mm_jobs m' = mm_jobs m" "mm_waiters m' = mm_waiters m"
    "mm_stopping m' = mm_stopping m" "mm_allocs m' = mm_allocs m"
    "headroom status = headroom (mm_cached m') - admissions m'" "admissions m' = admissions m"
    "mm_cached m' = mm_cached m \<or> mm_cached m' = snd q"
  using assms by (auto simp: sample_locked_def Let_def admissions_def jb_def split: if_splits)

text \<open>What leaves the commitments and the table alone.\<close>

definition keeps :: "manager \<Rightarrow> manager \<Rightarrow> bool" where
  "keeps m m' \<longleftrightarrow> length (mm_store m') = length (mm_store m) \<and> mm_allocs m' = mm_allocs m \<and>
     (\<forall>j. m_committed (jb m' j) = m_committed (jb m j))"

lemma keeps_refl [simp]: "keeps m m"
  by (simp add: keeps_def)

lemma keeps_trans: "keeps m1 m2 \<Longrightarrow> keeps m2 m3 \<Longrightarrow> keeps m1 m3"
  by (simp add: keeps_def)

lemma keeps_frame [simp]:
  "keeps m (m'\<lparr>mm_jobs := a\<rparr>) = keeps m m'" "keeps m (m'\<lparr>mm_waiters := b\<rparr>) = keeps m m'"
  "keeps m (m'\<lparr>mm_stopping := c\<rparr>) = keeps m m'" "keeps m (m'\<lparr>mm_reclaim_requested := d\<rparr>) = keeps m m'"
  "keeps m (m'\<lparr>mm_resample := g\<rparr>) = keeps m m'" "keeps m (m'\<lparr>mm_event := h\<rparr>) = keeps m m'"
  "keeps m (set_event m') = keeps m m'" "keeps m (changed m') = keeps m m'"
  by (simp_all add: keeps_def set_event_def changed_def)

lemma keeps_upd [simp]:
  "(\<And>x. m_committed (f x) = m_committed x) \<Longrightarrow> keeps m (upd j f m') = keeps m m'"
  by (simp add: keeps_def)

lemma keeps_sample: "sample_locked q fresh m' = (status, m'') \<Longrightarrow> keeps m m'' = keeps m m'"
  using sample_frame(1,2,6) by (simp add: keeps_def)

lemma keeps_sample_snd [simp]: "keeps m (snd (sample_locked q fresh m')) = keeps m m'"
  using keeps_sample [of q fresh m' "fst (sample_locked q fresh m')" "snd (sample_locked q fresh m')" m] by simp

lemma keeps_small [simp]:
  "keeps m (failed_locked j r st m') = keeps m m'" "keeps m (revoke_locked j m') = keeps m m'"
  "keeps m (deny j r st m') = keeps m m'"
  by (simp_all add: failed_locked_def revoke_locked_def deny_def)

lemma keeps_operations:
  "keeps m (mem_begin j wake m)" "keeps m (mem_end j m)" "keeps m (set_wake j wake m)"
  "keeps m (mem_retry q j m)" "keeps m (stop m)" "keeps m (snd (park j notice m))"
  "keeps m (snd (may_start_thread env j m))"
proof -
  show "keeps m (mem_retry q j m)"
    by (simp add: mem_retry_def Let_def case_prod_unfold)
  show "keeps m (snd (may_start_thread env j m))"
    by (simp add: may_start_thread_def Let_def case_prod_unfold)
qed (simp_all add: mem_begin_def mem_end_def set_wake_def stop_def park_def Let_def)

lemma keeps_refund_all [simp]: "keeps m (refund_all js m') = keeps m m'"
  by (induction js arbitrary: m') simp_all

lemma keeps_monitor_refund: "keeps m (snd (monitor_refund env fresh m))"
  by (simp add: monitor_refund_def Let_def case_prod_unfold)

lemma keeps_monitor_revoke [simp]: "keeps m (monitor_revoke st m') = keeps m m'"
  by (simp add: monitor_revoke_def Let_def split: prod.split option.split)

lemma keeps_collect_wakes [simp]: "keeps m (snd (collect_wakes js m')) = keeps m m'"
  by (induction js m' rule: collect_wakes.induct) (simp_all add: Let_def case_prod_unfold)

lemma keeps_admit [simp]: "keeps m (admit j h m') = keeps m m'"
  by (simp add: admit_def Let_def)

lemma keeps_admit_waiters [simp]:
  "keeps m (snd (snd (admit_waiters env i stopped canceled ws m'))) = keeps m m'"
  by (induction ws arbitrary: i m' stopped) (simp_all add: Let_def case_prod_unfold)

lemma keeps_monitor_admit: "keeps m (snd (monitor_admit env pressure canceled m))"
  by (simp add: monitor_admit_def Let_def case_prod_unfold)


section \<open>Rounding\<close>

text \<open>A commitment is the size rounded up to whole pages, unless that would wrap.\<close>

lemma mask_4095: "(4095 :: u64) = mask 12"
  by (simp add: mask_eq_exp_minus_1)

lemma and_not_4095: "unat (and x (- 4096) :: u64) = unat x - unat x mod 4096"
proof -
  have neg: "(- 4096 :: u64) = not 4095"
    by simp
  have "and x (not 4095) = x - and x 4095"
  proof -
    have "and x (not 4095) + and x 4095 = or (and x (not 4095)) (and x 4095)"
      by (rule disjunctive_add) (auto simp: bit_simps)
    also have "\<dots> = x"
      by (rule bit_word_eqI) (auto simp: bit_simps)
    finally show ?thesis
      by (simp add: algebra_simps)
  qed
  moreover have "and x 4095 = x mod 4096"
    unfolding mask_4095 take_bit_eq_mask [symmetric] by (simp add: take_bit_eq_mod)
  moreover have "x mod 4096 \<le> x"
    by (simp add: word_le_nat_alt unat_mod)
  ultimately show ?thesis
    unfolding neg by (simp only: unat_sub unat_mod) simp
qed

lemma commitment_rounds_up:
  assumes "unat n \<le> 2 ^ 64 - 4096"
  shows "unat (commitment n) = (unat n + 4095) div 4096 * 4096"
proof -
  have fit: "unat (n + 4095) = unat n + 4095"
    using assms by (simp add: unat_word_ariths)
  have "\<not> n > - 1 - 4095"
    using assms by (simp add: word_less_nat_alt unat_word_ariths)
  then have "unat (commitment n) = (unat n + 4095) - (unat n + 4095) mod 4096"
    by (simp add: commitment_def and_not_4095 fit)
  then show ?thesis
    by (simp add: minus_mod_eq_div_mult)
qed


section \<open>The effect of an allocation\<close>

lemma return_cushion_keeps [simp]: "keeps m (return_cushion q j m') = keeps m m'"
  by (simp add: return_cushion_def)

lemma charge_committed:
  assumes "j < length (mm_store m)"
  shows "length (mm_store (charge j credit wanted m)) = length (mm_store m)"
    and "mm_allocs (charge j credit wanted m) = mm_allocs m"
    and "m_committed (jb (charge j credit wanted m) i) = m_committed (jb m i) + (if i = j then wanted else 0)"
  using assms by (simp_all add: charge_def jb_upd)

text \<open>
  An allocation either fails, changing no commitment, or gets past the ledger: then the state before the
  charge has the head room for it.
\<close>

lemma ledger_sample_frame:
  assumes "ledger_sample env low bytes m = (status, m')"
  shows "keeps m m'" "jb m' = jb m" "mm_jobs m' = mm_jobs m" "admissions m' = admissions m"
    "headroom status = headroom (mm_cached m') - admissions m'"
    "mm_cached m' \<in> {mm_cached m, snd (env 0), snd (env 1)}"
proof -
  obtain st1 m1 where s1: "sample_locked (env 0) False m = (st1, m1)" by fastforce
  note f1 = sample_frame [OF s1] keeps_sample [OF s1, of m]
  have "keeps m m' \<and> jb m' = jb m \<and> mm_jobs m' = mm_jobs m \<and> admissions m' = admissions m \<and>
    headroom status = headroom (mm_cached m') - admissions m' \<and> mm_cached m' \<in> {mm_cached m, snd (env 0), snd (env 1)}"
  proof (cases "\<not> can_fit (headroom st1) bytes \<or> low")
    case True
    then have s2: "sample_locked (env 1) True m1 = (status, m')"
      using assms s1 by (simp add: ledger_sample_def)
    from sample_frame [OF s2] keeps_sample [OF s2, of m] f1 show ?thesis by auto
  next
    case False
    then show ?thesis
      using assms s1 f1 by (auto simp: ledger_sample_def)
  qed
  then show "keeps m m'" "jb m' = jb m" "mm_jobs m' = mm_jobs m" "admissions m' = admissions m"
    "headroom status = headroom (mm_cached m') - admissions m'"
    "mm_cached m' \<in> {mm_cached m, snd (env 0), snd (env 1)}"
    by blast+
qed

lemma allocate_admitted_cases:
  assumes "allocate_admitted env virtual table_ok j n total_bytes credit m = (r, m')"
  shows "r = None \<and> keeps m m' \<or>
    (\<exists>a. virtual = Some a \<and> r = Some a \<and>
      m' = return_cushion (env 2) j (charge j credit (commitment n) (m\<lparr>mm_allocs := (a, j, n) # mm_allocs m\<rparr>)))"
  using assms keeps_operations(4) [of m "env 2" j]
  by (auto simp: allocate_admitted_def Let_def case_prod_unfold split: option.splits if_splits)

lemma allocate_cases:
  assumes "allocate env low virtual table_ok j n m = (r, m')"
  obtains (failed) "r = None" "keeps m m'"
  | (ok) a m2 credit where "virtual = Some a" "r = Some a" "keeps m m2"
      "\<forall>i. m_admission (jb m2 i) = m_admission (jb m i)" "mm_jobs m2 = mm_jobs m"
      "credit = min (commitment n) (m_admission (jb m j))"
      "can_fit (headroom (mm_cached m2) - admissions m2) (commitment n - credit)"
      "mm_cached m2 \<in> {mm_cached m, snd (env 0), snd (env 1)}" "admissions m2 = admissions m"
      "m' = return_cushion (env 2) j (charge j credit (commitment n) (m2\<lparr>mm_allocs := (a, j, n) # mm_allocs m2\<rparr>))"
proof (cases "m_revoked (jb m j)")
  case True
  then show thesis using assms failed by (simp add: allocate_def)
next
  case False
  define total_bytes where "total_bytes = (if commitment n > - 1 - m_committed (jb m j) then - 1 else m_committed (jb m j) + commitment n)"
  define m1 where "m1 = upd j (\<lambda>x. x\<lparr>m_peak := max (m_peak x) total_bytes\<rparr>) m"
  define credit where "credit = min (commitment n) (m_admission (jb m1 j))"
  obtain st m2 where s: "ledger_sample env low (commitment n - credit) m1 = (st, m2)" by fastforce
  note f = ledger_sample_frame [OF s]
  have k: "keeps m m1" "\<forall>i. m_admission (jb m1 i) = m_admission (jb m i)" "mm_jobs m1 = mm_jobs m" "mm_cached m1 = mm_cached m"
    "admissions m1 = admissions m"
    by (simp_all add: m1_def admissions_def)
  have res: "(r, m') = (if \<not> can_fit (headroom st) (commitment n - credit)
      then (None, set_event (deny j total_bytes st (m2\<lparr>mm_reclaim_requested := True\<rparr>)))
      else allocate_admitted env virtual table_ok j n total_bytes credit m2)"
    unfolding assms [symmetric] allocate_def Let_def total_bytes_def [symmetric] m1_def [symmetric] credit_def [symmetric] s
    using False by simp
  have k2: "keeps m m2"
    using k(1) f(1) by (rule keeps_trans)
  show thesis
  proof (cases "can_fit (headroom st) (commitment n - credit)")
    case True
    then have "allocate_admitted env virtual table_ok j n total_bytes credit m2 = (r, m')"
      using res by simp
    from allocate_admitted_cases [OF this] show thesis
    proof (elim disjE exE conjE)
      assume "r = None" "keeps m2 m'"
      with k2 show thesis by (intro failed) (auto intro: keeps_trans)
    next
      fix a assume "virtual = Some a" "r = Some a"
        "m' = return_cushion (env 2) j (charge j credit (commitment n) (m2\<lparr>mm_allocs := (a, j, n) # mm_allocs m2\<rparr>))"
      with k k2 f True show thesis by (intro ok [of a m2 credit]) (auto simp: credit_def)
    qed
  next
    case no: False
    with res k2 show thesis by (intro failed) simp_all
  qed
qed

lemma allocate_committed:
  assumes "allocate env low virtual table_ok j n m = (r, m')" "j < length (mm_store m)"
  shows "r = None \<and> keeps m m' \<or>
    (\<exists>a. virtual = Some a \<and> r = Some a \<and> mm_allocs m' = (a, j, n) # mm_allocs m \<and>
      length (mm_store m') = length (mm_store m) \<and>
      (\<forall>i. m_committed (jb m' i) = m_committed (jb m i) + (if i = j then commitment n else 0)))"
  using assms(1)
proof (cases rule: allocate_cases)
  case (ok a m3 credit)
  let ?c = "charge j credit (commitment n) (m3\<lparr>mm_allocs := (a, j, n) # mm_allocs m3\<rparr>)"
  have "keeps ?c m'"
    by (simp add: ok)
  moreover have "j < length (mm_store m3)"
    using assms(2) ok(3) by (simp add: keeps_def)
  ultimately show ?thesis
    using ok(1-3) charge_committed [of j "m3\<lparr>mm_allocs := (a, j, n) # mm_allocs m3\<rparr>" credit "commitment n"]
    by (simp add: keeps_def)
qed simp

section \<open>The system\<close>

datatype mem_label = Mem_new | Mem_allocate nat u64 "u64 option" | Mem_free u64 bool | Mem_other

inductive mem_step :: "manager \<Rightarrow> mem_label \<Rightarrow> manager \<Rightarrow> bool" where
  new_job: "mem_step m Mem_new (m\<lparr>mm_store := mm_store m @ [new_mem_job]\<rparr>)"
| begin_job: "mem_step m Mem_other (mem_begin j wake m)"
| end_job: "mem_step m Mem_other (mem_end j m)"
| wake_job: "mem_step m Mem_other (set_wake j wake m)"
| retry_job: "mem_step m Mem_other (mem_retry q j m)"
| park_job: "mem_step m Mem_other (snd (park j notice m))"
| start_thread: "mem_step m Mem_other (snd (may_start_thread env j m))"
| stopped: "mem_step m Mem_other (stop m)"
| refunded: "mem_step m Mem_other (snd (monitor_refund env fresh m))"
| admitted: "mem_step m Mem_other (snd (monitor_admit env pressure canceled m))"
| allocated: "j < length (mm_store m) \<Longrightarrow> allocate env low virtual table_ok j n m = (r, m') \<Longrightarrow>
    (\<And>a. virtual = Some a \<Longrightarrow> a \<notin> fst ` set (mm_allocs m) \<and> \<not> unmanaged_address a \<and>
       unat (m_committed (jb m j)) + unat (commitment n) < 2 ^ 64) \<Longrightarrow>
    mem_step m (Mem_allocate j n r) m'"
| freed: "memory_free True False True a m = (ok, m') \<Longrightarrow> mem_step m (Mem_free a ok) m'"

definition mem_initial :: "manager \<Rightarrow> bool" where
  "mem_initial m \<longleftrightarrow> (\<exists>r. m = new_manager r)"

definition alloc_sum :: "(u64 \<times> nat \<times> u64) list \<Rightarrow> nat \<Rightarrow> nat" where
  "alloc_sum xs j = sum_list (map (\<lambda>(a, i, n). if i = j then unat (commitment n) else 0) xs)"

definition mem_inv :: "manager \<Rightarrow> bool" where
  "mem_inv m \<longleftrightarrow> distinct (map fst (mm_allocs m)) \<and>
     (\<forall>(a, j, n) \<in> set (mm_allocs m). j < length (mm_store m) \<and> \<not> unmanaged_address a) \<and>
     (\<forall>j < length (mm_store m). unat (m_committed (jb m j)) = alloc_sum (mm_allocs m) j)"

lemma mem_inv_keeps: "mem_inv m \<Longrightarrow> keeps m m' \<Longrightarrow> mem_inv m'"
  by (auto simp: mem_inv_def keeps_def)

lemma erase_alloc_spec:
  assumes "map_of xs a = Some (j, n)" "distinct (map fst xs)"
  shows "set (erase_alloc a xs) = set xs - {(a, j, n)}" "distinct (map fst (erase_alloc a xs))"
    "map_of (erase_alloc a xs) a = None"
    "alloc_sum xs i = alloc_sum (erase_alloc a xs) i + (if i = j then unat (commitment n) else 0)"
  using assms
  by (induction xs) (auto simp: alloc_sum_def map_of_eq_None_iff rev_image_eqI split: if_splits)

lemma memory_free_cases:
  assumes "memory_free True False True a m = (freed, m')" "mem_inv m"
  obtains (no) "\<not> freed" "m' = m" "map_of (mm_allocs m) a = None"
  | (yes) j n where "freed" "map_of (mm_allocs m) a = Some (j, n)"
      "m' = released True j n (m\<lparr>mm_allocs := erase_alloc a (mm_allocs m)\<rparr>)"
proof (cases "map_of (mm_allocs m) a")
  case None
  with assms no show thesis by (auto simp: memory_free_def split: if_splits)
next
  case (Some jn)
  obtain j n where jn: "jn = (j, n)" by fastforce
  have "\<not> unmanaged_address a"
    using map_of_SomeD [OF Some] assms(2) by (auto simp: mem_inv_def)
  with Some jn assms(1) yes show thesis by (simp add: memory_free_def)
qed

lemma released_simps [simp]:
  "mm_allocs (released True j n m) = mm_allocs m" "length (mm_store (released True j n m)) = length (mm_store m)"
  "m_committed (jb (released True j n m) i) =
     (if i = j \<and> j < length (mm_store m) then m_committed (jb m j) - commitment n else m_committed (jb m i))"
  by (simp_all add: released_def set_event_def jb_upd)

lemma mem_inv_free:
  assumes "mem_inv m" "memory_free True False True a m = (ok, m')"
  shows "mem_inv m'"
  using assms(2,1)
proof (cases rule: memory_free_cases)
  case (yes j n)
  have dist: "distinct (map fst (mm_allocs m))" and j: "j < length (mm_store m)"
    using assms(1) map_of_SomeD [OF yes(2)] by (auto simp: mem_inv_def)
  note er = erase_alloc_spec [OF yes(2) dist]
  have "unat (m_committed (jb m' i)) = alloc_sum (mm_allocs m') i" if "i < length (mm_store m)" for i
  proof -
    have "unat (m_committed (jb m i)) = alloc_sum (erase_alloc a (mm_allocs m)) i + (if i = j then unat (commitment n) else 0)"
      using assms(1) that er(4) [of i] by (simp add: mem_inv_def)
    moreover from this have "commitment n \<le> m_committed (jb m i)" if "i = j"
      using that by (simp add: word_le_nat_alt)
    ultimately show ?thesis
      using that by (auto simp: yes(3) unat_sub)
  qed
  with er(1,2) assms(1) show ?thesis
    by (auto simp: mem_inv_def yes(3))
qed (use assms(1) in simp)

lemma mem_inv_allocate:
  assumes "mem_inv m" "j < length (mm_store m)" "allocate env low virtual table_ok j n m = (r, m')"
    and "\<And>a. virtual = Some a \<Longrightarrow> a \<notin> fst ` set (mm_allocs m) \<and> \<not> unmanaged_address a \<and>
       unat (m_committed (jb m j)) + unat (commitment n) < 2 ^ 64"
  shows "mem_inv m'"
proof -
  consider "keeps m m'" | a where "virtual = Some a" "mm_allocs m' = (a, j, n) # mm_allocs m"
      "length (mm_store m') = length (mm_store m)"
      "\<forall>i. m_committed (jb m' i) = m_committed (jb m i) + (if i = j then commitment n else 0)"
    using allocate_committed [OF assms(3,2)] by blast
  then show ?thesis
  proof cases
    case (2 a)
    have "unat (m_committed (jb m j) + commitment n) = unat (m_committed (jb m j)) + unat (commitment n)"
      using assms(4) [OF 2(1)] by (simp add: unat_word_ariths)
    with 2 assms(1,2) assms(4) [OF 2(1)] show ?thesis
      by (auto simp: mem_inv_def alloc_sum_def)
  qed (rule mem_inv_keeps [OF assms(1)])
qed

lemma mem_inv_step: "mem_step m l m' \<Longrightarrow> mem_inv m \<Longrightarrow> mem_inv m'"
proof (induction rule: mem_step.induct)
  case (new_job m)
  let ?m = "m\<lparr>mm_store := mm_store m @ [new_mem_job]\<rparr>"
  have "alloc_sum (mm_allocs m) (length (mm_store m)) = 0"
    using new_job by (auto simp: alloc_sum_def mem_inv_def)
  moreover have "m_committed (jb ?m j) = (if j < length (mm_store m) then m_committed (jb m j) else 0)"
    if "j < Suc (length (mm_store m))" for j
    using that by (auto simp: jb_def nth_append new_mem_job_def less_Suc_eq)
  ultimately show ?case
    using new_job by (auto simp: mem_inv_def less_Suc_eq)
next
  case (allocated j m env low virtual table_ok n r m')
  show ?case
    by (rule mem_inv_allocate [OF allocated(4) allocated(1,2) allocated(3)])
next
  case (freed a m ok m')
  then show ?case using mem_inv_free by blast
qed (auto intro: mem_inv_keeps keeps_operations keeps_monitor_refund keeps_monitor_admit)

interpretation mem: invariant_system mem_initial mem_step mem_inv
proof
  fix m assume "mem_initial m"
  then show "mem_inv m"
    by (auto simp: mem_initial_def mem_inv_def new_manager_def)
qed (rule mem_inv_step)

section \<open>Admission\<close>

text \<open>What is left of the sampled head room once every forecast is paid.\<close>

definition ledger :: "manager \<Rightarrow> int" where
  "ledger m = headroom (mm_cached m) - admissions m"

text \<open>
  The state of the forecasts: the running jobs are distinct, only they hold forecasts, and all amounts
  are proper signed values.
\<close>

definition roster_ok :: "manager \<Rightarrow> bool" where
  "roster_ok m \<longleftrightarrow> distinct (mm_jobs m) \<and> (\<forall>j \<in> set (mm_jobs m). j < length (mm_store m)) \<and>
     (\<forall>j < length (mm_store m). m_admission (jb m j) < 2 ^ 63 \<and> (j \<notin> set (mm_jobs m) \<longrightarrow> m_admission (jb m j) = 0)) \<and>
     headroom (mm_cached m) \<le> int64_max"

lemma sint_nonneg:
  fixes x :: u64
  assumes "x < 2 ^ 63"
  shows "sint x = int (unat x)"
proof -
  have "uint x < 2 ^ 63"
    using assms by (simp add: word_less_def)
  moreover have "- (2 ^ 63) \<le> uint x"
    by (rule order_trans [of _ 0]) simp_all
  ultimately show ?thesis
    by (simp add: sint_uint signed_take_bit_int_eq_self)
qed

lemma can_fit_le:
  assumes "can_fit h b" "h \<le> int64_max"
  shows "int (unat b) \<le> h"
proof -
  have h: "0 \<le> h" "h < 2 ^ 64"
    using assms by (simp_all add: can_fit_def int64_max_def)
  have "uint (of_int h :: u64) = take_bit 64 h"
    by (simp add: uint_word_of_int_eq)
  also have "\<dots> = h"
    using h by (rule take_bit_int_eq_self)
  finally have "unat (of_int h :: u64) = nat h"
    using nat_uint_eq [of "of_int h :: u64"] by simp
  with assms(1) h(1) show ?thesis
    by (simp add: can_fit_def word_le_nat_alt nat_le_iff le_nat_iff)
qed

lemma admissions_nonneg: "roster_ok m \<Longrightarrow> 0 \<le> admissions m"
  unfolding admissions_def roster_ok_def by (intro sum_list_nonneg) (auto simp: sint_nonneg)

text \<open>Changing the forecast of one running job.\<close>

lemma admissions_upd:
  assumes "distinct (mm_jobs m)" "j < length (mm_store m)"
  shows "admissions (upd j f m) = admissions m +
    (if j \<in> set (mm_jobs m) then sint (m_admission (f (jb m j))) - sint (m_admission (jb m j)) else 0)"
proof -
  have "sum_list (map (\<lambda>i. sint (m_admission (jb (upd j f m) i))) js) = sum_list (map (\<lambda>i. sint (m_admission (jb m i))) js) +
      (if j \<in> set js then sint (m_admission (f (jb m j))) - sint (m_admission (jb m j)) else 0)" if "distinct js" for js
    using that assms(2) by (induction js) (auto simp: jb_upd)
  with assms(1) show ?thesis
    by (simp add: admissions_def)
qed


lemma admissions_frame [simp]:
  "admissions (m\<lparr>mm_allocs := x\<rparr>) = admissions m" "admissions (m\<lparr>mm_resample := y\<rparr>) = admissions m"
  "admissions (m\<lparr>mm_cached := z\<rparr>) = admissions m"
  by (simp_all add: admissions_def)

lemma return_cushion_ledger:
  "ledger (return_cushion q j m) = ledger m \<or> mm_cached (return_cushion q j m) = snd q"
  by (auto simp: return_cushion_def sample_locked_def Let_def)

lemma charge_ledger:
  assumes "roster_ok m" "j \<in> set (mm_jobs m)" "credit \<le> m_admission (jb m j)" "wanted < 2 ^ 63"
  shows "ledger (charge j credit wanted m) = ledger m - int (unat wanted) + int (unat credit)"
proof -
  let ?a = "m_admission (jb m j)"
  have j: "j < length (mm_store m)" "distinct (mm_jobs m)" and a: "?a < 2 ^ 63"
    using assms(1,2) by (auto simp: roster_ok_def)
  have "?a - credit \<le> ?a"
    using assms(3) by (rule word_sub_le)
  then have "?a - credit < 2 ^ 63"
    using a by (rule le_less_trans)
  then have sint_rest: "sint (?a - credit) = int (unat ?a) - int (unat credit)"
    using assms(3) by (simp add: sint_nonneg unat_sub word_le_nat_alt of_nat_diff)
  show ?thesis
    using assms(2,4) j a sint_rest
    by (simp add: charge_def ledger_def admissions_upd sint_nonneg)
qed

lemma admit_ledger:
  assumes "roster_ok m" "j \<notin> set (mm_jobs m)" "j < length (mm_store m)" "h \<le> int64_max" "0 \<le> h" "h \<le> ledger m"
  shows "0 \<le> ledger (admit j h m)" "roster_ok (admit j h m)"
proof -
  let ?f = "\<lambda>x. x\<lparr>m_admission := min (reservation_bytes (needed_bytes x)) (of_int (max h 0))\<rparr>"
  let ?a = "min (reservation_bytes (needed_bytes (jb m j))) (of_int (max h 0) :: u64)"
  have "can_fit h ?a"
    using assms(5) by (simp add: can_fit_def)
  then have le: "int (unat ?a) \<le> h"
    using assms(4) by (rule can_fit_le)
  then have "int (unat ?a) < 2 ^ 63"
    using assms(4) by (simp add: int64_max_def)
  then have lt: "?a < 2 ^ 63"
    by (simp add: word_less_def)
  have dist: "distinct (mm_jobs m)"
    using assms(1) by (simp add: roster_ok_def)
  have "admissions (admit j h m) = admissions (upd j ?f m) + sint ?a"
    using assms(3) by (simp add: admissions_def admit_def Let_def jb_upd)
  then have "admissions (admit j h m) = admissions m + int (unat ?a)"
    using lt assms(2) admissions_upd [OF dist assms(3), of ?f] by (simp add: sint_nonneg)
  with le assms(6) show "0 \<le> ledger (admit j h m)"
    by (simp add: ledger_def admit_def Let_def)
  have "m_admission (jb (admit j h m) i) = (if i = j then ?a else m_admission (jb m i))" for i
    using assms(3) by (simp add: admit_def Let_def jb_upd)
  with lt assms(1-3) show "roster_ok (admit j h m)"
    by (auto simp: roster_ok_def admit_def Let_def)
qed

text \<open>Without a reason to sample again, sampling only reads the ledger.\<close>

definition steady :: "mem_env \<Rightarrow> manager \<Rightarrow> bool" where
  "steady env m \<longleftrightarrow> \<not> mm_resample m \<and> (\<forall>i. fst (env i) - mm_sampled_at m < 250)"

lemma sample_steady:
  assumes "steady env m" "sample_locked (env i) False m = (status, m')"
  shows "m' = m" "headroom status = ledger m"
proof -
  have "\<not> fst (env i) - mm_sampled_at m \<ge> 250" "\<not> mm_resample m" "m\<lparr>mm_resample := False\<rparr> = m"
    using assms(1) by (cases m; simp add: steady_def not_le)+
  then show "m' = m" "headroom status = ledger m"
    using assms(2) by (auto simp: sample_locked_def ledger_def Let_def)
qed

lemma admit_frame [simp]:
  "mm_jobs (admit j h m) = mm_jobs m @ [j]" "length (mm_store (admit j h m)) = length (mm_store m)"
  "steady env (admit j h m) = steady env m"
  by (simp_all add: admit_def Let_def steady_def)

lemma admit_waiters_ledger:
  assumes "roster_ok m" "distinct (map w_job ws)" "\<forall>w \<in> set ws. w_job w \<notin> set (mm_jobs m) \<and> w_job w < length (mm_store m)"
    and "steady env m" "0 \<le> ledger m"
    and "admit_waiters env i stopped canceled ws m = (kept, cs, m')"
  shows "0 \<le> ledger m' \<and> roster_ok m'"
  using assms
proof (induction ws arbitrary: m i kept cs)
  case (Cons w ws)
  obtain status m1 where s: "sample_locked (env i) False m = (status, m1)" by fastforce
  then have m1: "m1 = m" and h: "headroom status = ledger m"
    using sample_steady Cons.prems(4) by blast+
  have "ledger m \<le> int64_max"
    using Cons.prems(1) admissions_nonneg [OF Cons.prems(1)] by (simp add: ledger_def roster_ok_def)
  then have ad: "0 \<le> ledger (admit (w_job w) (ledger m) m)" "roster_ok (admit (w_job w) (ledger m) m)"
    using admit_ledger [OF Cons.prems(1), of "w_job w" "ledger m"] Cons.prems by auto
  define m2 where "m2 = (if fits (ledger m) (progressing m) (jb m (w_job w)) \<and> \<not> (stopped \<or> canceled (w_job w))
      then admit (w_job w) (ledger m) m else m)"
  obtain kept' cs' where rest: "admit_waiters env (Suc i) stopped canceled ws m2 = (kept', cs', m')"
    using Cons.prems(6) s m1 h by (auto simp: m2_def Let_def split: prod.splits if_splits)
  have "\<forall>x \<in> set ws. w_job x \<noteq> w_job w"
    using Cons.prems(2) by (metis distinct.simps(2) image_eqI list.set_map list.simps(9))
  then have "roster_ok m2" "0 \<le> ledger m2" "steady env m2"
    "\<forall>x \<in> set ws. w_job x \<notin> set (mm_jobs m2) \<and> w_job x < length (mm_store m2)"
    using ad Cons.prems(1,3-5) by (auto simp: m2_def)
  with Cons.IH [OF _ _ _ _ _ rest] Cons.prems(2) show ?case by simp
qed simp


section \<open>Waiters and victims\<close>

fun resumed :: "mem_callback list \<Rightarrow> nat list" where
  "resumed [] = []"
| "resumed (Cb_resume j ready note # cs) = j # resumed cs"
| "resumed (Cb_wake j # cs) = resumed cs"
| "resumed (Cb_notice j h n # cs) = resumed cs"

lemma resumed_append [simp]: "resumed (xs @ ys) = resumed xs @ resumed ys"
  by (induction xs rule: resumed.induct) simp_all

lemma collect_wakes_resumed [simp]: "resumed (fst (collect_wakes js m)) = []"
  by (induction js m rule: collect_wakes.induct) (simp_all add: Let_def case_prod_unfold)

lemma collect_wakes_frame [simp]:
  "mm_waiters (snd (collect_wakes js m)) = mm_waiters m"
  by (induction js m rule: collect_wakes.induct) (simp_all add: Let_def case_prod_unfold)

lemma monitor_revoke_frame [simp]:
  "mm_waiters (monitor_revoke st m) = mm_waiters m" "mm_jobs (monitor_revoke st m) = mm_jobs m"
  "length (mm_store (monitor_revoke st m)) = length (mm_store m)"
  by (simp_all add: monitor_revoke_def revoke_locked_def failed_locked_def split: prod.split option.split)

text \<open>The job's \<^verbatim>\<open>ready(false)\<close> is among the callbacks.\<close>

definition turned_away :: "mem_callback list \<Rightarrow> nat \<Rightarrow> bool" where
  "turned_away cs j \<longleftrightarrow> list_ex (\<lambda>c. case c of Cb_resume i ready _ \<Rightarrow> i = j \<and> \<not> ready | _ \<Rightarrow> False) cs"

lemma turned_away_simps [simp]:
  "\<not> turned_away [] j" "turned_away (Cb_resume i ready note # cs) j \<longleftrightarrow> i = j \<and> \<not> ready \<or> turned_away cs j"
  "turned_away (Cb_wake i # cs) j = turned_away cs j" "turned_away (Cb_notice i h n # cs) j = turned_away cs j"
  "turned_away (cs @ cs') j \<longleftrightarrow> turned_away cs j \<or> turned_away cs' j"
  by (auto simp: turned_away_def)

lemma admit_waiters_conserve:
  assumes "admit_waiters env i stopped canceled ws m = (kept, cs, m')"
  shows "mset (map w_job ws) = mset (map w_job kept) + mset (resumed cs) \<and>
    (\<forall>w \<in> set ws. stopped \<or> canceled (w_job w) \<longrightarrow> turned_away cs (w_job w)) \<and>
    (\<forall>w \<in> set kept. \<not> stopped \<and> \<not> canceled (w_job w))"
  using assms
proof (induction ws arbitrary: m i kept cs m')
  case (Cons v ws)
  obtain status m1 where s: "sample_locked (env i) False m = (status, m1)" by fastforce
  obtain m2 kept' cs' where rest: "admit_waiters env (Suc i) stopped canceled ws m2 = (kept', cs', m')"
    and shape: "(\<exists>note. kept = kept' \<and> cs = Cb_resume (w_job v) (\<not> (stopped \<or> canceled (w_job v))) note # cs') \<or>
      \<not> stopped \<and> \<not> canceled (w_job v) \<and>
        (kept = v # kept' \<and> cs = cs' \<or> (\<exists>h n. kept = v\<lparr>w_announced := True\<rparr> # kept' \<and> cs = Cb_notice (w_job v) h n # cs'))"
    using Cons.prems s by (auto simp: Let_def split: prod.splits if_splits)
  from Cons.IH [OF rest] shape show ?case by auto
qed simp

text \<open>The victim is a running, unrevoked job with the largest commitment; the retiring jobs are counted.\<close>

definition candidate :: "manager \<Rightarrow> nat \<Rightarrow> bool" where
  "candidate m j \<longleftrightarrow> \<not> m_revoked (jb m j) \<and> m_running (jb m j) \<and> m_committed (jb m j) \<noteq> 0"

lemma scan_victim_spec:
  assumes "scan_victim m js retiring victim = (total_bytes, result)" "\<And>v. victim = Some v \<Longrightarrow> candidate m v"
  shows "(case result of
      None \<Rightarrow> victim = None \<and> (\<forall>j \<in> set js. \<not> candidate m j)
    | Some r \<Rightarrow> candidate m r \<and> (r \<in> set js \<or> victim = Some r) \<and>
        (\<forall>j \<in> set js. candidate m j \<longrightarrow> m_committed (jb m j) \<le> m_committed (jb m r)) \<and>
        (\<forall>v. victim = Some v \<longrightarrow> m_committed (jb m v) \<le> m_committed (jb m r)))"
  using assms
proof (induction js arbitrary: retiring victim)
  case Nil
  then show ?case by (auto split: option.splits)
next
  case (Cons j js)
  show ?case
  proof (cases "candidate m j \<and> (case victim of None \<Rightarrow> True | Some v \<Rightarrow> m_committed (jb m v) < m_committed (jb m j))")
    case True
    then have "scan_victim m js retiring (Some j) = (total_bytes, result)"
      using Cons.prems(1) by (auto simp: candidate_def)
    from Cons.IH [OF this] True show ?thesis
      by (fastforce split: option.splits)
  next
    case False
    then obtain retiring' where "scan_victim m js retiring' victim = (total_bytes, result)"
      using Cons.prems(1) by (auto simp: candidate_def split: if_splits)
    from Cons.IH [OF this Cons.prems(2)] False show ?thesis
      by (fastforce split: option.splits)
  qed
qed

lemma scan_victim_retiring:
  "fst (scan_victim m js retiring victim) =
     foldl (\<lambda>acc j. acc + m_committed (jb m j)) retiring (filter (\<lambda>j. m_revoked (jb m j)) js)"
  by (induction js arbitrary: retiring victim) simp_all


section \<open>A worker with one large allocation\<close>

definition demo_env :: mem_env where
  "demo_env i = (1000, \<lparr>headroom = 1073741824, available = 1073741824, reserve = 0\<rparr>)"

definition demo_started :: manager where
  "demo_started = mem_begin 0 False ((new_manager 0)\<lparr>mm_store := [new_mem_job]\<rparr>)"

definition demo_allocated :: manager where
  "demo_allocated = snd (allocate demo_env False (Some 65536) True 0 8388608 demo_started)"

definition demo_parked :: manager where
  "demo_parked = stop (snd (park 0 True (mem_end 0 demo_started)))"

lemma demo_started_eq:
  "mm_jobs demo_started = [0]" "mm_store demo_started = [new_mem_job\<lparr>m_running := True\<rparr>]"
  "mm_waiters demo_started = []" "mm_cached demo_started = \<lparr>headroom = 0, available = 0, reserve = 0\<rparr>"
  "mm_allocs demo_started = []" "mm_resample demo_started" "\<not> mm_stopping demo_started"
  by (simp_all add: demo_started_def mem_begin_def new_manager_def new_mem_job_def upd_def jb_def set_event_def
      push_back_unique_def Let_def)

lemma commitment_8M: "commitment 8388608 = 8388608"
  by (simp add: commitment_def)

lemma demo_allocate: "fst (allocate demo_env False (Some 65536) True 0 8388608 demo_started) = Some 65536"
  by (simp add: allocate_def allocate_admitted_def ledger_sample_def sample_locked_def commitment_8M demo_started_eq
      jb_def upd_def admissions_def can_fit_def demo_env_def new_mem_job_def Let_def)

lemma demo_allocate_eq: "allocate demo_env False (Some 65536) True 0 8388608 demo_started = (Some 65536, demo_allocated)"
  using demo_allocate by (simp add: demo_allocated_def prod_eq_iff)

lemma demo_roster: "roster_ok demo_started"
  by (simp add: roster_ok_def demo_started_eq jb_def new_mem_job_def int64_max_def)

lemma demo_started_reach: "reach mem_initial mem_step demo_started"
proof -
  have "reach mem_initial mem_step (new_manager 0)"
    by (rule reach_initial) (auto simp: mem_initial_def)
  from reach_step [OF this new_job] have "reach mem_initial mem_step ((new_manager 0)\<lparr>mm_store := [new_mem_job]\<rparr>)"
    by (simp add: new_manager_def)
  from reach_step [OF this begin_job] show ?thesis
    unfolding demo_started_def .
qed

lemma demo_allocated_reach: "reach mem_initial mem_step demo_allocated"
proof -
  have "mem_step demo_started (Mem_allocate 0 8388608 (Some 65536)) demo_allocated"
    by (rule allocated [OF _ demo_allocate_eq])
      (auto simp: demo_started_eq unmanaged_address_def jb_def new_mem_job_def commitment_8M)
  with demo_started_reach show ?thesis
    by (rule reach_step)
qed

section \<open>Properties\<close>



text \<open>
  C11. A job's commitment is exactly what it has in the table of large allocations, and freeing one of
  them takes it out of the table once: the commitment shrinks by its rounded size, the address is then
  unknown, and a second attempt is refused without touching anything.
\<close>

theorem commitments_match_table:
  assumes "reach mem_initial mem_step m" "map_of (mm_allocs m) a = Some (j, n)"
  shows "\<exists>m'. memory_free True False True a m = (True, m') \<and>
    unat (m_committed (jb m j)) = alloc_sum (mm_allocs m) j \<and>
    unat (m_committed (jb m' j)) = unat (m_committed (jb m j)) - unat (commitment n) \<and>
    memory_size True a m' = 0 \<and> memory_free True False True a m' = (False, m')"
proof -
  have inv: "mem_inv m"
    by (rule mem.invar_reach [OF assms(1)])
  obtain freed m' where f: "memory_free True False True a m = (freed, m')" by fastforce
  from f inv show ?thesis
  proof (cases rule: memory_free_cases)
    case (yes j' n')
    then have jn: "j' = j" "n' = n"
      using assms(2) by simp_all
    have j: "j < length (mm_store m)" and dist: "distinct (map fst (mm_allocs m))"
      and sum: "unat (m_committed (jb m j)) = alloc_sum (mm_allocs m) j"
      using inv map_of_SomeD [OF assms(2)] by (auto simp: mem_inv_def)
    note er = erase_alloc_spec [OF assms(2) dist]
    have "commitment n \<le> m_committed (jb m j)"
      using sum er(4) [of j] by (simp add: word_le_nat_alt)
    moreover have "map_of (mm_allocs m') a = None"
      using er(3) by (simp add: yes(3) jn)
    ultimately show ?thesis
      using f yes sum j by (auto simp: jn unat_sub memory_size_def memory_free_def)
  qed (use assms(2) in simp)
qed

theorem commitments_match_table_witness:
  "\<exists>m'. memory_free True False True 65536 demo_allocated = (True, m') \<and> memory_size True 65536 m' = 0"
proof -
  have "mm_allocs demo_allocated = [(65536, 0, 8388608)]"
    using allocate_committed [OF demo_allocate_eq] by (simp add: demo_started_eq)
  then show ?thesis
    using commitments_match_table [OF demo_allocated_reach, of 65536 0 8388608] by auto
qed

text \<open>
  C36. No parked job is lost or resumed twice. A monitor pass resumes a waiter or keeps it, and one that
  was cancelled, or every one once the manager stops, is told so in that very pass.
\<close>

theorem waiters_are_conserved:
  assumes "monitor_admit env pressure canceled m = (cs, m')"
  shows "mset (map w_job (mm_waiters m)) = mset (map w_job (mm_waiters m')) + mset (resumed cs) \<and>
    list_all (\<lambda>w. mm_stopping m \<or> canceled (w_job w) \<longrightarrow> turned_away cs (w_job w)) (mm_waiters m) \<and>
    list_all (\<lambda>w. \<not> mm_stopping m \<and> \<not> canceled (w_job w)) (mm_waiters m')"
proof -
  obtain status m1 where s: "sample_locked (env 0) pressure m = (status, m1)" by fastforce
  let ?m2 = "monitor_revoke status m1"
  let ?m3 = "snd (collect_wakes (mm_jobs ?m2) ?m2)"
  obtain kept cs2 m4 where a: "admit_waiters env 1 (mm_stopping m) canceled (mm_waiters ?m3) ?m3 = (kept, cs2, m4)"
    by (metis prod_cases3)
  have w: "mm_waiters ?m3 = mm_waiters m"
    using sample_frame(4) [OF s] by simp
  have "cs = fst (collect_wakes (mm_jobs ?m2) ?m2) @ cs2" "mm_waiters m' = kept"
    using assms s a by (auto simp: monitor_admit_def Let_def case_prod_unfold)
  with admit_waiters_conserve [OF a] w show ?thesis
    by (auto simp: list_all_iff)
qed

theorem waiters_are_conserved_witness:
  "turned_away (fst (monitor_admit demo_env False (\<lambda>j. False) demo_parked)) 0"
proof -
  obtain cs m' where c: "monitor_admit demo_env False (\<lambda>j. False) demo_parked = (cs, m')" by fastforce
  have "mm_stopping demo_parked" "mm_waiters demo_parked = [\<lparr>w_job = 0, w_has_notice = True, w_announced = False\<rparr>]"
    by (simp_all add: demo_parked_def stop_def park_def mem_end_def set_event_def changed_def Let_def demo_started_eq)
  with waiters_are_conserved [OF c] c show ?thesis
    by simp
qed

text \<open>
  C37. A wave of admissions stays within the ledger: while the sample is valid, whatever waiters a pass
  resumes, the forecasts it hands out do not exceed the head room that was there.
\<close>

theorem admission_wave_within_ledger:
  assumes "roster_ok m" "steady env m" "0 \<le> ledger m" "distinct (map w_job ws)"
    and "\<forall>w \<in> set ws. w_job w \<notin> set (mm_jobs m) \<and> w_job w < length (mm_store m)"
    and "admit_waiters env i stopped canceled ws m = (kept, cs, m')"
  shows "0 \<le> ledger m' \<and> roster_ok m'"
  using admit_waiters_ledger [OF assms(1,4,5,2,3,6)] .

theorem admission_wave_within_ledger_witness:
  "\<exists>kept cs m'. admit_waiters demo_env 0 False (\<lambda>j. False) [\<lparr>w_job = 0, w_has_notice = False, w_announced = False\<rparr>]
      ((new_manager 0)\<lparr>mm_store := [new_mem_job], mm_resample := False, mm_sampled_at := 900,
        mm_cached := snd (demo_env 0)\<rparr>) = (kept, cs, m') \<and> 0 \<le> ledger m'"
proof -
  let ?m = "(new_manager 0)\<lparr>mm_store := [new_mem_job], mm_resample := False, mm_sampled_at := 900,
        mm_cached := snd (demo_env 0)\<rparr>"
  let ?ws = "[\<lparr>w_job = 0, w_has_notice = False, w_announced = False\<rparr>]"
  obtain kept cs m' where a: "admit_waiters demo_env 0 False (\<lambda>j. False) ?ws ?m = (kept, cs, m')"
    by (metis prod_cases3)
  have "roster_ok ?m" "steady demo_env ?m" "0 \<le> ledger ?m"
    by (simp_all add: roster_ok_def steady_def ledger_def admissions_def new_manager_def new_mem_job_def jb_def
        demo_env_def int64_max_def)
  with admission_wave_within_ledger [OF _ _ _ _ _ a] have "0 \<le> ledger m'"
    by (simp add: new_manager_def)
  with a show ?thesis by blast
qed

text \<open>
  The choice of a victim. A pass revokes at most one job, only when the head room is negative, the
  manager is not stopping and the jobs already retiring do not cover the shortage; the victim is
  running and no running, unrevoked job has committed more.
\<close>

theorem victim_is_largest:
  assumes "mm_jobs m = js" "m_revoked (jb (monitor_revoke status m) v)" "\<not> m_revoked (jb m v)"
  shows "\<not> mm_stopping m \<and> headroom status < 0 \<and> v \<in> set js \<and> candidate m v \<and>
    list_all (\<lambda>j. candidate m j \<longrightarrow> m_committed (jb m j) \<le> m_committed (jb m v)) js \<and>
    foldl (\<lambda>acc j. acc + m_committed (jb m j)) 0 (filter (\<lambda>j. m_revoked (jb m j)) js) < of_int (- headroom status) \<and>
    (\<forall>u. u \<noteq> v \<longrightarrow> m_revoked (jb (monitor_revoke status m) u) = m_revoked (jb m u))"
proof -
  obtain retiring victim where scan: "scan_victim m js 0 None = (retiring, victim)" by fastforce
  have pressure: "\<not> mm_stopping m \<and> headroom status < 0"
    using assms(2,3) by (auto simp: monitor_revoke_def split: if_splits)
  then obtain w where w: "victim = Some w" "retiring < of_int (- headroom status)"
    and eq: "monitor_revoke status m = revoke_locked w (failed_locked w (m_committed (jb m w)) status m)"
    using assms scan by (auto simp: monitor_revoke_def split: option.splits if_splits)
  have rev: "m_revoked (jb (monitor_revoke status m) u) = (m_revoked (jb m u) \<or> u = w \<and> w < length (mm_store m))" for u
    by (auto simp: eq revoke_locked_def failed_locked_def jb_upd)
  with assms(2,3) have "v = w"
    by blast
  with scan_victim_spec [OF scan] scan_victim_retiring [of m js 0 None] scan w pressure rev show ?thesis
    by (auto simp: list_all_iff)
qed

theorem victim_is_largest_witness:
  "candidate demo_allocated 0"
proof -
  let ?st = "\<lparr>headroom = - 5, available = 0, reserve = 0\<rparr>"
  have m: "m_revoked (jb (monitor_revoke ?st demo_allocated) 0)" "\<not> m_revoked (jb demo_allocated 0)"
    by (simp_all add: demo_allocated_def allocate_def allocate_admitted_def ledger_sample_def sample_locked_def commitment_8M
        demo_started_eq jb_def upd_def admissions_def can_fit_def demo_env_def new_mem_job_def return_cushion_def charge_def
        monitor_revoke_def revoke_locked_def failed_locked_def Let_def)
  from victim_is_largest [OF refl m] show ?thesis by blast
qed

end
