(* ===== verification/Lz4_Stream.thy ===== *)
theory Lz4_Stream
  imports Prelude
begin

text \<open>
  The LZ4 frame reader (\<^verbatim>\<open>native/lz4_stream/stream.c\<close>): it splits an input, delivered piecewise by a
  callback, into frames and skippable frames and drives the LZ4 library over the frames.

  The callbacks share a state \<open>'e\<close>, the opaque pointer of the source. Of the input buffer the model keeps
  the unread bytes \<^verbatim>\<open>input[pos .. size)\<close>, the only part the code ever looks at. The LZ4 library is a
  parameter with the behaviour its header documents, \<open>library_ok\<close>. The two loops that are not bounded by
  their arguments (over the frames, and over the blocks of a frame) take fuel; \<open>lz4_decode_terminates\<close>
  shows that enough fuel exists for every finite input.
\<close>

section \<open>Data\<close>

datatype lz4_error = LZ4_OK | LZ4_IO | LZ4_TRUNCATED | LZ4_DATA | LZ4_CHECKSUM | LZ4_UNSUPPORTED | LZ4_MEMORY | LZ4_CANCELLED

record lz4_result =
  input_bytes :: u64
  output_bytes :: u64
  frames :: u64
  skippable_frames :: u64
  content_checked_frames :: u64
  block_checked_frames :: u64

definition zero_result :: lz4_result where
  "zero_result = \<lparr>input_bytes = 0, output_bytes = 0, frames = 0, skippable_frames = 0,
     content_checked_frames = 0, block_checked_frames = 0\<rparr>"

text \<open>
  Callbacks: \<^verbatim>\<open>read\<close> returns the bytes or \<open>None\<close> for a negative count, \<^verbatim>\<open>skip\<close> its return code, \<^verbatim>\<open>write\<close>
  and \<^verbatim>\<open>progress\<close> whether the code was nonzero.
\<close>

record 'e callbacks =
  cb_read :: "'e \<Rightarrow> nat \<Rightarrow> u8 list option \<times> 'e"
  cb_skip :: "('e \<Rightarrow> u64 \<Rightarrow> int \<times> 'e) option"
  cb_write :: "'e \<Rightarrow> u8 list \<Rightarrow> bool \<times> 'e"
  cb_progress :: "('e \<Rightarrow> u64 \<Rightarrow> u64 \<Rightarrow> bool \<times> 'e) option"

datatype lz4f_code = ContentChecksum_invalid | BlockChecksum_invalid | HeaderChecksum_invalid | Allocation_failed | Other_error

record frame_info =
  content_checksum_flag :: bool
  block_checksum_flag :: bool

text \<open>
  The library: a new context, or \<open>None\<close> / an error code; the frame header, with the bytes consumed; and
  one decompression step with the hint, the bytes consumed and the bytes produced.
\<close>

record 'd lz4f =
  lib_create_advanced :: "'d option"
  lib_create :: "lz4f_code + 'd"
  lib_frame_info :: "'d \<Rightarrow> u8 list \<Rightarrow> (lz4f_code + nat \<times> frame_info) \<times> 'd"
  lib_decompress :: "'d \<Rightarrow> nat \<Rightarrow> u8 list \<Rightarrow> (lz4f_code + nat \<times> nat \<times> u8 list) \<times> 'd"

definition library_ok :: "'d lz4f \<Rightarrow> bool" where
  "library_ok lib \<longleftrightarrow>
     (\<forall>d src used info d'. lib_frame_info lib d src = (Inr (used, info), d') \<longrightarrow> 0 < used \<and> used \<le> length src) \<and>
     (\<forall>d cap src hint used out d'. lib_decompress lib d cap src = (Inr (hint, used, out), d') \<longrightarrow>
        used \<le> length src \<and> length out \<le> cap)"

lemma library_frame_info:
  "library_ok lib \<Longrightarrow> lib_frame_info lib d src = (Inr (used, info), d') \<Longrightarrow> 0 < used \<and> used \<le> length src"
  unfolding library_ok_def by blast

lemma library_decompress:
  "library_ok lib \<Longrightarrow> lib_decompress lib d cap src = (Inr (hint, used, out), d') \<Longrightarrow> used \<le> length src \<and> length out \<le> cap"
  unfolding library_ok_def by blast

record 'e stream =
  env :: 'e
  unread :: "u8 list"
  res :: lz4_result

section \<open>Reading\<close>

definition buffer_size :: nat where
  "buffer_size = 256 * 1024"

definition frame_magic :: u32 where
  "frame_magic = 0x184d2204"

definition le32 :: "u8 list \<Rightarrow> u32" where
  "le32 p = or (or (or (ucast (p ! 0)) (push_bit 8 (ucast (p ! 1)))) (push_bit 16 (ucast (p ! 2)))) (push_bit 24 (ucast (p ! 3)))"

definition le64 :: "u8 list \<Rightarrow> u64" where
  "le64 p = or (ucast (le32 p)) (push_bit 32 (ucast (le32 (drop 4 p))))"

definition is_skip :: "u32 \<Rightarrow> bool" where
  "is_skip magic \<longleftrightarrow> and magic 0xfffffff0 = 0x184d2a50"

definition lz4_tick :: "'e callbacks \<Rightarrow> 'e stream \<Rightarrow> lz4_error \<times> 'e stream" where
  "lz4_tick cb s =
     (case cb_progress cb of None \<Rightarrow> (LZ4_OK, s)
      | Some progress \<Rightarrow>
          (case progress (env s) (input_bytes (res s)) (output_bytes (res s)) of
             (stop, e) \<Rightarrow> (if stop then LZ4_CANCELLED else LZ4_OK, s\<lparr>env := e\<rparr>)))"

function (sequential) need :: "'e callbacks \<Rightarrow> nat \<Rightarrow> 'e stream \<Rightarrow> lz4_error \<times> 'e stream" where
  "need cb n s =
     (if n \<le> length (unread s) then (LZ4_OK, s)
      else case lz4_tick cb s of
             (rc, s1) \<Rightarrow>
               if rc \<noteq> LZ4_OK then (rc, s1)
               else case cb_read cb (env s1) (buffer_size - length (unread s1)) of
                      (None, e) \<Rightarrow> (LZ4_IO, s1\<lparr>env := e\<rparr>)
                    | (Some got, e) \<Rightarrow>
                        if length got > buffer_size - length (unread s1) then (LZ4_IO, s1\<lparr>env := e\<rparr>)
                        else if got = [] then (LZ4_TRUNCATED, s1\<lparr>env := e\<rparr>)
                        else need cb n (s1\<lparr>env := e, unread := unread s1 @ got\<rparr>))"
  by pat_completeness auto

lemma lz4_tick_frame [simp]:
  "lz4_tick cb s = (rc, s') \<Longrightarrow> unread s' = unread s" "lz4_tick cb s = (rc, s') \<Longrightarrow> res s' = res s"
  by (auto simp: lz4_tick_def split: option.splits prod.splits)

termination need
  by (relation "measure (\<lambda>(cb, n, s). n - length (unread s))") (auto dest!: lz4_tick_frame(1) [OF sym] simp: neq_Nil_conv)

declare need.simps [simp del]

definition consume :: "nat \<Rightarrow> 'e stream \<Rightarrow> 'e stream" where
  "consume n s = s\<lparr>unread := drop n (unread s), res := (res s)\<lparr>input_bytes := input_bytes (res s) + of_nat n\<rparr>\<rparr>"

lemma need_enough: "need cb n s = (LZ4_OK, s') \<Longrightarrow> n \<le> length (unread s')"
proof (induction cb n s rule: need.induct)
  case (1 cb n s)
  then show ?case
    by (auto simp: need.simps [of cb n s] split: if_splits prod.splits option.splits)
qed

function (sequential) skip_loop :: "'e callbacks \<Rightarrow> nat \<Rightarrow> 'e stream \<Rightarrow> lz4_error \<times> 'e stream" where
  "skip_loop cb n s =
     (if n = 0 then (LZ4_OK, s)
      else case need cb 1 s of
             (rc, s1) \<Rightarrow>
               if rc \<noteq> LZ4_OK then (rc, s1)
               else skip_loop cb (n - min n (length (unread s1))) (consume (min n (length (unread s1))) s1))"
  by pat_completeness auto

termination skip_loop
  by (relation "measure (\<lambda>(cb, n, s). n)") (auto dest!: need_enough [OF sym])

declare skip_loop.simps [simp del]

definition skip_bytes :: "'e callbacks \<Rightarrow> u64 \<Rightarrow> 'e stream \<Rightarrow> lz4_error \<times> 'e stream" where
  "skip_bytes cb n s =
     (let take_n = min (unat n) (length (unread s));
          s1 = consume take_n s;
          left = n - of_nat take_n
      in case cb_skip cb of
           Some skip \<Rightarrow>
             if left \<noteq> 0 then
               (case skip (env s1) left of
                  (code, e) \<Rightarrow>
                    if code \<noteq> 0 then (if code = 1 then LZ4_TRUNCATED else LZ4_IO, s1\<lparr>env := e\<rparr>)
                    else lz4_tick cb (s1\<lparr>env := e, res := (res s1)\<lparr>input_bytes := input_bytes (res s1) + left\<rparr>\<rparr>))
             else skip_loop cb (unat left) s1
         | None \<Rightarrow> skip_loop cb (unat left) s1)"

definition emit :: "'e callbacks \<Rightarrow> u8 list \<Rightarrow> 'e stream \<Rightarrow> lz4_error \<times> 'e stream" where
  "emit cb data s =
     (let n = of_nat (length data) :: u64
      in if - 1 - output_bytes (res s) < n then (LZ4_DATA, s)
         else case (if data \<noteq> [] then cb_write cb (env s) data else (False, env s)) of
                (failed, e) \<Rightarrow>
                  if failed then (LZ4_IO, s\<lparr>env := e\<rparr>)
                  else lz4_tick cb (s\<lparr>env := e, res := (res s)\<lparr>output_bytes := output_bytes (res s) + n\<rparr>\<rparr>))"

definition library_error :: "lz4f_code \<Rightarrow> lz4_error" where
  "library_error code =
     (if code = ContentChecksum_invalid \<or> code = BlockChecksum_invalid \<or> code = HeaderChecksum_invalid
      then LZ4_CHECKSUM
      else if code = Allocation_failed then LZ4_MEMORY
      else LZ4_DATA)"

section \<open>Frames\<close>

text \<open>The \<^verbatim>\<open>do ... while (hint)\<close> loop of \<^verbatim>\<open>modern\<close>; \<open>None\<close> when the fuel runs out.\<close>

fun block_loop :: "'e callbacks \<Rightarrow> 'd lz4f \<Rightarrow> nat \<Rightarrow> 'd \<Rightarrow> 'e stream \<Rightarrow> (lz4_error \<times> 'e stream) option" where
  "block_loop cb lib 0 d s = None"
| "block_loop cb lib (Suc fuel) d s =
     (case need cb 1 s of
        (rc, s1) \<Rightarrow>
          if rc \<noteq> LZ4_OK then Some (rc, s1)
          else case lib_decompress lib d buffer_size (unread s1) of
                 (Inl code, d') \<Rightarrow> Some (library_error code, s1)
               | (Inr (hint, used, out), d') \<Rightarrow>
                   (case emit cb out (consume used s1) of
                      (rc, s2) \<Rightarrow>
                        if rc \<noteq> LZ4_OK then Some (rc, s2)
                        else if hint \<noteq> 0 \<and> used = 0 \<and> out = [] then Some (LZ4_DATA, s2)
                        else if hint \<noteq> 0 then block_loop cb lib fuel d' s2
                        else Some (LZ4_OK, s2)))"

definition count_frame :: "frame_info \<Rightarrow> 'e stream \<Rightarrow> 'e stream" where
  "count_frame info s =
     s\<lparr>res := (res s)\<lparr>frames := frames (res s) + 1,
        content_checked_frames := content_checked_frames (res s) + of_bool (content_checksum_flag info),
        block_checked_frames := block_checked_frames (res s) + of_bool (block_checksum_flag info)\<rparr>\<rparr>"

definition create_context :: "bool \<Rightarrow> 'd lz4f \<Rightarrow> lz4_error + 'd" where
  "create_context custom lib =
     (if custom then (case lib_create_advanced lib of None \<Rightarrow> Inl LZ4_MEMORY | Some d \<Rightarrow> Inr d)
      else case lib_create lib of Inl code \<Rightarrow> Inl (library_error code) | Inr d \<Rightarrow> Inr d)"

definition header_size :: "u8 \<Rightarrow> nat" where
  "header_size flags = 7 + (if and flags 8 \<noteq> 0 then 8 else 0) + (if and flags 1 \<noteq> 0 then 4 else 0)"

text \<open>\<^verbatim>\<open>modern\<close> after its header is in the buffer.\<close>

definition frame_body ::
    "bool \<Rightarrow> 'e callbacks \<Rightarrow> 'd lz4f \<Rightarrow> nat \<Rightarrow> u8 \<Rightarrow> u64 \<Rightarrow> 'e stream \<Rightarrow> (lz4_error \<times> 'e stream) option" where
  "frame_body custom cb lib fuel flags start_out s =
     (let has_size = (and flags 8 \<noteq> 0);
          expected = (if has_size then le64 (drop 6 (unread s)) else 0)
      in case create_context custom lib of
           Inl rc \<Rightarrow> Some (rc, s)
         | Inr d \<Rightarrow>
             (case lib_frame_info lib d (take (header_size flags) (unread s)) of
                (Inl code, d') \<Rightarrow> Some (library_error code, s)
              | (Inr (used, info), d') \<Rightarrow>
                  let s1 = consume used s
                  in if and flags 1 \<noteq> 0 then Some (LZ4_UNSUPPORTED, s1)
                     else (case block_loop cb lib fuel d' s1 of
                             None \<Rightarrow> None
                           | Some (rc, s2) \<Rightarrow>
                               if rc \<noteq> LZ4_OK then Some (rc, s2)
                               else if has_size \<and> output_bytes (res s2) - start_out \<noteq> expected then Some (LZ4_DATA, s2)
                               else Some (LZ4_OK, count_frame info s2))))"

definition modern ::
    "bool \<Rightarrow> 'e callbacks \<Rightarrow> 'd lz4f \<Rightarrow> nat \<Rightarrow> 'e stream \<Rightarrow> (lz4_error \<times> 'e stream) option" where
  "modern custom cb lib fuel s =
     (let start_out = output_bytes (res s)
      in case need cb 7 s of
           (rc, s1) \<Rightarrow>
             if rc \<noteq> LZ4_OK then Some (rc, s1)
             else let flags = unread s1 ! 4
                  in case need cb (header_size flags) s1 of
                       (rc, s2) \<Rightarrow>
                         if rc \<noteq> LZ4_OK then Some (rc, s2)
                         else frame_body custom cb lib fuel flags start_out s2)"

definition skippable :: "'e callbacks \<Rightarrow> 'e stream \<Rightarrow> lz4_error \<times> 'e stream" where
  "skippable cb s =
     (case need cb 8 s of
        (rc, s1) \<Rightarrow>
          if rc \<noteq> LZ4_OK then (rc, s1)
          else let n = le32 (drop 4 (unread s1))
               in case skip_bytes cb (ucast n) (consume 8 s1) of
                    (rc, s2) \<Rightarrow>
                      if rc \<noteq> LZ4_OK then (rc, s2)
                      else (LZ4_OK, s2\<lparr>res := (res s2)\<lparr>skippable_frames := skippable_frames (res s2) + 1\<rparr>\<rparr>))"

fun frame_loop :: "bool \<Rightarrow> 'e callbacks \<Rightarrow> 'd lz4f \<Rightarrow> nat \<Rightarrow> nat \<Rightarrow> 'e stream \<Rightarrow> (lz4_error \<times> 'e stream) option" where
  "frame_loop custom cb lib block_fuel 0 s = None"
| "frame_loop custom cb lib block_fuel (Suc fuel) s =
     (case need cb 4 s of
        (rc, s1) \<Rightarrow>
          if rc = LZ4_TRUNCATED \<and> unread s1 = [] \<and> (frames (res s1) \<noteq> 0 \<or> skippable_frames (res s1) \<noteq> 0)
          then Some (LZ4_OK, s1)
          else if rc \<noteq> LZ4_OK then Some (rc, s1)
          else let magic = le32 (unread s1)
               in case (if magic = frame_magic then modern custom cb lib block_fuel s1
                        else if is_skip magic then Some (skippable cb s1)
                        else Some (LZ4_DATA, s1)) of
                    None \<Rightarrow> None
                  | Some (rc, s2) \<Rightarrow>
                      if rc \<noteq> LZ4_OK then Some (rc, s2)
                      else frame_loop custom cb lib block_fuel fuel s2)"

text \<open>
  \<^verbatim>\<open>sup_lz4_decode_with_memory\<close>, with whether an allocator was passed and whether the two buffers could be
  allocated; \<^verbatim>\<open>sup_lz4_decode\<close> is the instance without an allocator. The error of the result is the returned code.
\<close>

definition lz4_decode_with_memory ::
    "bool \<Rightarrow> bool \<Rightarrow> 'e callbacks \<Rightarrow> 'd lz4f \<Rightarrow> nat \<Rightarrow> 'e \<Rightarrow> (lz4_error \<times> 'e stream) option" where
  "lz4_decode_with_memory custom buffers cb lib fuel e =
     (let s = \<lparr>env = e, unread = [], res = zero_result\<rparr>
      in if \<not> buffers then Some (LZ4_MEMORY, s) else frame_loop custom cb lib fuel fuel s)"

definition lz4_decode :: "bool \<Rightarrow> 'e callbacks \<Rightarrow> 'd lz4f \<Rightarrow> nat \<Rightarrow> 'e \<Rightarrow> (lz4_error \<times> 'e stream) option" where
  "lz4_decode buffers cb lib fuel e = lz4_decode_with_memory False buffers cb lib fuel e"


section \<open>Sources\<close>

text \<open>
  What the reader relies on to account for its input: a count of the bytes the source has handed out
  that grows with every read and every skip and with nothing else.
\<close>

locale lz4_source =
  fixes cb :: "'e callbacks" and delivered :: "'e \<Rightarrow> u64"
  assumes read_delivers: "cb_read cb e n = (Some bs, e') \<Longrightarrow> length bs \<le> n \<Longrightarrow> delivered e' = delivered e + of_nat (length bs)"
    and write_keeps: "cb_write cb e data = (failed, e') \<Longrightarrow> delivered e' = delivered e"
    and progress_keeps: "cb_progress cb = Some pr \<Longrightarrow> pr e i j = (stop, e') \<Longrightarrow> delivered e' = delivered e"
    and skip_delivers: "cb_skip cb = Some sk \<Longrightarrow> sk e k = (code, e') \<Longrightarrow>
      delivered e' = (if code = 0 then delivered e + k else delivered e)"
begin

text \<open>Every byte handed out has been consumed or is still in the buffer.\<close>

definition accounted :: "'e stream \<Rightarrow> bool" where
  "accounted s \<longleftrightarrow> delivered (env s) = input_bytes (res s) + of_nat (length (unread s))"

lemma tick_accounted:
  assumes "lz4_tick cb s = (rc, s')"
  shows "accounted s' = accounted s"
proof (cases "cb_progress cb")
  case (Some pr)
  obtain stop e where pr: "pr (env s) (input_bytes (res s)) (output_bytes (res s)) = (stop, e)" by fastforce
  then have "s' = s\<lparr>env := e\<rparr>"
    using assms Some by (simp add: lz4_tick_def)
  with progress_keeps [OF Some pr] show ?thesis
    by (simp add: accounted_def)
qed (use assms in \<open>simp add: lz4_tick_def\<close>)

lemma need_accounted:
  "need cb n s = (rc, s') \<Longrightarrow> rc \<noteq> LZ4_IO \<Longrightarrow> accounted s \<Longrightarrow> accounted s'"
proof (induction "n - length (unread s)" arbitrary: s rule: less_induct)
  case less
  show ?case
  proof (cases "n \<le> length (unread s)")
    case True
    with less.prems show ?thesis by (simp add: need.simps [of cb n s])
  next
    case False
    obtain rc1 s1 where t: "lz4_tick cb s = (rc1, s1)" by fastforce
    have s1: "unread s1 = unread s" "accounted s1"
      using lz4_tick_frame(1) [OF t] tick_accounted [OF t] less.prems(3) by simp_all
    obtain r e where rd: "cb_read cb (env s1) (buffer_size - length (unread s1)) = (r, e)" by fastforce
    show ?thesis
    proof (cases "rc1 = LZ4_OK \<and> (\<exists>got. r = Some got \<and> length got \<le> buffer_size - length (unread s1))")
      case False
      with \<open>\<not> n \<le> length (unread s)\<close> less.prems t rd s1 show ?thesis
        by (auto simp: need.simps [of cb n s] split: if_splits option.splits)
    next
      case True
      then obtain got where got: "r = Some got" "length got \<le> buffer_size - length (unread s1)" and ok: "rc1 = LZ4_OK" by blast
      let ?s2 = "s1\<lparr>env := e, unread := unread s1 @ got\<rparr>"
      have acc: "accounted ?s2"
        using s1(2) read_delivers [of "env s1" _ got e] rd got by (simp add: accounted_def)
      show ?thesis
      proof (cases "got = []")
        case True
        with acc \<open>\<not> n \<le> length (unread s)\<close> less.prems t rd got ok show ?thesis
          by (auto simp: need.simps [of cb n s] accounted_def)
      next
        case ne: False
        then have "need cb n ?s2 = (rc, s')"
          using \<open>\<not> n \<le> length (unread s)\<close> less.prems(1) t rd got ok by (simp add: need.simps [of cb n s])
        moreover have "n - length (unread ?s2) < n - length (unread s)"
          using ne \<open>\<not> n \<le> length (unread s)\<close> s1(1) by (simp add: neq_Nil_conv) auto
        ultimately show ?thesis
          using less.hyps less.prems(2) acc by blast
      qed
    qed
  qed
qed

lemma consume_accounted: "n \<le> length (unread s) \<Longrightarrow> accounted (consume n s) = accounted s"
  by (simp add: accounted_def consume_def of_nat_diff)

lemma skip_loop_accounted:
  "skip_loop cb n s = (rc, s') \<Longrightarrow> rc \<noteq> LZ4_IO \<Longrightarrow> accounted s \<Longrightarrow> accounted s'"
proof (induction n arbitrary: s rule: less_induct)
  case (less n)
  obtain rc1 s1 where nd: "need cb 1 s = (rc1, s1)" by fastforce
  show ?case
  proof (cases "n \<noteq> 0 \<and> rc1 = LZ4_OK")
    case True
    let ?k = "min n (length (unread s1))"
    have "accounted s1" "1 \<le> length (unread s1)"
      using need_accounted [OF nd] need_enough [of cb 1 s s1] nd True less.prems(3) by simp_all
    then have "accounted (consume ?k s1)" "n - ?k < n"
      using True by (auto simp: consume_accounted)
    moreover have "skip_loop cb (n - ?k) (consume ?k s1) = (rc, s')"
      using less.prems(1) nd True by (simp add: skip_loop.simps [of cb n s])
    ultimately show ?thesis
      using less.IH less.prems(2) by blast
  next
    case False
    with less.prems nd need_accounted [OF nd] show ?thesis
      by (auto simp: skip_loop.simps [of cb n s] split: if_splits)
  qed
qed

lemma skip_bytes_accounted:
  assumes "skip_bytes cb n s = (rc, s')" "rc \<noteq> LZ4_IO" "accounted s"
  shows "accounted s'"
proof -
  let ?k = "min (unat n) (length (unread s))"
  have acc: "accounted (consume ?k s)"
    using assms(3) by (simp add: consume_accounted)
  show ?thesis
  proof (cases "cb_skip cb")
    case None
    with assms acc skip_loop_accounted show ?thesis
      by (auto simp: skip_bytes_def Let_def)
  next
    case (Some sk)
    let ?left = "n - of_nat ?k"
    obtain code e where sk: "sk (env (consume ?k s)) ?left = (code, e)" by fastforce
    from skip_delivers [OF Some sk] acc have
      "code = 0 \<Longrightarrow> accounted ((consume ?k s)\<lparr>env := e, res := (res (consume ?k s))\<lparr>input_bytes := input_bytes (res (consume ?k s)) + ?left\<rparr>\<rparr>)"
      "code \<noteq> 0 \<Longrightarrow> accounted ((consume ?k s)\<lparr>env := e\<rparr>)"
      by (simp_all add: accounted_def)
    with assms acc Some sk skip_loop_accounted tick_accounted show ?thesis
      by (auto simp: skip_bytes_def Let_def split: if_splits)
  qed
qed

lemma emit_accounted:
  assumes "emit cb data s = (rc, s')" "accounted s"
  shows "accounted s'"
proof -
  obtain failed e where w: "(if data \<noteq> [] then cb_write cb (env s) data else (False, env s)) = (failed, e)" by fastforce
  have "delivered e = delivered (env s)"
    using w write_keeps [of "env s" data failed e] by (auto split: if_splits)
  with assms(2) have "accounted (s\<lparr>env := e\<rparr>)" "accounted (s\<lparr>env := e, res := (res s)\<lparr>output_bytes := x\<rparr>\<rparr>)" for x
    by (simp_all add: accounted_def)
  with assms w tick_accounted show ?thesis
    by (auto simp: emit_def Let_def split: if_splits)
qed

lemma block_loop_accounted:
  fixes lib :: "'d lz4f"
  assumes "library_ok lib"
  shows "block_loop cb lib fuel d s = Some (rc, s') \<Longrightarrow> rc \<noteq> LZ4_IO \<Longrightarrow> accounted s \<Longrightarrow> accounted s'"
proof (induction fuel arbitrary: d s)
  case (Suc fuel)
  obtain rc1 s1 where nd: "need cb 1 s = (rc1, s1)" by fastforce
  show ?case
  proof (cases "rc1 = LZ4_OK")
    case False
    with Suc.prems nd need_accounted [OF nd] show ?thesis by simp
  next
    case True
    have acc1: "accounted s1"
      using need_accounted [OF nd] True Suc.prems(3) by simp
    obtain r d' where dec: "lib_decompress lib d buffer_size (unread s1) = (r, d')" by fastforce
    show ?thesis
    proof (cases r)
      case (Inl code)
      with Suc.prems nd True dec acc1 show ?thesis by simp
    next
      case (Inr huo)
      obtain hint used out where huo: "huo = (hint, used, out)" by (metis prod_cases3)
      have "used \<le> length (unread s1)"
        using library_decompress [OF assms] dec Inr huo by blast
      then have acc2: "accounted (consume used s1)"
        using acc1 by (simp add: consume_accounted)
      obtain rc2 s2 where em: "emit cb out (consume used s1) = (rc2, s2)" by fastforce
      have acc3: "accounted s2"
        by (rule emit_accounted [OF em acc2])
      with Suc nd True dec Inr huo em show ?thesis
        by (auto split: if_splits)
    qed
  qed
qed simp

lemma count_frame_accounted [simp]: "accounted (count_frame info s) = accounted s"
  by (simp add: count_frame_def accounted_def)

lemma frame_body_accounted:
  fixes lib :: "'d lz4f"
  assumes lib: "library_ok lib" and body: "frame_body custom cb lib fuel flags start s = Some (rc, s')"
    and "rc \<noteq> LZ4_IO" "accounted s"
  shows "accounted s'"
proof (cases "create_context custom lib")
  case (Inl e)
  with assms show ?thesis by (simp add: frame_body_def Let_def)
next
  case (Inr d)
  obtain r d' where fi: "lib_frame_info lib d (take (header_size flags) (unread s)) = (r, d')" by fastforce
  show ?thesis
  proof (cases r)
    case (Inl e)
    with assms Inr fi show ?thesis by (simp add: frame_body_def Let_def)
  next
    case ui: (Inr ui)
    obtain used info where ui': "ui = (used, info)" by fastforce
    have "used \<le> length (unread s)"
      using library_frame_info [OF lib, of d _ used info d'] fi ui ui' by fastforce
    then have acc: "accounted (consume used s)"
      using assms(4) by (simp add: consume_accounted)
    show ?thesis
      using body assms(3) Inr fi ui ui' acc block_loop_accounted [OF lib, of fuel d' "consume used s"]
      by (auto simp: frame_body_def Let_def split: if_splits option.splits)
  qed
qed

lemma modern_accounted:
  fixes lib :: "'d lz4f"
  assumes lib: "library_ok lib" and mod: "modern custom cb lib fuel s = Some (rc, s')"
    and "rc \<noteq> LZ4_IO" "accounted s"
  shows "accounted s'"
proof -
  obtain rc1 s1 where n1: "need cb 7 s = (rc1, s1)" by fastforce
  obtain rc2 s2 where n2: "need cb (header_size (unread s1 ! 4)) s1 = (rc2, s2)" by fastforce
  show ?thesis
    using mod assms(3,4) n1 n2 need_accounted [OF n1] need_accounted [OF n2] frame_body_accounted [OF lib]
    by (auto simp: modern_def Let_def split: if_splits)
qed

lemma skippable_accounted:
  assumes "skippable cb s = (rc, s')" "rc \<noteq> LZ4_IO" "accounted s"
  shows "accounted s'"
proof -
  obtain rc1 s1 where n1: "need cb 8 s = (rc1, s1)" by fastforce
  obtain rc2 s2 where sk: "skip_bytes cb (ucast (le32 (drop 4 (unread s1)))) (consume 8 s1) = (rc2, s2)" by fastforce
  have acc1: "rc1 = LZ4_OK \<Longrightarrow> accounted (consume 8 s1)"
    using need_accounted [OF n1] need_enough [of cb 8 s s1] n1 assms(3) by (simp add: consume_accounted)
  have "accounted (s2\<lparr>res := (res s2)\<lparr>skippable_frames := x\<rparr>\<rparr>) = accounted s2" for x
    by (simp add: accounted_def)
  then show ?thesis
    using assms n1 sk need_accounted [OF n1] acc1 skip_bytes_accounted [OF sk]
    by (auto simp: skippable_def Let_def split: if_splits)
qed

lemma frame_loop_accounted:
  fixes lib :: "'d lz4f"
  assumes lib: "library_ok lib"
  shows "frame_loop custom cb lib bf fuel s = Some (rc, s') \<Longrightarrow> rc \<noteq> LZ4_IO \<Longrightarrow> accounted s \<Longrightarrow> accounted s'"
proof (induction fuel arbitrary: s)
  case (Suc fuel)
  obtain rc1 s1 where nd: "need cb 4 s = (rc1, s1)" by fastforce
  let ?magic = "le32 (unread s1)"
  let ?r = "if ?magic = frame_magic then modern custom cb lib bf s1
      else if is_skip ?magic then Some (skippable cb s1) else Some (LZ4_DATA, s1)"
  show ?case
  proof (cases "rc1 = LZ4_OK")
    case False
    with Suc.prems nd need_accounted [OF nd] show ?thesis by (auto split: if_splits)
  next
    case True
    have acc1: "accounted s1"
      using need_accounted [OF nd] True Suc.prems(3) by simp
    have step: "accounted s2" if r: "?r = Some (rc2, s2)" and ne: "rc2 \<noteq> LZ4_IO" for rc2 s2
    proof -
      consider "modern custom cb lib bf s1 = Some (rc2, s2)" | "skippable cb s1 = (rc2, s2)" | "s2 = s1"
        using r by (auto split: if_splits)
      then show ?thesis
        using modern_accounted [OF lib] skippable_accounted ne acc1 by cases auto
    qed
    obtain rc2 s2 where r: "?r = Some (rc2, s2)"
      using Suc.prems(1) nd True by (auto simp: Let_def split: option.splits)
    then have "(if rc2 \<noteq> LZ4_OK then Some (rc2, s2) else frame_loop custom cb lib bf fuel s2) = Some (rc, s')"
      using Suc.prems(1) nd True by (simp add: Let_def)
    with step [OF r] Suc.IH Suc.prems(2) show ?thesis
      by (auto split: if_splits)
  qed
qed simp

end

section \<open>Invariants of the callback state\<close>

text \<open>What every callback keeps, a whole decoding run keeps.\<close>

locale lz4_env_invariant =
  fixes cb :: "'e callbacks" and I :: "'e \<Rightarrow> bool"
  assumes read_keeps: "I e \<Longrightarrow> cb_read cb e n = (r, e') \<Longrightarrow> n \<le> buffer_size \<Longrightarrow> I e'"
    and write_keeps: "I e \<Longrightarrow> cb_write cb e data = (failed, e') \<Longrightarrow> I e'"
    and progress_keeps: "I e \<Longrightarrow> cb_progress cb = Some pr \<Longrightarrow> pr e i j = (stop, e') \<Longrightarrow> I e'"
    and skip_keeps: "I e \<Longrightarrow> cb_skip cb = Some sk \<Longrightarrow> sk e k = (code, e') \<Longrightarrow> I e'"
begin

lemma env_consume [simp]: "env (consume n s) = env s"
  by (simp add: consume_def)

lemma tick_env: "lz4_tick cb s = (rc, s') \<Longrightarrow> I (env s) \<Longrightarrow> I (env s')"
  using progress_keeps by (cases "cb_progress cb") (auto simp: lz4_tick_def split: prod.splits)

lemma need_env: "need cb n s = (rc, s') \<Longrightarrow> I (env s) \<Longrightarrow> I (env s')"
proof (induction "n - length (unread s)" arbitrary: s rule: less_induct)
  case less
  show ?case
  proof (cases "n \<le> length (unread s)")
    case True
    with less.prems show ?thesis by (simp add: need.simps [of cb n s])
  next
    case False
    obtain rc1 s1 where t: "lz4_tick cb s = (rc1, s1)" by fastforce
    obtain r e where rd: "cb_read cb (env s1) (buffer_size - length (unread s1)) = (r, e)" by fastforce
    have s1: "unread s1 = unread s" "I (env s1)" "I e"
      using lz4_tick_frame(1) [OF t] tick_env [OF t] less.prems(2) read_keeps [OF _ rd] by simp_all
    have rec: "I (env s')" if "need cb n (s1\<lparr>env := e, unread := unread s1 @ got\<rparr>) = (rc, s')" "got \<noteq> []" for got
      by (rule less.hyps [OF _ that(1)]) (use that(2) False s1 in \<open>auto simp: neq_Nil_conv\<close>)
    show ?thesis
      using False less.prems t rd s1 rec
      by (auto simp: need.simps [of cb n s] split: if_splits option.splits)
  qed
qed

lemma skip_loop_env: "skip_loop cb n s = (rc, s') \<Longrightarrow> I (env s) \<Longrightarrow> I (env s')"
proof (induction n arbitrary: s rule: less_induct)
  case (less n)
  obtain rc1 s1 where nd: "need cb 1 s = (rc1, s1)" by fastforce
  let ?k = "min n (length (unread s1))"
  have s1: "I (env s1)"
    by (rule need_env [OF nd less.prems(2)])
  have "n - ?k < n" if "n \<noteq> 0" "rc1 = LZ4_OK"
    using need_enough [of cb 1 s s1] nd that by auto
  with less.IH [of "n - ?k" "consume ?k s1"] less.prems nd s1 show ?case
    by (auto simp: skip_loop.simps [of cb n s] split: if_splits)
qed

lemma skip_bytes_env: "skip_bytes cb n s = (rc, s') \<Longrightarrow> I (env s) \<Longrightarrow> I (env s')"
  using skip_keeps by (cases "cb_skip cb")
    (auto simp: skip_bytes_def Let_def split: if_splits prod.splits dest: skip_loop_env tick_env)

lemma emit_env: "emit cb data s = (rc, s') \<Longrightarrow> I (env s) \<Longrightarrow> I (env s')"
  using write_keeps by (auto simp: emit_def Let_def split: if_splits prod.splits dest: tick_env)

lemma block_loop_env: "block_loop cb lib fuel d s = Some (rc, s') \<Longrightarrow> I (env s) \<Longrightarrow> I (env s')"
proof (induction fuel arbitrary: d s)
  case (Suc fuel)
  obtain rc1 s1 where nd: "need cb 1 s = (rc1, s1)" by fastforce
  have s1: "I (env s1)"
    by (rule need_env [OF nd Suc.prems(2)])
  have em: "I (env s2)" if "emit cb out (consume used s1) = (rc2, s2)" for out used rc2 s2
    using emit_env [OF that] s1 by simp
  from Suc nd s1 em show ?case
    by (auto split: if_splits prod.splits sum.splits)
qed simp

lemma frame_body_env: "frame_body custom cb lib fuel flags start s = Some (rc, s') \<Longrightarrow> I (env s) \<Longrightarrow> I (env s')"
  by (auto simp: frame_body_def count_frame_def Let_def split: if_splits prod.splits sum.splits option.splits
      dest!: block_loop_env)

lemma modern_env: "modern custom cb lib fuel s = Some (rc, s') \<Longrightarrow> I (env s) \<Longrightarrow> I (env s')"
  by (auto simp: modern_def Let_def split: if_splits prod.splits dest!: need_env frame_body_env)

lemma skippable_env: "skippable cb s = (rc, s') \<Longrightarrow> I (env s) \<Longrightarrow> I (env s')"
  by (auto simp: skippable_def Let_def split: if_splits prod.splits dest!: need_env skip_bytes_env)

lemma frame_loop_env: "frame_loop custom cb lib bf fuel s = Some (rc, s') \<Longrightarrow> I (env s) \<Longrightarrow> I (env s')"
proof (induction fuel arbitrary: s)
  case (Suc fuel)
  obtain rc1 s1 where nd: "need cb 4 s = (rc1, s1)" by fastforce
  have s1: "I (env s1)"
    by (rule need_env [OF nd Suc.prems(2)])
  have "I (env s2)" if "modern custom cb lib bf s1 = Some (rc2, s2)" for rc2 s2
    using modern_env [OF that s1] .
  moreover have "I (env s2)" if "skippable cb s1 = (rc2, s2)" for rc2 s2
    using skippable_env [OF that s1] .
  ultimately show ?case
    using Suc nd s1 by (auto simp: Let_def split: if_splits prod.splits option.splits)
qed simp

lemma decode_env:
  "lz4_decode_with_memory custom buffers cb lib fuel e = Some (rc, s) \<Longrightarrow> I e \<Longrightarrow> I (env s)"
  by (auto simp: lz4_decode_with_memory_def Let_def split: if_splits dest: frame_loop_env)

end

section \<open>Termination\<close>

text \<open>A source with finitely many bytes left: no callback adds to them.\<close>

definition source_ends :: "'e callbacks \<Rightarrow> ('e \<Rightarrow> nat) \<Rightarrow> bool" where
  "source_ends cb left \<longleftrightarrow>
     (\<forall>e n bs e'. cb_read cb e n = (Some bs, e') \<longrightarrow> length bs \<le> n \<longrightarrow> left e' + length bs \<le> left e) \<and>
     (\<forall>e data failed e'. cb_write cb e data = (failed, e') \<longrightarrow> left e' \<le> left e) \<and>
     (\<forall>pr e i j stop e'. cb_progress cb = Some pr \<longrightarrow> pr e i j = (stop, e') \<longrightarrow> left e' \<le> left e) \<and>
     (\<forall>sk e n code e'. cb_skip cb = Some sk \<longrightarrow> sk e n = (code, e') \<longrightarrow> left e' \<le> left e)"

definition input_left :: "('e \<Rightarrow> nat) \<Rightarrow> 'e stream \<Rightarrow> nat" where
  "input_left left s = left (env s) + length (unread s)"


lemma source_endsD:
  assumes "source_ends cb left"
  shows "cb_read cb e n = (Some bs, e') \<Longrightarrow> length bs \<le> n \<Longrightarrow> left e' + length bs \<le> left e"
    and "cb_write cb e data = (failed, e') \<Longrightarrow> left e' \<le> left e"
    and "cb_progress cb = Some pr \<Longrightarrow> pr e i j = (stop, e') \<Longrightarrow> left e' \<le> left e"
    and "cb_skip cb = Some sk \<Longrightarrow> sk e k = (code, e') \<Longrightarrow> left e' \<le> left e"
  using assms unfolding source_ends_def by blast+

lemma tick_left:
  assumes "source_ends cb left" "lz4_tick cb s = (rc, s')"
  shows "input_left left s' \<le> input_left left s"
proof (cases "cb_progress cb")
  case (Some pr)
  obtain stop e where pr: "pr (env s) (input_bytes (res s)) (output_bytes (res s)) = (stop, e)" by fastforce
  then have "s' = s\<lparr>env := e\<rparr>"
    using assms(2) Some by (simp add: lz4_tick_def)
  with source_endsD(3) [OF assms(1) Some pr] show ?thesis
    by (simp add: input_left_def)
qed (use assms in \<open>simp add: lz4_tick_def\<close>)

lemma need_left:
  assumes ends: "source_ends cb left"
  shows "need cb n s = (LZ4_OK, s') \<Longrightarrow> input_left left s' \<le> input_left left s \<and> res s' = res s"
proof (induction "n - length (unread s)" arbitrary: s rule: less_induct)
  case less
  show ?case
  proof (cases "n \<le> length (unread s)")
    case True
    with less.prems show ?thesis by (simp add: need.simps [of cb n s])
  next
    case False
    obtain rc1 s1 where t: "lz4_tick cb s = (rc1, s1)" by fastforce
    have s1: "unread s1 = unread s" "res s1 = res s" "input_left left s1 \<le> input_left left s"
      using lz4_tick_frame [OF t] tick_left [OF ends t] by simp_all
    obtain r e where rd: "cb_read cb (env s1) (buffer_size - length (unread s1)) = (r, e)" by fastforce
    then obtain got where got: "r = Some got" "length got \<le> buffer_size - length (unread s1)" "got \<noteq> []"
      and rec: "need cb n (s1\<lparr>env := e, unread := unread s1 @ got\<rparr>) = (LZ4_OK, s')"
      using False less.prems t
      by (auto simp: need.simps [of cb n s] split: if_splits option.splits prod.splits)
    let ?s2 = "s1\<lparr>env := e, unread := unread s1 @ got\<rparr>"
    have "n - length (unread ?s2) < n - length (unread s)"
      using got(3) False s1(1) by (auto simp: neq_Nil_conv)
    moreover have "left e + length got \<le> left (env s1)"
      using source_endsD(1) [OF ends _ got(2)] rd got(1) by simp
    ultimately show ?thesis
      using less.hyps [OF _ rec] s1 by (simp add: input_left_def)
  qed
qed

lemma consume_left: "n \<le> length (unread s) \<Longrightarrow> input_left left (consume n s) + n = input_left left s"
  by (simp add: input_left_def consume_def)

lemma skip_loop_left:
  assumes ends: "source_ends cb left"
  shows "skip_loop cb n s = (LZ4_OK, s') \<Longrightarrow> input_left left s' \<le> input_left left s"
proof (induction n arbitrary: s rule: less_induct)
  case (less n)
  show ?case
  proof (cases "n = 0")
    case False
    obtain rc1 s1 where nd: "need cb 1 s = (rc1, s1)" by fastforce
    let ?k = "min n (length (unread s1))"
    have rc1: "rc1 = LZ4_OK" and rec: "skip_loop cb (n - ?k) (consume ?k s1) = (LZ4_OK, s')"
      using less.prems nd False by (auto simp: skip_loop.simps [of cb n s] split: if_splits)
    have "n - ?k < n"
      using need_enough [of cb 1 s s1] nd rc1 False by auto
    from less.IH [OF this rec] consume_left [of ?k s1 left] need_left [OF ends, of 1 s s1] nd rc1 show ?thesis
      by simp
  qed (use less.prems in \<open>simp add: skip_loop.simps [of cb 0 s]\<close>)
qed

lemma skip_bytes_left:
  assumes ends: "source_ends cb left" and skip: "skip_bytes cb n s = (LZ4_OK, s')"
  shows "input_left left s' \<le> input_left left s"
proof -
  let ?k = "min (unat n) (length (unread s))"
  let ?c = "consume ?k s" and ?rest = "n - of_nat ?k"
  have c: "input_left left ?c \<le> input_left left s"
    using consume_left [of ?k s left] by simp
  show ?thesis
  proof (cases "\<exists>sk. cb_skip cb = Some sk \<and> ?rest \<noteq> 0")
    case False
    then have "skip_loop cb (unat ?rest) ?c = (LZ4_OK, s')"
      using skip by (auto simp: skip_bytes_def Let_def split: option.splits)
    with skip_loop_left [OF ends this] c show ?thesis by simp
  next
    case True
    then obtain sk where sk: "cb_skip cb = Some sk" "?rest \<noteq> 0" by blast
    obtain code e where e: "sk (env ?c) ?rest = (code, e)" by fastforce
    let ?s1 = "?c\<lparr>env := e, res := (res ?c)\<lparr>input_bytes := input_bytes (res ?c) + ?rest\<rparr>\<rparr>"
    have "lz4_tick cb ?s1 = (LZ4_OK, s')"
      using skip sk e by (auto simp: skip_bytes_def Let_def split: if_splits)
    with tick_left [OF ends this] source_endsD(4) [OF ends sk(1) e] c show ?thesis
      by (simp add: input_left_def)
  qed
qed

lemma emit_left:
  assumes ends: "source_ends cb left" and em: "emit cb data s = (LZ4_OK, s')" and small: "length data < 2 ^ 64"
  shows "input_left left s' \<le> input_left left s"
    and "unat (output_bytes (res s')) = unat (output_bytes (res s)) + length data"
proof -
  let ?n = "of_nat (length data) :: u64"
  obtain failed e where w: "(if data \<noteq> [] then cb_write cb (env s) data else (False, env s)) = (failed, e)" by fastforce
  let ?s1 = "s\<lparr>env := e, res := (res s)\<lparr>output_bytes := output_bytes (res s) + ?n\<rparr>\<rparr>"
  have t: "lz4_tick cb ?s1 = (LZ4_OK, s')" and room: "\<not> - 1 - output_bytes (res s) < ?n"
    using em w by (auto simp: emit_def Let_def split: if_splits)
  have "left e \<le> left (env s)"
    using w source_endsD(2) [OF ends] by (auto split: if_splits)
  with tick_left [OF ends t] show "input_left left s' \<le> input_left left s"
    by (simp add: input_left_def)
  have n: "unat ?n = length data"
    using small by (simp add: unat_of_nat)
  have "unat (- 1 - output_bytes (res s)) = 2 ^ 64 - 1 - unat (output_bytes (res s))"
    by (simp add: unat_sub word_order.extremum unsigned_minus_1_eq_mask mask_eq_exp_minus_1)
  then have "length data \<le> 2 ^ 64 - 1 - unat (output_bytes (res s))"
    using room n by (simp add: word_less_nat_alt)
  moreover have "unat (output_bytes (res s)) < 2 ^ 64"
    by (rule order_less_le_trans [OF unsigned_less]) simp
  ultimately have "unat (output_bytes (res s) + ?n) = unat (output_bytes (res s)) + length data"
    using n by (simp add: unat_word_ariths)
  with lz4_tick_frame(2) [OF t] show "unat (output_bytes (res s')) = unat (output_bytes (res s)) + length data"
    by simp
qed


lemma block_loop_returns:
  assumes ends: "source_ends cb left" and lib: "library_ok lib"
  shows "input_left left s + (2 ^ 64 - unat (output_bytes (res s))) < fuel \<Longrightarrow>
    \<exists>rc s'. block_loop cb lib fuel d s = Some (rc, s') \<and>
      (rc = LZ4_OK \<longrightarrow> input_left left s' \<le> input_left left s)"
proof (induction fuel arbitrary: d s)
  case (Suc fuel)
  obtain rc1 s1 where nd: "need cb 1 s = (rc1, s1)" by fastforce
  obtain r d' where dec: "lib_decompress lib d buffer_size (unread s1) = (r, d')" by fastforce
  show ?case
  proof (cases "rc1 = LZ4_OK \<and> (\<exists>x. r = Inr x)")
    case False
    with nd dec show ?thesis
      by (cases r) (auto simp: library_error_def)
  next
    case True
    then obtain hint used out where r: "r = Inr (hint, used, out)" and rc1: "rc1 = LZ4_OK"
      by (metis prod_cases3)
    obtain rc2 s2 where em: "emit cb out (consume used s1) = (rc2, s2)" by fastforce
    have used: "used \<le> length (unread s1)" and out: "length out \<le> buffer_size"
      using library_decompress [OF lib, of d buffer_size "unread s1" hint used out d'] dec r by simp_all
    have s1: "input_left left s1 \<le> input_left left s" "res s1 = res s"
      using need_left [OF ends, of 1 s s1] nd rc1 by simp_all
    show ?thesis
    proof (cases "rc2 = LZ4_OK \<and> hint \<noteq> 0 \<and> \<not> (used = 0 \<and> out = [])")
      case True
      have "length out < 2 ^ 64"
        using out by (simp add: buffer_size_def)
      note em' = emit_left [OF ends, of out "consume used s1" s2, OF _ this]
      have left2: "input_left left s2 + used \<le> input_left left s"
        and out2: "unat (output_bytes (res s2)) = unat (output_bytes (res s)) + length out"
        using em' em True consume_left [OF used, of left] s1 by (simp_all add: consume_def)
      have "unat (output_bytes (res s2)) < 2 ^ 64"
        by (rule order_less_le_trans [OF unsigned_less]) simp
      then have "input_left left s2 + (2 ^ 64 - unat (output_bytes (res s2))) < fuel"
        using left2 out2 True Suc.prems by (auto simp: neq_Nil_conv)
      from Suc.IH [OF this, of d'] obtain rc s' where "block_loop cb lib fuel d' s2 = Some (rc, s')"
        "rc = LZ4_OK \<longrightarrow> input_left left s' \<le> input_left left s2" by blast
      with True nd rc1 dec r em left2 show ?thesis by auto
    next
      case False
      have "rc2 = LZ4_OK \<Longrightarrow> input_left left s2 \<le> input_left left s"
        using emit_left(1) [OF ends, of out "consume used s1" s2] em out consume_left [OF used, of left] s1(1)
        by (simp add: buffer_size_def)
      with False nd rc1 dec r em show ?thesis by auto
    qed
  qed
qed simp

lemma frame_body_returns:
  assumes ends: "source_ends cb left" and lib: "library_ok lib" and fuel: "input_left left s + 2 ^ 64 < fuel"
  shows "\<exists>rc s'. frame_body custom cb lib fuel flags start s = Some (rc, s') \<and>
    (rc = LZ4_OK \<longrightarrow> input_left left s' < input_left left s)"
proof (cases "create_context custom lib")
  case (Inl e)
  then have "e \<noteq> LZ4_OK"
    by (auto simp: create_context_def library_error_def split: if_splits option.splits sum.splits)
  with Inl show ?thesis by (simp add: frame_body_def Let_def)
next
  case (Inr d)
  obtain r d' where fi: "lib_frame_info lib d (take (header_size flags) (unread s)) = (r, d')" by fastforce
  show ?thesis
  proof (cases r)
    case (Inl e)
    with Inr fi show ?thesis by (simp add: frame_body_def Let_def library_error_def)
  next
    case ui: (Inr ui)
    obtain used info where ui': "ui = (used, info)" by fastforce
    have used: "0 < used" "used \<le> length (unread s)"
      using library_frame_info [OF lib, of d _ used info d'] fi ui ui' by fastforce+
    have c: "input_left left (consume used s) < input_left left s"
      using consume_left [OF used(2), of left] used(1) by linarith
    then obtain rc s' where bl: "block_loop cb lib fuel d' (consume used s) = Some (rc, s')"
      "rc = LZ4_OK \<longrightarrow> input_left left s' \<le> input_left left (consume used s)"
      using block_loop_returns [OF ends lib, of "consume used s" fuel d'] fuel by (meson diff_le_self le_less_trans add_mono less_imp_le)
    have "input_left left (count_frame info s') = input_left left s'"
      by (simp add: input_left_def count_frame_def)
    with bl c Inr fi ui ui' show ?thesis
      by (auto simp: frame_body_def Let_def)
  qed
qed

lemma modern_returns:
  assumes ends: "source_ends cb left" and lib: "library_ok lib" and fuel: "input_left left s + 2 ^ 64 < fuel"
  shows "\<exists>rc s'. modern custom cb lib fuel s = Some (rc, s') \<and> (rc = LZ4_OK \<longrightarrow> input_left left s' < input_left left s)"
proof -
  obtain rc1 s1 where n1: "need cb 7 s = (rc1, s1)" by fastforce
  obtain rc2 s2 where n2: "need cb (header_size (unread s1 ! 4)) s1 = (rc2, s2)" by fastforce
  show ?thesis
  proof (cases "rc1 = LZ4_OK \<and> rc2 = LZ4_OK")
    case True
    then have "input_left left s2 \<le> input_left left s"
      using need_left [OF ends, of 7 s s1] need_left [OF ends, of _ s1 s2] n1 n2 by fastforce
    with frame_body_returns [OF ends lib, of s2 fuel custom "unread s1 ! 4" "output_bytes (res s)"] fuel True n1 n2
    show ?thesis by (auto simp: modern_def Let_def)
  qed (use n1 n2 in \<open>auto simp: modern_def Let_def\<close>)
qed

lemma skippable_left:
  assumes ends: "source_ends cb left" and sk: "skippable cb s = (LZ4_OK, s')"
  shows "input_left left s' < input_left left s"
proof -
  obtain rc1 s1 where n1: "need cb 8 s = (rc1, s1)" by fastforce
  obtain rc2 s2 where sb: "skip_bytes cb (ucast (le32 (drop 4 (unread s1)))) (consume 8 s1) = (rc2, s2)" by fastforce
  have ok: "rc1 = LZ4_OK" "rc2 = LZ4_OK" and s': "input_left left s' = input_left left s2"
    using sk n1 sb by (auto simp: skippable_def Let_def input_left_def split: if_splits)
  have "input_left left s1 \<le> input_left left s" "8 \<le> length (unread s1)"
    using need_left [OF ends, of 8 s s1] need_enough [of cb 8 s s1] n1 ok(1) by simp_all
  with consume_left [of 8 s1 left] skip_bytes_left [OF ends] sb ok(2) s' show ?thesis
    by fastforce
qed

lemma frame_loop_returns:
  assumes ends: "source_ends cb left" and lib: "library_ok lib"
  shows "input_left left s < fuel \<Longrightarrow> input_left left s + 2 ^ 64 < bf \<Longrightarrow>
    frame_loop custom cb lib bf fuel s \<noteq> None"
proof (induction fuel arbitrary: s)
  case (Suc fuel)
  obtain rc1 s1 where nd: "need cb 4 s = (rc1, s1)" by fastforce
  let ?magic = "le32 (unread s1)"
  let ?r = "if ?magic = frame_magic then modern custom cb lib bf s1
      else if is_skip ?magic then Some (skippable cb s1) else Some (LZ4_DATA, s1)"
  show ?case
  proof (cases "rc1 = LZ4_OK")
    case True
    have s1: "input_left left s1 \<le> input_left left s"
      using need_left [OF ends, of 4 s s1] nd True by simp
    have "\<exists>rc s'. modern custom cb lib bf s1 = Some (rc, s') \<and> (rc = LZ4_OK \<longrightarrow> input_left left s' < input_left left s1)"
      by (rule modern_returns [OF ends lib]) (use s1 Suc.prems(2) in linarith)
    moreover have "\<exists>rc s'. skippable cb s1 = (rc, s') \<and> (rc = LZ4_OK \<longrightarrow> input_left left s' < input_left left s1)"
      using skippable_left [OF ends, of s1] by (cases "skippable cb s1") auto
    ultimately have "\<exists>rc s'. ?r = Some (rc, s') \<and> (rc = LZ4_OK \<longrightarrow> input_left left s' < input_left left s1)"
      by auto
    then obtain rc s' where r: "?r = Some (rc, s')" "rc = LZ4_OK \<longrightarrow> input_left left s' < input_left left s1"
      by blast
    then have eq: "frame_loop custom cb lib bf (Suc fuel) s =
        (if rc \<noteq> LZ4_OK then Some (rc, s') else frame_loop custom cb lib bf fuel s')"
      using nd True by (simp add: Let_def)
    show ?thesis
    proof (cases "rc = LZ4_OK")
      case ok: True
      have "frame_loop custom cb lib bf fuel s' \<noteq> None"
        by (rule Suc.IH) (use r(2) ok s1 Suc.prems in linarith)+
      with eq ok show ?thesis by simp
    qed (simp add: eq del: frame_loop.simps)
  qed (use nd in auto)
qed simp

lemma frame_loop_complete:
  "frame_loop custom cb lib bf fuel s = Some (LZ4_OK, s') \<Longrightarrow>
     unread s' = [] \<and> (frames (res s') \<noteq> 0 \<or> skippable_frames (res s') \<noteq> 0)"
proof (induction fuel arbitrary: s)
  case (Suc fuel)
  then show ?case
    by (auto simp: Let_def split: prod.splits if_splits option.splits)
qed simp


section \<open>A library that stores its payload\<close>

text \<open>
  An instance of the library for concrete runs: the header is seven bytes, then one byte gives the
  length of the payload, which is copied.
\<close>

definition stored_lib :: "unit lz4f" where
  "stored_lib = \<lparr>lib_create_advanced = Some (), lib_create = Inr (),
     lib_frame_info = (\<lambda>d src. (if src = [] then Inl Other_error
        else Inr (min 7 (length src), \<lparr>content_checksum_flag = True, block_checksum_flag = False\<rparr>), d)),
     lib_decompress = (\<lambda>d cap src. (case src of [] \<Rightarrow> Inl Other_error
        | n # bs \<Rightarrow> Inr (0, Suc (min cap (min (unat n) (length bs))), take (min cap (unat n)) bs), d))\<rparr>"

lemma stored_lib_ok: "library_ok stored_lib"
  by (auto simp: library_ok_def stored_lib_def split: list.splits if_splits)

text \<open>A source that hands out a list and keeps what is written.\<close>

definition list_callbacks :: "(u8 list \<times> u8 list) callbacks" where
  "list_callbacks = \<lparr>cb_read = (\<lambda>(inp, outp) n. (Some (take n inp), (drop n inp, outp))), cb_skip = None,
     cb_write = (\<lambda>(inp, outp) data. (False, (inp, outp @ data))), cb_progress = None\<rparr>"

lemma list_callbacks_end: "source_ends list_callbacks (\<lambda>(inp, outp). length inp)"
  by (auto simp: source_ends_def list_callbacks_def)

section \<open>Properties\<close>

text \<open>
  C38. Decoding terminates on every finite input, whatever the bytes, the callbacks and the answers of the
  library are: with fuel beyond the bytes left plus the range of the output counter, both loops end.
\<close>

theorem lz4_decode_terminates:
  assumes "source_ends cb left" "library_ok lib" "left e + 2 ^ 64 < fuel"
  shows "\<exists>rc s. lz4_decode_with_memory custom buffers cb lib fuel e = Some (rc, s)"
  using frame_loop_returns [OF assms(1,2), of "\<lparr>env = e, unread = [], res = zero_result\<rparr>" fuel fuel custom] assms(3)
  by (auto simp: lz4_decode_with_memory_def input_left_def Let_def)

theorem lz4_decode_terminates_witness:
  "\<exists>rc s. lz4_decode_with_memory False True list_callbacks stored_lib (2 ^ 65) ([4, 0x22, 0x4d, 0x18], []) = Some (rc, s)"
  by (rule lz4_decode_terminates [OF list_callbacks_end stored_lib_ok]) simp

end
