(* ===== verification/Lz4_Codec.thy ===== *)
theory Lz4_Codec
  imports Lz4_Stream
begin

text \<open>
  The LZ4 method of 7z archives (\<^verbatim>\<open>lz4_codec.cpp\<close>): \<^verbatim>\<open>CDecoder::Code\<close> runs the frame reader between a COM
  input stream and a COM output stream, with optional limits on both sides. The streams and the
  progress object are parameters over a common state \<open>'w\<close>; the callbacks the codec passes to the reader
  are an instance of the reader's interface \<^const>\<open>lz4_source\<close>.
\<close>

section \<open>The codec\<close>

text \<open>
  \<^verbatim>\<open>Read\<close> returns a code and the bytes (the count is their number), \<^verbatim>\<open>Write\<close> a code and the number of
  bytes taken, \<^verbatim>\<open>SetRatioInfo\<close> a code.
\<close>

record 'w com_streams =
  com_read :: "'w \<Rightarrow> nat \<Rightarrow> u32 \<times> u8 list \<times> 'w"
  com_write :: "'w \<Rightarrow> u8 list \<Rightarrow> u32 \<times> nat \<times> 'w"
  com_progress :: "('w \<Rightarrow> u64 \<Rightarrow> u64 \<Rightarrow> u32 \<times> 'w) option"

record 'w codec_context =
  c_world :: 'w
  c_cut :: bool
  c_read :: u64
  c_written :: u64
  c_status :: u32

definition writing_was_cut :: u32 where
  "writing_was_cut = 0x20000010"

definition new_context :: "'w \<Rightarrow> 'w codec_context" where
  "new_context w = \<lparr>c_world = w, c_cut = False, c_read = 0, c_written = 0, c_status = 0\<rparr>"

definition limited :: "u64 option \<Rightarrow> u64 \<Rightarrow> nat \<Rightarrow> nat" where
  "limited limit used n = (case limit of None \<Rightarrow> n | Some l \<Rightarrow> unat (min (of_nat n) (l - used)))"

definition codec_read :: "'w com_streams \<Rightarrow> u64 option \<Rightarrow> 'w codec_context \<Rightarrow> nat \<Rightarrow> u8 list option \<times> 'w codec_context" where
  "codec_read io input_limit c n =
     (case com_read io (c_world c) (limited input_limit (c_read c) n) of
        (status, bytes, w) \<Rightarrow>
          let c1 = c\<lparr>c_world := w, c_status := status\<rparr>
          in if status \<noteq> 0 then (None, c1)
             else (Some bytes, c1\<lparr>c_read := c_read c1 + of_nat (length bytes)\<rparr>))"

text \<open>The loop of \<^verbatim>\<open>write\<close>; the flag is whether the callback returns at once, with a nonzero code.\<close>

function (sequential) codec_write_loop ::
    "'w com_streams \<Rightarrow> bool \<Rightarrow> u8 list \<Rightarrow> 'w codec_context \<Rightarrow> bool \<times> 'w codec_context" where
  "codec_write_loop io finish data c =
     (if data = [] then (False, c)
      else case com_write io (c_world c) data of
             (status, count, w) \<Rightarrow>
               let c1 = c\<lparr>c_world := w, c_status := status, c_written := c_written c + of_nat count\<rparr>
               in if status = writing_was_cut \<and> \<not> finish then (True, c1\<lparr>c_cut := True\<rparr>)
                  else if status \<noteq> 0 then (True, c1)
                  else if count = 0 then (True, c1\<lparr>c_status := 0x80004005\<rparr>)
                  else codec_write_loop io finish (drop count data) c1)"
  by pat_completeness auto

termination codec_write_loop
  by (relation "measure (\<lambda>(io, finish, data, c). length data)") auto

declare codec_write_loop.simps [simp del]

definition codec_write ::
    "'w com_streams \<Rightarrow> bool \<Rightarrow> u64 option \<Rightarrow> 'w codec_context \<Rightarrow> u8 list \<Rightarrow> bool \<times> 'w codec_context" where
  "codec_write io finish output_limit c data =
     (let taken = limited output_limit (c_written c) (length data)
      in if finish \<and> taken \<noteq> length data then (True, c\<lparr>c_status := 1\<rparr>)
         else case codec_write_loop io finish (take taken data) c of
                (True, c1) \<Rightarrow> (True, c1)
              | (False, c1) \<Rightarrow>
                  if \<not> finish \<and> (case output_limit of None \<Rightarrow> False | Some l \<Rightarrow> c_written c1 = l)
                  then (True, c1\<lparr>c_cut := True\<rparr>) else (False, c1))"

definition codec_progress :: "('w \<Rightarrow> u64 \<Rightarrow> u64 \<Rightarrow> u32 \<times> 'w) \<Rightarrow> 'w codec_context \<Rightarrow> u64 \<Rightarrow> u64 \<Rightarrow> bool \<times> 'w codec_context" where
  "codec_progress report c i j =
     (case report (c_world c) i j of (status, w) \<Rightarrow> (status \<noteq> 0, c\<lparr>c_world := w, c_status := status\<rparr>))"

text \<open>The codec always passes a progress callback; without a progress object it does nothing.\<close>

definition codec_callbacks :: "'w com_streams \<Rightarrow> u64 option \<Rightarrow> u64 option \<Rightarrow> bool \<Rightarrow> 'w codec_context callbacks" where
  "codec_callbacks io input_limit output_limit finish =
     \<lparr>cb_read = codec_read io input_limit, cb_skip = None, cb_write = codec_write io finish output_limit,
      cb_progress = Some (\<lambda>c i j. case com_progress io of None \<Rightarrow> (False, c) | Some report \<Rightarrow> codec_progress report c i j)\<rparr>"

definition set_decoder_properties :: "bool \<Rightarrow> u32 \<Rightarrow> u32" where
  "set_decoder_properties properties n = (if n = 5 \<and> properties then 0 else 0x80070057)"

definition set_finish_mode :: "u32 \<Rightarrow> bool" where
  "set_finish_mode mode \<longleftrightarrow> mode \<noteq> 0"

text \<open>
  \<^verbatim>\<open>Code\<close>: the returned code, the processed input size and the context afterwards; \<open>streams\<close> is whether both
  streams are given, \<open>buffers\<close> whether the reader could allocate its two buffers.
\<close>

definition code_status ::
    "u64 option \<Rightarrow> u64 option \<Rightarrow> bool \<Rightarrow> lz4_error \<Rightarrow> lz4_result \<Rightarrow> 'w codec_context \<Rightarrow> u32" where
  "code_status input_size output_size finish error r c =
     (if c_cut c then 0
      else if c_status c \<noteq> 0 then c_status c
      else if error = LZ4_UNSUPPORTED then 0x80004001
      else if error = LZ4_MEMORY then 0x8007000E
      else if error \<noteq> LZ4_OK then 1
      else if (case output_size of None \<Rightarrow> False | Some n \<Rightarrow> output_bytes r \<noteq> n) \<or>
              (finish \<and> (case input_size of None \<Rightarrow> False | Some n \<Rightarrow> input_bytes r \<noteq> n)) then 1
      else 0)"

definition codec_code ::
    "bool \<Rightarrow> 'w com_streams \<Rightarrow> 'd lz4f \<Rightarrow> bool \<Rightarrow> nat \<Rightarrow> u64 option \<Rightarrow> u64 option \<Rightarrow> bool \<Rightarrow> 'w \<Rightarrow>
     (u32 \<times> u64 \<times> 'w codec_context) option" where
  "codec_code streams io lib buffers fuel input_size output_size finish w =
     (if \<not> streams then Some (0x80070057, 0, new_context w)
      else if \<not> finish \<and> output_size = Some 0 then Some (0, 0, new_context w)
      else case lz4_decode_with_memory True buffers (codec_callbacks io input_size output_size finish) lib fuel (new_context w) of
             None \<Rightarrow> None
           | Some (error, s) \<Rightarrow>
               Some (code_status input_size output_size finish error (res s) (env s), input_bytes (res s), env s))"

section \<open>The codec as a source\<close>

lemma codec_write_loop_read: "codec_write_loop io finish data c = (b, c') \<Longrightarrow> c_read c' = c_read c"
proof (induction io finish data c rule: codec_write_loop.induct)
  case (1 io finish data c)
  then show ?case
    by (auto simp: codec_write_loop.simps [of io finish data c] Let_def split: if_splits prod.splits)
qed

lemma codec_write_read: "codec_write io finish limit c data = (b, c') \<Longrightarrow> c_read c' = c_read c"
  by (auto simp: codec_write_def Let_def dest!: codec_write_loop_read split: if_splits prod.splits bool.splits)

interpretation codec: lz4_source "codec_callbacks io input_limit output_limit finish" c_read
  for io :: "'w com_streams" and input_limit output_limit finish
proof
  fix e e' :: "'w codec_context" and n bs
  assume "cb_read (codec_callbacks io input_limit output_limit finish) e n = (Some bs, e')"
  then show "c_read e' = c_read e + of_nat (length bs)"
    by (auto simp: codec_callbacks_def codec_read_def Let_def split: prod.splits if_splits)
next
  fix e e' :: "'w codec_context" and data failed
  assume "cb_write (codec_callbacks io input_limit output_limit finish) e data = (failed, e')"
  then show "c_read e' = c_read e"
    by (auto simp: codec_callbacks_def dest: codec_write_read)
next
  fix pr e i j stop and e' :: "'w codec_context"
  assume "cb_progress (codec_callbacks io input_limit output_limit finish) = Some pr" "pr e i j = (stop, e')"
  then show "c_read e' = c_read e"
    by (auto simp: codec_callbacks_def codec_progress_def split: option.splits prod.splits)
qed (auto simp: codec_callbacks_def)


section \<open>Limits\<close>

text \<open>The contract of the COM streams: no more bytes than were asked for or offered.\<close>

definition com_ok :: "'w com_streams \<Rightarrow> bool" where
  "com_ok io \<longleftrightarrow>
     (\<forall>w n status bytes w'. com_read io w n = (status, bytes, w') \<longrightarrow> length bytes \<le> n) \<and>
     (\<forall>w data status count w'. com_write io w data = (status, count, w') \<longrightarrow> count \<le> length data)"

lemma com_okD:
  assumes "com_ok io"
  shows "com_read io w n = (status, bytes, w') \<Longrightarrow> length bytes \<le> n"
    and "com_write io w data = (status, count, w') \<Longrightarrow> count \<le> length data"
  using assms unfolding com_ok_def by blast+

definition below :: "u64 option \<Rightarrow> u64 \<Rightarrow> bool" where
  "below limit used \<longleftrightarrow> (case limit of None \<Rightarrow> True | Some l \<Rightarrow> used \<le> l)"

definition within_limits :: "'w com_streams \<Rightarrow> u64 option \<Rightarrow> u64 option \<Rightarrow> 'w codec_context \<Rightarrow> bool" where
  "within_limits io input_limit output_limit c \<longleftrightarrow>
     (com_ok io \<longrightarrow> below input_limit (c_read c) \<and> below output_limit (c_written c))"

lemma limited_below:
  assumes "below limit used" "k \<le> limited limit used n"
  shows "below limit (used + of_nat k)"
proof (cases limit)
  case (Some l)
  have le: "used \<le> l" and "k \<le> unat (l - used)"
    using assms Some by (auto simp: below_def limited_def min_def word_le_nat_alt split: if_splits)
  then have k: "k \<le> unat l - unat used"
    by (simp add: unat_sub)
  moreover have "unat l < 2 ^ 64"
    by (rule order_less_le_trans [OF unsigned_less]) simp
  ultimately have "unat used + k < 2 ^ 64"
    using le by (simp add: word_le_nat_alt)
  then have "unat (used + of_nat k) = unat used + k"
    by (simp add: unat_word_ariths unat_of_nat)
  with k le Some show ?thesis
    by (simp add: below_def word_le_nat_alt)
qed (simp add: below_def)

lemma codec_write_loop_count:
  assumes "com_ok io"
  shows "codec_write_loop io finish data c = (b, c') \<Longrightarrow> \<exists>k \<le> length data. c_written c' = c_written c + of_nat k"
proof (induction data arbitrary: c rule: length_induct)
  case (1 data)
  show ?case
  proof (cases "data = []")
    case True
    with "1.prems" show ?thesis by (simp add: codec_write_loop.simps [of io finish "[]" c])
  next
    case False
    obtain status count w where cw: "com_write io (c_world c) data = (status, count, w)" by (metis prod_cases3)
    have count: "count \<le> length data"
      by (rule com_okD(2) [OF assms cw])
    let ?c1 = "c\<lparr>c_world := w, c_status := status, c_written := c_written c + of_nat count\<rparr>"
    show ?thesis
    proof (cases "status = 0 \<and> count \<noteq> 0")
      case True
      then have "codec_write_loop io finish (drop count data) ?c1 = (b, c')"
        using "1.prems" False cw
        by (simp add: codec_write_loop.simps [of io finish data c] Let_def writing_was_cut_def)
      then obtain k where "k \<le> length (drop count data)" "c_written c' = c_written ?c1 + of_nat k"
        using "1.IH" True False by (metis length_drop diff_less length_greater_0_conv neq0_conv)
      then show ?thesis
        using count by (intro exI [of _ "count + k"]) auto
    next
      case no: False
      then have "c_written c' = c_written c + of_nat count"
        using "1.prems" False cw
        by (auto simp: codec_write_loop.simps [of io finish data c] Let_def split: if_splits)
      with count show ?thesis by blast
    qed
  qed
qed

lemma codec_write_limits:
  assumes "codec_write io finish limit c data = (b, c')" "com_ok io" "below limit (c_written c)"
  shows "below limit (c_written c')"
proof -
  let ?t = "limited limit (c_written c) (length data)"
  obtain b1 c1 where l: "codec_write_loop io finish (take ?t data) c = (b1, c1)" by fastforce
  then obtain k where "k \<le> length (take ?t data)" "c_written c1 = c_written c + of_nat k"
    using codec_write_loop_count [OF assms(2) l] by blast
  then have "below limit (c_written c1)"
    using limited_below [OF assms(3), of k "length data"] by simp
  with assms l show ?thesis
    by (auto simp: codec_write_def Let_def split: if_splits bool.splits)
qed

lemma codec_read_limits:
  assumes "codec_read io limit c n = (r, c')" "com_ok io" "below limit (c_read c)"
  shows "below limit (c_read c')" "c_written c' = c_written c"
proof -
  obtain status bytes w where cr: "com_read io (c_world c) (limited limit (c_read c) n) = (status, bytes, w)"
    by (metis prod_cases3)
  have "below limit (c_read c + of_nat (length bytes))"
    by (rule limited_below [OF assms(3) com_okD(1) [OF assms(2) cr]])
  with assms cr show "below limit (c_read c')" "c_written c' = c_written c"
    by (auto simp: codec_read_def Let_def split: if_splits)
qed

interpretation codec_limits: lz4_env_invariant "codec_callbacks io input_limit output_limit finish"
    "within_limits io input_limit output_limit"
  for io :: "'w com_streams" and input_limit output_limit finish
proof
  fix e e' :: "'w codec_context" and n r
  assume "within_limits io input_limit output_limit e"
    and "cb_read (codec_callbacks io input_limit output_limit finish) e n = (r, e')"
  then show "within_limits io input_limit output_limit e'"
    using codec_read_limits [of io input_limit e n r e'] by (auto simp: codec_callbacks_def within_limits_def)
next
  fix e e' :: "'w codec_context" and data failed
  assume "within_limits io input_limit output_limit e"
    and "cb_write (codec_callbacks io input_limit output_limit finish) e data = (failed, e')"
  then show "within_limits io input_limit output_limit e'"
    using codec_write_limits [of io finish output_limit e data failed e'] codec_write_read [of io finish output_limit e data failed e']
    by (auto simp: codec_callbacks_def within_limits_def)
next
  fix pr e i j stop and e' :: "'w codec_context"
  assume "within_limits io input_limit output_limit e"
    and "cb_progress (codec_callbacks io input_limit output_limit finish) = Some pr" "pr e i j = (stop, e')"
  then show "within_limits io input_limit output_limit e'"
    by (auto simp: codec_callbacks_def codec_progress_def within_limits_def split: option.splits prod.splits)
qed (auto simp: codec_callbacks_def)

lemma code_status_ok:
  assumes "code_status i out_n f err r c = 0" "\<not> c_cut c"
  shows "err = LZ4_OK \<and> (f \<longrightarrow> (case i of None \<Rightarrow> True | Some n \<Rightarrow> input_bytes r = n))"
proof (cases "c_status c = 0 \<and> err = LZ4_OK")
  case True
  with assms show ?thesis
    by (cases i) (auto simp: code_status_def split: if_splits)
next
  case False
  with assms show ?thesis
    by (auto simp: code_status_def split: if_splits)
qed

section \<open>A concrete run\<close>

text \<open>Streams over a list of input bytes and a list of output bytes, and a frame with a payload of two bytes.\<close>

definition list_streams :: "(u8 list \<times> u8 list) com_streams" where
  "list_streams = \<lparr>com_read = (\<lambda>(inp, outp) n. (0, take n inp, (drop n inp, outp))),
     com_write = (\<lambda>(inp, outp) data. (0, length data, (inp, outp @ data))), com_progress = None\<rparr>"

definition demo_frame :: "u8 list" where
  "demo_frame = [0x04, 0x22, 0x4d, 0x18, 0x40, 0x40, 0xc0, 2, 65, 66]"

lemma list_streams_ok: "com_ok list_streams"
  by (auto simp: com_ok_def list_streams_def)

abbreviation demo_cb :: "(u8 list \<times> u8 list) codec_context callbacks" where
  "demo_cb \<equiv> codec_callbacks list_streams (Some 10) (Some 2) True"

definition demo_stream :: "u8 list \<Rightarrow> u8 list \<Rightarrow> u8 list \<Rightarrow> u64 \<Rightarrow> u64 \<Rightarrow> (u8 list \<times> u8 list) codec_context stream" where
  "demo_stream inp buf outp consumed fs =
     \<lparr>env = \<lparr>c_world = (inp, outp), c_cut = False, c_read = of_nat (10 - length inp), c_written = of_nat (length outp), c_status = 0\<rparr>,
      unread = buf, res = \<lparr>input_bytes = consumed, output_bytes = of_nat (length outp), frames = fs, skippable_frames = 0,
        content_checked_frames = fs, block_checked_frames = 0\<rparr>\<rparr>"

lemma demo_tick: "lz4_tick demo_cb s = (LZ4_OK, s)"
  by (simp add: lz4_tick_def codec_callbacks_def list_streams_def)

lemma demo_read: "cb_read demo_cb \<lparr>c_world = (inp, outp), c_cut = False, c_read = r, c_written = w, c_status = 0\<rparr> n =
  (Some (take (limited (Some 10) r n) inp),
   \<lparr>c_world = (drop (limited (Some 10) r n) inp, outp), c_cut = False,
    c_read = r + of_nat (length (take (limited (Some 10) r n) inp)), c_written = w, c_status = 0\<rparr>)"
  by (simp add: codec_callbacks_def codec_read_def list_streams_def Let_def)

lemma demo_need_first: "need demo_cb 4 (demo_stream demo_frame [] [] 0 0) = (LZ4_OK, demo_stream [] demo_frame [] 0 0)"
proof -
  have "limited (Some 10) 0 buffer_size = 10"
    by (simp add: limited_def buffer_size_def)
  then show ?thesis
    by (simp add: need.simps [of demo_cb 4 "demo_stream demo_frame [] [] 0 0"] demo_tick demo_stream_def demo_read
        demo_frame_def need.simps [of demo_cb 4] buffer_size_def)
qed


lemma need_ready: "n \<le> length (unread s) \<Longrightarrow> need cb n s = (LZ4_OK, s)"
  by (simp add: need.simps [of cb n s])

lemma demo_need_last:
  "need demo_cb 4 (demo_stream [] [] outp 10 1) = (LZ4_TRUNCATED, demo_stream [] [] outp 10 1)"
  by (subst need.simps) (simp add: demo_tick demo_stream_def demo_read)

lemma demo_emit:
  "emit demo_cb [65, 66] (demo_stream [] [] [] 10 0) = (LZ4_OK, demo_stream [] [] [65, 66] 10 0)"
  by (simp add: emit_def demo_tick demo_stream_def codec_callbacks_def codec_write_def limited_def list_streams_def
      codec_write_loop.simps Let_def lz4_tick_def word_less_nat_alt
      unsigned_minus_1_eq_mask mask_eq_exp_minus_1)

lemma demo_block:
  "block_loop demo_cb stored_lib (Suc fuel) () (demo_stream [] [2, 65, 66] [] 7 0) =
     Some (LZ4_OK, demo_stream [] [] [65, 66] 10 0)"
proof -
  have "need demo_cb 1 (demo_stream [] [2, 65, 66] [] 7 0) = (LZ4_OK, demo_stream [] [2, 65, 66] [] 7 0)"
    by (rule need_ready) (simp add: demo_stream_def)
  moreover have "lib_decompress stored_lib () buffer_size (unread (demo_stream [] [2, 65, 66] [] 7 0)) = (Inr (0, 3, [65, 66]), ())"
    by (simp add: stored_lib_def demo_stream_def buffer_size_def)
  moreover have "consume 3 (demo_stream [] [2, 65, 66] [] 7 0) = demo_stream [] [] [] 10 0"
    by (simp add: consume_def demo_stream_def)
  ultimately show ?thesis
    by (simp add: demo_emit)
qed

lemma demo_modern:
  "modern True demo_cb stored_lib (Suc fuel) (demo_stream [] demo_frame [] 0 0) = Some (LZ4_OK, demo_stream [] [] [65, 66] 10 1)"
proof -
  let ?s = "demo_stream [] demo_frame [] 0 0"
  have n: "need demo_cb 7 ?s = (LZ4_OK, ?s)"
    by (rule need_ready) (simp add: demo_stream_def demo_frame_def)
  have flags: "unread ?s ! 4 = 0x40" "header_size 0x40 = 7"
    by (simp_all add: demo_stream_def demo_frame_def header_size_def)
  have "lib_frame_info stored_lib () (take 7 (unread ?s)) =
      (Inr (7, \<lparr>content_checksum_flag = True, block_checksum_flag = False\<rparr>), ())"
    by (simp add: stored_lib_def demo_stream_def demo_frame_def)
  moreover have "consume 7 ?s = demo_stream [] [2, 65, 66] [] 7 0"
    by (simp add: consume_def demo_stream_def demo_frame_def)
  moreover have "count_frame \<lparr>content_checksum_flag = True, block_checksum_flag = False\<rparr> (demo_stream [] [] [65, 66] 10 0) =
      demo_stream [] [] [65, 66] 10 1"
    by (simp add: count_frame_def demo_stream_def)
  moreover have "create_context True stored_lib = Inr ()"
    by (simp add: create_context_def stored_lib_def)
  ultimately show ?thesis
    by (simp add: modern_def n flags frame_body_def Let_def demo_block del: block_loop.simps)
qed

lemma demo_run:
  "codec_code True list_streams stored_lib True 2 (Some 10) (Some 2) True (demo_frame, []) =
     Some (0, 10, \<lparr>c_world = ([], [65, 66]), c_cut = False, c_read = 10, c_written = 2, c_status = 0\<rparr>)"
proof -
  have start: "\<lparr>env = new_context (demo_frame, []), unread = [], res = zero_result\<rparr> = demo_stream demo_frame [] [] 0 0"
    by (simp add: new_context_def zero_result_def demo_stream_def demo_frame_def)
  have magic: "le32 (unread (demo_stream [] demo_frame [] 0 0)) = frame_magic"
    by (simp add: le32_def demo_stream_def demo_frame_def frame_magic_def)
  have loop: "frame_loop True demo_cb stored_lib (Suc (Suc 0)) (Suc (Suc 0)) (demo_stream demo_frame [] [] 0 0) =
      Some (LZ4_OK, demo_stream [] [] [65, 66] 10 1)"
    using demo_need_first demo_need_last [of "[65, 66]"] demo_modern [of "Suc 0"] magic
    by (simp add: Let_def) (simp add: demo_stream_def)
  have "lz4_decode_with_memory True True demo_cb stored_lib 2 (new_context (demo_frame, [])) =
      Some (LZ4_OK, demo_stream [] [] [65, 66] 10 1)"
    using loop by (simp add: lz4_decode_with_memory_def start numeral_2_eq_2 del: frame_loop.simps)
  then show ?thesis
    by (simp add: codec_code_def code_status_def) (simp add: demo_stream_def)
qed

section \<open>Properties\<close>

text \<open>
  C39. A decoder that reports success has accounted for its input: unless the output was cut on purpose,
  the processed size it returns is exactly the number of bytes it took from the input stream, nothing
  is left in its buffer, and in finish mode it is the announced input size.
\<close>

theorem lz4_codec_accounts_input:
  assumes "library_ok lib"
    and "codec_code True io lib buffers fuel input_size output_size finish w = Some (0, processed, c)"
    and "\<not> c_cut c" "finish \<or> output_size \<noteq> Some 0"
  shows "c_read c = processed \<and> (finish \<longrightarrow> (case input_size of None \<Rightarrow> True | Some n \<Rightarrow> processed = n))"
proof -
  let ?cb = "codec_callbacks io input_size output_size finish"
  obtain error s where d: "lz4_decode_with_memory True buffers ?cb lib fuel (new_context w) = Some (error, s)"
    and st: "code_status input_size output_size finish error (res s) (env s) = 0"
    and res: "processed = input_bytes (res s)" "c = env s"
    using assms(2,4) by (auto simp: codec_code_def split: if_splits option.splits)
  note done_ok = code_status_ok [OF st]
  have ok: "error = LZ4_OK" and fin: "finish \<longrightarrow> (case input_size of None \<Rightarrow> True | Some n \<Rightarrow> processed = n)"
    using done_ok assms(3) unfolding res by blast+
  let ?s0 = "\<lparr>env = new_context w, unread = [], res = zero_result\<rparr>"
  have loop: "frame_loop True ?cb lib fuel fuel ?s0 = Some (LZ4_OK, s)"
    using d ok by (auto simp: lz4_decode_with_memory_def Let_def split: if_splits)
  have "codec.accounted ?s0"
    by (simp add: codec.accounted_def new_context_def zero_result_def)
  then have "codec.accounted s"
    using codec.frame_loop_accounted [OF assms(1) loop] by simp
  with frame_loop_complete [OF loop] res fin show ?thesis
    by (simp add: codec.accounted_def)
qed

theorem lz4_codec_accounts_input_witness:
  "c_read \<lparr>c_world = ([] :: u8 list, [65 :: u8, 66]), c_cut = False, c_read = 10, c_written = 2, c_status = 0\<rparr> = 10"
  using lz4_codec_accounts_input [OF stored_lib_ok demo_run] by simp

text \<open>
  C40. The limits hold on every run, failed ones included: the decoder never takes more than the announced
  number of bytes from its input nor writes more than the announced number to its output.
\<close>

theorem lz4_codec_respects_limits:
  assumes "com_ok io"
    and "codec_code streams io lib buffers fuel input_size output_size finish w = Some (status, processed, c)"
  shows "(case input_size of None \<Rightarrow> True | Some n \<Rightarrow> c_read c \<le> n) \<and>
    (case output_size of None \<Rightarrow> True | Some n \<Rightarrow> c_written c \<le> n)"
proof -
  have start: "within_limits io input_size output_size (new_context w)"
    by (simp add: within_limits_def below_def new_context_def split: option.split)
  have "within_limits io input_size output_size c"
    using assms(2) start codec_limits.decode_env
    by (auto simp: codec_code_def split: if_splits option.splits)
  with assms(1) show ?thesis
    by (simp add: within_limits_def below_def)
qed

theorem lz4_codec_respects_limits_witness:
  "c_written \<lparr>c_world = ([] :: u8 list, [65 :: u8, 66]), c_cut = False, c_read = 10, c_written = 2, c_status = 0\<rparr> \<le> 2"
  using lz4_codec_respects_limits [OF list_streams_ok demo_run] by simp

end
