(* ===== verification/Archive_Paths.thy ===== *)
theory Archive_Paths
  imports Prelude "HOL-Library.Sublist" "HOL-Library.Multiset"
begin

text \<open>
  Names of archives and volumes: lower case, extensions and extended paths, the volume number a file
  name carries, the list of distinct paths of an archive and the order of its data volumes
  (\<^verbatim>\<open>sevenzip_paths.cpp\<close> and \<^verbatim>\<open>win32_extended_path\<close> of \<^verbatim>\<open>sevenzip_sdk.cpp\<close>).

  The character tables of the platform are parameters: \<^verbatim>\<open>RtlDowncaseUnicodeChar\<close> for characters beyond
  ASCII and \<^verbatim>\<open>iswdigit\<close>. The decomposition of a path into file name and extension is that of
  \<^verbatim>\<open>std::filesystem::path\<close> on Windows.
\<close>

section \<open>Text\<close>

record char_tables =
  downcase :: "u16 \<Rightarrow> u16"
  iswdigit :: "u16 \<Rightarrow> bool"

definition ascii_tables :: char_tables where
  "ascii_tables = \<lparr>downcase = (\<lambda>c. c), iswdigit = (\<lambda>c. 48 \<le> c \<and> c \<le> 57)\<rparr>"

definition lower_char :: "char_tables \<Rightarrow> u16 \<Rightarrow> u16" where
  "lower_char t c = (if c < 128 then (if 65 \<le> c \<and> c \<le> 90 then c + 32 else c) else downcase t c)"

definition lower_text :: "char_tables \<Rightarrow> wstring \<Rightarrow> wstring" where
  "lower_text t value = map (lower_char t) value"

definition is_slash :: "u16 \<Rightarrow> bool" where
  "is_slash c \<longleftrightarrow> c = 47 \<or> c = 92"

definition is_letter :: "u16 \<Rightarrow> bool" where
  "is_letter c \<longleftrightarrow> (65 \<le> c \<and> c \<le> 90) \<or> (97 \<le> c \<and> c \<le> 122)"

text \<open>
  The length of the root name: a drive, one of the device prefixes (two separators and a question mark
  or dot, or a separator and two question marks, before a separator) or a server.
\<close>

definition root_name_length :: "wstring \<Rightarrow> nat" where
  "root_name_length p =
     (if length p < 2 then 0
      else if is_letter (p ! 0) \<and> p ! 1 = 58 then 2
      else if \<not> is_slash (p ! 0) then 0
      else if length p \<ge> 4 \<and> is_slash (p ! 3) \<and> (length p = 4 \<or> \<not> is_slash (p ! 4)) \<and>
              ((is_slash (p ! 1) \<and> (p ! 2 = 63 \<or> p ! 2 = 46)) \<or> (p ! 1 = 63 \<and> p ! 2 = 63)) then 3
      else if length p \<ge> 3 \<and> is_slash (p ! 1) \<and> \<not> is_slash (p ! 2)
      then 3 + length (takeWhile (\<lambda>c. \<not> is_slash c) (drop 3 p))
      else 0)"

definition filename :: "wstring \<Rightarrow> wstring" where
  "filename p = rev (takeWhile (\<lambda>c. \<not> is_slash c) (rev (drop (root_name_length p) p)))"

text \<open>The extension of a file name, up to the colon of a data stream: the last dot and what follows, unless
  the dot is the first character or the name is two dots.\<close>

definition extension :: "wstring \<Rightarrow> wstring" where
  "extension p =
     (let name = takeWhile (\<lambda>c. c \<noteq> 58) (filename p);
          tail = takeWhile (\<lambda>c. c \<noteq> 46) (rev name);
          k = length name - length tail
      in if k \<le> 1 \<or> name = [46, 46] then [] else drop (k - 1) name)"

definition filename_lower :: "char_tables \<Rightarrow> wstring \<Rightarrow> wstring" where
  "filename_lower t path = lower_text t (filename path)"

definition ends_with :: "wstring \<Rightarrow> wstring \<Rightarrow> bool" where
  "ends_with value sfx \<longleftrightarrow> length value \<ge> length sfx \<and> drop (length value - length sfx) value = sfx"

definition is_sfx_path :: "char_tables \<Rightarrow> wstring \<Rightarrow> bool" where
  "is_sfx_path t path \<longleftrightarrow>
     (let ext = lower_text t (extension path) in ext = wide ''.exe'' \<or> ext = wide ''.dll'')"

definition lower_extension :: "char_tables \<Rightarrow> wstring \<Rightarrow> wstring" where
  "lower_extension t path = lower_text t (extension path)"

definition win32_extended_path :: "wstring \<Rightarrow> wstring" where
  "win32_extended_path path =
     (if path = [] then path
      else if prefix [92, 92, 63, 92] path \<or> prefix [92, 92, 46, 92] path then path
      else if prefix [92, 92] path then [92, 92, 63, 92, 85, 78, 67, 92] @ drop 2 path
      else if length path \<ge> 3 \<and> path ! 1 = 58 \<and> (path ! 2 = 92 \<or> path ! 2 = 47) then [92, 92, 63, 92] @ path
      else path)"

section \<open>Volume numbers\<close>

text \<open>A digit contributes \<^verbatim>\<open>ch - L'0'\<close>; the accumulation is in \<^verbatim>\<open>int\<close>, 32 bits wide, which wraps.\<close>

definition digit_value :: "u16 \<Rightarrow> int" where
  "digit_value c = uint c - 48"

definition int32 :: "int \<Rightarrow> int" where
  "int32 n = signed_take_bit 31 n"

definition is_zip_numbered_volume_name :: "char_tables \<Rightarrow> wstring \<Rightarrow> bool" where
  "is_zip_numbered_volume_name t name \<longleftrightarrow>
     \<not> (length name < 9 \<or> take 5 (drop (length name - 9) name) \<noteq> wide ''.zip.'') \<and>
     list_all (iswdigit t) (drop (length name - 4) name)"

definition read_number :: "wstring \<Rightarrow> int" where
  "read_number cs = foldl (\<lambda>n c. int32 (n * 10 + digit_value c)) 0 cs"

definition zip_numbered_volume :: "wstring \<Rightarrow> int" where
  "zip_numbered_volume name = read_number (drop (length name - 4) name)"

text \<open>\<^verbatim>\<open>rfind\<close>: the last position where the marker starts.\<close>

fun rfind_from :: "nat \<Rightarrow> wstring \<Rightarrow> wstring \<Rightarrow> nat option" where
  "rfind_from 0 marker name = (if prefix marker name then Some 0 else None)"
| "rfind_from (Suc i) marker name = (if prefix marker (drop (Suc i) name) then Some (Suc i) else rfind_from i marker name)"

definition rfind :: "wstring \<Rightarrow> wstring \<Rightarrow> nat option" where
  "rfind marker name = rfind_from (length name) marker name"

text \<open>The branches of \<^verbatim>\<open>parse_volume_number\<close>, in order; each may give up (\<open>None\<close>) or decide.\<close>

definition dotted :: "wstring \<Rightarrow> bool" where
  "dotted name \<longleftrightarrow> length name \<ge> 4 \<and> name ! (length name - 4) = 46"

definition three_digit_number :: "char_tables \<Rightarrow> wstring \<Rightarrow> int option" where
  "three_digit_number t name =
     (if dotted name then
        (let a = name ! (length name - 3); b = name ! (length name - 2); c = name ! (length name - 1)
         in if iswdigit t a \<and> iswdigit t b \<and> iswdigit t c
            then Some (digit_value a * 100 + digit_value b * 10 + digit_value c) else None)
      else None)"

definition part_number :: "char_tables \<Rightarrow> wstring \<Rightarrow> int option option" where
  "part_number t name =
     (case rfind (wide ''.part'') name of
        None \<Rightarrow> None
      | Some pos \<Rightarrow>
          if ends_with name (wide ''.rar'') \<or> ends_with name (wide ''.exe'') then
            (let start = pos + 5; stop = length name - 4; digits = take (stop - start) (drop start name)
             in if start < stop then Some (if list_all (iswdigit t) digits then Some (read_number digits) else None)
                else None)
          else None)"

definition two_digit_number :: "char_tables \<Rightarrow> u16 \<Rightarrow> int \<Rightarrow> wstring \<Rightarrow> int option" where
  "two_digit_number t letter base name =
     (if dotted name \<and> name ! (length name - 3) = letter then
        (let a = name ! (length name - 2); b = name ! (length name - 1)
         in if iswdigit t a \<and> iswdigit t b then Some (digit_value a * 10 + digit_value b + base) else None)
      else None)"

definition parse_volume_number :: "char_tables \<Rightarrow> wstring \<Rightarrow> int option" where
  "parse_volume_number t path =
     (let name = filename_lower t path
      in if is_zip_numbered_volume_name t name then Some (zip_numbered_volume name)
         else case three_digit_number t name of Some n \<Rightarrow> Some n
         | None \<Rightarrow>
             (case part_number t name of Some r \<Rightarrow> r
              | None \<Rightarrow>
                  (case two_digit_number t 114 2 name of Some n \<Rightarrow> Some n
                   | None \<Rightarrow>
                       (case two_digit_number t 122 0 name of Some n \<Rightarrow> Some n
                        | None \<Rightarrow> if ends_with name (wide ''.rar'') then Some 1 else None))))"

section \<open>Lists of volumes\<close>

fun append_unique :: "char_tables \<Rightarrow> wstring list \<Rightarrow> wstring list \<Rightarrow> wstring list" where
  "append_unique t seen [] = []"
| "append_unique t seen (p # ps) =
     (if p = [] then append_unique t seen ps
      else if lower_text t p \<in> set seen then append_unique t seen ps
      else p # append_unique t (lower_text t p # seen) ps)"

definition unique_existing_paths :: "char_tables \<Rightarrow> wstring \<Rightarrow> wstring list \<Rightarrow> wstring list" where
  "unique_existing_paths t archive_path part_paths = append_unique t [] (part_paths @ [archive_path])"

fun wstring_less :: "wstring \<Rightarrow> wstring \<Rightarrow> bool" where
  "wstring_less xs [] = False"
| "wstring_less [] (y # ys) = True"
| "wstring_less (x # xs) (y # ys) = (x < y \<or> (x = y \<and> wstring_less xs ys))"

text \<open>The comparison of \<^verbatim>\<open>std::sort\<close>; volumes it does not tell apart keep their order here.\<close>

definition volume_less :: "char_tables \<Rightarrow> wstring \<times> int \<Rightarrow> wstring \<times> int \<Rightarrow> bool" where
  "volume_less t l r =
     (if snd l \<noteq> snd r then snd l < snd r else wstring_less (lower_text t (fst l)) (lower_text t (fst r)))"

fun insert_volume :: "char_tables \<Rightarrow> wstring \<times> int \<Rightarrow> (wstring \<times> int) list \<Rightarrow> (wstring \<times> int) list" where
  "insert_volume t v [] = [v]"
| "insert_volume t v (x # xs) = (if volume_less t x v then x # insert_volume t v xs else v # x # xs)"

definition numbered :: "char_tables \<Rightarrow> wstring list \<Rightarrow> (wstring \<times> int) list" where
  "numbered t paths = List.map_filter (\<lambda>p. map_option (\<lambda>n. (p, n)) (parse_volume_number t p)) paths"

definition sorted_data_volume_paths :: "char_tables \<Rightarrow> wstring list \<Rightarrow> wstring list" where
  "sorted_data_volume_paths t paths = map fst (foldr (insert_volume t) (numbered t paths) [])"

section \<open>The comparison is a strict order\<close>

lemma wstring_less_lexordp: "wstring_less xs ys \<longleftrightarrow> ord_class.lexordp xs ys"
  by (induction xs ys rule: wstring_less.induct) auto

lemma wstring_less_irrefl [simp]: "\<not> wstring_less xs xs"
  by (simp add: wstring_less_lexordp lexordp_irreflexive')

lemma wstring_less_trans: "wstring_less xs ys \<Longrightarrow> wstring_less ys zs \<Longrightarrow> wstring_less xs zs"
  unfolding wstring_less_lexordp by (rule lexordp_trans)

lemma wstring_less_linear: "wstring_less xs ys \<or> xs = ys \<or> wstring_less ys xs"
  unfolding wstring_less_lexordp by (rule lexordp_linear)

lemma volume_less_irrefl [simp]: "\<not> volume_less t v v"
  by (simp add: volume_less_def)

lemma volume_less_trans: "volume_less t a b \<Longrightarrow> volume_less t b c \<Longrightarrow> volume_less t a c"
  by (auto simp: volume_less_def split: if_splits intro: wstring_less_trans)

lemma volume_less_asym: "volume_less t a b \<Longrightarrow> \<not> volume_less t b a"
  using volume_less_trans volume_less_irrefl by blast

lemma volume_less_linear:
  "volume_less t a b \<or> (snd a = snd b \<and> lower_text t (fst a) = lower_text t (fst b)) \<or> volume_less t b a"
  using wstring_less_linear [of "lower_text t (fst a)" "lower_text t (fst b)"]
  by (auto simp: volume_less_def)

text \<open>Not after: what \<^verbatim>\<open>std::sort\<close> promises of neighbours.\<close>

definition volume_not_after :: "char_tables \<Rightarrow> wstring \<times> int \<Rightarrow> wstring \<times> int \<Rightarrow> bool" where
  "volume_not_after t a b \<longleftrightarrow> \<not> volume_less t b a"

lemma volume_not_after_trans:
  "volume_not_after t a b \<Longrightarrow> volume_not_after t b c \<Longrightarrow> volume_not_after t a c"
  using volume_less_linear [of t a b] volume_less_trans [of t c a b]
  by (auto simp: volume_not_after_def volume_less_def)

lemma mset_insert_volume [simp]: "mset (insert_volume t v xs) = add_mset v (mset xs)"
  by (induction xs) auto

lemma set_insert_volume [simp]: "set (insert_volume t v xs) = insert v (set xs)"
  by (induction xs) auto

lemma sorted_insert_volume:
  "sorted_wrt (volume_not_after t) xs \<Longrightarrow> sorted_wrt (volume_not_after t) (insert_volume t v xs)"
proof (induction xs)
  case (Cons x xs)
  show ?case
  proof (cases "volume_less t x v")
    case True
    then show ?thesis using Cons by (auto simp: volume_not_after_def dest: volume_less_asym)
  next
    case False
    then have "volume_not_after t v x" by (simp add: volume_not_after_def)
    then show ?thesis using Cons.prems False by (auto intro: volume_not_after_trans)
  qed
qed simp

lemma sorted_foldr_insert: "sorted_wrt (volume_not_after t) (foldr (insert_volume t) vs [])"
  by (induction vs) (auto simp: sorted_insert_volume)

lemma mset_foldr_insert: "mset (foldr (insert_volume t) vs []) = mset vs"
  by (induction vs) auto

lemma sorted_wrt_unique:
  assumes asym: "\<And>a b. R a b \<Longrightarrow> \<not> R b a"
  shows "sorted_wrt R xs \<Longrightarrow> sorted_wrt R ys \<Longrightarrow> set xs = set ys \<Longrightarrow> xs = ys"
proof (induction xs arbitrary: ys)
  case Nil then show ?case by simp
next
  case (Cons x xs)
  then obtain y ys' where ys: "ys = y # ys'" by (cases ys) auto
  have "x = y" using Cons.prems asym ys by (metis insert_iff list.simps(15) sorted_wrt.simps(2))
  moreover have "x \<notin> set xs" "y \<notin> set ys'" using Cons.prems asym ys by fastforce+
  ultimately have "set xs = set ys'" using Cons.prems ys by auto
  then show ?case using Cons ys \<open>x = y\<close> by simp
qed

lemma sorted_strict:
  assumes "sorted_wrt (volume_not_after t) vs" "distinct (map (\<lambda>v. lower_text t (fst v)) vs)"
  shows "sorted_wrt (volume_less t) vs"
  using assms
proof (induction vs)
  case (Cons v vs)
  have "volume_less t v w" if "w \<in> set vs" for w
    using Cons.prems that volume_less_linear [of t v w] by (force simp: volume_not_after_def)
  then show ?case using Cons by simp
qed simp

section \<open>Distinct paths\<close>

lemma lower_text_Nil [simp]: "lower_text t p = [] \<longleftrightarrow> p = []"
  by (simp add: lower_text_def)

text \<open>The specification: a path is kept where it is not empty and no earlier one is equal up to case.\<close>

definition first_occurrences :: "char_tables \<Rightarrow> wstring list \<Rightarrow> wstring list" where
  "first_occurrences t xs =
     map ((!) xs) (filter (\<lambda>i. xs ! i \<noteq> [] \<and> lower_text t (xs ! i) \<notin> lower_text t ` set (take i xs)) [0..<length xs])"

lemma append_unique_nth:
  "append_unique t seen xs =
     map ((!) xs) (filter (\<lambda>i. xs ! i \<noteq> [] \<and> lower_text t (xs ! i) \<notin> set seen \<union> lower_text t ` set (take i xs)) [0..<length xs])"
proof (induction t seen xs rule: append_unique.induct)
  case (2 t seen p ps)
  have up: "[0..<length (p # ps)] = 0 # map Suc [0..<length ps]"
    by (simp add: map_Suc_upt upt_conv_Cons del: upt_Suc)
  have nz: "ps ! i \<noteq> [] \<Longrightarrow> lower_text t (ps ! i) \<noteq> []" for i by simp
  consider "p = []" | "p \<noteq> []" "lower_text t p \<in> set seen" | "p \<noteq> []" "lower_text t p \<notin> set seen" by blast
  then show ?case
  proof cases
    case 1
    then show ?thesis
      unfolding up using 2(1) nz
      by (simp add: filter_map comp_def) (intro arg_cong [where f = "map _"] filter_cong, auto simp: lower_text_def)
  next
    case 2
    then show ?thesis
      unfolding up using "2.IH"(2)
      by (simp add: filter_map comp_def) (intro arg_cong [where f = "map _"] filter_cong, auto)
  next
    case 3
    then show ?thesis
      unfolding up using "2.IH"(3)
      by (simp add: filter_map comp_def) (intro arg_cong [where f = "map _"] filter_cong, auto)
  qed
qed simp

lemma unique_existing_paths_exact:
  "unique_existing_paths t archive_path part_paths = first_occurrences t (part_paths @ [archive_path])"
  unfolding unique_existing_paths_def first_occurrences_def append_unique_nth by simp

lemma append_unique_distinct:
  "distinct (map (lower_text t) (append_unique t seen xs)) \<and>
   lower_text t ` set (append_unique t seen xs) \<inter> set seen = {}"
  by (induction t seen xs rule: append_unique.induct) auto

lemma append_unique_covers:
  "p \<in> set xs \<Longrightarrow> p \<noteq> [] \<Longrightarrow> lower_text t p \<in> lower_text t ` set (append_unique t seen xs) \<union> set seen"
  by (induction t seen xs rule: append_unique.induct) auto

lemma numbered_fst: "map fst (numbered t xs) = filter (\<lambda>p. parse_volume_number t p \<noteq> None) xs"
  by (induction xs) (auto simp: numbered_def List.map_filter_def)

lemma numbered_distinct:
  "distinct (map (lower_text t) xs) \<Longrightarrow> distinct (map (\<lambda>v. lower_text t (fst v)) (numbered t xs))"
  using distinct_map_filter [of "lower_text t" xs] numbered_fst [of t xs, symmetric]
  by (metis (mono_tags, lifting) comp_apply list.map_comp map_eq_conv)

lemma unique_paths_distinct: "distinct (map (lower_text t) (unique_existing_paths t archive_path part_paths))"
  unfolding unique_existing_paths_def by (simp add: append_unique_distinct)

lemma sorted_volumes_unique:
  assumes "mset us = mset (numbered t (unique_existing_paths t archive_path part_paths))"
    and "mset vs = mset (numbered t (unique_existing_paths t archive_path part_paths))"
    and "sorted_wrt (volume_not_after t) us" "sorted_wrt (volume_not_after t) vs"
  shows "us = vs"
proof -
  let ?n = "numbered t (unique_existing_paths t archive_path part_paths)"
  have d: "distinct (map (\<lambda>v. lower_text t (fst v)) ?n)" by (simp add: numbered_distinct unique_paths_distinct)
  have "mset (map (\<lambda>v. lower_text t (fst v)) ws) = mset (map (\<lambda>v. lower_text t (fst v)) ?n)" if "mset ws = mset ?n" for ws
    using that by simp
  then have "distinct (map (\<lambda>v. lower_text t (fst v)) us)" "distinct (map (\<lambda>v. lower_text t (fst v)) vs)"
    using d assms by (metis mset_eq_imp_distinct_iff)+
  then have "sorted_wrt (volume_less t) us" "sorted_wrt (volume_less t) vs" using assms by (auto intro: sorted_strict)
  moreover have "set us = set vs" using assms by (metis mset_eq_setD)
  ultimately show ?thesis using sorted_wrt_unique [of "volume_less t", OF volume_less_asym] by blast
qed


section \<open>Names and numbers\<close>

text \<open>An extended path is left alone.\<close>

lemma win32_extended_path_idem: "win32_extended_path (win32_extended_path p) = win32_extended_path p"
  by (auto simp: win32_extended_path_def prefix_def)

text \<open>The decimal value of digits, and when the 32-bit accumulation reaches it.\<close>

definition decimal_value :: "wstring \<Rightarrow> int" where
  "decimal_value cs = foldl (\<lambda>n c. n * 10 + digit_value c) 0 cs"

lemma decimal_snoc [simp]: "decimal_value (cs @ [c]) = decimal_value cs * 10 + digit_value c"
  by (simp add: decimal_value_def)

lemma decimal_Nil [simp]: "decimal_value [] = 0"
  by (simp add: decimal_value_def)

lemma int32_eq: "int32 n = (n + 2 ^ 31) mod 2 ^ 32 - 2 ^ 31"
  by (simp add: int32_def signed_take_bit_eq_take_bit_shift take_bit_eq_mod)

lemma int32_mod: "int32 (int32 a * 10 + b) = int32 (a * 10 + b)"
proof -
  have "int32 a mod 2 ^ 32 = a mod 2 ^ 32"
    unfolding int32_eq by (simp add: mod_diff_left_eq)
  then have "(int32 a * 10 + (b + 2 ^ 31)) mod 2 ^ 32 = (a * 10 + (b + 2 ^ 31)) mod 2 ^ 32"
    by (intro mod_add_cong mod_mult_cong) simp_all
  then show ?thesis
    unfolding int32_eq [of "int32 a * 10 + b"] int32_eq [of "a * 10 + b"] by (simp add: add.assoc)
qed

text \<open>The accumulated number is the decimal value reduced to 32 bits: exact below \<open>2 ^ 31\<close>, wrapped above.\<close>

lemma read_number_wraps: "read_number cs = int32 (decimal_value cs)"
  by (induction cs rule: rev_induct) (simp_all add: read_number_def int32_mod, simp add: int32_def)

lemma read_number_exact: "decimal_value cs < 2 ^ 31 \<Longrightarrow> 0 \<le> decimal_value cs \<Longrightarrow> read_number cs = decimal_value cs"
  unfolding read_number_wraps int32_def by (simp add: signed_take_bit_int_eq_self)

text \<open>The marker is found at its last occurrence.\<close>

lemma rfind_from_last:
  assumes "i \<le> n" "prefix marker (drop i name)" "\<And>j. i < j \<Longrightarrow> j \<le> n \<Longrightarrow> \<not> prefix marker (drop j name)"
  shows "rfind_from n marker name = Some i"
  using assms
proof (induction n)
  case (Suc n)
  then show ?case by (cases "i = Suc n") auto
qed auto

lemma marker_not_in_digits:
  assumes "prefix (wide ''.part'') (drop j (wide ''part'' @ ds @ wide ''.rar''))" "46 \<notin> set ds"
  shows False
proof -
  let ?w = "wide ''part'' @ ds @ wide ''.rar''"
  obtain r where r: "drop j ?w = wide ''.part'' @ r" using assms by (auto simp: prefix_def)
  have len: "j + 5 \<le> length ?w" using arg_cong [OF r, of length] by auto
  then have j: "j < length (wide ''part'' @ ds)" by simp
  have "?w ! j = 46"
    using hd_drop_conv_nth [of j ?w] len unfolding r by (simp add: of_char_def)
  moreover have "?w ! j \<in> set (wide ''part'' @ ds)"
    using j by (metis append.assoc nth_append nth_mem)
  ultimately show False using assms(2) by (auto simp: of_char_def)
qed

lemma ends_with_append: "ends_with (p @ sfx) sfx"
  by (simp add: ends_with_def)

text \<open>
  A name \<open>stem.part<digits>.rar\<close> carries the number its digits spell, whatever the stem holds: the
  marker nearest to the end decides.
\<close>

lemma part_name_number:
  assumes "list_all (iswdigit t) ds" "ds \<noteq> []" "46 \<notin> set ds"
  shows "part_number t (stem @ wide ''.part'' @ ds @ wide ''.rar'') = Some (Some (read_number ds))"
proof -
  let ?n = "stem @ wide ''.part'' @ ds @ wide ''.rar''"
  have "\<not> prefix (wide ''.part'') (drop j ?n)" if lt: "length stem < j" for j
  proof
    assume p: "prefix (wide ''.part'') (drop j ?n)"
    obtain k where k: "j = length stem + Suc k" using lt less_iff_Suc_add [of "length stem" j] by auto
    have "prefix (wide ''.part'') (drop k (wide ''part'' @ ds @ wide ''.rar''))" using p unfolding k by simp
    then show False using assms(3) by (rule marker_not_in_digits)
  qed
  then have "rfind (wide ''.part'') ?n = Some (length stem)"
    unfolding rfind_def by (intro rfind_from_last) (auto simp: prefix_def)
  moreover have "ends_with ?n (wide ''.rar'')"
    using ends_with_append [of "stem @ wide ''.part'' @ ds" "wide ''.rar''"] by simp
  ultimately show ?thesis using assms by (simp add: part_number_def)
qed

text \<open>Ten digits are enough to leave 32 bits: this volume is taken for the first one.\<close>

lemma long_part_number_wraps:
  "parse_volume_number ascii_tables (wide ''a.part4294967297.rar'') = Some 1"
  by code_simp

end
