(* ===== verification/Item_Paths.thy ===== *)
theory Item_Paths
  imports Archive_Paths
begin

text \<open>
  From the name an archive stores for an item to the relative path it is written to
  (\<^verbatim>\<open>safe_relative_item_path\<close> and its helpers, \<^verbatim>\<open>sevenzip_callbacks.hpp\<close>): what the path may contain, and
  that joining it to the output directory stays below that directory.

  Paths are those of \<^verbatim>\<open>std::filesystem::path\<close> on Windows: \<open>path_elements\<close> is the iteration over a relative
  path and \<open>path_append\<close> its \<^verbatim>\<open>operator/=\<close>.
\<close>

section \<open>Paths of the standard library\<close>

definition has_root_name :: "wstring \<Rightarrow> bool" where
  "has_root_name p \<longleftrightarrow> root_name_length p \<noteq> 0"

definition has_root_directory :: "wstring \<Rightarrow> bool" where
  "has_root_directory p \<longleftrightarrow> root_name_length p < length p \<and> is_slash (p ! root_name_length p)"

definition has_drive :: "wstring \<Rightarrow> bool" where
  "has_drive p \<longleftrightarrow> length p \<ge> 2 \<and> is_letter (p ! 0) \<and> p ! 1 = 58"

definition is_absolute :: "wstring \<Rightarrow> bool" where
  "is_absolute p \<longleftrightarrow> (if has_drive p then length p \<ge> 3 \<and> is_slash (p ! 2) else has_root_name p)"

text \<open>Splitting at separators: names between them, empty ones included.\<close>

fun split_slashes :: "wstring \<Rightarrow> wstring list" where
  "split_slashes [] = [[]]"
| "split_slashes (c # cs) =
     (if is_slash c then [] # split_slashes cs
      else case split_slashes cs of [] \<Rightarrow> [[c]] | w # ws \<Rightarrow> (c # w) # ws)"

text \<open>
  The elements of a path without root: runs of separators count as one, and a trailing separator gives a
  last empty element.
\<close>

definition path_elements :: "wstring \<Rightarrow> wstring list" where
  "path_elements p =
     filter (\<lambda>w. w \<noteq> []) (split_slashes p) @ (if p \<noteq> [] \<and> is_slash (last p) then [[]] else [])"

definition path_append :: "wstring \<Rightarrow> wstring \<Rightarrow> wstring" where
  "path_append p q =
     (let pr = root_name_length p; qr = root_name_length q
      in if is_absolute q then q
         else if qr \<noteq> 0 \<and> take pr p \<noteq> take qr q then q
         else if qr < length q \<and> is_slash (q ! qr) then take pr p @ drop qr q
         else if pr = length p then (if pr \<ge> 3 then p @ [92] @ drop qr q else p @ drop qr q)
         else if is_slash (last p) then p @ drop qr q
         else p @ [92] @ drop qr q)"

section \<open>Names that Windows accepts\<close>

definition is_windows_invalid_name_char :: "u16 \<Rightarrow> bool" where
  "is_windows_invalid_name_char c \<longleftrightarrow>
     c < 0x20 \<or> c = 60 \<or> c = 62 \<or> c = 58 \<or> c = 34 \<or> c = 124 \<or> c = 63 \<or> c = 42"

text \<open>The stem ends at the first dot, less the spaces before it.\<close>

definition device_stem :: "wstring \<Rightarrow> wstring" where
  "device_stem part = rev (dropWhile (\<lambda>c. c = 32) (rev (takeWhile (\<lambda>c. c \<noteq> 46) part)))"

definition device_lower :: "u16 \<Rightarrow> u16" where
  "device_lower c = (if 65 \<le> c \<and> c \<le> 90 then c + 32 else c)"

definition is_windows_reserved_device_name :: "wstring \<Rightarrow> bool" where
  "is_windows_reserved_device_name part \<longleftrightarrow>
     (let stem = device_stem part; n = length stem
      in if n \<noteq> 3 \<and> n \<noteq> 4 then False
         else let a = device_lower (part ! 0); b = device_lower (part ! 1); c = device_lower (part ! 2)
           in if n = 3
              then (a = 99 \<and> b = 111 \<and> c = 110) \<or> (a = 112 \<and> b = 114 \<and> c = 110) \<or>
                   (a = 97 \<and> b = 117 \<and> c = 120) \<or> (a = 110 \<and> b = 117 \<and> c = 108)
              else 49 \<le> part ! 3 \<and> part ! 3 \<le> 57 \<and>
                   ((a = 99 \<and> b = 111 \<and> c = 109) \<or> (a = 108 \<and> b = 112 \<and> c = 116)))"

definition replace_invalid :: "wstring \<Rightarrow> wstring" where
  "replace_invalid part = map (\<lambda>c. if is_windows_invalid_name_char c then 95 else c) part"

text \<open>The trailing dots and spaces, from the last character on.\<close>

definition replace_trailing :: "wstring \<Rightarrow> wstring" where
  "replace_trailing part =
     (let tail = takeWhile (\<lambda>c. c = 46 \<or> c = 32) (rev part)
      in take (length part - length tail) part @ replicate (length tail) 95)"

definition make_windows_safe_path_part :: "wstring \<Rightarrow> wstring" where
  "make_windows_safe_path_part part =
     (let p = replace_trailing (replace_invalid part)
      in if is_windows_reserved_device_name p then 95 # p else p)"

section \<open>The relative path of an item\<close>

fun safe_parts :: "wstring \<Rightarrow> wstring list \<Rightarrow> wstring option" where
  "safe_parts normalized [] = Some normalized"
| "safe_parts normalized (text # rest) =
     (if text = [] \<or> text = [46] \<or> text = [47] \<or> text = [92] then safe_parts normalized rest
      else if text = [46, 46] then None
      else safe_parts (path_append normalized (make_windows_safe_path_part text)) rest)"

definition safe_relative_item_path :: "wstring \<Rightarrow> wstring option" where
  "safe_relative_item_path raw_name =
     (if raw_name = [] then None
      else if is_absolute raw_name \<or> has_root_name raw_name \<or> has_root_directory raw_name then None
      else case safe_parts [] (path_elements raw_name) of
             None \<Rightarrow> None
           | Some normalized \<Rightarrow> if normalized = [] then None else Some normalized)"

section \<open>Splitting and joining\<close>

text \<open>Joining with the preferred separator.\<close>

fun join_parts :: "wstring list \<Rightarrow> wstring" where
  "join_parts [] = []"
| "join_parts [w] = w"
| "join_parts (w # ws) = w @ [92] @ join_parts ws"

definition plain :: "wstring \<Rightarrow> bool" where
  "plain w \<longleftrightarrow> list_all (\<lambda>c. \<not> is_slash c) w"

lemma plain_Cons [simp]: "plain (c # w) \<longleftrightarrow> \<not> is_slash c \<and> plain w"
  by (simp add: plain_def)

lemma plain_Nil [simp]: "plain []"
  by (simp add: plain_def)

lemma split_slashes_not_Nil [simp]: "split_slashes p \<noteq> []"
  by (induction p) (auto split: list.splits)

lemma split_slashes_plain: "w \<in> set (split_slashes p) \<Longrightarrow> plain w"
  by (induction p arbitrary: w) (auto split: list.splits if_splits)

lemma split_slashes_no_slash: "plain w \<Longrightarrow> split_slashes w = [w]"
  by (induction w) auto

lemma split_slashes_append: "plain w \<Longrightarrow> split_slashes (w @ 92 # p) = w # split_slashes p"
  by (induction w) (auto simp: is_slash_def)

lemma split_join: "ws \<noteq> [] \<Longrightarrow> list_all plain ws \<Longrightarrow> split_slashes (join_parts ws) = ws"
  by (induction ws rule: join_parts.induct) (simp_all add: split_slashes_no_slash split_slashes_append)

lemma join_parts_snoc: "ws \<noteq> [] \<Longrightarrow> join_parts (ws @ [w]) = join_parts ws @ [92] @ w"
  by (induction ws rule: join_parts.induct) auto

section \<open>Safe names\<close>

definition safe_name :: "wstring \<Rightarrow> bool" where
  "safe_name w \<longleftrightarrow> w \<noteq> [] \<and> plain w \<and> list_all (\<lambda>c. \<not> is_windows_invalid_name_char c) w \<and>
     last w \<noteq> 46 \<and> last w \<noteq> 32 \<and> \<not> is_windows_reserved_device_name w"

text \<open>In particular a safe name is neither \<^verbatim>\<open>.\<close> nor \<^verbatim>\<open>..\<close>, and holds no colon.\<close>

lemma safe_name_not_dots: "safe_name w \<Longrightarrow> w \<noteq> [46] \<and> w \<noteq> [46, 46]"
  by (auto simp: safe_name_def)

lemma safe_name_no_colon: "safe_name w \<Longrightarrow> 58 \<notin> set w"
  by (auto simp: safe_name_def list_all_iff is_windows_invalid_name_char_def)

lemma replace_trailing_parts:
  obtains body tail where "part = body @ tail" "replace_trailing part = body @ replicate (length tail) 95"
    "body = [] \<or> (last body \<noteq> 46 \<and> last body \<noteq> 32)"
proof
  let ?t = "takeWhile (\<lambda>c. c = 46 \<or> c = 32) (rev part)"
  let ?d = "dropWhile (\<lambda>c. c = 46 \<or> c = 32) (rev part)"
  have split: "part = rev ?d @ rev ?t"
    by (metis rev_append rev_rev_ident takeWhile_dropWhile_id)
  show "part = rev ?d @ rev ?t" by (rule split)
  have "length part = length ?d + length ?t"
    using arg_cong [OF split, of length] by simp
  then have "take (length part - length ?t) part = rev ?d"
    by (subst (3) split) simp
  then show "replace_trailing part = rev ?d @ replicate (length (rev ?t)) 95"
    by (simp add: replace_trailing_def)
  show "rev ?d = [] \<or> (last (rev ?d) \<noteq> 46 \<and> last (rev ?d) \<noteq> 32)"
    using hd_dropWhile [of "\<lambda>c. c = 46 \<or> c = 32" "rev part"] by (auto simp: last_rev)
qed

lemma replace_trailing_last: "part \<noteq> [] \<Longrightarrow> last (replace_trailing part) \<noteq> 46 \<and> last (replace_trailing part) \<noteq> 32"
  by (rule replace_trailing_parts [of part]) (auto simp: last_append)

lemma replace_trailing_set: "set (replace_trailing part) \<subseteq> insert 95 (set part)"
  by (rule replace_trailing_parts [of part]) auto

lemma replace_trailing_Nil [simp]: "replace_trailing part = [] \<longleftrightarrow> part = []"
  by (rule replace_trailing_parts [of part]) auto

lemma underscore_not_reserved: "\<not> is_windows_reserved_device_name (95 # p)"
  by (auto simp: is_windows_reserved_device_name_def device_lower_def Let_def)

lemma underscore_allowed: "\<not> is_slash 95" "\<not> is_windows_invalid_name_char 95"
  by (simp_all add: is_slash_def is_windows_invalid_name_char_def)

lemma make_windows_safe:
  assumes "part \<noteq> []" "plain part"
  shows "safe_name (make_windows_safe_path_part part)"
proof -
  let ?p = "replace_trailing (replace_invalid part)"
  have ne: "replace_invalid part \<noteq> []" using assms by (simp add: replace_invalid_def)
  have sub: "set ?p \<subseteq> insert 95 (set (replace_invalid part))" by (rule replace_trailing_set)
  have "\<not> is_slash c \<and> \<not> is_windows_invalid_name_char c" if "c \<in> set ?p" for c
    using subsetD [OF sub that] assms(2) underscore_allowed
    by (auto simp: replace_invalid_def plain_def list_all_iff)
  then have chars: "plain ?p" "list_all (\<lambda>c. \<not> is_windows_invalid_name_char c) ?p"
    by (auto simp: plain_def list_all_iff)
  have "last ?p \<noteq> 46 \<and> last ?p \<noteq> 32" using ne by (rule replace_trailing_last)
  with chars ne have "safe_name ?p" if "\<not> is_windows_reserved_device_name ?p"
    using that by (simp add: safe_name_def)
  moreover have "safe_name (95 # ?p)"
    using chars ne \<open>last ?p \<noteq> 46 \<and> last ?p \<noteq> 32\<close> underscore_not_reserved underscore_allowed
    by (simp add: safe_name_def)
  ultimately show ?thesis
    by (simp add: make_windows_safe_path_part_def Let_def)
qed

section \<open>Joining to a directory\<close>

definition relative :: "wstring \<Rightarrow> bool" where
  "relative p \<longleftrightarrow> root_name_length p = 0 \<and> (p = [] \<or> \<not> is_slash (hd p))"

lemma no_colon_root:
  "58 \<notin> set p \<Longrightarrow> p = [] \<or> \<not> is_slash (hd p) \<Longrightarrow> relative p"
  using nth_mem [of 1 p] by (cases p; cases "tl p") (auto simp: relative_def root_name_length_def)

lemma relative_not_absolute: "relative q \<Longrightarrow> \<not> is_absolute q"
  by (auto simp: relative_def is_absolute_def has_root_name_def has_drive_def root_name_length_def split: if_splits)

lemma path_append_relative:
  assumes "relative q"
  shows "\<exists>sep. path_append p q = p @ sep @ q \<and> (sep = [] \<or> sep = [92])"
  using assms relative_not_absolute [OF assms]
  by (cases q) (auto simp: path_append_def relative_def Let_def)

lemma path_append_Nil: "relative q \<Longrightarrow> path_append [] q = q"
  using relative_not_absolute [of q] by (cases q) (auto simp: path_append_def relative_def root_name_length_def Let_def)

lemma path_append_name:
  assumes "relative q" "relative p" "p \<noteq> []" "\<not> is_slash (last p)"
  shows "path_append p q = p @ [92] @ q"
  using assms relative_not_absolute [OF assms(1)]
  by (cases q) (auto simp: path_append_def relative_def Let_def)

lemma safe_name_relative: "safe_name w \<Longrightarrow> relative w"
  using safe_name_no_colon [of w] by (intro no_colon_root) (auto simp: safe_name_def plain_def list_all_iff)

lemma join_no_colon: "list_all safe_name ws \<Longrightarrow> 58 \<notin> set (join_parts ws)"
  by (induction ws rule: join_parts.induct) (auto dest: safe_name_no_colon)

lemma join_ends:
  "ws \<noteq> [] \<Longrightarrow> list_all safe_name ws \<Longrightarrow>
   join_parts ws \<noteq> [] \<and> \<not> is_slash (hd (join_parts ws)) \<and> \<not> is_slash (last (join_parts ws))"
  by (induction ws rule: join_parts.induct) (auto simp: safe_name_def plain_def list_all_iff)

lemma join_relative: "list_all safe_name ws \<Longrightarrow> relative (join_parts ws)"
  using join_ends [of ws] join_no_colon [of ws] by (intro no_colon_root) (cases ws; auto)+

lemma path_append_join:
  assumes "list_all safe_name ws" "safe_name w"
  shows "path_append (join_parts ws) w = join_parts (ws @ [w])"
proof (cases "ws = []")
  case True
  then show ?thesis using assms by (simp add: path_append_Nil safe_name_relative)
next
  case False
  then show ?thesis
    using assms join_ends [of ws] by (simp add: path_append_name safe_name_relative join_relative join_parts_snoc)
qed

section \<open>The path of an item\<close>

text \<open>The parts of a stored name that count: neither empty nor a single dot.\<close>

definition item_parts :: "wstring \<Rightarrow> wstring list" where
  "item_parts raw_name = filter (\<lambda>w. w \<noteq> [] \<and> w \<noteq> [46]) (split_slashes raw_name)"

lemma safe_parts_exact:
  assumes "list_all plain ts" "list_all safe_name ws"
  shows "safe_parts (join_parts ws) ts =
    (let us = filter (\<lambda>w. w \<noteq> [] \<and> w \<noteq> [46]) ts
     in if [46, 46] \<in> set us then None else Some (join_parts (ws @ map make_windows_safe_path_part us)))"
  using assms
proof (induction ts arbitrary: ws)
  case (Cons t ts)
  have skip: "t \<noteq> [47] \<and> t \<noteq> [92]" using Cons.prems by (auto simp: is_slash_def)
  consider "t = [] \<or> t = [46]" | "t = [46, 46]" | "t \<noteq> []" "t \<noteq> [46]" "t \<noteq> [46, 46]" by blast
  then show ?case
  proof cases
    case 3
    have safe: "safe_name (make_windows_safe_path_part t)" using Cons.prems 3 by (intro make_windows_safe) auto
    then have "safe_parts (join_parts ws) (t # ts) = safe_parts (join_parts (ws @ [make_windows_safe_path_part t])) ts"
      using 3 skip Cons.prems by (simp add: path_append_join)
    then show ?thesis using Cons.IH [of "ws @ [make_windows_safe_path_part t]"] Cons.prems 3 safe by (simp add: Let_def)
  qed (use Cons in \<open>auto simp: Let_def\<close>)
qed simp

lemma item_parts_elements: "filter (\<lambda>w. w \<noteq> [] \<and> w \<noteq> [46]) (path_elements raw_name) = item_parts raw_name"
  by (simp add: item_parts_def path_elements_def conj_commute)

lemma path_elements_plain: "list_all plain (path_elements raw_name)"
  by (auto simp: path_elements_def list_all_iff split_slashes_plain)

lemma join_parts_Nil: "list_all safe_name ws \<Longrightarrow> join_parts ws = [] \<longleftrightarrow> ws = []"
  using join_ends by auto

lemma item_parts_safe: "list_all safe_name (map make_windows_safe_path_part (item_parts raw_name))"
  by (auto simp: list_all_iff item_parts_def intro!: make_windows_safe split_slashes_plain)

text \<open>The function as a specification: what is refused, and the path of what is accepted.\<close>

lemma safe_relative_item_path_exact:
  "safe_relative_item_path raw_name =
     (if has_root_name raw_name \<or> has_root_directory raw_name \<or> [46, 46] \<in> set (item_parts raw_name) \<or>
         item_parts raw_name = []
      then None else Some (join_parts (map make_windows_safe_path_part (item_parts raw_name))))"
proof -
  have abs: "is_absolute raw_name \<Longrightarrow> has_root_name raw_name"
    by (auto simp: is_absolute_def has_root_name_def has_drive_def root_name_length_def split: if_splits)
  have "safe_parts [] (path_elements raw_name) =
      (if [46, 46] \<in> set (item_parts raw_name) then None
       else Some (join_parts (map make_windows_safe_path_part (item_parts raw_name))))"
    using safe_parts_exact [of "path_elements raw_name" "[]"] path_elements_plain
    by (simp add: item_parts_elements Let_def)
  then show ?thesis
    using abs join_parts_Nil [OF item_parts_safe [of raw_name]]
    by (auto simp: safe_relative_item_path_def item_parts_def)
qed

text \<open>
  C3. An item cannot be written outside the output directory. Whatever name the archive stores, an
  accepted path consists of names that are not empty, hold no separator, colon or other forbidden
  character, do not end in a dot or space and are no device names (so none is \<^verbatim>\<open>..\<close>); there is one name
  for each part of the stored name, and joining the path to any directory only appends to it. A stored
  name with a root, with a parent reference or without any part is refused.
\<close>

theorem item_path_confined:
  assumes "safe_relative_item_path raw_name = Some p"
  shows "list_all safe_name (split_slashes p) \<and>
    split_slashes p = map make_windows_safe_path_part (item_parts raw_name) \<and>
    [46, 46] \<notin> set (item_parts raw_name) \<and> \<not> has_root_name raw_name \<and> \<not> has_root_directory raw_name \<and>
    (\<exists>sep. path_append base p = base @ sep @ p \<and> (sep = [] \<or> sep = [92]))"
proof -
  let ?ws = "map make_windows_safe_path_part (item_parts raw_name)"
  have p: "p = join_parts ?ws" and ne: "?ws \<noteq> []"
    and guards: "[46, 46] \<notin> set (item_parts raw_name)" "\<not> has_root_name raw_name" "\<not> has_root_directory raw_name"
    using assms unfolding safe_relative_item_path_exact by (auto split: if_splits)
  have safe: "list_all safe_name ?ws" by (rule item_parts_safe)
  then have "list_all plain ?ws" unfolding list_all_iff safe_name_def by blast
  then have "split_slashes p = ?ws" unfolding p using ne by (intro split_join)
  then show ?thesis
    using safe guards path_append_relative [OF join_relative [OF safe], of base] p by simp
qed

theorem item_path_confined_witness:
  "safe_relative_item_path (wide ''docs/con:x. '') = Some (wide ''docs'' @ [92] @ wide ''con_x__'') \<and>
   list_all safe_name (split_slashes (wide ''docs'' @ [92] @ wide ''con_x__''))"
proof
  show r: "safe_relative_item_path (wide ''docs/con:x. '') = Some (wide ''docs'' @ [92] @ wide ''con_x__'')"
    by code_simp
  show "list_all safe_name (split_slashes (wide ''docs'' @ [92] @ wide ''con_x__''))"
    using item_path_confined [OF r] by blast
qed

text \<open>Making a name safe twice changes nothing more.\<close>

lemma replace_invalid_safe: "list_all (\<lambda>c. \<not> is_windows_invalid_name_char c) w \<Longrightarrow> replace_invalid w = w"
  by (induction w) (auto simp: replace_invalid_def)

lemma replace_trailing_safe: "w \<noteq> [] \<Longrightarrow> last w \<noteq> 46 \<Longrightarrow> last w \<noteq> 32 \<Longrightarrow> replace_trailing w = w"
  by (cases w rule: rev_cases) (auto simp: replace_trailing_def)

lemma make_windows_safe_fixed: "safe_name w \<Longrightarrow> make_windows_safe_path_part w = w"
  by (simp add: make_windows_safe_path_part_def safe_name_def replace_invalid_safe replace_trailing_safe)

end
