(* ===== verification/Archive_Formats.thy ===== *)
theory Archive_Formats
  imports Archive_Paths
begin

text \<open>
  What the bridge knows about 7-Zip: the formats tried for a hint (\<^verbatim>\<open>sevenzip_formats.cpp\<close>, \<^verbatim>\<open>format_guid\<close> of
  \<^verbatim>\<open>sevenzip_sdk.cpp\<close>), the reading of property values and the questions asked of an opened archive
  (\<^verbatim>\<open>sevenzip_properties.cpp\<close>, \<^verbatim>\<open>sevenzip_properties.hpp\<close>), the classification of results
  (\<^verbatim>\<open>sevenzip_status.cpp\<close>, \<^verbatim>\<open>password_probe_policy.hpp\<close>) and the plan for opening an archive
  (\<^verbatim>\<open>archive_open_plan.cpp\<close>).

  An archive handler of 7-Zip is an argument: the record \<open>in_archive\<close> holds what its query methods
  answer once it is open.
\<close>

section \<open>Formats\<close>

record guid =
  data1 :: u32
  data2 :: u16
  data3 :: u16
  data4 :: "u8 list"

definition format_guid :: "u8 \<Rightarrow> guid" where
  "format_guid format_id =
     \<lparr>data1 = 0x23170F69, data2 = 0x40C1, data3 = 0x278A, data4 = [0x10, 0, 0, 1, 0x10, format_id, 0, 0]\<rparr>"

definition kLz4FormatId :: u8 where
  "kLz4FormatId = 0xFA"

definition kEncFormatId :: u8 where
  "kEncFormatId = 0xFB"

definition normalized_format_hint :: "char_tables \<Rightarrow> wstring \<Rightarrow> wstring" where
  "normalized_format_hint t format_hint =
     (let hint = lower_text t format_hint in if hint \<noteq> [] \<and> hd hint = 46 then tl hint else hint)"

definition known_format_ids_for_hint :: "wstring \<Rightarrow> u8 list" where
  "known_format_ids_for_hint hint =
     (if hint = wide ''enc'' then [kEncFormatId]
      else if hint = wide ''zip'' \<or> hint = wide ''zipx'' then [0x01]
      else if hint = wide ''7z'' \<or> hint = wide ''sevenzip'' \<or> hint = wide ''seven_zip'' then [0x07]
      else if hint = wide ''rar4'' then [0x03, 0xCC]
      else if hint = wide ''rar5'' then [0xCC, 0x03]
      else if hint = wide ''tar'' then [0xEE]
      else if hint = wide ''gz'' \<or> hint = wide ''gzip'' \<or> hint = wide ''tgz'' then [0xEF]
      else if hint = wide ''bz2'' \<or> hint = wide ''bzip2'' \<or> hint = wide ''tbz2'' \<or> hint = wide ''tbz'' then [0x02]
      else if hint = wide ''xz'' \<or> hint = wide ''txz'' then [0x0C]
      else if hint = wide ''lz4'' then [0xFA]
      else if hint = wide ''zst'' \<or> hint = wide ''zstd'' \<or> hint = wide ''tzst'' then [0x0E]
      else [])"

definition generic_format_ids :: "u8 list" where
  "generic_format_ids = [0x07, 0x01, 0xCC, 0x03, 0xEE, 0xEF, 0x02, 0x0C, 0x0E, 0xFA]"

definition format_guids :: "u8 list \<Rightarrow> guid list" where
  "format_guids ids = map format_guid ids"

definition extraction_formats_for_hint :: "char_tables \<Rightarrow> wstring \<Rightarrow> guid list" where
  "extraction_formats_for_hint t format_hint =
     (let hint = normalized_format_hint t format_hint;
          ids = (if hint = wide ''rar'' then [0xCC, 0x03] else known_format_ids_for_hint hint)
      in if ids = [] then format_guids generic_format_ids else format_guids ids)"

definition canonical_archive_type_for_guid :: "guid \<Rightarrow> wstring" where
  "canonical_archive_type_for_guid format =
     (let b = data4 format ! 5
      in if b = 0x01 then wide ''zip''
         else if b = 0x02 then wide ''bzip2''
         else if b = 0x03 then wide ''rar4''
         else if b = 0x07 then wide ''7z''
         else if b = 0x0C then wide ''xz''
         else if b = 0x0E then wide ''zstd''
         else if b = 0x0F \<or> b = 0xEF then wide ''gzip''
         else if b = 0xCC then wide ''rar5''
         else if b = 0xEE then wide ''tar''
         else if b = kLz4FormatId then wide ''lz4''
         else if b = kEncFormatId then wide ''enc''
         else [])"

section \<open>Result codes\<close>

type_synonym hresult = u32

abbreviation (input) s_ok :: hresult where "s_ok \<equiv> 0"
abbreviation (input) s_false :: hresult where "s_false \<equiv> 1"
abbreviation (input) e_fail :: hresult where "e_fail \<equiv> 0x80004005"
abbreviation (input) e_abort :: hresult where "e_abort \<equiv> 0x80004004"
abbreviation (input) e_pointer :: hresult where "e_pointer \<equiv> 0x80004003"
abbreviation (input) e_invalidarg :: hresult where "e_invalidarg \<equiv> 0x80070057"
abbreviation (input) e_outofmemory :: hresult where "e_outofmemory \<equiv> 0x8007000E"

text \<open>\<^verbatim>\<open>HRESULT_FROM_WIN32\<close>: codes that are not positive as signed numbers pass, others move to facility 7.\<close>

definition hresult_from_win32 :: "u32 \<Rightarrow> hresult" where
  "hresult_from_win32 e = (if sint e \<le> 0 then e else or (and e 0xFFFF) 0x80070000)"

definition is_memory_hresult :: "hresult \<Rightarrow> bool" where
  "is_memory_hresult hr \<longleftrightarrow> hr = e_outofmemory \<or> hr = hresult_from_win32 8 \<or> hr = hresult_from_win32 1455"

text \<open>The operation results of 7-Zip, an \<^verbatim>\<open>Int32\<close> that counts from 0 in the order of its enumeration.\<close>

type_synonym op_result = int

abbreviation (input) kOpOk :: op_result where "kOpOk \<equiv> 0"
abbreviation (input) kOpUnsupportedMethod :: op_result where "kOpUnsupportedMethod \<equiv> 1"
abbreviation (input) kOpDataError :: op_result where "kOpDataError \<equiv> 2"
abbreviation (input) kOpCrcError :: op_result where "kOpCrcError \<equiv> 3"
abbreviation (input) kOpUnavailable :: op_result where "kOpUnavailable \<equiv> 4"
abbreviation (input) kOpUnexpectedEnd :: op_result where "kOpUnexpectedEnd \<equiv> 5"
abbreviation (input) kOpDataAfterEnd :: op_result where "kOpDataAfterEnd \<equiv> 6"
abbreviation (input) kOpIsNotArc :: op_result where "kOpIsNotArc \<equiv> 7"
abbreviation (input) kOpHeadersError :: op_result where "kOpHeadersError \<equiv> 8"
abbreviation (input) kOpWrongPassword :: op_result where "kOpWrongPassword \<equiv> 9"

definition looks_wrong_password :: "hresult \<Rightarrow> op_result \<Rightarrow> bool \<Rightarrow> bool" where
  "looks_wrong_password hr op_res encryption_evidence \<longleftrightarrow>
     (if op_res = kOpWrongPassword then True
      else encryption_evidence \<and> (op_res = kOpDataError \<or> op_res = kOpCrcError \<or> hr = s_false))"

definition looks_damaged :: "op_result \<Rightarrow> bool" where
  "looks_damaged op_res \<longleftrightarrow>
     op_res = kOpUnexpectedEnd \<or> op_res = kOpHeadersError \<or> op_res = kOpIsNotArc \<or> op_res = kOpUnavailable"

definition operation_result_name :: "op_result \<Rightarrow> string" where
  "operation_result_name op_res =
     (if op_res = kOpOk then ''ok''
      else if op_res = kOpUnsupportedMethod then ''unsupported_method''
      else if op_res = kOpDataError then ''data_error''
      else if op_res = kOpCrcError then ''crc_error''
      else if op_res = kOpUnavailable then ''unavailable''
      else if op_res = kOpUnexpectedEnd then ''unexpected_end''
      else if op_res = kOpDataAfterEnd then ''data_after_end''
      else if op_res = kOpIsNotArc then ''is_not_archive''
      else if op_res = kOpHeadersError then ''headers_error''
      else if op_res = kOpWrongPassword then ''wrong_password''
      else ''unknown'')"

datatype password_test_status =
  Ok | WrongPassword | Damaged | Unsupported | BackendUnavailable | Error | NeedsVolumeOrTailDamaged

fun status_name :: "password_test_status \<Rightarrow> string" where
  "status_name Ok = ''ok''"
| "status_name WrongPassword = ''wrong_password''"
| "status_name Damaged = ''damaged''"
| "status_name Unsupported = ''unsupported''"
| "status_name BackendUnavailable = ''backend_unavailable''"
| "status_name Error = ''error''"
| "status_name NeedsVolumeOrTailDamaged = ''needs_volume_or_tail_damaged''"

datatype probe_disposition = RejectInconclusive | TestAllItems | AcceptOpenProof

definition empty_bounded_password_probe_disposition :: "bool \<Rightarrow> u32 \<Rightarrow> bool \<Rightarrow> probe_disposition" where
  "empty_bounded_password_probe_disposition item_count_known item_count encryption_evidence =
     (if \<not> item_count_known then RejectInconclusive
      else if item_count \<noteq> 0 then TestAllItems
      else if encryption_evidence then AcceptOpenProof else RejectInconclusive)"

section \<open>Property values\<close>

text \<open>A \<^verbatim>\<open>PROPVARIANT\<close> by its type tag; a \<^verbatim>\<open>BSTR\<close> may be null, other tags are not distinguished.\<close>

datatype propvariant =
  VT_EMPTY | VT_BOOL u16 | VT_UI1 u8 | VT_I2 u16 | VT_UI2 u16 | VT_I4 u32 | VT_UI4 u32
| VT_I8 u64 | VT_UI8 u64 | VT_BSTR "wstring option" | VT_OTHER

fun prop_bool :: "propvariant \<Rightarrow> bool" where
  "prop_bool (VT_BOOL b) = (b \<noteq> 0)"
| "prop_bool (VT_UI1 b) = (b \<noteq> 0)"
| "prop_bool (VT_I4 l) = (l \<noteq> 0)"
| "prop_bool (VT_UI4 l) = (l \<noteq> 0)"
| "prop_bool _ = False"

fun prop_u64 :: "propvariant \<Rightarrow> u64" where
  "prop_u64 (VT_UI8 v) = v"
| "prop_u64 (VT_I8 v) = v"
| "prop_u64 (VT_UI4 v) = ucast v"
| "prop_u64 (VT_I4 v) = scast v"
| "prop_u64 (VT_UI2 v) = ucast v"
| "prop_u64 (VT_I2 v) = scast v"
| "prop_u64 (VT_UI1 v) = ucast v"
| "prop_u64 _ = 0"

definition prop_u32 :: "propvariant \<Rightarrow> u32" where
  "prop_u32 v = ucast (and (prop_u64 v) 0xFFFFFFFF)"

fun prop_text :: "propvariant \<Rightarrow> wstring" where
  "prop_text (VT_BSTR (Some s)) = s"
| "prop_text _ = []"

section \<open>Questions to an opened archive\<close>

abbreviation (input) kpidIsDir :: u32 where "kpidIsDir \<equiv> 6"
abbreviation (input) kpidSize :: u32 where "kpidSize \<equiv> 7"
abbreviation (input) kpidSolid :: u32 where "kpidSolid \<equiv> 13"
abbreviation (input) kpidEncrypted :: u32 where "kpidEncrypted \<equiv> 15"
abbreviation (input) kpidErrorFlags :: u32 where "kpidErrorFlags \<equiv> 71"

record in_archive =
  number_of_items :: "hresult \<times> u32"
  archive_property :: "u32 \<Rightarrow> hresult \<times> propvariant"
  item_property :: "u32 \<Rightarrow> u32 \<Rightarrow> hresult \<times> propvariant"

definition get_archive_property_bool :: "in_archive \<Rightarrow> u32 \<Rightarrow> bool" where
  "get_archive_property_bool a prop_id =
     (case archive_property a prop_id of (hr, v) \<Rightarrow> if hr \<noteq> s_ok then False else prop_bool v)"

text \<open>The value is reported together with whether the property is present.\<close>

definition get_item_property :: "in_archive \<Rightarrow> u32 \<Rightarrow> u32 \<Rightarrow> bool \<times> propvariant" where
  "get_item_property a index prop_id =
     (case item_property a index prop_id of (hr, v) \<Rightarrow> (hr = s_ok \<and> v \<noteq> VT_EMPTY, v))"

text \<open>The indices \<open>0, 1, ..., n - 1\<close> a loop over \<^verbatim>\<open>UInt32\<close> runs through.\<close>

definition indices32 :: "u32 \<Rightarrow> u32 list" where
  "indices32 n = map of_nat [0..<unat n]"

definition archive_has_encrypted_items :: "in_archive option \<Rightarrow> bool" where
  "archive_has_encrypted_items archive =
     (case archive of
        None \<Rightarrow> False
      | Some a \<Rightarrow>
          (case number_of_items a of (hr, n) \<Rightarrow>
             if hr \<noteq> s_ok then False
             else list_ex (\<lambda>i. case get_item_property a i kpidEncrypted of (present, v) \<Rightarrow> present \<and> prop_bool v)
                    (indices32 n)))"

definition rar4_rejected_empty_encrypted_headers :: "in_archive \<Rightarrow> guid \<Rightarrow> u32 \<Rightarrow> bool \<Rightarrow> bool" where
  "rar4_rejected_empty_encrypted_headers a format item_count password_requested =
     (if data4 format ! 5 \<noteq> 0x03 \<or> item_count \<noteq> 0 \<or> \<not> password_requested then False
      else case archive_property a kpidErrorFlags of (hr, flags) \<Rightarrow> hr = s_ok \<and> prop_u32 flags \<noteq> 0)"

section \<open>The plan for opening\<close>

record input_range =
  ir_path :: wstring
  ir_start :: u64
  ir_end :: u64
  ir_has_end :: bool

record archive_open_plan =
  pl_ranges :: "input_range list"
  pl_formats :: "guid list"
  pl_archive_offset :: u64
  pl_format_hint :: wstring
  pl_source :: string

definition uses_ranges :: "archive_open_plan \<Rightarrow> bool" where
  "uses_ranges p \<longleftrightarrow> pl_ranges p \<noteq> []"

definition password_test_open_plans :: "guid list \<Rightarrow> input_range list \<Rightarrow> wstring \<Rightarrow> archive_open_plan list" where
  "password_test_open_plans formats input_ranges format_hint =
     [\<lparr>pl_ranges = input_ranges, pl_formats = formats,
       pl_archive_offset = (if input_ranges = [] then 0 else ir_start (hd input_ranges)),
       pl_format_hint = format_hint,
       pl_source = (if input_ranges = [] then ''whole_file'' else ''provided_ranges'')\<rparr>]"

section \<open>What the tables promise\<close>

lemma format_guid_type [simp]: "data4 (format_guid i) ! 5 = i"
  by (simp add: format_guid_def)

lemma format_guid_inj: "format_guid i = format_guid j \<longleftrightarrow> i = j"
  by (auto simp: format_guid_def)

text \<open>Some format is always tried, and never one twice.\<close>

lemma extraction_formats_nonempty: "extraction_formats_for_hint t h \<noteq> []"
  by (auto simp: extraction_formats_for_hint_def format_guids_def Let_def generic_format_ids_def)

lemma known_format_ids_distinct: "distinct (known_format_ids_for_hint h)"
  by (auto simp: known_format_ids_for_hint_def)

lemma extraction_formats_distinct: "distinct (extraction_formats_for_hint t h)"
  using known_format_ids_distinct [of "normalized_format_hint t h"]
  by (auto simp: extraction_formats_for_hint_def format_guids_def Let_def generic_format_ids_def
        distinct_map inj_on_def format_guid_inj)

text \<open>
  The type reported for an opened archive, given back as a hint, tries the format it came from first:
  one byte identifies each format, and the two tables agree.
\<close>

lemma lower_text_ascii_small:
  "list_all (\<lambda>c. c < 128 \<and> \<not> (65 \<le> c \<and> c \<le> 90)) w \<Longrightarrow> lower_text t w = w"
  by (induction w) (auto simp: lower_text_def lower_char_def)

lemma canonical_type_small:
  "list_all (\<lambda>c. c < 128 \<and> \<not> (65 \<le> c \<and> c \<le> 90)) (canonical_archive_type_for_guid g)"
  by (simp add: canonical_archive_type_for_guid_def Let_def of_char_def)

lemma normalized_canonical_type:
  "normalized_format_hint t (canonical_archive_type_for_guid g) = canonical_archive_type_for_guid g"
  unfolding normalized_format_hint_def lower_text_ascii_small [OF canonical_type_small]
  by (simp add: canonical_archive_type_for_guid_def Let_def of_char_def)

lemma canonical_types:
  "map (\<lambda>i. canonical_archive_type_for_guid (format_guid i)) (kEncFormatId # generic_format_ids) =
   map wide [''enc'', ''7z'', ''zip'', ''rar5'', ''rar4'', ''tar'', ''gzip'', ''bzip2'', ''xz'', ''zstd'', ''lz4'']"
  by (simp add: canonical_archive_type_for_guid_def generic_format_ids_def kEncFormatId_def kLz4FormatId_def
        del: wide_simps)

lemma known_ids_of_types:
  "map known_format_ids_for_hint
     (map wide [''enc'', ''7z'', ''zip'', ''rar5'', ''rar4'', ''tar'', ''gzip'', ''bzip2'', ''xz'', ''zstd'', ''lz4'']) =
   [[kEncFormatId], [0x07], [0x01], [0xCC, 0x03], [0x03, 0xCC], [0xEE], [0xEF], [0x02], [0x0C], [0x0E], [0xFA]]"
  by (simp add: known_format_ids_for_hint_def wide_eq_iff del: wide_simps)

lemma tables_agree:
  assumes "i \<in> set (kEncFormatId # generic_format_ids)"
  shows "canonical_archive_type_for_guid (format_guid i) \<noteq> wide ''rar''"
    and "\<exists>is. known_format_ids_for_hint (canonical_archive_type_for_guid (format_guid i)) = i # is"
  using assms canonical_types known_ids_of_types
  by (auto simp: generic_format_ids_def wide_eq_iff simp del: wide_simps)

lemma format_hint_round_trip:
  "i \<in> set (kEncFormatId # generic_format_ids) \<Longrightarrow>
   hd (extraction_formats_for_hint t (canonical_archive_type_for_guid (format_guid i))) = format_guid i"
  unfolding extraction_formats_for_hint_def normalized_canonical_type
  using tables_agree [of i] by (auto simp: Let_def format_guids_def)

text \<open>The names of statuses are told apart by the reader of the protocol.\<close>

lemma status_name_inj: "status_name a = status_name b \<longleftrightarrow> a = b"
  by (cases a; cases b) auto

lemma wrong_password_not_damaged:
  "looks_wrong_password hr op_res False \<Longrightarrow> \<not> looks_damaged op_res"
  by (auto simp: looks_wrong_password_def looks_damaged_def)

lemma set_indices32: "set (indices32 n) = {i. i < n}"
proof -
  have "i \<in> set (indices32 n)" if "i < n" for i
    using that unfolding indices32_def
    by (auto simp: word_less_nat_alt intro!: image_eqI [where x = "unat i"])
  moreover have "of_nat k < n" if "k < unat n" for k
    using that by (simp add: word_less_nat_alt unat_of_nat)
  ultimately show ?thesis by (auto simp: indices32_def)
qed

lemma archive_has_encrypted_items_iff:
  "archive_has_encrypted_items (Some a) \<longleftrightarrow>
     fst (number_of_items a) = s_ok \<and>
     (\<exists>i. i < snd (number_of_items a) \<and> fst (get_item_property a i kpidEncrypted) \<and>
          prop_bool (snd (get_item_property a i kpidEncrypted)))"
  by (cases "number_of_items a")
    (auto simp: archive_has_encrypted_items_def list_ex_iff set_indices32 case_prod_unfold)

end
