(* ===== verification/Input_Prefetch.thy ===== *)
theory Input_Prefetch
  imports Archive_Formats
begin

text \<open>
  The prefetcher of the input streams (\<^verbatim>\<open>OverlappedPrefetcher\<close> of \<^verbatim>\<open>sevenzip_streams.hpp\<close>): two buffers that
  are filled by overlapped reads ahead of the decoder, the diagnostic trace of the input, and the proof
  that what the prefetcher hands out are the bytes of the stream.

  The operating system is an argument, a record of its calls over a world \<open>'w\<close> that is threaded through.
  A successful read, direct or overlapped, returns the bytes that were read, at most as many as were
  asked for. The wall-clock measurements of the trace (fields named \<^verbatim>\<open>*_ns\<close>) and the pipeline timing of
  profiling builds are left out, as are the event objects after their creation.
\<close>

section \<open>The operating system\<close>

datatype submit_answer = Sub_done "u8 list" | Sub_pending | Sub_failed u32

record 'w file_os =
  timing_enabled :: bool
  os_open :: "wstring \<Rightarrow> 'w \<Rightarrow> (u32 + unit) \<times> 'w"
  os_size :: "wstring \<Rightarrow> 'w \<Rightarrow> u64 option \<times> 'w"
  os_seek :: "wstring \<Rightarrow> u64 \<Rightarrow> u64 \<Rightarrow> u32 \<Rightarrow> 'w \<Rightarrow> (u32 + u64) \<times> 'w"
  os_read :: "wstring \<Rightarrow> u64 \<Rightarrow> u32 \<Rightarrow> 'w \<Rightarrow> (u32 + u8 list) \<times> 'w"
  os_submit :: "wstring \<Rightarrow> u64 \<Rightarrow> u32 \<Rightarrow> 'w \<Rightarrow> submit_answer \<times> 'w"
  os_complete :: "wstring \<Rightarrow> u64 \<Rightarrow> u32 \<Rightarrow> 'w \<Rightarrow> u8 list option \<times> 'w"
  os_cancel :: "wstring \<Rightarrow> 'w \<Rightarrow> 'w"
  os_event :: "'w \<Rightarrow> bool \<times> 'w"
  os_alloc :: "u32 \<Rightarrow> 'w \<Rightarrow> bool \<times> 'w"

definition file_read :: "'w file_os \<Rightarrow> wstring \<Rightarrow> u64 \<Rightarrow> u32 \<Rightarrow> 'w \<Rightarrow> (u32 + u8 list) \<times> 'w" where
  "file_read os p off n w =
     (case os_read os p off n w of
        (Inl e, w') \<Rightarrow> (Inl e, w')
      | (Inr bs, w') \<Rightarrow> (Inr (take (unat n) bs), w'))"

text \<open>What a file holds from an offset on, and the law of the read calls: only bytes of the file.\<close>

definition file_bytes :: "(wstring \<Rightarrow> u8 list) \<Rightarrow> wstring \<Rightarrow> u64 \<Rightarrow> u8 list" where
  "file_bytes content p off = drop (unat off) (content p)"

definition honest_reads :: "'w file_os \<Rightarrow> (wstring \<Rightarrow> u8 list) \<Rightarrow> bool" where
  "honest_reads os content \<longleftrightarrow>
     (\<forall>p off n w bs w'. os_read os p off n w = (Inr bs, w') \<longrightarrow> prefix bs (file_bytes content p off)) \<and>
     (\<forall>p off n w bs w'. os_submit os p off n w = (Sub_done bs, w') \<longrightarrow> prefix bs (file_bytes content p off)) \<and>
     (\<forall>p off n w bs w'. os_complete os p off n w = (Some bs, w') \<longrightarrow> prefix bs (file_bytes content p off))"

section \<open>Configuration and trace\<close>

record prefetch_config =
  pc_enabled :: bool
  pc_window_bytes :: u32

definition default_prefetch_config :: prefetch_config where
  "default_prefetch_config = \<lparr>pc_enabled = True, pc_window_bytes = 512 * 1024\<rparr>"

text \<open>
  The environment gives the switch and the window; \<^verbatim>\<open>strtoul\<close> (base 10, \<open>unsigned long\<close>) is the argument
  \<open>parse\<close>, a function of the value of the variable.
\<close>

definition input_prefetch_config :: "(string \<Rightarrow> u32) \<Rightarrow> (string \<Rightarrow> string option) \<Rightarrow> prefetch_config" where
  "input_prefetch_config parse env =
     (let v = default_prefetch_config;
          v1 = (case env ''SUNPACK_SEVENZIP_PREFETCH'' of
                  None \<Rightarrow> v | Some s \<Rightarrow> v\<lparr>pc_enabled := \<not> (s \<noteq> [] \<and> hd s = CHR ''0'')\<rparr>)
      in case env ''SUNPACK_SEVENZIP_PREFETCH_WINDOW_KIB'' of
           None \<Rightarrow> v1
         | Some s \<Rightarrow>
             (let parsed = parse s
              in if 64 \<le> parsed \<and> parsed \<le> 16 * 1024 then v1\<lparr>pc_window_bytes := parsed * 1024\<rparr> else v1))"

definition input_prefetch_config_for_archive ::
  "(string \<Rightarrow> u32) \<Rightarrow> (string \<Rightarrow> string option) \<Rightarrow> wstring \<Rightarrow> bool \<Rightarrow> prefetch_config" where
  "input_prefetch_config_for_archive parse env format_hint native_volume_input =
     (let config = input_prefetch_config parse env
      in if \<not> pc_enabled config \<or> format_hint = [] \<or> env ''SUNPACK_SEVENZIP_PREFETCH'' \<noteq> None then config
         else let n = map (\<lambda>c. if 65 \<le> c \<and> c \<le> 90 then c - 65 + 97 else c) format_hint
           in if n = wide ''gz'' \<or> n = wide ''gzip'' \<or> n = wide ''xz'' \<or> n = wide ''lz4'' \<or> n = wide ''zst'' \<or>
                 n = wide ''zstd'' \<or> n = wide ''tar'' \<or>
                 (native_volume_input \<and> (n = wide ''rar'' \<or> n = wide ''rar4'' \<or> n = wide ''rar5''))
              then config\<lparr>pc_enabled := False\<rparr> else config)"

record input_trace =
  it_mode :: wstring
  it_virtual_size :: u64
  it_position :: u64
  it_max_position_seen :: u64
  it_total_bytes_returned :: u64
  it_read_file_calls :: u64
  it_logical_reads :: u64
  it_sequential_bytes :: u64
  it_nonsequential_bytes :: u64
  it_sequential_runs :: u64
  it_max_run_bytes :: u64
  it_current_run_bytes :: u64
  it_seek_count :: u64
  it_seek_forward :: u64
  it_seek_backward :: u64
  it_prefetch_enabled :: bool
  it_prefetch_hits :: u64
  it_prefetch_misses :: u64
  it_prefetch_invalidations :: u64
  it_last_logical_end :: u64
  it_has_last_logical_end :: bool
  it_last_virtual_offset :: u64
  it_last_source_offset :: u64
  it_last_seek_new_position :: u64
  it_last_requested :: u32
  it_last_returned :: u32
  it_last_seek_origin :: u32
  it_last_range_index :: u32
  it_last_seek_offset :: u64
  it_last_hresult :: u32
  it_last_win32_error :: u32
  it_read_error :: bool
  it_last_source_path :: wstring

text \<open>A trace is optional; profiling counters move only while the profile is on.\<close>

definition profile :: "'w file_os \<Rightarrow> (input_trace \<Rightarrow> input_trace) \<Rightarrow> input_trace option \<Rightarrow> input_trace option" where
  "profile os f t = (if timing_enabled os then map_option f t else t)"

text \<open>\<^verbatim>\<open>ReadFileWallTimer\<close>: one call is counted.\<close>

definition count_read_file :: "'w file_os \<Rightarrow> input_trace option \<Rightarrow> input_trace option" where
  "count_read_file os = profile os (\<lambda>t. t\<lparr>it_read_file_calls := it_read_file_calls t + 1\<rparr>)"

definition record_logical_read :: "'w file_os \<Rightarrow> u64 \<Rightarrow> u32 \<Rightarrow> input_trace option \<Rightarrow> input_trace option" where
  "record_logical_read os start returned tr =
     (if returned = 0 then tr
      else profile os (\<lambda>t0.
        let t = t0\<lparr>it_logical_reads := it_logical_reads t0 + 1\<rparr>;
            t1 = (if it_has_last_logical_end t \<and> start = it_last_logical_end t
                  then t\<lparr>it_sequential_bytes := it_sequential_bytes t + ucast returned,
                         it_current_run_bytes := it_current_run_bytes t + ucast returned\<rparr>
                  else t\<lparr>it_nonsequential_bytes := it_nonsequential_bytes t + ucast returned,
                         it_sequential_runs := it_sequential_runs t + 1,
                         it_current_run_bytes := ucast returned\<rparr>)
        in t1\<lparr>it_max_run_bytes := max (it_max_run_bytes t1) (it_current_run_bytes t1),
              it_last_logical_end := start + ucast returned,
              it_has_last_logical_end := True\<rparr>) tr)"

definition record_logical_seek :: "'w file_os \<Rightarrow> u64 \<Rightarrow> u64 \<Rightarrow> input_trace option \<Rightarrow> input_trace option" where
  "record_logical_seek os from to =
     profile os (\<lambda>t0.
       let t = t0\<lparr>it_seek_count := it_seek_count t0 + 1\<rparr>;
           t1 = (if to > from then t\<lparr>it_seek_forward := it_seek_forward t + (to - from)\<rparr>
                 else if from > to
                 then t\<lparr>it_seek_backward := it_seek_backward t + (from - to), it_has_last_logical_end := False\<rparr>
                 else t)
       in if from \<noteq> to then t1\<lparr>it_has_last_logical_end := False\<rparr> else t1)"

section \<open>The prefetcher\<close>

datatype slot_state = Slot_empty | Slot_pending | Slot_ready | Slot_failed

text \<open>
  A source borrows a path of the stream's table; the table index stands for the address of the path, which
  is what the code compares.
\<close>

record prefetch_source =
  src_ref :: nat
  src_path :: wstring
  src_offset :: u64
  src_length :: u64

record slot =
  sl_open :: bool
  sl_path :: "(nat \<times> wstring) option"
  sl_buffer :: bool
  sl_bytes :: "u8 list"
  sl_source_offset :: u64
  sl_offset :: u64
  sl_size :: u32
  sl_state :: slot_state

record prefetcher =
  pf_window :: u32
  pf_virtual_size :: u64
  pf_next :: u64
  pf_enabled :: bool
  pf_slots :: "slot list"

type_synonym resolver = "u64 \<Rightarrow> prefetch_source option"

definition empty_slot :: slot where
  "empty_slot = \<lparr>sl_open = False, sl_path = None, sl_buffer = False, sl_bytes = [], sl_source_offset = 0,
     sl_offset = 0, sl_size = 0, sl_state = Slot_empty\<rparr>"

definition sl_file :: "slot \<Rightarrow> wstring" where
  "sl_file s = (case sl_path s of None \<Rightarrow> [] | Some (_, p) \<Rightarrow> p)"

text \<open>\<^verbatim>\<open>GetOverlappedResult\<close> with waiting, its result dropped; the slot becomes empty.\<close>

definition drain :: "'w file_os \<Rightarrow> slot \<times> 'w \<Rightarrow> slot \<times> 'w" where
  "drain os sw =
     (case sw of (s, w) \<Rightarrow>
        (s\<lparr>sl_state := Slot_empty\<rparr>,
         if sl_state s = Slot_pending then snd (os_complete os (sl_file s) (sl_source_offset s) (sl_size s) w) else w))"

definition cancel_io :: "'w file_os \<Rightarrow> slot \<Rightarrow> 'w \<Rightarrow> 'w" where
  "cancel_io os s w = (if sl_state s = Slot_pending then os_cancel os (sl_file s) w else w)"

definition retire :: "'w file_os \<Rightarrow> slot \<times> 'w \<Rightarrow> slot \<times> 'w" where
  "retire os sw = (case sw of (s, w) \<Rightarrow> drain os (s, cancel_io os s w))"

text \<open>Both cancellations are requested before either completion is awaited.\<close>

fun drain_all :: "'w file_os \<Rightarrow> slot list \<Rightarrow> 'w \<Rightarrow> slot list \<times> 'w" where
  "drain_all os [] w = ([], w)"
| "drain_all os (s # ss) w =
     (case drain os (s, w) of (s', w1) \<Rightarrow> case drain_all os ss w1 of (ss', w2) \<Rightarrow> (s' # ss', w2))"

definition cancel_slots :: "'w file_os \<Rightarrow> prefetcher \<Rightarrow> 'w \<Rightarrow> prefetcher \<times> 'w" where
  "cancel_slots os p w =
     (case drain_all os (pf_slots p) (fold (cancel_io os) (pf_slots p) w) of (ss, w') \<Rightarrow> (p\<lparr>pf_slots := ss\<rparr>, w'))"

definition close_prefetcher :: "'w file_os \<Rightarrow> prefetcher \<Rightarrow> 'w \<Rightarrow> prefetcher \<times> 'w" where
  "close_prefetcher os p w =
     (case cancel_slots os p w of (p', w') \<Rightarrow>
        (p'\<lparr>pf_slots := map (\<lambda>s. s\<lparr>sl_open := False, sl_path := None\<rparr>) (pf_slots p'), pf_enabled := False\<rparr>, w'))"

text \<open>The constructor makes the two events; a failure closes the prefetcher again.\<close>

fun make_events :: "'w file_os \<Rightarrow> nat \<Rightarrow> 'w \<Rightarrow> bool \<times> 'w" where
  "make_events os 0 w = (True, w)"
| "make_events os (Suc n) w = (case os_event os w of (ok, w') \<Rightarrow> if ok then make_events os n w' else (False, w'))"

definition new_prefetcher :: "'w file_os \<Rightarrow> prefetch_config \<Rightarrow> u64 \<Rightarrow> 'w \<Rightarrow> prefetcher \<times> 'w" where
  "new_prefetcher os config vsize w =
     (let p = \<lparr>pf_window = pc_window_bytes config, pf_virtual_size = vsize, pf_next = 0,
               pf_enabled = (pc_enabled config \<and> pc_window_bytes config \<noteq> 0 \<and> vsize \<noteq> 0),
               pf_slots = [empty_slot, empty_slot]\<rparr>
      in if \<not> pf_enabled p then (p, w)
         else case make_events os 2 w of (ok, w') \<Rightarrow> if ok then (p, w') else close_prefetcher os p w')"

section \<open>Consuming\<close>

fun find_slot :: "slot list \<Rightarrow> u64 \<Rightarrow> nat option" where
  "find_slot [] offset = None"
| "find_slot (s # ss) offset =
     (if sl_state s \<noteq> Slot_empty \<and> sl_offset s \<le> offset \<and> offset - sl_offset s < ucast (sl_size s) then Some 0
      else map_option Suc (find_slot ss offset))"

lemma find_slot_Some:
  "find_slot ss offset = Some i \<Longrightarrow>
   i < length ss \<and> sl_state (ss ! i) \<noteq> Slot_empty \<and> sl_offset (ss ! i) \<le> offset \<and>
   offset - sl_offset (ss ! i) < ucast (sl_size (ss ! i))"
  by (induction ss arbitrary: i) (auto split: if_splits)

text \<open>How much of the request the slot holds from the cursor on.\<close>

definition slot_count :: "slot \<Rightarrow> u64 \<Rightarrow> u32 \<Rightarrow> u32" where
  "slot_count s cursor remaining = ucast (min (ucast remaining) (sl_offset s + ucast (sl_size s) - cursor) :: u64)"

lemma ucast_less_64: "unat (ucast (x :: u32) :: u64) = unat x"
  by (simp add: unat_ucast_up)

lemma slot_count_eq:
  assumes "cursor - sl_offset s < (ucast (sl_size s) :: u64)"
  shows "unat (slot_count s cursor remaining) = min (unat remaining) (unat (sl_size s) - unat (cursor - sl_offset s))"
proof -
  let ?d = "cursor - sl_offset s"
  have "unat (ucast (sl_size s) - ?d :: u64) = unat (sl_size s) - unat ?d"
    using assms by (simp add: unat_sub less_imp_le ucast_less_64)
  moreover have "sl_offset s + ucast (sl_size s) - cursor = ucast (sl_size s) - ?d" by simp
  ultimately have e: "unat (sl_offset s + ucast (sl_size s) - cursor) = unat (sl_size s) - unat ?d" by (simp only:)
  have m: "unat (min (ucast remaining) (sl_offset s + ucast (sl_size s) - cursor) :: u64) =
      min (unat remaining) (unat (sl_size s) - unat ?d)"
    unfolding min_def word_le_nat_alt by (simp add: ucast_less_64 e)
  have "min (unat remaining) (unat (sl_size s) - unat ?d) < 2 ^ 32"
    using unat_bound [of remaining] by simp
  then show ?thesis
    unfolding slot_count_def by (simp add: unat_ucast_small m)
qed

lemma slot_count_bounds:
  assumes "cursor - sl_offset s < (ucast (sl_size s) :: u64)" "remaining \<noteq> 0"
  shows "0 < unat (slot_count s cursor remaining)" "unat (slot_count s cursor remaining) \<le> unat remaining"
    "unat (remaining - slot_count s cursor remaining) = unat remaining - unat (slot_count s cursor remaining)"
proof -
  have "unat (cursor - sl_offset s) < unat (sl_size s)"
    using assms(1) by (simp add: word_less_nat_alt ucast_less_64)
  moreover have "unat remaining > 0" using assms(2) by (simp add: unat_gt_0)
  ultimately show "0 < unat (slot_count s cursor remaining)" and le: "unat (slot_count s cursor remaining) \<le> unat remaining"
    using slot_count_eq [OF assms(1), of remaining] by auto
  show "unat (remaining - slot_count s cursor remaining) = unat remaining - unat (slot_count s cursor remaining)"
    using le by (simp add: unat_sub word_le_nat_alt)
qed

text \<open>The request is covered before anything is copied.\<close>

function covers :: "slot list \<Rightarrow> u64 \<Rightarrow> u32 \<Rightarrow> bool" where
  "covers ss cursor remaining =
     (if remaining = 0 then True
      else case find_slot ss cursor of
             None \<Rightarrow> False
           | Some i \<Rightarrow>
               if sl_state (ss ! i) = Slot_failed then False
               else let count = slot_count (ss ! i) cursor remaining
                    in covers ss (cursor + ucast count) (remaining - count))"
  by pat_completeness auto

termination
proof (relation "measure (\<lambda>(ss, cursor, remaining). unat remaining)", goal_cases)
  case 1
  show ?case by simp
next
  case (2 ss cursor remaining i count)
  then have "cursor - sl_offset (ss ! i) < ucast (sl_size (ss ! i))" using find_slot_Some by blast
  from slot_count_bounds [OF this 2(1)] 2 show ?case by simp
qed

declare covers.simps [simp del]

text \<open>A pending read is awaited; it is good only if it filled the window.\<close>

definition await_slot :: "'w file_os \<Rightarrow> slot \<times> 'w \<Rightarrow> slot \<times> 'w" where
  "await_slot os sw =
     (case sw of (s, w) \<Rightarrow>
        if sl_state s = Slot_pending then
          (case os_complete os (sl_file s) (sl_source_offset s) (sl_size s) w of
             (None, w') \<Rightarrow> (s\<lparr>sl_state := Slot_failed\<rparr>, w')
           | (Some bs, w') \<Rightarrow>
               if length bs = unat (sl_size s) then (s\<lparr>sl_state := Slot_ready, sl_bytes := bs\<rparr>, w')
               else (s\<lparr>sl_state := Slot_failed\<rparr>, w'))
        else (s, w))"

lemma await_slot_keeps [simp]:
  "sl_offset (fst (await_slot os (s, w))) = sl_offset s"
  "sl_size (fst (await_slot os (s, w))) = sl_size s"
  by (auto simp: await_slot_def split: option.splits prod.splits if_splits)

lemma copy_count_eq:
  assumes "cursor - sl_offset s < (ucast (sl_size s) :: u64)"
  shows "min remaining (sl_size s - ucast (cursor - sl_offset s)) = slot_count s cursor remaining"
proof -
  let ?d = "cursor - sl_offset s"
  have d: "unat ?d < unat (sl_size s)" using assms by (simp add: word_less_nat_alt ucast_less_64)
  then have "unat ?d < 2 ^ 32" using unat_bound [of "sl_size s"] by simp
  then have u: "unat (ucast ?d :: u32) = unat ?d" by (simp add: unat_ucast_small)
  then have "unat (sl_size s - ucast ?d) = unat (sl_size s) - unat ?d"
    using d by (simp add: unat_sub word_le_nat_alt)
  then show ?thesis
    using slot_count_eq [OF assms, of remaining]
    by (simp add: word_unat_eq_iff min_def word_le_nat_alt split: if_splits)
qed

text \<open>
  The copying loop. The request was found covered, so the search succeeds; a null slot is the branch
  \<open>None\<close>, which is not reached.
\<close>

function copy_slots :: "'w file_os \<Rightarrow> slot list \<Rightarrow> u64 \<Rightarrow> u32 \<Rightarrow> 'w \<Rightarrow> u8 list option \<times> slot list \<times> 'w" where
  "copy_slots os ss cursor remaining w =
     (if remaining = 0 then (Some [], ss, w)
      else case find_slot ss cursor of
             None \<Rightarrow> (None, ss, w)
           | Some i \<Rightarrow>
               (case await_slot os (ss ! i, w) of (s, w1) \<Rightarrow>
                  let ss1 = ss[i := s]
                  in if sl_state s \<noteq> Slot_ready then (None, ss1, w1)
                     else let displacement = cursor - sl_offset s;
                              count = min remaining (sl_size s - ucast displacement)
                          in case copy_slots os ss1 (cursor + ucast count) (remaining - count) w1 of
                               (None, r) \<Rightarrow> (None, r)
                             | (Some bs, r) \<Rightarrow>
                                 (Some (take (unat count) (drop (unat displacement) (sl_bytes s)) @ bs), r)))"
  by pat_completeness auto

termination
proof (relation "measure (\<lambda>(os, ss, cursor, remaining, w). unat remaining)", goal_cases)
  case 1
  show ?case by simp
next
  case (2 os ss cursor remaining w i s w1 ss1 displacement count)
  have "cursor - sl_offset (ss ! i) < ucast (sl_size (ss ! i))" using 2(2) find_slot_Some by blast
  moreover have "sl_offset s = sl_offset (ss ! i)" "sl_size s = sl_size (ss ! i)"
    using await_slot_keeps [of os "ss ! i" w] 2 by (metis fst_conv)+
  ultimately have "cursor - sl_offset s < ucast (sl_size s)" by simp
  from slot_count_bounds [OF this 2(1)] copy_count_eq [OF this, of remaining] 2 show ?case by simp
qed

declare copy_slots.simps [simp del]

definition count_miss :: "'w file_os \<Rightarrow> input_trace option \<Rightarrow> input_trace option" where
  "count_miss os = profile os (\<lambda>t. t\<lparr>it_prefetch_misses := it_prefetch_misses t + 1\<rparr>)"

definition count_hit :: "'w file_os \<Rightarrow> input_trace option \<Rightarrow> input_trace option" where
  "count_hit os = profile os (\<lambda>t. t\<lparr>it_prefetch_hits := it_prefetch_hits t + 1\<rparr>)"

definition prefetch_consume ::
  "'w file_os \<Rightarrow> prefetcher \<Rightarrow> u64 \<Rightarrow> u32 \<Rightarrow> input_trace option \<Rightarrow> 'w \<Rightarrow>
   u8 list option \<times> prefetcher \<times> input_trace option \<times> 'w" where
  "prefetch_consume os p offset n tr w =
     (if \<not> pf_enabled p \<or> n = 0 then (None, p, tr, w)
      else if \<not> covers (pf_slots p) offset n then (None, p, count_miss os tr, w)
      else case copy_slots os (pf_slots p) offset n w of
             (None, ss, w') \<Rightarrow> (None, p\<lparr>pf_slots := ss\<rparr>, count_miss os tr, w')
           | (Some bs, ss, w') \<Rightarrow> (Some bs, p\<lparr>pf_slots := ss\<rparr>, count_hit os tr, w'))"

section \<open>Reading ahead\<close>

fun retire_read :: "'w file_os \<Rightarrow> u64 \<Rightarrow> slot list \<Rightarrow> 'w \<Rightarrow> slot list \<times> 'w" where
  "retire_read os stop [] w = ([], w)"
| "retire_read os stop (s # ss) w =
     (case (if sl_state s \<noteq> Slot_empty \<and> sl_offset s + ucast (sl_size s) \<le> stop then retire os (s, w) else (s, w)) of
        (s', w1) \<Rightarrow> case retire_read os stop ss w1 of (ss', w2) \<Rightarrow> (s' # ss', w2))"

text \<open>The handle of a slot follows the path of its source.\<close>

definition open_slot :: "'w file_os \<Rightarrow> prefetch_source \<Rightarrow> slot \<times> 'w \<Rightarrow> slot \<times> 'w" where
  "open_slot os src sw =
     (case sw of (s, w) \<Rightarrow>
        if \<not> sl_open s \<or> sl_path s \<noteq> Some (src_ref src, src_path src) then
          (case os_open os (win32_extended_path (src_path src)) w of
             (r, w') \<Rightarrow> (s\<lparr>sl_open := (case r of Inl _ \<Rightarrow> False | Inr _ \<Rightarrow> True),
                           sl_path := Some (src_ref src, src_path src)\<rparr>, w'))
        else (s, w))"

definition submit_slot :: "'w file_os \<Rightarrow> u32 \<Rightarrow> u64 \<Rightarrow> u64 \<Rightarrow> prefetch_source \<Rightarrow> slot \<Rightarrow> 'w \<Rightarrow> slot \<times> 'w" where
  "submit_slot os window vsize next src s w =
     (let n = ucast (min (ucast window) (min (src_length src) (vsize - next)) :: u64);
          s1 = s\<lparr>sl_offset := next, sl_size := n, sl_source_offset := src_offset src, sl_buffer := True\<rparr>
      in case os_submit os (sl_file s1) (src_offset src) n w of
           (Sub_done bs, w') \<Rightarrow>
             (s1\<lparr>sl_bytes := bs, sl_state := (if length bs = unat n then Slot_ready else Slot_failed)\<rparr>, w')
         | (Sub_pending, w') \<Rightarrow> (s1\<lparr>sl_state := Slot_pending\<rparr>, w')
         | (Sub_failed _, w') \<Rightarrow> (s1\<lparr>sl_state := Slot_failed\<rparr>, w'))"

text \<open>One pass over the slots; the first component is false when a buffer could not be allocated.\<close>

fun submit_slots ::
  "'w file_os \<Rightarrow> resolver \<Rightarrow> u32 \<Rightarrow> u64 \<Rightarrow> slot list \<Rightarrow> u64 \<Rightarrow> input_trace option \<Rightarrow> 'w \<Rightarrow>
   bool \<times> slot list \<times> u64 \<times> input_trace option \<times> 'w" where
  "submit_slots os resolve window vsize [] next tr w = (True, [], next, tr, w)"
| "submit_slots os resolve window vsize (s # ss) next tr w =
     (if sl_state s \<noteq> Slot_empty \<or> next \<ge> vsize then
        (case submit_slots os resolve window vsize ss next tr w of (ok, ss', r) \<Rightarrow> (ok, s # ss', r))
      else case resolve next of
        None \<Rightarrow> (True, s # ss, next, tr, w)
      | Some src \<Rightarrow>
          if src_length src = 0 then (True, s # ss, next, tr, w)
          else case open_slot os src (s, w) of (s1, w1) \<Rightarrow>
            if \<not> sl_open s1 then (True, s1 # ss, next, tr, w1)
            else case (if sl_buffer s1 then (True, w1) else os_alloc os window w1) of (ok, w2) \<Rightarrow>
              if \<not> ok then (False, s1 # ss, next, tr, w2)
              else case submit_slot os window vsize next src s1 w2 of (s2, w3) \<Rightarrow>
                case submit_slots os resolve window vsize ss (next + ucast (sl_size s2)) (count_read_file os tr) w3 of
                  (ok', ss', r) \<Rightarrow> (ok', s2 # ss', r))"

definition prefetch_advance ::
  "'w file_os \<Rightarrow> resolver \<Rightarrow> u64 \<Rightarrow> prefetcher \<Rightarrow> input_trace option \<Rightarrow> 'w \<Rightarrow>
   bool \<times> prefetcher \<times> input_trace option \<times> 'w" where
  "prefetch_advance os resolve stop p tr w =
     (if \<not> pf_enabled p \<or> stop > pf_virtual_size p then (True, p, tr, w)
      else case retire_read os stop (pf_slots p) w of (ss, w1) \<Rightarrow>
        let next = (if list_all (\<lambda>s. sl_state s = Slot_empty) ss then stop else pf_next p)
        in case submit_slots os resolve (pf_window p) (pf_virtual_size p) ss next tr w1 of
             (ok, ss', next', tr', w2) \<Rightarrow> (ok, p\<lparr>pf_slots := ss', pf_next := next'\<rparr>, tr', w2))"

definition advance_safely ::
  "'w file_os \<Rightarrow> resolver \<Rightarrow> u64 \<Rightarrow> prefetcher \<Rightarrow> input_trace option \<Rightarrow> 'w \<Rightarrow>
   prefetcher \<times> input_trace option \<times> 'w" where
  "advance_safely os resolve stop p tr w =
     (case prefetch_advance os resolve stop p tr w of
        (True, p', tr', w') \<Rightarrow> (p', tr', w')
      | (False, p', tr', w') \<Rightarrow> (case close_prefetcher os p' w' of (p'', w'') \<Rightarrow> (p'', tr', w'')))"

definition prefetch_invalidate ::
  "'w file_os \<Rightarrow> u64 \<Rightarrow> prefetcher \<Rightarrow> input_trace option \<Rightarrow> 'w \<Rightarrow> prefetcher \<times> input_trace option \<times> 'w" where
  "prefetch_invalidate os next p tr w =
     (let tr' = (if list_ex (\<lambda>s. sl_state s \<noteq> Slot_empty) (pf_slots p)
                 then profile os (\<lambda>t. t\<lparr>it_prefetch_invalidations := it_prefetch_invalidations t + 1\<rparr>) tr else tr)
      in case cancel_slots os p w of (p', w') \<Rightarrow> (p'\<lparr>pf_next := next\<rparr>, tr', w'))"

section \<open>What the slots hold\<close>

definition slot_ok :: "(wstring \<Rightarrow> u8 list) \<Rightarrow> u8 list \<Rightarrow> slot \<Rightarrow> bool" where
  "slot_ok content virt s \<longleftrightarrow>
     (sl_state s \<noteq> Slot_empty \<longrightarrow>
        unat (sl_offset s) + unat (sl_size s) \<le> length virt \<and>
        take (unat (sl_size s)) (file_bytes content (sl_file s) (sl_source_offset s)) =
        take (unat (sl_size s)) (drop (unat (sl_offset s)) virt)) \<and>
     (sl_state s = Slot_ready \<longrightarrow> sl_bytes s = take (unat (sl_size s)) (drop (unat (sl_offset s)) virt))"

definition pf_ok :: "(wstring \<Rightarrow> u8 list) \<Rightarrow> u8 list \<Rightarrow> prefetcher \<Rightarrow> bool" where
  "pf_ok content virt p \<longleftrightarrow> unat (pf_virtual_size p) = length virt \<and> list_all (slot_ok content virt) (pf_slots p)"

lemma slot_ok_empty [simp]: "sl_state s = Slot_empty \<Longrightarrow> slot_ok content virt s"
  by (simp add: slot_ok_def)

lemma honest_complete:
  "honest_reads os content \<Longrightarrow> os_complete os p off n w = (Some bs, w') \<Longrightarrow> length bs = unat n \<Longrightarrow>
   bs = take (unat n) (file_bytes content p off)"
  unfolding honest_reads_def by (metis prefix_def append_eq_conv_conj)

lemma honest_submit:
  "honest_reads os content \<Longrightarrow> os_submit os p off n w = (Sub_done bs, w') \<Longrightarrow> length bs = unat n \<Longrightarrow>
   bs = take (unat n) (file_bytes content p off)"
  unfolding honest_reads_def by (metis prefix_def append_eq_conv_conj)

lemma await_slot_ok:
  "honest_reads os content \<Longrightarrow> slot_ok content virt s \<Longrightarrow> slot_ok content virt (fst (await_slot os (s, w)))"
  by (auto simp: await_slot_def slot_ok_def sl_file_def dest!: honest_complete split: option.splits prod.splits if_splits)

lemma drain_empty [simp]: "sl_state (fst (drain os sw)) = Slot_empty"
  by (simp add: drain_def split: prod.splits)

lemma drain_all_ok: "list_all (slot_ok content virt) (fst (drain_all os ss w))"
proof (induction ss arbitrary: w)
  case (Cons s ss)
  show ?case using Cons drain_empty [of os "(s, w)"] by (auto split: prod.split simp del: drain_empty) (metis fst_conv)
qed simp

lemma cancel_slots_ok: "pf_ok content virt p \<Longrightarrow> pf_ok content virt (fst (cancel_slots os p w))"
  using drain_all_ok [of content virt os "pf_slots p" "fold (cancel_io os) (pf_slots p) w"]
  by (auto simp: cancel_slots_def pf_ok_def split: prod.split)

lemma drain_all_empty: "list_all (\<lambda>s. sl_state s = Slot_empty) (fst (drain_all os ss w))"
proof (induction ss arbitrary: w)
  case (Cons s ss)
  show ?case using Cons drain_empty [of os "(s, w)"] by (auto split: prod.split simp del: drain_empty) (metis fst_conv)
qed simp

lemma close_prefetcher_ok: "pf_ok content virt p \<Longrightarrow> pf_ok content virt (fst (close_prefetcher os p w))"
proof -
  assume "pf_ok content virt p"
  moreover have "list_all (\<lambda>s. sl_state s = Slot_empty) (pf_slots (fst (cancel_slots os p w)))"
    using drain_all_empty [of os "pf_slots p" "fold (cancel_io os) (pf_slots p) w"]
    by (auto simp: cancel_slots_def split: prod.split)
  moreover have "pf_virtual_size (fst (cancel_slots os p w)) = pf_virtual_size p"
    by (simp add: cancel_slots_def split: prod.split)
  ultimately show ?thesis
    by (auto simp: close_prefetcher_def pf_ok_def list_all_iff split: prod.split)
qed

lemma new_prefetcher_ok:
  "unat vsize = length virt \<Longrightarrow> pf_ok content virt (fst (new_prefetcher os config vsize w))"
proof -
  assume "unat vsize = length virt"
  then have "pf_ok content virt \<lparr>pf_window = pc_window_bytes config, pf_virtual_size = vsize, pf_next = 0,
      pf_enabled = e, pf_slots = [empty_slot, empty_slot]\<rparr>" for e
    by (simp add: pf_ok_def empty_slot_def)
  then show ?thesis
    by (auto simp: new_prefetcher_def Let_def split: prod.splits intro: close_prefetcher_ok)
qed

lemma invalidate_ok: "pf_ok content virt p \<Longrightarrow> pf_ok content virt (fst (prefetch_invalidate os next p tr w))"
  using cancel_slots_ok [of content virt p os w]
  by (auto simp: prefetch_invalidate_def pf_ok_def Let_def split: prod.split)

lemma retire_read_ok:
  "list_all (slot_ok content virt) ss \<Longrightarrow> list_all (slot_ok content virt) (fst (retire_read os stop ss w))"
proof (induction ss arbitrary: w)
  case (Cons s ss)
  have "slot_ok content virt (fst (if b then retire os (s, w) else (s, w)))" for b
    using Cons.prems by (auto simp: retire_def)
  then show ?case
    using Cons by (auto split: prod.split) (metis fst_conv)+
qed simp

section \<open>Consumed bytes\<close>

lemma take_copied:
  assumes "d < k" "o1 + k \<le> length virt" "c \<le> k - d"
  shows "take c (drop d (take k (drop o1 virt))) = take c (drop (o1 + d) virt)"
  using assms by (simp add: drop_take min_absorb1 add.commute)

lemma copy_slots_Cons:
  assumes "remaining \<noteq> 0" "find_slot ss cursor = Some i" "await_slot os (ss ! i, w) = (s, w1)"
  shows "copy_slots os ss cursor remaining w =
    (if sl_state s \<noteq> Slot_ready then (None, ss[i := s], w1)
     else let count = slot_count s cursor remaining
          in case copy_slots os (ss[i := s]) (cursor + ucast count) (remaining - count) w1 of
               (None, r) \<Rightarrow> (None, r)
             | (Some bs, r) \<Rightarrow> (Some (take (unat count) (drop (unat (cursor - sl_offset s)) (sl_bytes s)) @ bs), r))"
proof -
  have "sl_offset s = sl_offset (ss ! i)" "sl_size s = sl_size (ss ! i)"
    using await_slot_keeps [of os "ss ! i" w] assms(3) by simp_all
  then have "cursor - sl_offset s < ucast (sl_size s)" using find_slot_Some [OF assms(2)] by simp
  from copy_count_eq [OF this, of remaining] show ?thesis
    unfolding copy_slots.simps [of os ss cursor remaining w] using assms by (simp add: Let_def split: prod.split option.split)
qed

lemma slot_chunk:
  fixes remaining :: u32
  assumes small: "length virt < 2 ^ 64"
    and "slot_ok content virt s" "sl_state s = Slot_ready" "sl_offset s \<le> cursor"
    and "cursor - sl_offset s < ucast (sl_size s)"
  defines "c \<equiv> unat (slot_count s cursor remaining)"
  shows "take c (drop (unat (cursor - sl_offset s)) (sl_bytes s)) = take c (drop (unat cursor) virt)"
    and "unat cursor + c \<le> length virt" and "unat (cursor + ucast (slot_count s cursor remaining)) = unat cursor + c"
proof -
  let ?d = "unat (cursor - sl_offset s)"
  have d: "?d < unat (sl_size s)" using assms(5) by (simp add: word_less_nat_alt ucast_less_64)
  have cur: "unat cursor = unat (sl_offset s) + ?d"
    using assms(4) by (simp add: unat_sub word_le_nat_alt)
  have fits: "unat (sl_offset s) + unat (sl_size s) \<le> length virt"
    and bytes: "sl_bytes s = take (unat (sl_size s)) (drop (unat (sl_offset s)) virt)"
    using assms(2,3) by (simp_all add: slot_ok_def)
  have c: "c \<le> unat (sl_size s) - ?d" unfolding c_def slot_count_eq [OF assms(5)] by simp
  show "take c (drop ?d (sl_bytes s)) = take c (drop (unat cursor) virt)"
    unfolding bytes cur using d fits c by (rule take_copied)
  show le: "unat cursor + c \<le> length virt" using cur d c fits by linarith
  then have "unat cursor + c < 2 ^ 64" using small by linarith
  then show "unat (cursor + ucast (slot_count s cursor remaining)) = unat cursor + c"
    by (simp add: unat_word_ariths ucast_less_64 c_def)
qed

lemma copy_slots_exact:
  assumes "honest_reads os content" "length virt < 2 ^ 64"
  shows "list_all (slot_ok content virt) ss \<Longrightarrow> copy_slots os ss cursor remaining w = (r, ss', w') \<Longrightarrow>
    list_all (slot_ok content virt) ss' \<and>
    (\<forall>bs. r = Some bs \<longrightarrow> bs = take (unat remaining) (drop (unat cursor) virt) \<and> length bs = unat remaining)"
proof (induction "unat remaining" arbitrary: ss cursor remaining w r ss' w' rule: less_induct)
  case less
  show ?case
  proof (cases "remaining = 0 \<or> find_slot ss cursor = None")
    case True
    then show ?thesis using less.prems by (auto simp: copy_slots.simps [of os ss cursor remaining] split: option.splits if_splits)
  next
    case False
    then obtain i where i: "find_slot ss cursor = Some i" and rem: "remaining \<noteq> 0" by auto
    obtain s w1 where aw: "await_slot os (ss ! i, w) = (s, w1)" by (cases "await_slot os (ss ! i, w)")
    note found = find_slot_Some [OF i]
    have keep: "sl_offset s = sl_offset (ss ! i)" "sl_size s = sl_size (ss ! i)"
      using await_slot_keeps [of os "ss ! i" w] aw by simp_all
    have sok: "slot_ok content virt s"
      using await_slot_ok [OF assms(1), of virt "ss ! i" w] aw found less.prems(1) by (simp add: list_all_length)
    then have ssok: "list_all (slot_ok content virt) (ss[i := s])"
      using less.prems(1) set_update_subset_insert [of ss i s] unfolding list_all_iff by blast
    let ?c = "slot_count s cursor remaining"
    have disp: "cursor - sl_offset s < ucast (sl_size s)" "sl_offset s \<le> cursor" using found keep by simp_all
    note bounds = slot_count_bounds [OF disp(1) rem]
    show ?thesis
    proof (cases "sl_state s = Slot_ready")
      case False
      then show ?thesis using less.prems(2) ssok unfolding copy_slots_Cons [OF rem i aw] by auto
    next
      case True
      note chunk = slot_chunk [OF assms(2) sok True disp(2) disp(1), of remaining]
      obtain r1 ss1 w2 where rest: "copy_slots os (ss[i := s]) (cursor + ucast ?c) (remaining - ?c) w1 = (r1, ss1, w2)"
        by (metis prod_cases3)
      have ih: "list_all (slot_ok content virt) ss1 \<and>
          (\<forall>bs. r1 = Some bs \<longrightarrow> bs = take (unat (remaining - ?c)) (drop (unat (cursor + ucast ?c)) virt) \<and>
                               length bs = unat (remaining - ?c))"
        by (rule less.hyps [OF _ ssok rest]) (use bounds in simp)
      have step: "(r, ss', w') =
          (case r1 of None \<Rightarrow> (None, ss1, w2)
           | Some bs \<Rightarrow> (Some (take (unat ?c) (drop (unat (cursor - sl_offset s)) (sl_bytes s)) @ bs), ss1, w2))"
        using less.prems(2) True unfolding copy_slots_Cons [OF rem i aw] Let_def rest by (auto split: option.splits)
      show ?thesis
      proof (cases r1)
        case None
        then show ?thesis using ih step by simp
      next
        case (Some bs)
        have "take (unat remaining) (drop (unat cursor) virt) =
            take (unat ?c) (drop (unat cursor) virt) @ take (unat remaining - unat ?c) (drop (unat cursor + unat ?c) virt)"
          using take_add [of "unat ?c" "unat remaining - unat ?c" "drop (unat cursor) virt"] bounds(2)
          by (simp add: add.commute)
        moreover have bs: "bs = take (unat remaining - unat ?c) (drop (unat cursor + unat ?c) virt)"
          "length bs = unat remaining - unat ?c"
          using ih Some unfolding chunk(3) bounds(3) by blast+
        ultimately have r: "r = Some (take (unat remaining) (drop (unat cursor) virt))"
          and len: "length (take (unat remaining) (drop (unat cursor) virt)) = unat ?c + length bs"
          using step Some chunk(1,2) by (simp_all del: length_take add: length_take [of "unat ?c"])
        have "ss' = ss1" using step Some by simp
        then show ?thesis using ih len bounds(2) unfolding r bs(2) by auto
      qed
    qed
  qed
qed

text \<open>What the prefetcher hands out is the requested stretch of the stream.\<close>

lemma consume_exact:
  assumes "honest_reads os content" "pf_ok content virt p" "prefetch_consume os p offset n tr w = (r, p', tr', w')"
  shows "pf_ok content virt p' \<and>
    (\<forall>bs. r = Some bs \<longrightarrow> bs = take (unat n) (drop (unat offset) virt) \<and> length bs = unat n)"
proof -
  have small: "length virt < 2 ^ 64"
    using assms(2) unat_bound [of "pf_virtual_size p"] by (simp add: pf_ok_def)
  obtain r1 ss w1 where c: "copy_slots os (pf_slots p) offset n w = (r1, ss, w1)" by (metis prod_cases3)
  have "list_all (slot_ok content virt) (pf_slots p)" using assms(2) by (simp add: pf_ok_def)
  from copy_slots_exact [OF assms(1) small this c] show ?thesis
    using assms(2,3) c by (auto simp: prefetch_consume_def pf_ok_def split: if_splits option.splits)
qed

section \<open>The interface of a stream\<close>

text \<open>
  A stream that reads ahead promises that the source it resolves an offset to holds the bytes of the
  stream from that offset on, for as long as the source is said to be.
\<close>

locale prefetch_client =
  fixes resolve :: "'s \<Rightarrow> resolver"
    and virtual :: "'s \<Rightarrow> u8 list"
    and wf :: "'s \<Rightarrow> bool"
    and content :: "wstring \<Rightarrow> u8 list"
  assumes resolve_ok: "wf s \<Longrightarrow> unat off < length (virtual s) \<Longrightarrow> resolve s off = Some src \<Longrightarrow>
    take (unat (src_length src)) (file_bytes content (src_path src) (src_offset src)) =
    take (unat (src_length src)) (drop (unat off) (virtual s))"
begin

lemma submit_slot_ok:
  assumes "wf s" "honest_reads os content" "resolve s next = Some src" "sl_file x = src_path src"
    and "unat vsize = length (virtual s)" "next < vsize" "sl_state x = Slot_empty"
  shows "slot_ok content (virtual s) (fst (submit_slot os window vsize next src x w))"
proof -
  let ?n = "ucast (min (ucast window) (min (src_length src) (vsize - next)) :: u64) :: u32"
  have rest: "unat (vsize - next) = unat vsize - unat next"
    using assms(6) by (simp add: unat_sub less_imp_le)
  have "unat (min (ucast window) (min (src_length src) (vsize - next)) :: u64) =
      min (unat window) (min (unat (src_length src)) (unat vsize - unat next))"
    by (simp add: min_def word_le_nat_alt ucast_less_64 rest)
  then have n: "unat ?n = min (unat window) (min (unat (src_length src)) (unat vsize - unat next))"
    using unat_bound [of window] by (simp add: unat_ucast_small)
  have off: "unat next < length (virtual s)" using assms(5,6) by (simp add: word_less_nat_alt)
  have "take (unat ?n) (file_bytes content (src_path src) (src_offset src)) =
      take (unat ?n) (take (unat (src_length src)) (file_bytes content (src_path src) (src_offset src)))"
    unfolding take_take using n by (simp add: min_absorb1)
  also have "\<dots> = take (unat ?n) (drop (unat next) (virtual s))"
    unfolding resolve_ok [OF assms(1) off assms(3)] take_take using n by (simp add: min_absorb1)
  finally have bytes: "take (unat ?n) (file_bytes content (src_path src) (src_offset src)) =
      take (unat ?n) (drop (unat next) (virtual s))" .
  moreover have "unat next + unat ?n \<le> length (virtual s)" using n off assms(5) by linarith
  ultimately show ?thesis
    using assms(4) honest_submit [OF assms(2)]
    by (auto simp: submit_slot_def slot_ok_def sl_file_def Let_def split: prod.splits submit_answer.splits)
qed

lemma open_slot_keeps:
  "sl_state (fst (open_slot os src (x, w))) = sl_state x" "sl_file (fst (open_slot os src (x, w))) = src_path src"
  by (auto simp: open_slot_def sl_file_def split: prod.split)

lemma submit_slots_ok:
  assumes "wf s" "honest_reads os content" "unat vsize = length (virtual s)"
  shows "list_all (slot_ok content (virtual s)) ss \<Longrightarrow>
    list_all (slot_ok content (virtual s)) (fst (snd (submit_slots os (resolve s) window vsize ss nx tr w)))"
proof (induction ss arbitrary: nx tr w)
  case (Cons x xs)
  have rest: "list_all (slot_ok content (virtual s)) (fst (snd (submit_slots os (resolve s) window vsize xs nx' tr' w')))"
    for nx' tr' w' using Cons by simp
  show ?case
  proof (cases "sl_state x \<noteq> Slot_empty \<or> nx \<ge> vsize")
    case True
    then show ?thesis using Cons.prems rest [of nx tr w] by (auto split: prod.split)
  next
    case False
    then have e: "sl_state x = Slot_empty" "nx < vsize" "\<not> vsize \<le> nx" by auto
    show ?thesis
    proof (cases "resolve s nx")
      case None
      then show ?thesis using Cons.prems e by simp
    next
      case (Some src)
      obtain x1 w1 where o: "open_slot os src (x, w) = (x1, w1)" by (cases "open_slot os src (x, w)")
      have x1: "sl_state x1 = Slot_empty" "sl_file x1 = src_path src"
        using open_slot_keeps [of os src x w] o e by simp_all
      have "slot_ok content (virtual s) (fst (submit_slot os window vsize nx src x1 w'))" for w'
        using submit_slot_ok [OF assms(1,2) Some x1(2) assms(3) e(2) x1(1)] .
      then show ?thesis
        using Cons.prems e Some o x1 rest by (auto split: prod.split if_splits) (metis fst_conv snd_conv)+
    qed
  qed
qed simp

lemma advance_ok:
  assumes "wf s" "honest_reads os content" "pf_ok content (virtual s) p"
  shows "pf_ok content (virtual s) (fst (snd (prefetch_advance os (resolve s) stop p tr w)))"
proof -
  obtain ss w1 where r: "retire_read os stop (pf_slots p) w = (ss, w1)" by (cases "retire_read os stop (pf_slots p) w")
  have "list_all (slot_ok content (virtual s)) ss"
    using retire_read_ok [of content "virtual s" "pf_slots p" os stop w] assms(3) r by (simp add: pf_ok_def)
  from submit_slots_ok [OF assms(1,2) _ this, of "pf_virtual_size p" "pf_window p"] show ?thesis
    using assms(3) r by (auto simp: prefetch_advance_def pf_ok_def Let_def split: prod.split) (metis fst_conv snd_conv)+
qed

lemma advance_safely_ok:
  assumes "wf s" "honest_reads os content" "pf_ok content (virtual s) p"
  shows "pf_ok content (virtual s) (fst (advance_safely os (resolve s) stop p tr w))"
proof -
  obtain ok p' tr' w' where a: "prefetch_advance os (resolve s) stop p tr w = (ok, p', tr', w')" by (metis prod_cases4)
  then have p': "pf_ok content (virtual s) p'" using advance_ok [OF assms, of stop tr w] by simp
  show ?thesis
    using p' close_prefetcher_ok [OF p', of os w'] a by (cases ok) (auto simp: advance_safely_def split: prod.split)
qed

end

end
