(* ===== verification/Input_Streams.thy ===== *)
theory Input_Streams
  imports Input_Prefetch
begin

text \<open>
  The input streams handed to 7-Zip (\<^verbatim>\<open>sevenzip_streams.hpp\<close>, \<^verbatim>\<open>sevenzip_streams.cpp\<close>): one file, the volumes
  of an archive one after the other, and ranges of files one after the other; the choice between them
  (\<^verbatim>\<open>open_archive_stream\<close>); and the proof that each of them reads the bytes of its virtual file.

  A stream holds its handle as the file pointer of that handle. The two concatenating classes have the
  same body up to the start of a part, which is 0 for a whole file; one group of definitions models both.
  A null buffer is not modelled.
\<close>

section \<open>Notes in the trace\<close>

definition trace_begin :: "u64 \<Rightarrow> u64 \<Rightarrow> u32 \<Rightarrow> wstring \<Rightarrow> u32 \<Rightarrow> input_trace \<Rightarrow> input_trace" where
  "trace_begin voff soff requested path index t =
     t\<lparr>it_last_virtual_offset := voff, it_last_source_offset := soff, it_last_requested := requested,
       it_last_returned := 0, it_last_source_path := path, it_last_range_index := index\<rparr>"

definition trace_done :: "u64 \<Rightarrow> u32 \<Rightarrow> input_trace \<Rightarrow> input_trace" where
  "trace_done pos returned t =
     t\<lparr>it_position := pos, it_max_position_seen := max (it_max_position_seen t) pos,
       it_total_bytes_returned := it_total_bytes_returned t + ucast returned,
       it_last_returned := returned, it_last_hresult := s_ok, it_last_win32_error := 0\<rparr>"

definition trace_error :: "hresult \<Rightarrow> u32 \<Rightarrow> input_trace \<Rightarrow> input_trace" where
  "trace_error hr e t = t\<lparr>it_read_error := True, it_last_hresult := hr, it_last_win32_error := e\<rparr>"

definition trace_seek :: "u64 \<Rightarrow> u32 \<Rightarrow> u64 \<Rightarrow> input_trace \<Rightarrow> input_trace" where
  "trace_seek offset origin pos t =
     t\<lparr>it_position := pos, it_max_position_seen := max (it_max_position_seen t) pos,
       it_last_seek_offset := offset, it_last_seek_origin := origin, it_last_seek_new_position := pos,
       it_last_hresult := s_ok, it_last_win32_error := 0\<rparr>"

definition trace_seek_failed :: "u64 \<Rightarrow> u32 \<Rightarrow> hresult \<Rightarrow> u32 \<Rightarrow> input_trace \<Rightarrow> input_trace" where
  "trace_seek_failed offset origin hr e t =
     t\<lparr>it_last_seek_offset := offset, it_last_seek_origin := origin, it_last_hresult := hr, it_last_win32_error := e\<rparr>"

abbreviation (input) FILE_BEGIN :: u32 where "FILE_BEGIN \<equiv> 0"
abbreviation (input) FILE_CURRENT :: u32 where "FILE_CURRENT \<equiv> 1"
abbreviation (input) FILE_END :: u32 where "FILE_END \<equiv> 2"
abbreviation (input) ERROR_INVALID_HANDLE :: u32 where "ERROR_INVALID_HANDLE \<equiv> 6"

section \<open>One file\<close>

record file_stream =
  fs_path :: wstring
  fs_handle :: "u64 option"
  fs_position :: u64
  fs_size :: u64
  fs_dirty :: bool
  fs_prefetch :: "prefetcher option"
  fs_trace :: "input_trace option"

definition file_resolve :: "file_stream \<Rightarrow> resolver" where
  "file_resolve s off =
     Some \<lparr>src_ref = 0, src_path = fs_path s, src_offset = off, src_length = fs_size s - off\<rparr>"

definition note_prefetch :: "'w file_os \<Rightarrow> prefetcher option \<Rightarrow> input_trace option \<Rightarrow> input_trace option" where
  "note_prefetch os pf =
     profile os (\<lambda>t. t\<lparr>it_prefetch_enabled := (case pf of None \<Rightarrow> False | Some p \<Rightarrow> pf_enabled p)\<rparr>)"

definition new_file_stream ::
  "'w file_os \<Rightarrow> wstring \<Rightarrow> input_trace option \<Rightarrow> wstring \<Rightarrow> prefetch_config \<Rightarrow> 'w \<Rightarrow> file_stream \<times> 'w" where
  "new_file_stream os path tr mode config w =
     (case os_open os (win32_extended_path path) w of (opened, w1) \<Rightarrow>
        (case (case opened of Inl _ \<Rightarrow> (None, w1) | Inr _ \<Rightarrow> os_size os path w1) of (got, w2) \<Rightarrow>
           let n = (case got of None \<Rightarrow> 0 | Some k \<Rightarrow> k);
               tr1 = map_option (\<lambda>t0.
                 let t = t0\<lparr>it_mode := mode, it_last_source_path := path\<rparr>
                 in case opened of
                      Inr _ \<Rightarrow> if n \<noteq> 0 then t\<lparr>it_virtual_size := n\<rparr> else t
                    | Inl e \<Rightarrow> trace_error (hresult_from_win32 e) e t) tr
           in case (if n \<noteq> 0 \<and> pc_enabled config
                    then (case new_prefetcher os config n w2 of (p, w') \<Rightarrow> (Some p, w')) else (None, w2)) of
                (pf, w3) \<Rightarrow>
                  (\<lparr>fs_path = path, fs_handle = (case opened of Inl _ \<Rightarrow> None | Inr _ \<Rightarrow> Some 0), fs_position = 0,
                    fs_size = n, fs_dirty = False, fs_prefetch = pf, fs_trace = note_prefetch os pf tr1\<rparr>, w3)))"

definition file_is_open :: "file_stream \<Rightarrow> bool" where
  "file_is_open s \<longleftrightarrow> fs_handle s \<noteq> None"

text \<open>The question to the prefetcher; without one there is no answer.\<close>

definition ask_prefetch ::
  "'w file_os \<Rightarrow> prefetcher option \<Rightarrow> u64 \<Rightarrow> u32 \<Rightarrow> input_trace option \<Rightarrow> 'w \<Rightarrow>
   u8 list option \<times> prefetcher option \<times> input_trace option \<times> 'w" where
  "ask_prefetch os pf pos n tr w =
     (case pf of None \<Rightarrow> (None, None, tr, w)
      | Some p \<Rightarrow> (case prefetch_consume os p pos n tr w of (r, p', tr', w') \<Rightarrow> (r, Some p', tr', w')))"

text \<open>\<^verbatim>\<open>after_sync_read\<close> and \<^verbatim>\<open>after_cached_read\<close>.\<close>

definition after_read ::
  "'w file_os \<Rightarrow> resolver \<Rightarrow> u64 \<Rightarrow> prefetcher option \<Rightarrow> input_trace option \<Rightarrow> 'w \<Rightarrow>
   prefetcher option \<times> input_trace option \<times> 'w" where
  "after_read os resolve pos pf tr w =
     (case pf of None \<Rightarrow> (None, tr, w)
      | Some p \<Rightarrow> (case advance_safely os resolve pos p tr w of (p', tr', w') \<Rightarrow> (Some p', tr', w')))"

definition after_seek ::
  "'w file_os \<Rightarrow> u64 \<Rightarrow> u64 \<Rightarrow> prefetcher option \<Rightarrow> input_trace option \<Rightarrow> 'w \<Rightarrow>
   prefetcher option \<times> input_trace option \<times> 'w" where
  "after_seek os from to pf tr w =
     (case pf of None \<Rightarrow> (None, tr, w)
      | Some p \<Rightarrow>
          if from = to then (Some p, tr, w)
          else case prefetch_invalidate os to p tr w of (p', tr', w') \<Rightarrow> (Some p', tr', w'))"

definition handle_seek ::
  "'w file_os \<Rightarrow> wstring \<Rightarrow> u64 option \<Rightarrow> u64 \<Rightarrow> u32 \<Rightarrow> 'w \<Rightarrow> (u32 + u64) \<times> 'w" where
  "handle_seek os path h distance origin w =
     (case h of None \<Rightarrow> (Inl ERROR_INVALID_HANDLE, w) | Some ptr \<Rightarrow> os_seek os path ptr distance origin w)"

definition handle_read :: "'w file_os \<Rightarrow> wstring \<Rightarrow> u64 option \<Rightarrow> u32 \<Rightarrow> 'w \<Rightarrow> (u32 + u8 list) \<times> 'w" where
  "handle_read os path h n w =
     (case h of None \<Rightarrow> (Inl ERROR_INVALID_HANDLE, w) | Some ptr \<Rightarrow> file_read os path ptr n w)"

abbreviation count32 :: "u8 list \<Rightarrow> u32" where
  "count32 bs \<equiv> of_nat (length bs)"

text \<open>The part of \<^verbatim>\<open>FileInStream::Read\<close> after the file pointer is right: a call of \<^verbatim>\<open>ReadFile\<close> and its bookkeeping.\<close>

definition file_read_direct ::
  "'w file_os \<Rightarrow> u32 \<Rightarrow> file_stream \<Rightarrow> 'w \<Rightarrow> (hresult + u8 list) \<times> file_stream \<times> 'w" where
  "file_read_direct os n s w =
     (case handle_read os (fs_path s) (fs_handle s) n w of
        (Inl e, w1) \<Rightarrow>
          (Inl (hresult_from_win32 e),
           s\<lparr>fs_trace := map_option (trace_error (hresult_from_win32 e) e) (count_read_file os (fs_trace s))\<rparr>, w1)
      | (Inr bs, w1) \<Rightarrow>
          let start = fs_position s; pos = start + ucast (count32 bs);
              s1 = s\<lparr>fs_position := pos, fs_handle := map_option (\<lambda>h. h + ucast (count32 bs)) (fs_handle s)\<rparr>;
              tr1 = count_read_file os (fs_trace s)
          in case (if bs \<noteq> [] then after_read os (file_resolve s1) pos (fs_prefetch s) tr1 w1
                   else (fs_prefetch s, tr1, w1)) of
               (pf, tr2, w2) \<Rightarrow>
                 (Inr bs,
                  s1\<lparr>fs_prefetch := pf,
                     fs_trace := map_option (trace_done pos (count32 bs)) (record_logical_read os start (count32 bs) tr2)\<rparr>,
                  w2))"

definition file_stream_read ::
  "'w file_os \<Rightarrow> u32 \<Rightarrow> file_stream \<Rightarrow> 'w \<Rightarrow> (hresult + u8 list) \<times> file_stream \<times> 'w" where
  "file_stream_read os n s w =
     (let start = fs_position s;
          tr0 = map_option (trace_begin start start n (fs_path s) 0) (fs_trace s)
      in case ask_prefetch os (fs_prefetch s) start n tr0 w of
           (Some bs, pf, tr1, w1) \<Rightarrow>
             let pos = start + ucast n; s1 = s\<lparr>fs_position := pos, fs_dirty := True\<rparr>
             in (case after_read os (file_resolve s1) pos pf (record_logical_read os start n tr1) w1 of
                   (pf', tr2, w2) \<Rightarrow>
                     (Inr bs, s1\<lparr>fs_prefetch := pf', fs_trace := map_option (trace_done pos n) tr2\<rparr>, w2))
         | (None, pf, tr1, w1) \<Rightarrow>
             let s1 = s\<lparr>fs_prefetch := pf, fs_trace := tr1\<rparr>
             in if fs_dirty s1 \<and> n \<noteq> 0 then
                  (case handle_seek os (fs_path s1) (fs_handle s1) start FILE_BEGIN w1 of
                     (Inl e, w2) \<Rightarrow>
                       (Inl (hresult_from_win32 e), s1\<lparr>fs_trace := map_option (trace_error (hresult_from_win32 e) e) tr1\<rparr>, w2)
                   | (Inr ptr, w2) \<Rightarrow> file_read_direct os n (s1\<lparr>fs_handle := Some ptr, fs_dirty := False\<rparr>) w2)
                else file_read_direct os n s1 w1)"

text \<open>
  A relative seek starts from the logical position, so a stale file pointer is corrected first. The
  result is the new position, \<open>Inl\<close> the error.
\<close>

definition file_stream_seek ::
  "'w file_os \<Rightarrow> u64 \<Rightarrow> u32 \<Rightarrow> file_stream \<Rightarrow> 'w \<Rightarrow> (hresult + u64) \<times> file_stream \<times> 'w" where
  "file_stream_seek os offset origin s w =
     (case (if fs_dirty s \<and> origin = FILE_CURRENT
            then handle_seek os (fs_path s) (fs_handle s) (fs_position s) FILE_BEGIN w
            else (Inr (case fs_handle s of None \<Rightarrow> 0 | Some h \<Rightarrow> h), w)) of
        (Inl e, w1) \<Rightarrow>
          (Inl (hresult_from_win32 e),
           s\<lparr>fs_trace := map_option (trace_seek_failed offset origin (hresult_from_win32 e) e) (fs_trace s)\<rparr>, w1)
      | (Inr ptr, w1) \<Rightarrow>
          let s1 = s\<lparr>fs_handle := map_option (\<lambda>_. ptr) (fs_handle s)\<rparr>
          in case handle_seek os (fs_path s1) (fs_handle s1) offset origin w1 of
               (Inl e, w2) \<Rightarrow>
                 (Inl (hresult_from_win32 e),
                  s1\<lparr>fs_trace := map_option (trace_seek_failed offset origin (hresult_from_win32 e) e) (fs_trace s)\<rparr>, w2)
             | (Inr pos, w2) \<Rightarrow>
                 (case after_seek os (fs_position s) pos (fs_prefetch s)
                         (record_logical_seek os (fs_position s) pos (fs_trace s)) w2 of
                    (pf, tr, w3) \<Rightarrow>
                      (Inr pos,
                       s1\<lparr>fs_handle := Some pos, fs_position := pos, fs_dirty := False, fs_prefetch := pf,
                          fs_trace := map_option (trace_seek offset origin pos) tr\<rparr>, w3)))"

section \<open>Several files or ranges\<close>

text \<open>A part of the virtual file: where it comes from, how long it is and where it starts in the whole.\<close>

record part =
  pt_path :: wstring
  pt_start :: u64
  pt_length :: u64
  pt_offset :: u64

text \<open>The cached handle is the index of the part it belongs to and its file pointer.\<close>

record multi_stream =
  ms_ranges :: bool
  ms_parts :: "part list"
  ms_total :: u64
  ms_position :: u64
  ms_valid :: bool
  ms_handle :: "(nat \<times> u64) option"
  ms_prefetch :: "prefetcher option"
  ms_trace :: "input_trace option"

text \<open>The table of \<^verbatim>\<open>MultiFileInStream\<close>: a file whose size cannot be read makes the stream invalid.\<close>

fun file_parts :: "'w file_os \<Rightarrow> wstring list \<Rightarrow> u64 \<Rightarrow> 'w \<Rightarrow> part list \<times> u64 \<times> bool \<times> 'w" where
  "file_parts os [] sofar w = ([], sofar, True, w)"
| "file_parts os (p # ps) sofar w =
     (case os_size os p w of
        (Some n, w1) \<Rightarrow>
          (case file_parts os ps (sofar + n) w1 of
             (parts, t, ok, w2) \<Rightarrow> (\<lparr>pt_path = p, pt_start = 0, pt_length = n, pt_offset = sofar\<rparr> # parts, t, ok, w2))
      | (None, w1) \<Rightarrow>
          (case file_parts os ps sofar w1 of
             (parts, t, ok, w2) \<Rightarrow> (\<lparr>pt_path = p, pt_start = 0, pt_length = 0, pt_offset = sofar\<rparr> # parts, t, False, w2)))"

text \<open>The table of \<^verbatim>\<open>MultiRangeInStream\<close>: ranges are clipped to their file, empty ones are dropped.\<close>

fun range_parts :: "'w file_os \<Rightarrow> input_range list \<Rightarrow> u64 \<Rightarrow> 'w \<Rightarrow> part list \<times> u64 \<times> bool \<times> 'w" where
  "range_parts os [] sofar w = ([], sofar, True, w)"
| "range_parts os (r # rs) sofar w =
     (if ir_path r = [] then (case range_parts os rs sofar w of (parts, t, _, w2) \<Rightarrow> (parts, t, False, w2))
      else case os_size os (ir_path r) w of
        (None, w1) \<Rightarrow> (case range_parts os rs sofar w1 of (parts, t, _, w2) \<Rightarrow> (parts, t, False, w2))
      | (Some fsize, w1) \<Rightarrow>
          let start = min (ir_start r) fsize;
              stop = (if ir_has_end r then min (ir_end r) fsize else fsize)
          in if stop < start then (case range_parts os rs sofar w1 of (parts, t, _, w2) \<Rightarrow> (parts, t, False, w2))
             else let n = stop - start
               in if n = 0 then range_parts os rs sofar w1
                  else case range_parts os rs (sofar + n) w1 of
                    (parts, t, ok, w2) \<Rightarrow>
                      (\<lparr>pt_path = ir_path r, pt_start = start, pt_length = n, pt_offset = sofar\<rparr> # parts, t, ok, w2))"

text \<open>What the two constructors do with their table.\<close>

definition finish_multi ::
  "'w file_os \<Rightarrow> bool \<Rightarrow> part list \<Rightarrow> u64 \<Rightarrow> bool \<Rightarrow> wstring \<Rightarrow> input_trace option \<Rightarrow> prefetch_config \<Rightarrow> 'w \<Rightarrow>
   multi_stream \<times> 'w" where
  "finish_multi os ranges parts total_size ok mode tr config w =
     (let valid = (ok \<and> parts \<noteq> []);
          tr1 = map_option (\<lambda>t. t\<lparr>it_mode := mode, it_virtual_size := total_size\<rparr>) tr
      in case (if valid \<and> total_size \<noteq> 0 \<and> pc_enabled config
               then (case new_prefetcher os config total_size w of (p, w') \<Rightarrow> (Some p, w')) else (None, w)) of
           (pf, w1) \<Rightarrow>
             (\<lparr>ms_ranges = ranges, ms_parts = parts, ms_total = total_size, ms_position = 0, ms_valid = valid,
               ms_handle = None, ms_prefetch = pf, ms_trace = note_prefetch os pf tr1\<rparr>, w1))"

definition new_multi_file_stream ::
  "'w file_os \<Rightarrow> wstring list \<Rightarrow> input_trace option \<Rightarrow> prefetch_config \<Rightarrow> 'w \<Rightarrow> multi_stream \<times> 'w" where
  "new_multi_file_stream os paths tr config w =
     (case file_parts os paths 0 w of
        (parts, t, ok, w1) \<Rightarrow> finish_multi os False parts t ok (wide ''multi_file'') tr config w1)"

definition new_multi_range_stream ::
  "'w file_os \<Rightarrow> input_range list \<Rightarrow> input_trace option \<Rightarrow> prefetch_config \<Rightarrow> 'w \<Rightarrow> multi_stream \<times> 'w" where
  "new_multi_range_stream os ranges tr config w =
     (case range_parts os ranges 0 w of
        (parts, t, ok, w1) \<Rightarrow>
          finish_multi os True parts t ok (if length parts = 1 then wide ''file_range'' else wide ''concat_ranges'') tr config w1)"

definition multi_is_open :: "multi_stream \<Rightarrow> bool" where
  "multi_is_open s \<longleftrightarrow> ms_valid s"

text \<open>
  \<^verbatim>\<open>find_part_index\<close> and \<^verbatim>\<open>find_range_index\<close>: \<^verbatim>\<open>upper_bound\<close> on the starting offsets, one step back, and the
  position has to lie within the part.
\<close>

definition find_part_index :: "part list \<Rightarrow> u64 \<Rightarrow> nat option" where
  "find_part_index parts pos =
     (let upper = length (takeWhile (\<lambda>p. pt_offset p \<le> pos) parts)
      in if upper = 0 then None
         else let i = upper - 1
              in if pos - pt_offset (parts ! i) < pt_length (parts ! i) then Some i else None)"

definition multi_resolve :: "multi_stream \<Rightarrow> resolver" where
  "multi_resolve s off =
     (case find_part_index (ms_parts s) off of
        None \<Rightarrow> None
      | Some i \<Rightarrow>
          let p = ms_parts s ! i; d = off - pt_offset p
          in Some \<lparr>src_ref = i, src_path = pt_path p, src_offset = pt_start p + d, src_length = pt_length p - d\<rparr>)"

definition ensure_cached_handle ::
  "'w file_os \<Rightarrow> nat \<Rightarrow> multi_stream \<Rightarrow> 'w \<Rightarrow> u32 option \<times> multi_stream \<times> 'w" where
  "ensure_cached_handle os i s w =
     (case ms_handle s of
        Some (j, ptr) \<Rightarrow> if j = i then (None, s, w) else
          (case os_open os (win32_extended_path (pt_path (ms_parts s ! i))) w of
             (Inl e, w1) \<Rightarrow> (Some e, s\<lparr>ms_handle := None\<rparr>, w1)
           | (Inr _, w1) \<Rightarrow> (None, s\<lparr>ms_handle := Some (i, 0)\<rparr>, w1))
      | None \<Rightarrow>
          (case os_open os (win32_extended_path (pt_path (ms_parts s ! i))) w of
             (Inl e, w1) \<Rightarrow> (Some e, s\<lparr>ms_handle := None\<rparr>, w1)
           | (Inr _, w1) \<Rightarrow> (None, s\<lparr>ms_handle := Some (i, 0)\<rparr>, w1)))"

definition multi_fail :: "u32 \<Rightarrow> multi_stream \<Rightarrow> multi_stream" where
  "multi_fail e s = s\<lparr>ms_trace := map_option (trace_error (hresult_from_win32 e) e) (ms_trace s)\<rparr>"

definition multi_pointer :: "multi_stream \<Rightarrow> u64" where
  "multi_pointer s = (case ms_handle s of None \<Rightarrow> 0 | Some (_, ptr) \<Rightarrow> ptr)"

text \<open>The handle moves to where the part is read next.\<close>

definition position_handle ::
  "'w file_os \<Rightarrow> nat \<Rightarrow> u64 \<Rightarrow> multi_stream \<Rightarrow> 'w \<Rightarrow> u32 option \<times> multi_stream \<times> 'w" where
  "position_handle os i soff s w =
     (if multi_pointer s \<noteq> soff then
        (case os_seek os (pt_path (ms_parts s ! i)) (multi_pointer s) soff FILE_BEGIN w of
           (Inl e, w1) \<Rightarrow> (Some e, s\<lparr>ms_handle := None\<rparr>, w1)
         | (Inr _, w1) \<Rightarrow> (None, s\<lparr>ms_handle := Some (i, soff)\<rparr>, w1))
      else (None, s, w))"

text \<open>
  One round of the loop of \<^verbatim>\<open>Read\<close> in part \<open>i\<close>: the error, or the bytes (none where the loop ends).
\<close>

definition read_part ::
  "'w file_os \<Rightarrow> nat \<Rightarrow> u32 \<Rightarrow> u64 \<Rightarrow> multi_stream \<Rightarrow> 'w \<Rightarrow> (u32 + u8 list) \<times> multi_stream \<times> 'w" where
  "read_part os i want soff s0 w =
     (let p = ms_parts s0 ! i;
          s = s0\<lparr>ms_trace := map_option (trace_begin (ms_position s0) soff want (pt_path p) (of_nat i)) (ms_trace s0)\<rparr>
      in case ensure_cached_handle os i s w of
           (Some e, s1, w1) \<Rightarrow> (Inl e, multi_fail e s1, w1)
         | (None, s1, w1) \<Rightarrow>
             (case position_handle os i soff s1 w1 of
                (Some e, s2, w2) \<Rightarrow> (Inl e, multi_fail e s2, w2)
              | (None, s2, w2) \<Rightarrow>
                  (case file_read os (pt_path p) (multi_pointer s2) want w2 of
                     (Inl e, w3) \<Rightarrow>
                       (Inl e, multi_fail e (s2\<lparr>ms_handle := None, ms_trace := count_read_file os (ms_trace s2)\<rparr>), w3)
                   | (Inr bs, w3) \<Rightarrow>
                       let s3 = s2\<lparr>ms_trace := count_read_file os (ms_trace s2)\<rparr>;
                           pos = ms_position s3 + ucast (count32 bs)
                       in if bs = [] then (Inr [], s3, w3)
                          else (Inr bs,
                                s3\<lparr>ms_position := pos, ms_handle := Some (i, multi_pointer s3 + ucast (count32 bs)),
                                   ms_trace := map_option (trace_done pos (count32 bs)) (ms_trace s3)\<rparr>,
                                w3))))"

lemma read_part_length: "read_part os i want soff s w = (Inr bs, s', w') \<Longrightarrow> length bs \<le> unat want"
  by (auto simp: read_part_def file_read_def Let_def split: prod.splits option.splits sum.splits if_splits)

definition multi_want :: "part \<Rightarrow> u64 \<Rightarrow> u32 \<Rightarrow> u32" where
  "multi_want p pos remaining = ucast (min (ucast remaining) (pt_length p - (pos - pt_offset p)) :: u64)"

lemma unat_multi_want:
  "unat (multi_want p pos remaining) = min (unat remaining) (unat (pt_length p - (pos - pt_offset p)))"
proof -
  have "unat (min (ucast remaining) (pt_length p - (pos - pt_offset p)) :: u64) =
      min (unat remaining) (unat (pt_length p - (pos - pt_offset p)))"
    unfolding min_def word_le_nat_alt by (simp add: ucast_less_64)
  then show ?thesis
    unfolding multi_want_def using unat_bound [of remaining] by (simp add: unat_ucast_small)
qed

lemma unat_minus_count32:
  "length bs \<le> unat (r :: u32) \<Longrightarrow> unat (r - count32 bs) = unat r - length bs"
proof -
  assume le: "length bs \<le> unat r"
  then have "unat (count32 bs) = length bs"
    using unat_bound [of r] by (simp add: unat_of_nat)
  then show ?thesis using le by (simp add: unat_sub word_le_nat_alt)
qed

function multi_loop ::
  "'w file_os \<Rightarrow> u32 \<Rightarrow> multi_stream \<Rightarrow> 'w \<Rightarrow> (u32 + u8 list) \<times> multi_stream \<times> 'w" where
  "multi_loop os remaining s w =
     (if remaining = 0 \<or> \<not> ms_position s < ms_total s then (Inr [], s, w)
      else case find_part_index (ms_parts s) (ms_position s) of
             None \<Rightarrow> (Inr [], s, w)
           | Some i \<Rightarrow>
               (let p = ms_parts s ! i;
                    want = multi_want p (ms_position s) remaining;
                    soff = pt_start p + (ms_position s - pt_offset p)
                in if \<not> ms_ranges s \<and> want = 0 then (Inr [], s, w)
                   else case read_part os i want soff s w of
                          (Inl e, s1, w1) \<Rightarrow> (Inl e, s1, w1)
                        | (Inr bs, s1, w1) \<Rightarrow>
                            if bs = [] then (Inr [], s1, w1)
                            else (case multi_loop os (remaining - count32 bs) s1 w1 of
                                    (Inl e, r) \<Rightarrow> (Inl e, r)
                                  | (Inr cs, r) \<Rightarrow> (Inr (bs @ cs), r))))"
  by pat_completeness auto

termination
proof (relation "measure (\<lambda>(os, remaining, s, w). unat remaining)", goal_cases)
  case 1
  show ?case by simp
next
  case (2 os remaining s w i p want soff r y bs s1 w1)
  then have "read_part os i want soff s w = (Inr bs, s1, w1)" "want = multi_want p (ms_position s) remaining" by auto
  then have "length bs \<le> unat remaining"
    using read_part_length [of os i want soff s w bs s1 w1] unat_multi_want [of p "ms_position s" remaining] by simp
  then show ?case using 2 by (simp add: unat_minus_count32 unat_gt_0)
qed

declare multi_loop.simps [simp del]

definition multi_stream_read ::
  "'w file_os \<Rightarrow> u32 \<Rightarrow> multi_stream \<Rightarrow> 'w \<Rightarrow> (hresult + u8 list) \<times> multi_stream \<times> 'w" where
  "multi_stream_read os n s w =
     (if \<not> ms_valid s then (Inl e_fail, s, w)
      else let start = ms_position s
        in case ask_prefetch os (ms_prefetch s) start n (ms_trace s) w of
             (Some bs, pf, tr1, w1) \<Rightarrow>
               let pos = start + ucast n; s1 = s\<lparr>ms_position := pos\<rparr>
               in (case after_read os (multi_resolve s1) pos pf (record_logical_read os start n tr1) w1 of
                     (pf', tr2, w2) \<Rightarrow>
                       let tr3 = map_option (\<lambda>t.
                             trace_done pos n
                               (case find_part_index (ms_parts s) start of
                                  None \<Rightarrow> trace_begin start 0 n [] (of_nat (length (ms_parts s))) t
                                | Some i \<Rightarrow>
                                    trace_begin start (pt_start (ms_parts s ! i) + (start - pt_offset (ms_parts s ! i))) n
                                      (pt_path (ms_parts s ! i)) (of_nat i) t)) tr2
                       in (Inr bs, s1\<lparr>ms_prefetch := pf', ms_trace := tr3\<rparr>, w2))
           | (None, pf, tr1, w1) \<Rightarrow>
               (case multi_loop os n (s\<lparr>ms_prefetch := pf, ms_trace := tr1\<rparr>) w1 of
                  (Inl e, s2, w2) \<Rightarrow> (Inl (hresult_from_win32 e), s2, w2)
                | (Inr bs, s2, w2) \<Rightarrow>
                    let tr2 = record_logical_read os start (count32 bs) (ms_trace s2)
                    in case (if bs \<noteq> [] then after_read os (multi_resolve s2) (ms_position s2) (ms_prefetch s2) tr2 w2
                             else (ms_prefetch s2, tr2, w2)) of
                         (pf', tr3, w3) \<Rightarrow> (Inr bs, s2\<lparr>ms_prefetch := pf', ms_trace := tr3\<rparr>, w3)))"

text \<open>Positions are signed 64-bit here; the sum is that of the machine.\<close>

definition multi_stream_seek ::
  "'w file_os \<Rightarrow> u64 \<Rightarrow> u32 \<Rightarrow> multi_stream \<Rightarrow> 'w \<Rightarrow> (hresult + u64) \<times> multi_stream \<times> 'w" where
  "multi_stream_seek os offset origin s w =
     (let base = (if origin = FILE_CURRENT then ms_position s else if origin = FILE_END then ms_total s else 0);
          nxt = base + offset
      in if sint nxt < 0 then (Inl e_invalidarg, s, w)
         else case after_seek os (ms_position s) nxt (ms_prefetch s)
                     (record_logical_seek os (ms_position s) nxt (ms_trace s)) w of
                (pf, tr, w1) \<Rightarrow>
                  (Inr nxt,
                   s\<lparr>ms_position := nxt, ms_prefetch := pf, ms_trace := map_option (trace_seek offset origin nxt) tr\<rparr>,
                   w1))"

section \<open>Choosing the stream\<close>

datatype in_stream = File_stream file_stream | Multi_stream multi_stream

definition open_file ::
  "'w file_os \<Rightarrow> wstring \<Rightarrow> input_trace option \<Rightarrow> wstring \<Rightarrow> prefetch_config \<Rightarrow> 'w \<Rightarrow> bool \<times> in_stream \<times> 'w" where
  "open_file os path tr mode config w =
     (case new_file_stream os path tr mode config w of (s, w') \<Rightarrow> (file_is_open s, File_stream s, w'))"

definition open_volumes ::
  "'w file_os \<Rightarrow> wstring list \<Rightarrow> input_trace option \<Rightarrow> prefetch_config \<Rightarrow> 'w \<Rightarrow> bool \<times> in_stream \<times> 'w" where
  "open_volumes os paths tr config w =
     (case new_multi_file_stream os paths tr config w of (s, w') \<Rightarrow> (multi_is_open s, Multi_stream s, w'))"

definition open_archive_stream ::
  "char_tables \<Rightarrow> 'w file_os \<Rightarrow> wstring \<Rightarrow> wstring list \<Rightarrow> input_trace option \<Rightarrow> bool \<Rightarrow> prefetch_config \<Rightarrow> 'w \<Rightarrow>
   bool \<times> in_stream \<times> 'w" where
  "open_archive_stream t os archive_path part_paths tr structured_order config w =
     (let volumes = unique_existing_paths t archive_path part_paths;
          ordered = (if structured_order then volumes else sorted_data_volume_paths t volumes)
      in if is_sfx_path t archive_path then
           (if ordered \<noteq> [] \<and> is_sfx_path t (hd ordered) then open_file os (hd ordered) tr (wide ''sfx_file'') config w
            else if length ordered > 1 then open_volumes os ordered tr config w
            else if length ordered = 1 then open_file os (hd ordered) tr (wide ''file'') config w
            else open_file os archive_path tr (wide ''file'') config w)
         else let paths = (if ordered = [] then [archive_path] else ordered)
           in if length paths > 1 then open_volumes os paths tr config w
              else open_file os archive_path tr (wide ''file'') config w)"

definition callback_archive_path :: "char_tables \<Rightarrow> wstring \<Rightarrow> wstring list \<Rightarrow> wstring" where
  "callback_archive_path t archive_path part_paths =
     (if is_sfx_path t archive_path then
        (let volumes = sorted_data_volume_paths t (unique_existing_paths t archive_path part_paths)
         in if volumes \<noteq> [] \<and> is_sfx_path t (hd volumes) then hd volumes else archive_path)
      else archive_path)"

definition open_stream_for_plan ::
  "char_tables \<Rightarrow> 'w file_os \<Rightarrow> archive_open_plan \<Rightarrow> wstring \<Rightarrow> wstring list \<Rightarrow> bool \<Rightarrow> 'w \<Rightarrow>
   bool \<times> in_stream \<times> 'w" where
  "open_stream_for_plan t os plan archive_path part_paths structured_order w =
     (if uses_ranges plan then
        (case new_multi_range_stream os (pl_ranges plan) None \<lparr>pc_enabled = False, pc_window_bytes = 512 * 1024\<rparr> w of
           (s, w') \<Rightarrow> (multi_is_open s, Multi_stream s, w'))
      else open_archive_stream t os archive_path part_paths None structured_order
             \<lparr>pc_enabled = False, pc_window_bytes = 512 * 1024\<rparr> w)"

end
