(* ===== verification/Stream_Contents.thy ===== *)
theory Stream_Contents
  imports Input_Streams
begin

text \<open>
  What the input streams read. The virtual file of a stream is the content of its file, or the
  concatenation of the parts it was given; a successful read returns the next bytes of it, whether they
  come from the prefetcher or from the file, and moves the position past them. The contract is the locale
  \<open>reader\<close>; both stream classes provide it.
\<close>

section \<open>The contract of a stream\<close>

locale reader =
  fixes read :: "u32 \<Rightarrow> 's \<Rightarrow> 'w \<Rightarrow> (hresult + u8 list) \<times> 's \<times> 'w"
    and position :: "'s \<Rightarrow> u64"
    and virtual :: "'s \<Rightarrow> u8 list"
    and wf :: "'s \<Rightarrow> bool"
  assumes read_ok: "wf s \<Longrightarrow> read n s w = (Inr bs, s', w') \<Longrightarrow>
      bs = take (length bs) (drop (unat (position s)) (virtual s)) \<and> length bs \<le> unat n \<and>
      unat (position s') = unat (position s) + length bs"
    and read_wf: "wf s \<Longrightarrow> read n s w = (r, s', w') \<Longrightarrow> wf s' \<and> virtual s' = virtual s"
begin

text \<open>Reading piece by piece until a read fails or every piece was asked for.\<close>

fun read_all :: "u32 list \<Rightarrow> 's \<Rightarrow> 'w \<Rightarrow> u8 list \<times> 's \<times> 'w" where
  "read_all [] s w = ([], s, w)"
| "read_all (n # ns) s w =
     (case read n s w of
        (Inl _, s', w') \<Rightarrow> ([], s', w')
      | (Inr bs, s', w') \<Rightarrow> (case read_all ns s' w' of (cs, r) \<Rightarrow> (bs @ cs, r)))"

text \<open>The pieces join without gap or overlap, however the reads were cut.\<close>

lemma read_all_contiguous:
  "wf s \<Longrightarrow> read_all ns s w = (bs, s', w') \<Longrightarrow>
   bs = take (length bs) (drop (unat (position s)) (virtual s)) \<and> wf s' \<and> virtual s' = virtual s"
proof (induction ns arbitrary: s w bs)
  case (Cons n ns)
  obtain r s1 w1 where r: "read n s w = (r, s1, w1)" by (metis prod_cases3)
  have w1: "wf s1 \<and> virtual s1 = virtual s" by (rule read_wf [OF Cons.prems(1) r])
  show ?case
  proof (cases r)
    case (Inl e)
    then show ?thesis using Cons.prems r w1 by auto
  next
    case (Inr cs)
    obtain ds t where ds: "read_all ns s1 w1 = (ds, t)" by (cases "read_all ns s1 w1")
    have bs: "bs = cs @ ds" "t = (s', w')" using Cons.prems(2) r Inr ds by simp_all
    have c: "cs = take (length cs) (drop (unat (position s)) (virtual s))"
        "unat (position s1) = unat (position s) + length cs"
      using read_ok [OF Cons.prems(1) r [unfolded Inr]] by auto
    have d: "ds = take (length ds) (drop (unat (position s1)) (virtual s1)) \<and> wf s' \<and> virtual s' = virtual s1"
      using Cons.IH [of s1 w1 ds] w1 ds bs(2) by simp
    have "take (length cs + length ds) (drop (unat (position s)) (virtual s)) = cs @ ds"
      unfolding take_add using c d w1 by (simp add: add.commute)
    then show ?thesis using bs d w1 by simp
  qed
qed simp

end

section \<open>One file\<close>

definition honest_seeks :: "'w file_os \<Rightarrow> bool" where
  "honest_seeks os \<longleftrightarrow>
     (\<forall>p cur d w x w'. os_seek os p cur d FILE_BEGIN w = (Inr x, w') \<longrightarrow> x = d) \<and>
     (\<forall>p cur d w x w'. os_seek os p cur d FILE_CURRENT w = (Inr x, w') \<longrightarrow> x = cur + d)"

definition file_virtual :: "(wstring \<Rightarrow> u8 list) \<Rightarrow> file_stream \<Rightarrow> u8 list" where
  "file_virtual content s = content (fs_path s)"

definition file_sized :: "(wstring \<Rightarrow> u8 list) \<Rightarrow> file_stream \<Rightarrow> bool" where
  "file_sized content s \<longleftrightarrow> unat (fs_size s) = length (content (fs_path s))"

text \<open>A prefetcher in order, where there is one; what a stream asks of it keeps it so.\<close>

definition pf_fine :: "(wstring \<Rightarrow> u8 list) \<Rightarrow> u8 list \<Rightarrow> prefetcher option \<Rightarrow> bool" where
  "pf_fine content virt pf \<longleftrightarrow> (case pf of None \<Rightarrow> True | Some p \<Rightarrow> pf_ok content virt p)"

lemma pf_fine_simps [simp]: "pf_fine content virt None" "pf_fine content virt (Some p) \<longleftrightarrow> pf_ok content virt p"
  by (simp_all add: pf_fine_def)

lemma ask_prefetch_exact:
  assumes "honest_reads os content" "pf_fine content virt pf" "ask_prefetch os pf pos n tr w = (r, pf', tr', w')"
  shows "pf_fine content virt pf' \<and> (pf' = None \<longleftrightarrow> pf = None) \<and>
    (\<forall>bs. r = Some bs \<longrightarrow> pf \<noteq> None \<and> bs = take (unat n) (drop (unat pos) virt) \<and> length bs = unat n)"
proof (cases pf)
  case (Some p)
  obtain r1 p1 tr1 w1 where c: "prefetch_consume os p pos n tr w = (r1, p1, tr1, w1)" by (metis prod_cases4)
  from consume_exact [OF assms(1) _ c] show ?thesis
    using assms(2,3) Some c by (auto simp: ask_prefetch_def)
qed (use assms in \<open>auto simp: ask_prefetch_def\<close>)

lemma after_seek_fine:
  "pf_fine content virt pf \<Longrightarrow> after_seek os from to pf tr w = (pf', tr', w') \<Longrightarrow>
   pf_fine content virt pf' \<and> (pf' = None \<longleftrightarrow> pf = None)"
  using invalidate_ok [of content virt _ os to] 
  by (auto simp: after_seek_def split: option.splits if_splits prod.splits) (metis fst_conv)

context prefetch_client
begin

lemma after_read_fine:
  assumes "honest_reads os content" "pf_fine content (virtual s) pf" "pf \<noteq> None \<Longrightarrow> wf s"
    and "after_read os (resolve s) pos pf tr w = (pf', tr', w')"
  shows "pf_fine content (virtual s) pf' \<and> (pf' = None \<longleftrightarrow> pf = None)"
  using assms advance_safely_ok [of s os]
  by (auto simp: after_read_def split: option.splits prod.splits) (metis fst_conv)

end

text \<open>
  A file stream in order: the file pointer is the position unless it is marked stale, the length fits 64
  bits, and with a prefetcher the size is known and the slots hold what they should.
\<close>

definition file_wf :: "(wstring \<Rightarrow> u8 list) \<Rightarrow> file_stream \<Rightarrow> bool" where
  "file_wf content s \<longleftrightarrow>
     length (content (fs_path s)) < 2 ^ 64 \<and>
     (\<not> fs_dirty s \<longrightarrow> fs_handle s = None \<or> fs_handle s = Some (fs_position s)) \<and>
     (fs_prefetch s \<noteq> None \<longrightarrow> file_sized content s) \<and> pf_fine content (file_virtual content s) (fs_prefetch s)"

interpretation file_pf: prefetch_client file_resolve "file_virtual content" "file_sized content" content
  for content
proof
  fix s off src
  assume "file_sized content s" "unat off < length (file_virtual content s)" "file_resolve s off = Some src"
  then show "take (unat (src_length src)) (file_bytes content (src_path src) (src_offset src)) =
      take (unat (src_length src)) (drop (unat off) (file_virtual content s))"
    by (auto simp: file_resolve_def file_bytes_def file_virtual_def)
qed

lemma read_prefix:
  assumes "honest_reads os content" "file_read os p off n w = (Inr bs, w')"
  shows "bs = take (length bs) (drop (unat off) (content p)) \<and> length bs \<le> unat n"
proof -
  obtain cs w1 where c: "os_read os p off n w = (Inr cs, w1)" and bs: "bs = take (unat n) cs"
    using assms(2) by (auto simp: file_read_def split: prod.splits sum.splits)
  have "prefix cs (drop (unat off) (content p))"
    using assms(1) c unfolding honest_reads_def file_bytes_def by blast
  moreover have "prefix bs cs" unfolding bs by (rule take_is_prefix)
  ultimately have "prefix bs (drop (unat off) (content p))" by (rule prefix_order.trans [rotated])
  then obtain zs where "drop (unat off) (content p) = bs @ zs" by (rule prefixE)
  moreover have "length bs \<le> unat n" by (simp add: bs)
  ultimately show ?thesis by simp
qed

lemma position_advances:
  assumes "bs = take (length bs) (drop (unat pos) virt)" "length virt < 2 ^ 64" "length bs \<le> unat (n :: u32)"
  shows "unat (pos + ucast (count32 bs) :: u64) = unat pos + length bs"
proof (cases "bs = []")
  case False
  have len: "unat (count32 bs) = length bs"
    using assms(3) unat_bound [of n] by (simp add: unat_of_nat)
  have "length bs \<le> length virt - unat pos"
    using arg_cong [OF assms(1), of length] by simp
  moreover have "length bs > 0" using False by simp
  ultimately have "unat pos + length bs < 2 ^ 64" using assms(2) by linarith
  then show ?thesis by (simp add: unat_word_ariths ucast_less_64 len)
qed simp

text \<open>Reading from the file itself, with the pointer where it belongs.\<close>

lemma file_read_direct_ok:
  assumes "honest_reads os content" "file_wf content s" "\<not> fs_dirty s \<or> n = 0"
    and "file_read_direct os n s w = (r, s', w')"
  shows "file_wf content s' \<and> file_virtual content s' = file_virtual content s \<and>
    (\<forall>bs. r = Inr bs \<longrightarrow> bs = take (length bs) (drop (unat (fs_position s)) (file_virtual content s)) \<and>
       length bs \<le> unat n \<and> unat (fs_position s') = unat (fs_position s) + length bs)"
proof -
  obtain r1 w1 where h: "handle_read os (fs_path s) (fs_handle s) n w = (r1, w1)"
    by (cases "handle_read os (fs_path s) (fs_handle s) n w")
  show ?thesis
  proof (cases r1)
    case (Inl e)
    then show ?thesis using assms(2,4) h by (auto simp: file_read_direct_def file_wf_def file_virtual_def file_sized_def)
  next
    case (Inr bs)
    then obtain ptr where ptr: "fs_handle s = Some ptr" "file_read os (fs_path s) ptr n w = (Inr bs, w1)"
      using h by (auto simp: handle_read_def split: option.splits)
    have pre: "bs = take (length bs) (drop (unat ptr) (content (fs_path s)))" "length bs \<le> unat n"
      using read_prefix [OF assms(1) ptr(2)] by auto
    have at: "bs = take (length bs) (drop (unat (fs_position s)) (content (fs_path s)))"
    proof (cases "fs_dirty s")
      case True
      then show ?thesis using assms(3) pre(2) by simp
    next
      case False
      then show ?thesis using assms(2) ptr(1) pre(1) by (simp add: file_wf_def)
    qed
    let ?s1 = "s\<lparr>fs_position := fs_position s + ucast (count32 bs), fs_handle := map_option (\<lambda>h. h + ucast (count32 bs)) (fs_handle s)\<rparr>"
    obtain pf tr2 w2 where a: "(if bs \<noteq> [] then after_read os (file_resolve ?s1) (fs_position s + ucast (count32 bs)) (fs_prefetch s)
        (count_read_file os (fs_trace s)) w1 else (fs_prefetch s, count_read_file os (fs_trace s), w1)) = (pf, tr2, w2)"
      by (metis prod_cases3)
    have fine: "pf_fine content (file_virtual content s) pf \<and> (pf = None \<longleftrightarrow> fs_prefetch s = None)"
    proof (cases "bs = []")
      case False
      then show ?thesis
        using a assms(2) file_pf.after_read_fine [OF assms(1), where s = ?s1 and pf = "fs_prefetch s"]
        by (simp add: file_wf_def file_virtual_def file_sized_def)
    qed (use a assms(2) in \<open>auto simp: file_wf_def\<close>)
    have res: "r = Inr bs" "fs_position s' = fs_position s + ucast (count32 bs)" "fs_path s' = fs_path s"
      "fs_handle s' = map_option (\<lambda>h. h + ucast (count32 bs)) (fs_handle s)" "fs_dirty s' = fs_dirty s"
      "fs_size s' = fs_size s" "fs_prefetch s' = pf"
      using assms(4) h Inr a by (auto simp: file_read_direct_def Let_def split: prod.splits)
    have "length (content (fs_path s)) < 2 ^ 64" using assms(2) by (simp add: file_wf_def)
    from position_advances [OF at this pre(2)] have "unat (fs_position s') = unat (fs_position s) + length bs"
      unfolding res(2) .
    then show ?thesis
      using assms(2) fine at pre(2) res by (auto simp: file_wf_def file_virtual_def file_sized_def)
  qed
qed

definition honest_os :: "'w file_os \<Rightarrow> (wstring \<Rightarrow> u8 list) \<Rightarrow> bool" where
  "honest_os os content \<longleftrightarrow> honest_reads os content \<and> honest_seeks os"

lemma handle_seek_begin:
  "honest_seeks os \<Longrightarrow> handle_seek os p h d FILE_BEGIN w = (Inr x, w') \<Longrightarrow> x = d \<and> h \<noteq> None"
  unfolding handle_seek_def honest_seeks_def by (cases h) (simp, fastforce)

lemma file_stream_read_ok:
  assumes "honest_os os content" "file_wf content s" "file_stream_read os n s w = (r, s', w')"
  shows "file_wf content s' \<and> file_virtual content s' = file_virtual content s \<and>
    (\<forall>bs. r = Inr bs \<longrightarrow> bs = take (length bs) (drop (unat (fs_position s)) (file_virtual content s)) \<and>
       length bs \<le> unat n \<and> unat (fs_position s') = unat (fs_position s) + length bs)"
proof -
  have hr: "honest_reads os content" and hs: "honest_seeks os" using assms(1) by (simp_all add: honest_os_def)
  let ?tr0 = "map_option (trace_begin (fs_position s) (fs_position s) n (fs_path s) 0) (fs_trace s)"
  obtain q pf tr1 w1 where q: "ask_prefetch os (fs_prefetch s) (fs_position s) n ?tr0 w = (q, pf, tr1, w1)"
    by (metis prod_cases4)
  have pf: "pf_fine content (file_virtual content s) pf" "pf = None \<longleftrightarrow> fs_prefetch s = None"
    and hit: "q = Some bs \<Longrightarrow> fs_prefetch s \<noteq> None \<and> bs = take (unat n) (drop (unat (fs_position s)) (file_virtual content s)) \<and>
        length bs = unat n" for bs
    using ask_prefetch_exact [OF hr _ q, of "file_virtual content s"] assms(2) by (auto simp: file_wf_def)
  show ?thesis
  proof (cases q)
    case (Some bs)
    let ?s1 = "s\<lparr>fs_position := fs_position s + ucast n, fs_dirty := True\<rparr>"
    obtain pf' tr2 w2 where a: "after_read os (file_resolve ?s1) (fs_position s + ucast n) pf
        (record_logical_read os (fs_position s) n tr1) w1 = (pf', tr2, w2)" by (metis prod_cases3)
    have fine: "pf_fine content (file_virtual content s) pf' \<and> (pf' = None \<longleftrightarrow> pf = None)"
      using file_pf.after_read_fine [OF hr, where s = ?s1, OF _ _ a] pf assms(2)
      by (simp add: file_virtual_def file_wf_def file_sized_def)
    have res: "r = Inr bs" "fs_position s' = fs_position s + ucast n" "fs_path s' = fs_path s" "fs_dirty s'"
      "fs_size s' = fs_size s" "fs_prefetch s' = pf'"
      using assms(3) q Some a by (auto simp: file_stream_read_def Let_def split: prod.splits)
    have b: "bs = take (length bs) (drop (unat (fs_position s)) (content (fs_path s)))" "length bs = unat n"
      using hit [OF Some] unfolding file_virtual_def by metis+
    have "count32 bs = n" using b(2) by simp
    then have "unat (fs_position s + ucast n) = unat (fs_position s) + length bs"
      using position_advances [OF b(1), where n = n] b(2) assms(2) by (simp add: file_wf_def)
    then show ?thesis
      using assms(2) fine pf b res by (auto simp: file_wf_def file_virtual_def file_sized_def)
  next
    case None
    let ?s1 = "s\<lparr>fs_prefetch := pf, fs_trace := tr1\<rparr>"
    have s1: "file_wf content ?s1" using assms(2) pf by (simp add: file_wf_def file_virtual_def file_sized_def)
    show ?thesis
    proof (cases "fs_dirty s \<and> n \<noteq> 0")
      case False
      then have d: "file_read_direct os n ?s1 w1 = (r, s', w')" using assms(3) q None by (auto simp: file_stream_read_def Let_def)
      show ?thesis using file_read_direct_ok [OF hr s1 _ d] False by (auto simp: file_virtual_def)
    next
      case True
      obtain y w2 where y: "handle_seek os (fs_path s) (fs_handle s) (fs_position s) FILE_BEGIN w1 = (y, w2)"
        by (cases "handle_seek os (fs_path s) (fs_handle s) (fs_position s) FILE_BEGIN w1")
      show ?thesis
      proof (cases y)
        case (Inl e)
        then show ?thesis using assms(3) q None True y s1
          by (auto simp: file_stream_read_def Let_def file_wf_def file_virtual_def file_sized_def)
      next
        case (Inr ptr)
        let ?s2 = "?s1\<lparr>fs_handle := Some ptr, fs_dirty := False\<rparr>"
        have "ptr = fs_position s" using handle_seek_begin [OF hs] y Inr by blast
        then have s2: "file_wf content ?s2" using s1 by (simp add: file_wf_def file_virtual_def file_sized_def)
        have d: "file_read_direct os n ?s2 w2 = (r, s', w')"
          using assms(3) q None True y Inr by (auto simp: file_stream_read_def Let_def)
        show ?thesis using file_read_direct_ok [OF hr s2 _ d] by (auto simp: file_virtual_def)
      qed
    qed
  qed
qed

interpretation file_reader: reader "file_stream_read os" fs_position "file_virtual content"
  "\<lambda>s. honest_os os content \<and> file_wf content s" for os content
proof
  fix s :: file_stream and n w bs s' w'
  assume "honest_os os content \<and> file_wf content s" "file_stream_read os n s w = (Inr bs, s', w')"
  then show "bs = take (length bs) (drop (unat (fs_position s)) (file_virtual content s)) \<and> length bs \<le> unat n \<and>
      unat (fs_position s') = unat (fs_position s) + length bs"
    using file_stream_read_ok [of os content s n w "Inr bs" s' w'] by simp
next
  fix s :: file_stream and n w r s' w'
  assume "honest_os os content \<and> file_wf content s" "file_stream_read os n s w = (r, s', w')"
  then show "(honest_os os content \<and> file_wf content s') \<and> file_virtual content s' = file_virtual content s"
    using file_stream_read_ok [of os content s n w r s' w'] by simp
qed

lemma handle_seek_current:
  "honest_seeks os \<Longrightarrow> handle_seek os p (Some h) d FILE_CURRENT w = (Inr x, w') \<Longrightarrow> x = h + d"
  unfolding handle_seek_def honest_seeks_def by fastforce

text \<open>Seeking: absolute and relative positions are those of the virtual file, also over a stale pointer.\<close>

lemma file_stream_seek_ok:
  assumes "honest_os os content" "file_wf content s" "fs_handle s \<noteq> None"
    and "file_stream_seek os offset origin s w = (r, s', w')"
  shows "file_wf content s' \<and> file_virtual content s' = file_virtual content s \<and>
    (case r of Inl _ \<Rightarrow> fs_position s' = fs_position s
     | Inr pos \<Rightarrow> fs_position s' = pos \<and> (origin = FILE_BEGIN \<longrightarrow> pos = offset) \<and>
         (origin = FILE_CURRENT \<longrightarrow> pos = fs_position s + offset))"
proof -
  have hs: "honest_seeks os" using assms(1) by (simp add: honest_os_def)
  let ?first = "if fs_dirty s \<and> origin = FILE_CURRENT
      then handle_seek os (fs_path s) (fs_handle s) (fs_position s) FILE_BEGIN w
      else (Inr (case fs_handle s of None \<Rightarrow> 0 | Some h \<Rightarrow> h), w)"
  obtain y w1 where y: "?first = (y, w1)" by (metis prod.exhaust)
  show ?thesis
  proof (cases y)
    case (Inl e)
    then show ?thesis using assms(2,4) y
      by (auto simp: file_stream_seek_def file_wf_def file_virtual_def file_sized_def)
  next
    case (Inr ptr)
    have ptr: "origin = FILE_CURRENT \<Longrightarrow> ptr = fs_position s" "\<not> fs_dirty s \<Longrightarrow> ptr = fs_position s"
      using y Inr assms(2,3) handle_seek_begin [OF hs, of "fs_path s" "fs_handle s" "fs_position s" w ptr w1]
      by (auto simp: file_wf_def split: if_splits)
    obtain h where h: "fs_handle s = Some h" using assms(3) by blast
    obtain z w2 where z: "handle_seek os (fs_path s) (Some ptr) offset origin w1 = (z, w2)" by (metis prod.exhaust)
    show ?thesis
    proof (cases z)
      case (Inl e)
      then show ?thesis using assms(2,4) y Inr z h ptr
        by (auto simp: file_stream_seek_def file_wf_def file_virtual_def file_sized_def Let_def)
    next
      case (Inr pos)
      have p: "origin = FILE_BEGIN \<Longrightarrow> pos = offset" "origin = FILE_CURRENT \<Longrightarrow> pos = fs_position s + offset"
        using z Inr handle_seek_begin [OF hs] handle_seek_current [OF hs] ptr by blast+
      obtain pf tr w3 where a: "after_seek os (fs_position s) pos (fs_prefetch s)
          (record_logical_seek os (fs_position s) pos (fs_trace s)) w2 = (pf, tr, w3)" by (metis prod_cases3)
      have "pf_fine content (file_virtual content s) pf \<and> (pf = None \<longleftrightarrow> fs_prefetch s = None)"
        by (rule after_seek_fine [OF _ a]) (use assms(2) in \<open>simp add: file_wf_def\<close>)
      then show ?thesis using assms(2,4) y \<open>y = Inr ptr\<close> z Inr h a p
        by (auto simp: file_stream_seek_def file_wf_def file_virtual_def file_sized_def Let_def)
    qed
  qed
qed

definition honest_sizes :: "'w file_os \<Rightarrow> (wstring \<Rightarrow> u8 list) \<Rightarrow> bool" where
  "honest_sizes os content \<longleftrightarrow>
     (\<forall>p w n w'. os_size os p w = (Some n, w') \<longrightarrow> unat n = length (content p)) \<and> (\<forall>p. length (content p) < 2 ^ 64)"

lemma honest_sizes_bound: "honest_sizes os content \<Longrightarrow> length (content p) < 2 ^ 64"
  by (simp add: honest_sizes_def)

lemma honest_sizesD: "honest_sizes os content \<Longrightarrow> os_size os p w = (Some n, w') \<Longrightarrow> unat n = length (content p)"
  unfolding honest_sizes_def by blast

lemma new_prefetcher_fine:
  "unat vsize = length virt \<Longrightarrow>
   pf_fine content virt (fst (case new_prefetcher os config vsize w of (p, w') \<Rightarrow> (Some p, w')))"
  using new_prefetcher_ok [of vsize virt content os config w] by (cases "new_prefetcher os config vsize w") simp

text \<open>A file that was opened is read from its start.\<close>

lemma new_file_stream_wf:
  assumes "honest_sizes os content" "new_file_stream os path tr mode config w = (s, w')"
  shows "file_wf content s \<and> file_virtual content s = content path \<and> fs_position s = 0"
proof -
  obtain opened w1 where o: "os_open os (win32_extended_path path) w = (opened, w1)" by (metis prod.exhaust)
  obtain got w2 where g: "(case opened of Inl _ \<Rightarrow> (None, w1) | Inr _ \<Rightarrow> os_size os path w1) = (got, w2)" by (metis prod.exhaust)
  let ?n = "case got of None \<Rightarrow> 0 | Some k \<Rightarrow> k"
  have n: "unat ?n = length (content path)" if "?n \<noteq> 0"
    using that g honest_sizesD [OF assms(1)] by (auto split: sum.splits option.splits)
  let ?pf = "if ?n \<noteq> 0 \<and> pc_enabled config
      then (case new_prefetcher os config ?n w2 of (p, w') \<Rightarrow> (Some p, w')) else (None, w2)"
  obtain pf w3 where p: "?pf = (pf, w3)" by (metis prod.exhaust)
  have "pf_fine content (content path) pf \<and> (pf \<noteq> None \<longrightarrow> unat ?n = length (content path))"
    using p n new_prefetcher_fine [OF n, of content os config w2] by (auto split: if_splits)
  moreover have "fs_path s = path" "fs_handle s = (case opened of Inl _ \<Rightarrow> None | Inr _ \<Rightarrow> Some 0)" "fs_position s = 0"
    "fs_size s = ?n" "\<not> fs_dirty s" "fs_prefetch s = pf"
    using assms(2) o g p by (auto simp: new_file_stream_def Let_def split: prod.splits)
  ultimately show ?thesis
    using honest_sizes_bound [OF assms(1), of path]
    by (auto simp: file_wf_def file_virtual_def file_sized_def split: sum.splits)
qed

section \<open>Several parts\<close>

definition part_bytes :: "(wstring \<Rightarrow> u8 list) \<Rightarrow> part \<Rightarrow> u8 list" where
  "part_bytes content p = take (unat (pt_length p)) (drop (unat (pt_start p)) (content (pt_path p)))"

definition parts_bytes :: "(wstring \<Rightarrow> u8 list) \<Rightarrow> part list \<Rightarrow> u8 list" where
  "parts_bytes content ps = concat (map (part_bytes content) ps)"

text \<open>Parts that lie within their files, one directly after the other from \<open>base\<close> on.\<close>

fun laid_out :: "(wstring \<Rightarrow> u8 list) \<Rightarrow> nat \<Rightarrow> part list \<Rightarrow> bool" where
  "laid_out content base [] = True"
| "laid_out content base (p # ps) =
     (unat (pt_offset p) = base \<and> length (content (pt_path p)) < 2 ^ 64 \<and>
      unat (pt_start p) + unat (pt_length p) \<le> length (content (pt_path p)) \<and>
      laid_out content (base + unat (pt_length p)) ps)"

lemma length_part_bytes:
  "unat (pt_start p) + unat (pt_length p) \<le> length (content (pt_path p)) \<Longrightarrow>
   length (part_bytes content p) = unat (pt_length p)"
  by (simp add: part_bytes_def)

lemma laid_out_nth:
  "laid_out content base ps \<Longrightarrow> i < length ps \<Longrightarrow>
   unat (pt_start (ps ! i)) + unat (pt_length (ps ! i)) \<le> length (content (pt_path (ps ! i))) \<and>
   length (content (pt_path (ps ! i))) < 2 ^ 64"
  by (induction ps arbitrary: base i) (auto simp: nth_Cons split: nat.splits)

lemma laid_out_split:
  "laid_out content base ps \<Longrightarrow> i < length ps \<Longrightarrow>
   \<exists>pre post. parts_bytes content ps = pre @ part_bytes content (ps ! i) @ post \<and>
     base + length pre = unat (pt_offset (ps ! i)) \<and>
     (Suc i < length ps \<longrightarrow> unat (pt_offset (ps ! Suc i)) = unat (pt_offset (ps ! i)) + unat (pt_length (ps ! i))) \<and>
     (Suc i = length ps \<longrightarrow> post = [])"
proof (induction ps arbitrary: base i)
  case (Cons p ps)
  have len: "length (part_bytes content p) = unat (pt_length p)" using Cons.prems by (simp add: length_part_bytes)
  show ?case
  proof (cases i)
    case 0
    have "Suc 0 < length (p # ps) \<longrightarrow> unat (pt_offset (ps ! 0)) = unat (pt_offset p) + unat (pt_length p)"
      using Cons.prems by (cases ps) auto
    then show ?thesis
      using Cons.prems 0 by (intro exI [of _ "[]"] exI [of _ "parts_bytes content ps"]) (auto simp: parts_bytes_def)
  next
    case (Suc j)
    then obtain pre post where "parts_bytes content ps = pre @ part_bytes content (ps ! j) @ post"
      "base + unat (pt_length p) + length pre = unat (pt_offset (ps ! j))"
      "Suc j < length ps \<longrightarrow> unat (pt_offset (ps ! Suc j)) = unat (pt_offset (ps ! j)) + unat (pt_length (ps ! j))"
      "Suc j = length ps \<longrightarrow> post = []"
      using Cons.IH [of "base + unat (pt_length p)" j] Cons.prems by auto
    then show ?thesis
      using Suc len by (intro exI [of _ "part_bytes content p @ pre"] exI [of _ post]) (simp add: parts_bytes_def)
  qed
qed simp

lemma find_part_Some:
  "find_part_index ps pos = Some i \<Longrightarrow>
   i < length ps \<and> pt_offset (ps ! i) \<le> pos \<and> pos - pt_offset (ps ! i) < pt_length (ps ! i)"
proof -
  assume f: "find_part_index ps pos = Some i"
  let ?u = "length (takeWhile (\<lambda>p. pt_offset p \<le> pos) ps)"
  have i: "i = ?u - 1" "?u \<noteq> 0" "pos - pt_offset (ps ! i) < pt_length (ps ! i)"
    using f by (auto simp: find_part_index_def Let_def split: if_splits)
  then have u: "i < ?u" by simp
  then have "ps ! i = takeWhile (\<lambda>p. pt_offset p \<le> pos) ps ! i" by (simp add: takeWhile_nth)
  then have "pt_offset (ps ! i) \<le> pos" using u nth_mem set_takeWhileD by (metis (no_types, lifting))
  then show ?thesis using i(3) u length_takeWhile_le [of "\<lambda>p. pt_offset p \<le> pos" ps] by simp
qed

text \<open>The part that is found holds the bytes at the position.\<close>

lemma find_part_bytes:
  assumes "laid_out content 0 ps" "find_part_index ps pos = Some i" "k \<le> unat (pt_length (ps ! i) - (pos - pt_offset (ps ! i)))"
  shows "take k (drop (unat (pt_start (ps ! i) + (pos - pt_offset (ps ! i)))) (content (pt_path (ps ! i)))) =
    take k (drop (unat pos) (parts_bytes content ps))"
    and "unat (pt_length (ps ! i) - (pos - pt_offset (ps ! i))) = unat (pt_length (ps ! i)) - (unat pos - unat (pt_offset (ps ! i)))"
proof -
  let ?p = "ps ! i" and ?d = "unat (pos - pt_offset (ps ! i))"
  note f = find_part_Some [OF assms(2)]
  have d: "?d = unat pos - unat (pt_offset ?p)" "unat (pt_offset ?p) \<le> unat pos"
    using f by (simp_all add: unat_sub word_le_nat_alt)
  have dl: "?d < unat (pt_length ?p)" using f by (simp add: word_less_nat_alt)
  then have rest: "unat (pt_length ?p - (pos - pt_offset ?p)) = unat (pt_length ?p) - ?d"
    by (simp add: unat_sub word_le_nat_alt)
  then show "unat (pt_length ?p - (pos - pt_offset ?p)) = unat (pt_length ?p) - (unat pos - unat (pt_offset ?p))"
    using d by simp
  have within: "unat (pt_start ?p) + unat (pt_length ?p) \<le> length (content (pt_path ?p))" "length (content (pt_path ?p)) < 2 ^ 64"
    using laid_out_nth [OF assms(1)] f by auto
  have "unat (pt_start ?p) + ?d < 2 ^ 64" using within dl by linarith
  then have off: "unat (pt_start ?p + (pos - pt_offset ?p)) = unat (pt_start ?p) + ?d"
    by (simp add: unat_word_ariths)
  obtain pre post where split: "parts_bytes content ps = pre @ part_bytes content ?p @ post" "length pre = unat (pt_offset ?p)"
    using laid_out_split [OF assms(1), of i] f by auto
  have "drop (unat pos) (parts_bytes content ps) = drop ?d (part_bytes content ?p) @ post"
    using split d dl length_part_bytes [of ?p content, OF within(1)] by simp
  also have "drop ?d (part_bytes content ?p) = take (unat (pt_length ?p) - ?d) (drop (unat (pt_start ?p) + ?d) (content (pt_path ?p)))"
    by (simp add: part_bytes_def drop_take add.commute)
  finally show "take k (drop (unat (pt_start ?p + (pos - pt_offset ?p))) (content (pt_path ?p))) = take k (drop (unat pos) (parts_bytes content ps))"
    using assms(3) rest within dl off by (simp add: min_absorb1)
qed

lemma find_part_room:
  assumes "laid_out content 0 ps" "find_part_index ps pos = Some i"
  shows "0 < unat (pt_length (ps ! i) - (pos - pt_offset (ps ! i)))"
    and "unat pos + unat (pt_length (ps ! i) - (pos - pt_offset (ps ! i))) \<le> length (parts_bytes content ps)"
proof -
  note f = find_part_Some [OF assms(2)]
  have d: "unat (pos - pt_offset (ps ! i)) = unat pos - unat (pt_offset (ps ! i))" "unat (pt_offset (ps ! i)) \<le> unat pos"
    using f by (simp_all add: unat_sub word_le_nat_alt)
  have less: "unat (pos - pt_offset (ps ! i)) < unat (pt_length (ps ! i))" using f by (simp add: word_less_nat_alt)
  then have rest: "unat (pt_length (ps ! i) - (pos - pt_offset (ps ! i))) = unat (pt_length (ps ! i)) - unat (pos - pt_offset (ps ! i))"
    by (simp add: unat_sub word_le_nat_alt)
  then show "0 < unat (pt_length (ps ! i) - (pos - pt_offset (ps ! i)))" using less by simp
  obtain pre post where s: "parts_bytes content ps = pre @ part_bytes content (ps ! i) @ post" "length pre = unat (pt_offset (ps ! i))"
    using laid_out_split [OF assms(1), of i] f by auto
  have "length (part_bytes content (ps ! i)) = unat (pt_length (ps ! i))"
    using laid_out_nth [OF assms(1), of i] f by (intro length_part_bytes) simp
  then show "unat pos + unat (pt_length (ps ! i) - (pos - pt_offset (ps ! i))) \<le> length (parts_bytes content ps)"
    using s rest d less by simp
qed

text \<open>A position inside the virtual file is always found, empty parts notwithstanding.\<close>

lemma find_part_complete:
  assumes "laid_out content 0 ps" "unat pos < length (parts_bytes content ps)"
  shows "\<exists>i. find_part_index ps pos = Some i"
proof -
  let ?u = "length (takeWhile (\<lambda>p. pt_offset p \<le> pos) ps)"
  have ne: "ps \<noteq> []" using assms(2) by (auto simp: parts_bytes_def)
  then have "pt_offset (hd ps) \<le> pos" using assms(1) by (cases ps) (auto simp: word_le_nat_alt)
  then have u: "?u > 0" using ne by (cases ps) auto
  let ?i = "?u - 1"
  have i: "?i < length ps" "?i < ?u" using u length_takeWhile_le [of "\<lambda>p. pt_offset p \<le> pos" ps] by linarith+
  then have le: "pt_offset (ps ! ?i) \<le> pos"
    using nth_mem [of ?i "takeWhile (\<lambda>p. pt_offset p \<le> pos) ps"] by (auto simp: takeWhile_nth dest: set_takeWhileD)
  obtain pre post where s: "parts_bytes content ps = pre @ part_bytes content (ps ! ?i) @ post"
      "length pre = unat (pt_offset (ps ! ?i))"
      "Suc ?i < length ps \<longrightarrow> unat (pt_offset (ps ! Suc ?i)) = unat (pt_offset (ps ! ?i)) + unat (pt_length (ps ! ?i))"
      "Suc ?i = length ps \<longrightarrow> post = []"
    using laid_out_split [OF assms(1) i(1)] by auto
  have len: "length (part_bytes content (ps ! ?i)) = unat (pt_length (ps ! ?i))"
    using laid_out_nth [OF assms(1) i(1)] by (simp add: length_part_bytes)
  have "unat pos < unat (pt_offset (ps ! ?i)) + unat (pt_length (ps ! ?i))"
  proof (cases "Suc ?i < length ps")
    case True
    then have "?u < length ps" using u by simp
    then have "\<not> pt_offset (ps ! ?u) \<le> pos" by (rule nth_length_takeWhile)
    then show ?thesis using s(3) True u by (simp add: word_le_nat_alt)
  next
    case False
    then have "post = []" using s(4) i(1) by linarith
    then show ?thesis using s(1,2) len assms(2) by simp
  qed
  then have "pos - pt_offset (ps ! ?i) < pt_length (ps ! ?i)"
    using le by (simp add: word_less_nat_alt unat_sub word_le_nat_alt)
  then show ?thesis using u by (simp add: find_part_index_def Let_def)
qed

definition multi_virtual :: "(wstring \<Rightarrow> u8 list) \<Rightarrow> multi_stream \<Rightarrow> u8 list" where
  "multi_virtual content s = parts_bytes content (ms_parts s)"

definition multi_laid :: "(wstring \<Rightarrow> u8 list) \<Rightarrow> multi_stream \<Rightarrow> bool" where
  "multi_laid content s \<longleftrightarrow>
     laid_out content 0 (ms_parts s) \<and> unat (ms_total s) = length (multi_virtual content s)"

definition multi_wf :: "(wstring \<Rightarrow> u8 list) \<Rightarrow> multi_stream \<Rightarrow> bool" where
  "multi_wf content s \<longleftrightarrow>
     (ms_valid s \<longrightarrow> multi_laid content s \<and> pf_fine content (multi_virtual content s) (ms_prefetch s))"

interpretation multi_pf: prefetch_client multi_resolve "multi_virtual content" "multi_laid content" content
  for content
proof
  fix s off src
  assume a: "multi_laid content s" "unat off < length (multi_virtual content s)" "multi_resolve s off = Some src"
  then obtain i where i: "find_part_index (ms_parts s) off = Some i"
    and src: "src = (let p = ms_parts s ! i; d = off - pt_offset p
      in \<lparr>src_ref = i, src_path = pt_path p, src_offset = pt_start p + d, src_length = pt_length p - d\<rparr>)"
    by (auto simp: multi_resolve_def Let_def split: option.splits)
  have "laid_out content 0 (ms_parts s)" using a(1) by (simp add: multi_laid_def)
  from find_part_bytes(1) [OF this i le_refl]
  show "take (unat (src_length src)) (file_bytes content (src_path src) (src_offset src)) =
      take (unat (src_length src)) (drop (unat off) (multi_virtual content s))"
    by (simp add: src file_bytes_def multi_virtual_def Let_def)
qed

text \<open>What a round never touches.\<close>

definition same_parts :: "multi_stream \<Rightarrow> multi_stream \<Rightarrow> bool" where
  "same_parts s s' \<longleftrightarrow> ms_parts s' = ms_parts s \<and> ms_total s' = ms_total s \<and> ms_valid s' = ms_valid s \<and>
     ms_ranges s' = ms_ranges s \<and> ms_prefetch s' = ms_prefetch s"

lemma same_parts_refl [simp]: "same_parts s s"
  by (simp add: same_parts_def)

lemma same_parts_trans: "same_parts a b \<Longrightarrow> same_parts b c \<Longrightarrow> same_parts a c"
  by (simp add: same_parts_def)

lemma same_parts_wf:
  "same_parts s s' \<Longrightarrow> multi_virtual content s' = multi_virtual content s \<and> multi_laid content s' = multi_laid content s \<and>
   multi_wf content s' = multi_wf content s"
  by (simp add: same_parts_def multi_virtual_def multi_laid_def multi_wf_def)

lemma ensure_handle_keeps:
  "ensure_cached_handle os i s w = (e, s', w') \<Longrightarrow> same_parts s s' \<and> ms_position s' = ms_position s"
  by (auto simp: ensure_cached_handle_def same_parts_def split: option.splits prod.splits sum.splits if_splits)

lemma position_handle_keeps:
  "position_handle os i soff s w = (e, s', w') \<Longrightarrow>
   same_parts s s' \<and> ms_position s' = ms_position s \<and> (e = None \<longrightarrow> multi_pointer s' = soff)"
  by (auto simp: position_handle_def same_parts_def multi_pointer_def split: prod.splits sum.splits if_splits option.splits)

lemma read_part_cases:
  assumes "honest_reads os content" "read_part os i want soff s w = (r, s', w')"
  shows "same_parts s s' \<and>
    (case r of Inl _ \<Rightarrow> ms_position s' = ms_position s
     | Inr bs \<Rightarrow> bs = take (length bs) (drop (unat soff) (content (pt_path (ms_parts s ! i)))) \<and> length bs \<le> unat want \<and>
         ms_position s' = ms_position s + ucast (count32 bs))"
proof -
  let ?s0 = "s\<lparr>ms_trace := map_option (trace_begin (ms_position s) soff want (pt_path (ms_parts s ! i)) (of_nat i)) (ms_trace s)\<rparr>"
  obtain e1 s1 w1 where e: "ensure_cached_handle os i ?s0 w = (e1, s1, w1)" by (metis prod_cases3)
  have k1: "same_parts s s1" "ms_position s1 = ms_position s"
    using ensure_handle_keeps [OF e] by (simp_all add: same_parts_def)
  show ?thesis
  proof (cases e1)
    case (Some x)
    then show ?thesis using assms(2) e k1 by (auto simp: read_part_def Let_def multi_fail_def same_parts_def)
  next
    case None
    obtain e2 s2 w2 where p: "position_handle os i soff s1 w1 = (e2, s2, w2)" by (metis prod_cases3)
    have k2: "same_parts s s2" "ms_position s2 = ms_position s" "e2 = None \<Longrightarrow> multi_pointer s2 = soff"
      using position_handle_keeps [OF p] k1 same_parts_trans by auto
    show ?thesis
    proof (cases e2)
      case (Some x)
      then show ?thesis using assms(2) e None p k2 by (auto simp: read_part_def Let_def multi_fail_def same_parts_def)
    next
      case N2: None
      obtain q w3 where q: "file_read os (pt_path (ms_parts s ! i)) soff want w2 = (q, w3)" by (metis prod.exhaust)
      show ?thesis
      proof (cases q)
        case (Inl x)
        then show ?thesis using assms(2) e None p N2 q k2 by (auto simp: read_part_def Let_def multi_fail_def same_parts_def)
      next
        case (Inr bs)
        have "bs = take (length bs) (drop (unat soff) (content (pt_path (ms_parts s ! i)))) \<and> length bs \<le> unat want"
          by (rule read_prefix [OF assms(1) q [unfolded Inr]])
        moreover have "r = Inr bs \<and> same_parts s s' \<and> ms_position s' = ms_position s + ucast (count32 bs)"
          using assms(2) e None p N2 q Inr k2 by (auto simp: read_part_def Let_def same_parts_def split: if_splits)
        ultimately show ?thesis by simp
      qed
    qed
  qed
qed

lemma laid_small: "multi_laid content s \<Longrightarrow> length (multi_virtual content s) < 2 ^ 64"
  using unat_bound [of "ms_total s"] by (simp add: multi_laid_def)

text \<open>One round reads on where the stream stands.\<close>

lemma read_part_exact:
  assumes "honest_reads os content" "multi_laid content s" "find_part_index (ms_parts s) (ms_position s) = Some i"
    and "read_part os i (multi_want (ms_parts s ! i) (ms_position s) n)
           (pt_start (ms_parts s ! i) + (ms_position s - pt_offset (ms_parts s ! i))) s w = (Inr bs, s', w')"
  shows "same_parts s s' \<and> bs = take (length bs) (drop (unat (ms_position s)) (multi_virtual content s)) \<and>
    length bs \<le> unat n \<and> unat (ms_position s') = unat (ms_position s) + length bs"
proof -
  let ?p = "ms_parts s ! i"
  have c: "same_parts s s'" "ms_position s' = ms_position s + ucast (count32 bs)"
    and b: "bs = take (length bs) (drop (unat (pt_start ?p + (ms_position s - pt_offset ?p))) (content (pt_path ?p)))"
    and l: "length bs \<le> unat (multi_want ?p (ms_position s) n)"
    using read_part_cases [OF assms(1,4)] by auto
  have k: "length bs \<le> unat (pt_length ?p - (ms_position s - pt_offset ?p))" "length bs \<le> unat n"
    using l unfolding unat_multi_want by simp_all
  have "laid_out content 0 (ms_parts s)" using assms(2) by (simp add: multi_laid_def)
  from find_part_bytes(1) [OF this assms(3) k(1)] b
  have at: "bs = take (length bs) (drop (unat (ms_position s)) (multi_virtual content s))"
    by (simp add: multi_virtual_def)
  from position_advances [OF at laid_small [OF assms(2)] k(2)] c at k show ?thesis by simp
qed

lemma multi_loop_exact:
  assumes "honest_reads os content"
  shows "multi_laid content s \<Longrightarrow> multi_loop os n s w = (r, s', w') \<Longrightarrow>
    same_parts s s' \<and>
    (\<forall>bs. r = Inr bs \<longrightarrow> bs = take (length bs) (drop (unat (ms_position s)) (multi_virtual content s)) \<and>
       length bs \<le> unat n \<and> unat (ms_position s') = unat (ms_position s) + length bs)"
proof (induction "unat n" arbitrary: n s w r s' w' rule: less_induct)
  case less
  show ?case
  proof (cases "n = 0 \<or> \<not> ms_position s < ms_total s \<or> find_part_index (ms_parts s) (ms_position s) = None")
    case True
    then show ?thesis using less.prems(2) unfolding multi_loop.simps [of os n s w] by (auto split: if_splits)
  next
    case False
    then obtain i where i: "find_part_index (ms_parts s) (ms_position s) = Some i" by auto
    let ?p = "ms_parts s ! i"
    let ?want = "multi_want ?p (ms_position s) n"
    let ?soff = "pt_start ?p + (ms_position s - pt_offset ?p)"
    obtain q s1 w1 where q: "read_part os i ?want ?soff s w = (q, s1, w1)" by (metis prod_cases3)
    have "multi_loop os n s w =
      (if \<not> ms_ranges s \<and> ?want = 0 then (Inr [], s, w)
       else case q of Inl e \<Rightarrow> (Inl e, s1, w1)
         | Inr bs \<Rightarrow> if bs = [] then (Inr [], s1, w1)
             else (case multi_loop os (n - count32 bs) s1 w1 of (Inl e, r) \<Rightarrow> (Inl e, r) | (Inr cs, r) \<Rightarrow> (Inr (bs @ cs), r)))"
      using False i q by (cases q) (simp_all add: multi_loop.simps [of os n s w] Let_def)
    note unfold = this [unfolded less.prems(2)]
    show ?thesis
    proof (cases "\<not> ms_ranges s \<and> ?want = 0")
      case True
      then show ?thesis using unfold by simp
    next
      case go: False
      show ?thesis
      proof (cases q)
        case (Inl e)
        then show ?thesis using unfold go read_part_cases [OF assms q] by simp
      next
        case (Inr bs)
        note one = read_part_exact [OF assms less.prems(1) i q [unfolded Inr]]
        show ?thesis
        proof (cases "bs = []")
          case True
          then show ?thesis using unfold go Inr one by simp
        next
          case False
          obtain q2 s2 w2 where l: "multi_loop os (n - count32 bs) s1 w1 = (q2, s2, w2)" by (metis prod_cases3)
          have n': "unat (n - count32 bs) = unat n - length bs" using one by (simp add: unat_minus_count32)
          moreover have "0 < length bs" "length bs \<le> unat n" using False one by auto
          ultimately have "unat (n - count32 bs) < unat n" by linarith
          moreover have "multi_laid content s1" "multi_virtual content s1 = multi_virtual content s"
            using same_parts_wf one less.prems(1) by blast+
          ultimately have ih: "same_parts s1 s2 \<and> (\<forall>cs. q2 = Inr cs \<longrightarrow>
              cs = take (length cs) (drop (unat (ms_position s1)) (multi_virtual content s)) \<and>
              length cs \<le> unat (n - count32 bs) \<and> unat (ms_position s2) = unat (ms_position s1) + length cs)"
            using less.hyps [OF _ _ l] by simp
          have sp: "same_parts s s2" using ih one same_parts_trans by blast
          have res: "(r, s', w') = (case q2 of Inl e \<Rightarrow> (Inl e, s2, w2) | Inr cs \<Rightarrow> (Inr (bs @ cs), s2, w2))"
            using unfold go Inr False l by (simp split: sum.splits)
          show ?thesis
          proof (cases q2)
            case (Inl e)
            then show ?thesis using res sp by simp
          next
            case (Inr cs)
            have "take (length bs + length cs) (drop (unat (ms_position s)) (multi_virtual content s)) = bs @ cs"
              unfolding take_add using ih Inr one by (simp add: add.commute)
            moreover have "length bs + length cs \<le> unat n" using ih Inr one n' by auto
            ultimately show ?thesis using res sp ih Inr one by simp
          qed
        qed
      qed
    qed
  qed
qed

lemma multi_stream_read_ok:
  assumes "honest_os os content" "multi_wf content s" "multi_stream_read os n s w = (r, s', w')"
  shows "multi_wf content s' \<and> multi_virtual content s' = multi_virtual content s \<and>
    (\<forall>bs. r = Inr bs \<longrightarrow> bs = take (length bs) (drop (unat (ms_position s)) (multi_virtual content s)) \<and>
       length bs \<le> unat n \<and> unat (ms_position s') = unat (ms_position s) + length bs)"
proof (cases "ms_valid s")
  case False
  then show ?thesis using assms by (auto simp: multi_stream_read_def)
next
  case True
  have hr: "honest_reads os content" using assms(1) by (simp add: honest_os_def)
  have laid: "multi_laid content s" and fine: "pf_fine content (multi_virtual content s) (ms_prefetch s)"
    using assms(2) True by (simp_all add: multi_wf_def)
  obtain q pf tr1 w1 where q: "ask_prefetch os (ms_prefetch s) (ms_position s) n (ms_trace s) w = (q, pf, tr1, w1)"
    by (metis prod_cases4)
  have pf: "pf_fine content (multi_virtual content s) pf"
    and hit: "q = Some bs \<Longrightarrow> bs = take (unat n) (drop (unat (ms_position s)) (multi_virtual content s)) \<and> length bs = unat n" for bs
    using ask_prefetch_exact [OF hr fine q] by auto
  show ?thesis
  proof (cases q)
    case (Some bs)
    let ?s1 = "s\<lparr>ms_position := ms_position s + ucast n\<rparr>"
    obtain pf' tr2 w2 where a: "after_read os (multi_resolve ?s1) (ms_position s + ucast n) pf
        (record_logical_read os (ms_position s) n tr1) w1 = (pf', tr2, w2)" by (metis prod_cases3)
    have "pf_fine content (multi_virtual content s) pf'"
      using multi_pf.after_read_fine [OF hr, where s = ?s1, OF _ _ a] pf laid
      by (simp add: multi_virtual_def multi_laid_def)
    moreover have res: "r = Inr bs" "ms_position s' = ms_position s + ucast n" "ms_parts s' = ms_parts s"
      "ms_total s' = ms_total s" "ms_valid s' = ms_valid s" "ms_prefetch s' = pf'"
      using assms(3) True q Some a by (auto simp: multi_stream_read_def Let_def split: prod.splits)
    moreover have b: "bs = take (length bs) (drop (unat (ms_position s)) (multi_virtual content s))" "length bs = unat n"
      using hit [OF Some] by metis+
    moreover have "unat (ms_position s + ucast n) = unat (ms_position s) + length bs"
      using position_advances [OF b(1) laid_small [OF laid], of n] b(2) by simp
    ultimately show ?thesis using laid by (simp add: multi_wf_def multi_laid_def multi_virtual_def)
  next
    case None
    let ?s1 = "s\<lparr>ms_prefetch := pf, ms_trace := tr1\<rparr>"
    obtain x s2 w2 where l: "multi_loop os n ?s1 w1 = (x, s2, w2)" by (metis prod_cases3)
    have s1: "multi_laid content ?s1" "multi_virtual content ?s1 = multi_virtual content s"
      using laid by (simp_all add: multi_laid_def multi_virtual_def)
    note loop = multi_loop_exact [OF hr s1(1) l, unfolded s1(2)]
    then have s2: "multi_laid content s2" "multi_virtual content s2 = multi_virtual content s" "ms_prefetch s2 = pf" "ms_valid s2"
      using same_parts_wf [of ?s1 s2] s1 True by (auto simp: same_parts_def)
    show ?thesis
    proof (cases x)
      case (Inl e)
      then show ?thesis using assms(3) True q None l s2 pf by (auto simp: multi_stream_read_def Let_def multi_wf_def)
    next
      case (Inr bs)
      let ?tr2 = "record_logical_read os (ms_position s) (count32 bs) (ms_trace s2)"
      obtain pf' tr3 w3 where a: "(if bs \<noteq> [] then after_read os (multi_resolve s2) (ms_position s2) (ms_prefetch s2) ?tr2 w2
          else (ms_prefetch s2, ?tr2, w2)) = (pf', tr3, w3)" by (metis prod_cases3)
      have "pf_fine content (multi_virtual content s) pf'"
      proof (cases "bs = []")
        case False
        then have "after_read os (multi_resolve s2) (ms_position s2) pf ?tr2 w2 = (pf', tr3, w3)" using a s2(3) by simp
        from multi_pf.after_read_fine [OF hr _ _ this] show ?thesis using s2 pf by simp
      qed (use a s2 pf in simp)
      moreover have "r = Inr bs" "s' = s2\<lparr>ms_prefetch := pf', ms_trace := tr3\<rparr>"
        using assms(3) True q None l Inr a by (auto simp: multi_stream_read_def Let_def split: prod.splits)
      ultimately show ?thesis
        using loop Inr s2 by (auto simp: multi_wf_def multi_laid_def multi_virtual_def)
    qed
  qed
qed

interpretation multi_reader: reader "multi_stream_read os" ms_position "multi_virtual content"
  "\<lambda>s. honest_os os content \<and> multi_wf content s" for os content
proof
  fix s :: multi_stream and n w bs s' w'
  assume "honest_os os content \<and> multi_wf content s" "multi_stream_read os n s w = (Inr bs, s', w')"
  then show "bs = take (length bs) (drop (unat (ms_position s)) (multi_virtual content s)) \<and> length bs \<le> unat n \<and>
      unat (ms_position s') = unat (ms_position s) + length bs"
    using multi_stream_read_ok [of os content s n w "Inr bs" s' w'] by simp
next
  fix s :: multi_stream and n w r s' w'
  assume "honest_os os content \<and> multi_wf content s" "multi_stream_read os n s w = (r, s', w')"
  then show "(honest_os os content \<and> multi_wf content s') \<and> multi_virtual content s' = multi_virtual content s"
    using multi_stream_read_ok [of os content s n w r s' w'] by simp
qed

lemma multi_stream_seek_ok:
  assumes "multi_wf content s" "multi_stream_seek os offset origin s w = (r, s', w')"
  shows "multi_wf content s' \<and> multi_virtual content s' = multi_virtual content s \<and> ms_valid s' = ms_valid s \<and>
    (case r of Inl _ \<Rightarrow> s' = s
     | Inr pos \<Rightarrow> ms_position s' = pos \<and>
         pos = (if origin = FILE_CURRENT then ms_position s else if origin = FILE_END then ms_total s else 0) + offset)"
proof -
  define nxt where "nxt = (if origin = FILE_CURRENT then ms_position s else if origin = FILE_END then ms_total s else 0) + offset"
  obtain pf tr w1 where a: "after_seek os (ms_position s) nxt (ms_prefetch s)
      (record_logical_seek os (ms_position s) nxt (ms_trace s)) w = (pf, tr, w1)" by (metis prod_cases3)
  have fine: "ms_valid s \<Longrightarrow> pf_fine content (multi_virtual content s) pf"
    using after_seek_fine [OF _ a, of content "multi_virtual content s"] assms(1) by (simp add: multi_wf_def)
  have eq: "(r, s', w') =
      (if sint nxt < 0 then (Inl e_invalidarg, s, w)
       else (Inr nxt, s\<lparr>ms_position := nxt, ms_prefetch := pf, ms_trace := map_option (trace_seek offset origin nxt) tr\<rparr>, w1))"
    using assms(2) a unfolding multi_stream_seek_def nxt_def [symmetric] Let_def by (auto split: if_splits)
  show ?thesis
    using assms(1) fine eq unfolding nxt_def [symmetric]
    by (cases "sint nxt < 0") (simp_all add: multi_wf_def multi_laid_def multi_virtual_def)
qed

section \<open>The tables\<close>

lemma file_parts_laid:
  assumes "honest_sizes os content"
  shows "file_parts os ps base w = (parts, t, True, w') \<Longrightarrow> unat base + length (concat (map content ps)) < 2 ^ 64 \<Longrightarrow>
    laid_out content (unat base) parts \<and> unat t = unat base + length (concat (map content ps)) \<and>
    parts_bytes content parts = concat (map content ps) \<and> (parts = [] \<longleftrightarrow> ps = [])"
proof (induction ps arbitrary: base w parts)
  case (Cons p ps)
  obtain n w1 where sz: "os_size os p w = (Some n, w1)"
    using Cons.prems(1) by (auto split: prod.splits option.splits)
  have n: "unat n = length (content p)" by (rule honest_sizesD [OF assms sz])
  obtain qs where q: "file_parts os ps (base + n) w1 = (qs, t, True, w')"
    and parts: "parts = \<lparr>pt_path = p, pt_start = 0, pt_length = n, pt_offset = base\<rparr> # qs"
    using Cons.prems(1) sz by (auto split: prod.splits)
  have sum: "unat (base + n) = unat base + unat n"
    using Cons.prems(2) n by (simp add: unat_word_ariths)
  have "laid_out content (unat base + unat n) qs \<and> unat t = unat base + unat n + length (concat (map content ps)) \<and>
      parts_bytes content qs = concat (map content ps)"
    using Cons.IH [OF q] Cons.prems(2) n sum by simp
  then show ?case
    using n honest_sizes_bound [OF assms, of p] by (simp add: parts parts_bytes_def part_bytes_def)
qed (simp add: parts_bytes_def)

text \<open>The bytes a range stands for.\<close>

definition range_bytes :: "(wstring \<Rightarrow> u8 list) \<Rightarrow> input_range \<Rightarrow> u8 list" where
  "range_bytes content r =
     (let file = content (ir_path r);
          stop = (if ir_has_end r then min (unat (ir_end r)) (length file) else length file)
      in drop (unat (ir_start r)) (take stop file))"

lemma range_parts_laid:
  assumes "honest_sizes os content"
  shows "range_parts os rs base w = (parts, t, True, w') \<Longrightarrow>
    unat base + length (concat (map (range_bytes content) rs)) < 2 ^ 64 \<Longrightarrow>
    laid_out content (unat base) parts \<and> unat t = unat base + length (concat (map (range_bytes content) rs)) \<and>
    parts_bytes content parts = concat (map (range_bytes content) rs)"
proof (induction rs arbitrary: base w parts)
  case (Cons r rs)
  obtain k w1 where sz: "os_size os (ir_path r) w = (Some k, w1)"
    using Cons.prems(1) by (auto split: prod.splits option.splits if_splits)
  have k: "unat k = length (content (ir_path r))" by (rule honest_sizesD [OF assms sz])
  define start where "start = min (ir_start r) k"
  define stop where "stop = (if ir_has_end r then min (ir_end r) k else k)"
  have path: "ir_path r \<noteq> []" using Cons.prems(1) by (auto split: prod.splits)
  have eq: "range_parts os (r # rs) base w =
      (if stop < start then (case range_parts os rs base w1 of (parts, t, _, w2) \<Rightarrow> (parts, t, False, w2))
       else if stop - start = 0 then range_parts os rs base w1
       else case range_parts os rs (base + (stop - start)) w1 of
         (parts, t, ok, w2) \<Rightarrow>
           (\<lparr>pt_path = ir_path r, pt_start = start, pt_length = stop - start, pt_offset = base\<rparr> # parts, t, ok, w2))"
    using sz path by (simp add: Let_def start_def stop_def)
  have le: "start \<le> stop" using Cons.prems(1) unfolding eq by (auto simp: not_less [symmetric] split: prod.splits)
  have stop: "unat stop \<le> length (content (ir_path r))" using k by (auto simp: stop_def min_def word_le_nat_alt)
  have diff: "unat (stop - start) = unat stop - unat start" using le by (simp add: unat_sub)
  have rb: "range_bytes content r = take (unat (stop - start)) (drop (unat start) (content (ir_path r)))"
    using k diff by (auto simp: range_bytes_def start_def stop_def Let_def min_def word_le_nat_alt drop_take)
  have len: "length (range_bytes content r) = unat (stop - start)"
    using stop diff le by (simp add: rb word_le_nat_alt)
  show ?case
  proof (cases "stop - start = 0")
    case True
    then have "range_bytes content r = []" using len by simp
    moreover have "range_parts os rs base w1 = (parts, t, True, w')"
      using Cons.prems(1) le True unfolding eq by (simp add: not_less)
    ultimately show ?thesis using Cons.IH [of base w1 parts] Cons.prems(2) by simp
  next
    case False
    obtain qs where q: "range_parts os rs (base + (stop - start)) w1 = (qs, t, True, w')"
      and parts: "parts = \<lparr>pt_path = ir_path r, pt_start = start, pt_length = stop - start, pt_offset = base\<rparr> # qs"
      using Cons.prems(1) le False unfolding eq by (auto simp: not_less split: if_splits prod.splits)
    have sum: "unat (base + (stop - start)) = unat base + unat (stop - start)"
      using Cons.prems(2) len by (simp add: unat_word_ariths)
    have ih: "laid_out content (unat base + unat (stop - start)) qs \<and>
        unat t = unat base + unat (stop - start) + length (concat (map (range_bytes content) rs)) \<and>
        parts_bytes content qs = concat (map (range_bytes content) rs)"
      using Cons.IH [OF q] Cons.prems(2) len sum by simp
    have "unat start + unat (stop - start) \<le> length (content (ir_path r))"
      using diff stop le by (simp add: word_le_nat_alt)
    then show ?thesis
      using ih len honest_sizes_bound [OF assms, of "ir_path r"]
      by (simp add: parts parts_bytes_def part_bytes_def rb del: length_take)
  qed
qed (simp add: parts_bytes_def)

end
