(* ===== verification/Archive_Input.thy ===== *)
theory Archive_Input
  imports Stream_Contents
begin

text \<open>
  The input of an archive as 7-Zip sees it: the operations of whichever stream was chosen, the bytes it
  stands for, and the two results the extraction rests on. The stream that is opened for an archive reads
  the chosen volumes (or ranges) one after the other; and reading ahead is invisible, a read returns what
  the file holds with or without it.
\<close>

section \<open>A stream behind the interface\<close>

fun in_read :: "'w file_os \<Rightarrow> u32 \<Rightarrow> in_stream \<Rightarrow> 'w \<Rightarrow> (hresult + u8 list) \<times> in_stream \<times> 'w" where
  "in_read os n (File_stream s) w = (case file_stream_read os n s w of (r, s', w') \<Rightarrow> (r, File_stream s', w'))"
| "in_read os n (Multi_stream s) w = (case multi_stream_read os n s w of (r, s', w') \<Rightarrow> (r, Multi_stream s', w'))"

fun in_seek :: "'w file_os \<Rightarrow> u64 \<Rightarrow> u32 \<Rightarrow> in_stream \<Rightarrow> 'w \<Rightarrow> (hresult + u64) \<times> in_stream \<times> 'w" where
  "in_seek os offset origin (File_stream s) w =
     (case file_stream_seek os offset origin s w of (r, s', w') \<Rightarrow> (r, File_stream s', w'))"
| "in_seek os offset origin (Multi_stream s) w =
     (case multi_stream_seek os offset origin s w of (r, s', w') \<Rightarrow> (r, Multi_stream s', w'))"

fun in_position :: "in_stream \<Rightarrow> u64" where
  "in_position (File_stream s) = fs_position s"
| "in_position (Multi_stream s) = ms_position s"

fun in_virtual :: "(wstring \<Rightarrow> u8 list) \<Rightarrow> in_stream \<Rightarrow> u8 list" where
  "in_virtual content (File_stream s) = file_virtual content s"
| "in_virtual content (Multi_stream s) = multi_virtual content s"

fun in_open :: "in_stream \<Rightarrow> bool" where
  "in_open (File_stream s) = file_is_open s"
| "in_open (Multi_stream s) = multi_is_open s"

fun in_wf :: "(wstring \<Rightarrow> u8 list) \<Rightarrow> in_stream \<Rightarrow> bool" where
  "in_wf content (File_stream s) = file_wf content s"
| "in_wf content (Multi_stream s) = multi_wf content s"

lemma in_read_ok:
  assumes "honest_os os content" "in_wf content s" "in_read os n s w = (r, s', w')"
  shows "in_wf content s' \<and> in_virtual content s' = in_virtual content s \<and>
    (\<forall>bs. r = Inr bs \<longrightarrow> bs = take (length bs) (drop (unat (in_position s)) (in_virtual content s)) \<and>
       length bs \<le> unat n \<and> unat (in_position s') = unat (in_position s) + length bs)"
proof (cases s)
  case (File_stream f)
  obtain r1 f1 w1 where f: "file_stream_read os n f w = (r1, f1, w1)" by (metis prod_cases3)
  from file_stream_read_ok [OF assms(1) _ f] show ?thesis using assms(2,3) File_stream f by auto
next
  case (Multi_stream m)
  obtain r1 m1 w1 where m: "multi_stream_read os n m w = (r1, m1, w1)" by (metis prod_cases3)
  from multi_stream_read_ok [OF assms(1) _ m] show ?thesis using assms(2,3) Multi_stream m by auto
qed

interpretation in_reader: reader "in_read os" in_position "in_virtual content"
  "\<lambda>s. honest_os os content \<and> in_wf content s" for os content
proof
  fix s n w bs s' w'
  assume "honest_os os content \<and> in_wf content s" "in_read os n s w = (Inr bs, s', w')"
  then show "bs = take (length bs) (drop (unat (in_position s)) (in_virtual content s)) \<and> length bs \<le> unat n \<and>
      unat (in_position s') = unat (in_position s) + length bs"
    using in_read_ok [of os content s n w "Inr bs" s' w'] by simp
next
  fix s n w r s' w'
  assume "honest_os os content \<and> in_wf content s" "in_read os n s w = (r, s', w')"
  then show "(honest_os os content \<and> in_wf content s') \<and> in_virtual content s' = in_virtual content s"
    using in_read_ok [of os content s n w r s' w'] by simp
qed

section \<open>What is opened\<close>

lemma open_file_contents:
  assumes "honest_sizes os content" "open_file os path tr mode config w = (opened, s, w')"
  shows "in_wf content s \<and> in_position s = 0 \<and> in_virtual content s = content path \<and> opened = in_open s"
proof -
  obtain f w1 where "new_file_stream os path tr mode config w = (f, w1)" by (metis prod.exhaust)
  with new_file_stream_wf [OF assms(1) this] show ?thesis using assms(2) by (auto simp: open_file_def)
qed

lemma finish_multi_wf:
  assumes "ok \<longrightarrow> laid_out content 0 parts \<and> unat t = length (parts_bytes content parts)"
    and "finish_multi os ranges parts t ok mode tr config w = (s, w')"
  shows "multi_wf content s \<and> ms_position s = 0 \<and> multi_virtual content s = parts_bytes content parts \<and>
    (ms_valid s \<longleftrightarrow> ok \<and> parts \<noteq> [])"
proof -
  let ?pf = "if (ok \<and> parts \<noteq> []) \<and> t \<noteq> 0 \<and> pc_enabled config
      then (case new_prefetcher os config t w of (p, w') \<Rightarrow> (Some p, w')) else (None, w)"
  obtain pf w1 where p: "?pf = (pf, w1)" by (metis prod.exhaust)
  have "ok \<Longrightarrow> pf_fine content (parts_bytes content parts) pf"
    using p assms(1) new_prefetcher_fine [of t "parts_bytes content parts" content os config w] by (auto split: if_splits)
  moreover have "ms_parts s = parts" "ms_total s = t" "ms_position s = 0" "ms_valid s = (ok \<and> parts \<noteq> [])" "ms_prefetch s = pf"
    using assms(2) p by (auto simp: finish_multi_def Let_def split: prod.splits)
  ultimately show ?thesis
    using assms(1) by (simp add: multi_wf_def multi_laid_def multi_virtual_def)
qed

lemma open_volumes_contents:
  assumes "honest_sizes os content" "length (concat (map content paths)) < 2 ^ 64"
    and "open_volumes os paths tr config w = (opened, s, w')"
  shows "opened = in_open s \<and>
    (opened \<longrightarrow> in_wf content s \<and> in_position s = 0 \<and> in_virtual content s = concat (map content paths))"
proof -
  obtain m w1 where m: "new_multi_file_stream os paths tr config w = (m, w1)" by (metis prod.exhaust)
  obtain parts t ok w2 where p: "file_parts os paths 0 w = (parts, t, ok, w2)" by (metis prod_cases4)
  have laid: "ok \<longrightarrow> laid_out content 0 parts \<and> unat t = length (parts_bytes content parts) \<and>
      parts_bytes content parts = concat (map content paths)"
    using file_parts_laid [OF assms(1), of paths 0 w parts t w2] p assms(2) by auto
  have "finish_multi os False parts t ok (wide ''multi_file'') tr config w2 = (m, w1)"
    using m p by (simp add: new_multi_file_stream_def)
  from finish_multi_wf [OF _ this, of content] laid show ?thesis
    using assms(3) m by (auto simp: open_volumes_def multi_is_open_def)
qed

lemma range_stream_contents:
  assumes "honest_sizes os content" "length (concat (map (range_bytes content) ranges)) < 2 ^ 64"
    and "new_multi_range_stream os ranges tr config w = (m, w')" "multi_is_open m"
  shows "multi_wf content m \<and> ms_position m = 0 \<and> multi_virtual content m = concat (map (range_bytes content) ranges)"
proof -
  obtain parts t ok w2 where p: "range_parts os ranges 0 w = (parts, t, ok, w2)" by (metis prod_cases4)
  have laid: "ok \<longrightarrow> laid_out content 0 parts \<and> unat t = length (parts_bytes content parts) \<and>
      parts_bytes content parts = concat (map (range_bytes content) ranges)"
    using range_parts_laid [OF assms(1), of ranges 0 w parts t w2] p assms(2) by auto
  have "finish_multi os True parts t ok (if length parts = 1 then wide ''file_range'' else wide ''concat_ranges'') tr config w2 = (m, w')"
    using assms(3) p by (simp add: new_multi_range_stream_def)
  from finish_multi_wf [OF _ this, of content] laid show ?thesis
    using assms(4) by (auto simp: multi_is_open_def)
qed

text \<open>The files that are read for an archive, in order.\<close>

definition input_paths :: "char_tables \<Rightarrow> wstring \<Rightarrow> wstring list \<Rightarrow> bool \<Rightarrow> wstring list" where
  "input_paths t archive_path part_paths structured_order =
     (let volumes = unique_existing_paths t archive_path part_paths;
          ordered = (if structured_order then volumes else sorted_data_volume_paths t volumes)
      in if is_sfx_path t archive_path
         then (if ordered = [] then [archive_path] else if is_sfx_path t (hd ordered) then [hd ordered] else ordered)
         else if length ordered > 1 then ordered else [archive_path])"

lemma open_archive_stream_cases:
  "(\<exists>p mode. open_archive_stream t os archive_path part_paths tr structured_order config w = open_file os p tr mode config w \<and>
      input_paths t archive_path part_paths structured_order = [p]) \<or>
   open_archive_stream t os archive_path part_paths tr structured_order config w =
     open_volumes os (input_paths t archive_path part_paths structured_order) tr config w"
proof -
  define ordered where "ordered = (let volumes = unique_existing_paths t archive_path part_paths
      in if structured_order then volumes else sorted_data_volume_paths t volumes)"
  note defs = open_archive_stream_def [of t os archive_path part_paths tr structured_order config w]
    input_paths_def [of t archive_path part_paths structured_order]
  note unf = defs [unfolded Let_def, folded ordered_def [unfolded Let_def]]
  consider "ordered = []" | p where "ordered = [p]" | p q ps where "ordered = p # q # ps"
    by (metis neq_Nil_conv)
  then show ?thesis by cases (auto simp: unf)
qed

lemma open_archive_stream_contents:
  assumes "honest_sizes os content"
    and "length (concat (map content (input_paths t archive_path part_paths structured_order))) < 2 ^ 64"
    and "open_archive_stream t os archive_path part_paths tr structured_order config w = (True, s, w')"
  shows "in_wf content s \<and> in_position s = 0 \<and> in_open s \<and>
    in_virtual content s = concat (map content (input_paths t archive_path part_paths structured_order))"
  using open_archive_stream_cases [of t os archive_path part_paths tr structured_order config w]
proof
  assume "\<exists>p mode. open_archive_stream t os archive_path part_paths tr structured_order config w = open_file os p tr mode config w \<and>
      input_paths t archive_path part_paths structured_order = [p]"
  then show ?thesis using open_file_contents [OF assms(1)] assms(3) by fastforce
next
  assume "open_archive_stream t os archive_path part_paths tr structured_order config w =
     open_volumes os (input_paths t archive_path part_paths structured_order) tr config w"
  then show ?thesis using open_volumes_contents [OF assms(1,2)] assms(3) by metis
qed

section \<open>Reads that do not fail are complete\<close>

text \<open>Files that open, seek and read whenever they are asked to.\<close>

definition reliable :: "'w file_os \<Rightarrow> (wstring \<Rightarrow> u8 list) \<Rightarrow> bool" where
  "reliable os content \<longleftrightarrow>
     (\<forall>p w. \<exists>w'. os_open os p w = (Inr (), w')) \<and>
     (\<forall>p cur d w. \<exists>w'. os_seek os p cur d FILE_BEGIN w = (Inr d, w')) \<and>
     (\<forall>p off n w. \<exists>w'. os_read os p off n w = (Inr (take (unat n) (file_bytes content p off)), w'))"

lemma reliable_open: "reliable os content \<Longrightarrow> \<exists>w'. os_open os p w = (Inr (), w')"
  by (simp add: reliable_def)

lemma reliable_seek: "reliable os content \<Longrightarrow> \<exists>w'. os_seek os p cur d FILE_BEGIN w = (Inr d, w')"
  by (simp add: reliable_def)

lemma reliable_read:
  assumes "reliable os content"
  shows "\<exists>w'. file_read os p off n w = (Inr (take (unat n) (drop (unat off) (content p))), w')"
proof -
  obtain w' where "os_read os p off n w = (Inr (take (unat n) (file_bytes content p off)), w')"
    using assms unfolding reliable_def by blast
  then show ?thesis by (simp add: file_read_def file_bytes_def)
qed

lemma file_read_direct_complete:
  assumes "reliable os content" "fs_handle s = Some ptr" "ptr = fs_position s \<or> n = 0"
  shows "fst (file_read_direct os n s w) = Inr (take (unat n) (drop (unat (fs_position s)) (file_virtual content s)))"
proof -
  obtain w1 where "file_read os (fs_path s) ptr n w = (Inr (take (unat n) (drop (unat ptr) (content (fs_path s)))), w1)"
    using reliable_read [OF assms(1)] by blast
  then have h: "handle_read os (fs_path s) (fs_handle s) n w = (Inr (take (unat n) (drop (unat ptr) (content (fs_path s)))), w1)"
    using assms(2) by (simp add: handle_read_def)
  have "take (unat n) (drop (unat ptr) (content (fs_path s))) = take (unat n) (drop (unat (fs_position s)) (content (fs_path s)))"
    using assms(3) by auto
  then show ?thesis
    unfolding file_read_direct_def h by (simp add: file_virtual_def Let_def split: prod.split)
qed

lemma file_stream_read_complete:
  assumes "reliable os content" "honest_os os content" "file_wf content s" "file_is_open s"
  shows "fst (file_stream_read os n s w) = Inr (take (unat n) (drop (unat (fs_position s)) (file_virtual content s)))"
proof -
  have hr: "honest_reads os content" using assms(2) by (simp add: honest_os_def)
  obtain h where h: "fs_handle s = Some h" using assms(4) by (auto simp: file_is_open_def)
  let ?tr0 = "map_option (trace_begin (fs_position s) (fs_position s) n (fs_path s) 0) (fs_trace s)"
  obtain q pf tr1 w1 where q: "ask_prefetch os (fs_prefetch s) (fs_position s) n ?tr0 w = (q, pf, tr1, w1)"
    by (metis prod_cases4)
  let ?s1 = "s\<lparr>fs_prefetch := pf, fs_trace := tr1\<rparr>"
  show ?thesis
  proof (cases q)
    case (Some bs)
    then have "bs = take (unat n) (drop (unat (fs_position s)) (file_virtual content s))"
      using ask_prefetch_exact [OF hr _ q, of "file_virtual content s"] assms(3) by (simp add: file_wf_def)
    then show ?thesis using q Some by (simp add: file_stream_read_def Let_def split: prod.split)
  next
    case None
    show ?thesis
    proof (cases "fs_dirty s \<and> n \<noteq> 0")
      case True
      obtain w2 where "os_seek os (fs_path s) h (fs_position s) FILE_BEGIN w1 = (Inr (fs_position s), w2)"
        using reliable_seek [OF assms(1)] by blast
      then have "file_stream_read os n s w = file_read_direct os n (?s1\<lparr>fs_handle := Some (fs_position s), fs_dirty := False\<rparr>) w2"
        using q None True h by (simp add: file_stream_read_def Let_def handle_seek_def)
      then show ?thesis
        using file_read_direct_complete [OF assms(1), of "?s1\<lparr>fs_handle := Some (fs_position s), fs_dirty := False\<rparr>" "fs_position s" n w2]
        by (simp add: file_virtual_def)
    next
      case False
      then have "file_stream_read os n s w = file_read_direct os n ?s1 w1"
        using q None by (auto simp: file_stream_read_def Let_def)
      moreover have "h = fs_position s \<or> n = 0" using False assms(3) h by (auto simp: file_wf_def)
      ultimately show ?thesis
        using file_read_direct_complete [OF assms(1), of ?s1 h n w1] h by (simp add: file_virtual_def)
    qed
  qed
qed

lemma read_part_complete:
  assumes "reliable os content"
  shows "fst (read_part os i want soff s w) = Inr (take (unat want) (drop (unat soff) (content (pt_path (ms_parts s ! i)))))"
proof -
  let ?s0 = "s\<lparr>ms_trace := map_option (trace_begin (ms_position s) soff want (pt_path (ms_parts s ! i)) (of_nat i)) (ms_trace s)\<rparr>"
  obtain e1 s1 w1 where e: "ensure_cached_handle os i ?s0 w = (e1, s1, w1)" by (metis prod_cases3)
  obtain w' where o: "os_open os (win32_extended_path (pt_path (ms_parts s ! i))) w = (Inr (), w')"
    using reliable_open [OF assms] by blast
  have e1: "e1 = None" using e o by (auto simp: ensure_cached_handle_def split: option.splits if_splits)
  obtain e2 s2 w2 where p: "position_handle os i soff s1 w1 = (e2, s2, w2)" by (metis prod_cases3)
  obtain w'' where k: "os_seek os (pt_path (ms_parts s1 ! i)) (multi_pointer s1) soff FILE_BEGIN w1 = (Inr soff, w'')"
    using reliable_seek [OF assms] by blast
  have e2: "e2 = None" using p k by (auto simp: position_handle_def split: if_splits)
  obtain w3 where r: "file_read os (pt_path (ms_parts s ! i)) soff want w2 =
      (Inr (take (unat want) (drop (unat soff) (content (pt_path (ms_parts s ! i))))), w3)"
    using reliable_read [OF assms] by blast
  have "multi_pointer s2 = soff" using position_handle_keeps [OF p] e2 by simp
  then show ?thesis using e e1 p e2 r by (simp add: read_part_def Let_def)
qed

lemma multi_loop_complete:
  assumes "reliable os content" "honest_reads os content"
  shows "multi_laid content s \<Longrightarrow>
    fst (multi_loop os n s w) = Inr (take (unat n) (drop (unat (ms_position s)) (multi_virtual content s)))"
proof (induction "unat n" arbitrary: n s w rule: less_induct)
  case less
  show ?case
  proof (cases "n = 0 \<or> \<not> ms_position s < ms_total s")
    case True
    moreover have "\<not> ms_position s < ms_total s \<Longrightarrow> drop (unat (ms_position s)) (multi_virtual content s) = []"
      using less.prems by (simp add: multi_laid_def word_less_nat_alt)
    ultimately show ?thesis unfolding multi_loop.simps [of os n s w] by auto
  next
    case False
    have laid: "laid_out content 0 (ms_parts s)" using less.prems by (simp add: multi_laid_def)
    obtain i where i: "find_part_index (ms_parts s) (ms_position s) = Some i"
      using find_part_complete [OF laid, of "ms_position s"] False less.prems
      by (auto simp: multi_laid_def multi_virtual_def word_less_nat_alt)
    let ?p = "ms_parts s ! i"
    let ?want = "multi_want ?p (ms_position s) n"
    let ?soff = "pt_start ?p + (ms_position s - pt_offset ?p)"
    let ?rest = "unat (pt_length ?p - (ms_position s - pt_offset ?p))"
    note room = find_part_room [OF laid i, folded multi_virtual_def]
    obtain q s1 w1 where q: "read_part os i ?want ?soff s w = (q, s1, w1)" by (metis prod_cases3)
    define bs where "bs = take (unat ?want) (drop (unat ?soff) (content (pt_path ?p)))"
    have qb: "q = Inr bs" using read_part_complete [OF assms(1), of i ?want ?soff s w] q by (simp add: bs_def)
    have want: "unat ?want = min (unat n) ?rest" by (rule unat_multi_want)
    have bytes: "bs = take (unat ?want) (drop (unat (ms_position s)) (multi_virtual content s))"
      unfolding bs_def multi_virtual_def using want by (intro find_part_bytes(1) [OF laid i]) simp
    then have len: "length bs = unat ?want" using room want by simp
    have n0: "0 < unat n" using False by (simp add: unat_gt_0)
    then have ne: "bs \<noteq> []" "?want \<noteq> 0" using len want room(1) by (auto simp: unat_eq_0 [symmetric])
    note one = read_part_exact [OF assms(2) less.prems i q [unfolded qb]]
    have "unat (n - count32 bs) = unat n - length bs" using one by (simp add: unat_minus_count32)
    moreover have "0 < length bs" "length bs \<le> unat n" using ne one by auto
    ultimately have smaller: "unat (n - count32 bs) < unat n" and n': "unat (n - count32 bs) = unat n - length bs" by linarith+
    have "multi_laid content s1" "multi_virtual content s1 = multi_virtual content s"
      using same_parts_wf one less.prems by blast+
    then have ih: "fst (multi_loop os (n - count32 bs) s1 w1) =
        Inr (take (unat n - length bs) (drop (unat (ms_position s) + length bs) (multi_virtual content s)))"
      using less.hyps [OF smaller, of s1 w1] one n' by simp
    have "fst (multi_loop os n s w) =
        Inr (bs @ take (unat n - length bs) (drop (unat (ms_position s) + length bs) (multi_virtual content s)))"
      using False i q qb ne ih unfolding multi_loop.simps [of os n s w]
      by (auto simp: Let_def split: prod.splits sum.splits)
    moreover have "bs @ take (unat n - length bs) (drop (unat (ms_position s) + length bs) (multi_virtual content s)) =
        take (unat n) (drop (unat (ms_position s)) (multi_virtual content s))"
      using take_add [of "length bs" "unat n - length bs" "drop (unat (ms_position s)) (multi_virtual content s)"] one
      by (simp add: add.commute)
    ultimately show ?thesis by simp
  qed
qed

lemma multi_stream_read_complete:
  assumes "reliable os content" "honest_os os content" "multi_wf content s" "multi_is_open s"
  shows "fst (multi_stream_read os n s w) = Inr (take (unat n) (drop (unat (ms_position s)) (multi_virtual content s)))"
proof -
  have hr: "honest_reads os content" using assms(2) by (simp add: honest_os_def)
  have v: "ms_valid s" "multi_laid content s" "pf_fine content (multi_virtual content s) (ms_prefetch s)"
    using assms(3,4) by (simp_all add: multi_wf_def multi_is_open_def)
  obtain q pf tr1 w1 where q: "ask_prefetch os (ms_prefetch s) (ms_position s) n (ms_trace s) w = (q, pf, tr1, w1)"
    by (metis prod_cases4)
  show ?thesis
  proof (cases q)
    case (Some bs)
    then have "bs = take (unat n) (drop (unat (ms_position s)) (multi_virtual content s))"
      using ask_prefetch_exact [OF hr v(3) q] by simp
    then show ?thesis using q Some v(1) by (simp add: multi_stream_read_def Let_def split: prod.split)
  next
    case None
    let ?s1 = "s\<lparr>ms_prefetch := pf, ms_trace := tr1\<rparr>"
    have "multi_laid content ?s1" "multi_virtual content ?s1 = multi_virtual content s"
      using v(2) by (simp_all add: multi_laid_def multi_virtual_def)
    with multi_loop_complete [OF assms(1) hr, of ?s1 n w1]
    have "fst (multi_loop os n ?s1 w1) = Inr (take (unat n) (drop (unat (ms_position s)) (multi_virtual content s)))" by simp
    then show ?thesis using q None v(1) by (auto simp: multi_stream_read_def Let_def split: prod.splits sum.splits)
  qed
qed

section \<open>An operating system over fixed files\<close>

text \<open>
  For the instances below: every call succeeds, overlapped reads complete when they are awaited, and the
  world has no state.
\<close>

definition static_os :: "(wstring \<Rightarrow> u8 list) \<Rightarrow> unit file_os" where
  "static_os content = \<lparr>timing_enabled = False, os_open = (\<lambda>p w. (Inr (), w)),
     os_size = (\<lambda>p w. (Some (of_nat (length (content p))), w)),
     os_seek = (\<lambda>p cur d origin w. (Inr (if origin = FILE_CURRENT then cur + d
                  else if origin = FILE_END then of_nat (length (content p)) + d else d), w)),
     os_read = (\<lambda>p off n w. (Inr (take (unat n) (drop (unat off) (content p))), w)),
     os_submit = (\<lambda>p off n w. (Sub_pending, w)),
     os_complete = (\<lambda>p off n w. (Some (take (unat n) (drop (unat off) (content p))), w)),
     os_cancel = (\<lambda>p w. w), os_event = (\<lambda>w. (True, w)), os_alloc = (\<lambda>n w. (True, w))\<rparr>"

lemma static_os_honest: "honest_os (static_os content) content"
  by (auto simp: honest_os_def honest_reads_def honest_seeks_def static_os_def file_bytes_def take_is_prefix)

lemma static_os_reliable: "reliable (static_os content) content"
  by (simp add: reliable_def static_os_def file_bytes_def)

lemma static_os_sizes: "(\<And>p. length (content p) < 2 ^ 64) \<Longrightarrow> honest_sizes (static_os content) content"
  by (auto simp: honest_sizes_def static_os_def unat_of_nat)

lemma static_file_parts: "file_parts (static_os content) ps base () = (parts, t, ok, w) \<Longrightarrow> ok \<and> (parts = [] \<longleftrightarrow> ps = [])"
  by (induction ps arbitrary: base parts) (auto simp: static_os_def split: prod.splits)

lemma static_os_opens:
  assumes "input_paths t archive_path part_paths structured_order \<noteq> []"
  shows "\<exists>s. open_archive_stream t (static_os content) archive_path part_paths tr structured_order config () = (True, s, ())"
proof -
  have "fst (open_file (static_os content) p tr mode config ())" for p mode
    by (auto simp: open_file_def new_file_stream_def file_is_open_def static_os_def Let_def split: prod.splits)
  moreover have "fst (open_volumes (static_os content) ps tr config ())" if "ps \<noteq> []" for ps
  proof -
    obtain parts k ok w where p: "file_parts (static_os content) ps 0 () = (parts, k, ok, w)" by (metis prod_cases4)
    then have "ok \<and> parts \<noteq> []" using static_file_parts that by blast
    then show ?thesis using p
      by (auto simp: open_volumes_def new_multi_file_stream_def finish_multi_def multi_is_open_def Let_def split: prod.splits)
  qed
  ultimately have "fst (open_archive_stream t (static_os content) archive_path part_paths tr structured_order config ())"
    using open_archive_stream_cases [of t "static_os content" archive_path part_paths tr structured_order config "()"] assms by auto
  then show ?thesis by (metis (full_types) old.unit.exhaust prod.collapse)
qed

definition demo_files :: "wstring \<Rightarrow> u8 list" where
  "demo_files p = (if p = wide ''a.001'' then [1, 2, 3] else if p = wide ''a.002'' then [4, 5] else [])"

lemma demo_files_sizes: "honest_sizes (static_os demo_files) demo_files"
  by (rule static_os_sizes) (simp add: demo_files_def)

section \<open>The input of an archive\<close>

text \<open>
  C2. An archive is read from the files chosen for it, one after the other: whatever pieces 7-Zip asks
  for, the bytes it gets are a prefix of the concatenation of the volumes in their order (a
  self-extracting stub alone, the sorted or given volumes, or the archive file), with the prefetcher on
  or off, also when reads are cut short or fail in between.
\<close>

theorem archive_input_is_the_volumes:
  assumes "honest_sizes os content" "honest_os os content"
    and "length (concat (map content (input_paths t archive_path part_paths structured_order))) < 2 ^ 64"
    and "open_archive_stream t os archive_path part_paths tr structured_order config w = (True, s, w1)"
    and "reader.read_all (in_read os) ns s w1 = (bs, s', w2)"
  shows "prefix bs (concat (map content (input_paths t archive_path part_paths structured_order)))"
proof -
  have o: "in_wf content s" "in_position s = 0"
    "in_virtual content s = concat (map content (input_paths t archive_path part_paths structured_order))"
    using open_archive_stream_contents [OF assms(1,3,4)] by auto
  have "bs = take (length bs) (drop (unat (in_position s)) (in_virtual content s))"
    using in_reader.read_all_contiguous [of os content s ns w1 bs s' w2] o(1) assms(2,5) by blast
  then show ?thesis using o take_is_prefix by (metis drop0 unat_0)
qed

theorem archive_input_is_the_volumes_witness:
  "\<exists>s bs s'. open_archive_stream ascii_tables (static_os demo_files) (wide ''a.001'') [wide ''a.002'', wide ''a.001'']
       None False default_prefetch_config () = (True, s, ()) \<and>
     reader.read_all (in_read (static_os demo_files)) [2, 2, 9] s () = (bs, s', ()) \<and> prefix bs [1, 2, 3, 4, 5]"
proof -
  let ?open = "open_archive_stream ascii_tables (static_os demo_files) (wide ''a.001'') [wide ''a.002'', wide ''a.001'']
       None False default_prefetch_config ()"
  have "input_paths ascii_tables (wide ''a.001'') [wide ''a.002'', wide ''a.001''] False \<noteq> []" by code_simp
  then obtain s where s: "?open = (True, s, ())" using static_os_opens by blast
  obtain bs s' where r: "reader.read_all (in_read (static_os demo_files)) [2, 2, 9] s () = (bs, s', ())"
    by (metis old.unit.exhaust prod_cases3)
  have p: "concat (map demo_files (input_paths ascii_tables (wide ''a.001'') [wide ''a.002'', wide ''a.001''] False)) = [1, 2, 3, 4, 5]"
    by code_simp
  have "prefix bs [1, 2, 3, 4, 5]"
    using archive_input_is_the_volumes [OF demo_files_sizes static_os_honest _ s r] unfolding p by simp
  with s r show ?thesis by blast
qed

text \<open>
  C7. Reading ahead is invisible and reads are complete: as long as the files can be opened, positioned
  and read, a read of any open stream returns exactly the bytes from its position on, as many as were
  asked for or are left, whatever the prefetcher holds, has pending or has failed to read.
\<close>

theorem prefetch_is_transparent:
  assumes "reliable os content" "honest_os os content" "in_wf content s" "in_open s"
  shows "fst (in_read os n s w) = Inr (take (unat n) (drop (unat (in_position s)) (in_virtual content s)))"
proof (cases s)
  case (File_stream f)
  then show ?thesis
    using file_stream_read_complete [OF assms(1,2), of f n w] assms(3,4) by (auto split: prod.splits)
next
  case (Multi_stream m)
  then show ?thesis
    using multi_stream_read_complete [OF assms(1,2), of m n w] assms(3,4) by (auto split: prod.splits)
qed

theorem prefetch_is_transparent_witness:
  "\<exists>s. open_archive_stream ascii_tables (static_os demo_files) (wide ''a.001'') [wide ''a.002'', wide ''a.001'']
       None False default_prefetch_config () = (True, s, ()) \<and>
     fst (in_read (static_os demo_files) 4 s ()) = Inr [1, 2, 3, 4]"
proof -
  let ?open = "open_archive_stream ascii_tables (static_os demo_files) (wide ''a.001'') [wide ''a.002'', wide ''a.001'']
       None False default_prefetch_config ()"
  have "input_paths ascii_tables (wide ''a.001'') [wide ''a.002'', wide ''a.001''] False \<noteq> []" by code_simp
  then obtain s where s: "?open = (True, s, ())" using static_os_opens by blast
  have p: "concat (map demo_files (input_paths ascii_tables (wide ''a.001'') [wide ''a.002'', wide ''a.001''] False)) = [1, 2, 3, 4, 5]"
    by code_simp
  have o: "in_wf demo_files s" "in_position s = 0" "in_open s" "in_virtual demo_files s = [1, 2, 3, 4, 5]"
    using open_archive_stream_contents [OF demo_files_sizes _ s] p by simp_all
  show ?thesis
    using s prefetch_is_transparent [OF static_os_reliable static_os_honest o(1,3), of 4 "()"] o by auto
qed

text \<open>A plan with ranges reads the ranges, clipped to their files.\<close>

lemma plan_ranges_contents:
  assumes "honest_sizes os content" "uses_ranges plan"
    and "length (concat (map (range_bytes content) (pl_ranges plan))) < 2 ^ 64"
    and "open_stream_for_plan t os plan archive_path part_paths structured_order w = (True, s, w')"
  shows "in_wf content s \<and> in_position s = 0 \<and> in_virtual content s = concat (map (range_bytes content) (pl_ranges plan))"
proof -
  obtain m w1 where m: "new_multi_range_stream os (pl_ranges plan) None \<lparr>pc_enabled = False, pc_window_bytes = 512 * 1024\<rparr> w = (m, w1)"
    by (metis prod.exhaust)
  then show ?thesis
    using range_stream_contents [OF assms(1,3) m] assms(2,4) by (auto simp: open_stream_for_plan_def)
qed

text \<open>Seeking within any stream: absolute and relative positions, and nothing else changes on failure.\<close>

lemma in_seek_ok:
  assumes "honest_os os content" "in_wf content s" "in_open s" "in_seek os offset origin s w = (r, s', w')"
  shows "in_wf content s' \<and> in_virtual content s' = in_virtual content s \<and>
    (case r of Inl _ \<Rightarrow> in_position s' = in_position s
     | Inr pos \<Rightarrow> in_position s' = pos \<and> (origin = FILE_BEGIN \<longrightarrow> pos = offset) \<and>
         (origin = FILE_CURRENT \<longrightarrow> pos = in_position s + offset))"
proof (cases s)
  case (File_stream f)
  obtain r1 f1 w1 where f: "file_stream_seek os offset origin f w = (r1, f1, w1)" by (metis prod_cases3)
  from file_stream_seek_ok [OF assms(1) _ _ f] show ?thesis
    using assms File_stream f by (auto simp: file_is_open_def split: sum.splits)
next
  case (Multi_stream m)
  obtain r1 m1 w1 where m: "multi_stream_seek os offset origin m w = (r1, m1, w1)" by (metis prod_cases3)
  from multi_stream_seek_ok [OF _ m] show ?thesis
    using assms Multi_stream m by (auto split: sum.splits)
qed

end
