(* ===== verification/Open_Callbacks.thy ===== *)
theory Open_Callbacks
  imports Archive_Input
begin

text \<open>
  The callbacks that 7-Zip calls back while it opens and tests an archive (\<^verbatim>\<open>OpenCallback\<close> and
  \<^verbatim>\<open>ExtractCallback\<close> of \<^verbatim>\<open>sevenzip_callbacks.hpp\<close>): the names under which volumes are found, the streams
  handed out for them, and the record of what was asked for.

  The cancellation flag of the job is read by each method; what it reads is the argument \<open>cancelled\<close>. The
  allocation of a \<^verbatim>\<open>BSTR\<close> may fail: its outcome is the argument \<open>allocated\<close>. Null result pointers are not
  modelled.
\<close>

section \<open>Opening\<close>

record open_callback =
  oc_password :: wstring
  oc_archive_path :: wstring
  oc_part_paths :: "wstring list"
  oc_part_ranges :: "input_range list"
  oc_prefetch_config :: prefetch_config
  oc_volume_paths :: "wstring \<Rightarrow> nat option"
  oc_missing_volume_requested :: bool
  oc_volume_open_failed :: bool
  oc_password_requested :: bool
  oc_missing_volume_name :: wstring
  oc_failed_volume_name :: wstring

text \<open>The table of the given names: the file name of each, empty ones left out.\<close>

fun alias_table :: "char_tables \<Rightarrow> nat \<Rightarrow> wstring list \<Rightarrow> (wstring \<Rightarrow> nat option) \<Rightarrow> wstring \<Rightarrow> nat option" where
  "alias_table t i [] m = m"
| "alias_table t i (n # ns) m =
     (let alias = lower_text t (filename n) in alias_table t (Suc i) ns (if alias \<noteq> [] then m(alias \<mapsto> i) else m))"

text \<open>The table of the paths themselves: file name and whole path of each.\<close>

definition enter_path :: "char_tables \<Rightarrow> nat \<Rightarrow> wstring \<Rightarrow> (wstring \<Rightarrow> nat option) \<Rightarrow> wstring \<Rightarrow> nat option" where
  "enter_path t i path m =
     (let name = lower_text t (filename path); m1 = (if name \<noteq> [] then m(name \<mapsto> i) else m)
      in m1(lower_text t path \<mapsto> i))"

fun path_table :: "char_tables \<Rightarrow> nat \<Rightarrow> wstring list \<Rightarrow> (wstring \<Rightarrow> nat option) \<Rightarrow> wstring \<Rightarrow> nat option" where
  "path_table t i [] m = m"
| "path_table t i (p # ps) m = path_table t (Suc i) ps (enter_path t i p m)"

text \<open>\<^verbatim>\<open>std::find\<close>: the position of the first occurrence, the length where there is none.\<close>

definition index_of :: "'a \<Rightarrow> 'a list \<Rightarrow> nat" where
  "index_of x xs = length (takeWhile (\<lambda>y. y \<noteq> x) xs)"

definition new_open_callback ::
  "char_tables \<Rightarrow> wstring \<Rightarrow> wstring \<Rightarrow> wstring list \<Rightarrow> wstring list \<Rightarrow> prefetch_config \<Rightarrow> input_range list \<Rightarrow> open_callback" where
  "new_open_callback t password archive_path part_paths canonical_names config part_ranges =
     (let cb = \<lparr>oc_password = password, oc_archive_path = archive_path, oc_part_paths = part_paths,
                oc_part_ranges = part_ranges, oc_prefetch_config = config, oc_volume_paths = Map.empty,
                oc_missing_volume_requested = False, oc_volume_open_failed = False, oc_password_requested = False,
                oc_missing_volume_name = [], oc_failed_volume_name = []\<rparr>
      in if canonical_names \<noteq> [] \<and> length canonical_names = length part_paths
         then cb\<lparr>oc_volume_paths := alias_table t 0 canonical_names Map.empty\<rparr>
         else let m = path_table t 0 part_paths Map.empty
           in if archive_path = [] then cb\<lparr>oc_volume_paths := m\<rparr>
              else let i = index_of archive_path part_paths
                in cb\<lparr>oc_part_paths := (if i = length part_paths then part_paths @ [archive_path] else part_paths),
                      oc_volume_paths := enter_path t i archive_path m\<rparr>)"

text \<open>\<^verbatim>\<open>SetTotal\<close> and \<^verbatim>\<open>SetCompleted\<close>.\<close>

definition oc_progress :: "bool \<Rightarrow> hresult" where
  "oc_progress cancelled = (if cancelled then e_abort else s_ok)"

abbreviation (input) kpidName :: u32 where "kpidName \<equiv> 4"

definition oc_get_property :: "bool \<Rightarrow> bool \<Rightarrow> u32 \<Rightarrow> open_callback \<Rightarrow> hresult \<times> propvariant" where
  "oc_get_property cancelled allocated prop_id cb =
     (if cancelled then (e_abort, VT_EMPTY)
      else if prop_id = kpidName \<and> oc_archive_path cb \<noteq> [] then
        (if allocated then (s_ok, VT_BSTR (Some (oc_archive_path cb))) else (e_outofmemory, VT_BSTR None))
      else (s_ok, VT_EMPTY))"

definition open_volume_stream ::
  "'w file_os \<Rightarrow> open_callback \<Rightarrow> nat \<Rightarrow> 'w \<Rightarrow> bool \<times> in_stream \<times> 'w" where
  "open_volume_stream os cb i w =
     (if i < length (oc_part_ranges cb) then
        (case new_multi_range_stream os [oc_part_ranges cb ! i] None (oc_prefetch_config cb) w of
           (s, w') \<Rightarrow> (multi_is_open s, Multi_stream s, w'))
      else open_file os (oc_part_paths cb ! i) None (wide ''file'') (oc_prefetch_config cb) w)"

definition find_volume :: "char_tables \<Rightarrow> wstring \<Rightarrow> open_callback \<Rightarrow> nat option" where
  "find_volume t name cb =
     (case oc_volume_paths cb (lower_text t (filename name)) of
        Some i \<Rightarrow> Some i
      | None \<Rightarrow> oc_volume_paths cb (lower_text t name))"

definition oc_get_stream ::
  "char_tables \<Rightarrow> 'w file_os \<Rightarrow> bool \<Rightarrow> wstring option \<Rightarrow> open_callback \<Rightarrow> 'w \<Rightarrow>
   hresult \<times> in_stream option \<times> open_callback \<times> 'w" where
  "oc_get_stream t os cancelled name cb w =
     (if cancelled then (e_abort, None, cb, w)
      else case name of
        None \<Rightarrow> (e_fail, None, cb\<lparr>oc_volume_open_failed := True\<rparr>, w)
      | Some n \<Rightarrow>
          (case find_volume t n cb of
             None \<Rightarrow> (e_fail, None, cb\<lparr>oc_missing_volume_requested := True, oc_missing_volume_name := filename n\<rparr>, w)
           | Some i \<Rightarrow>
               (case open_volume_stream os cb i w of
                  (opened, s, w') \<Rightarrow>
                    if opened then (s_ok, Some s, cb, w')
                    else (e_fail, None,
                          cb\<lparr>oc_volume_open_failed := True, oc_failed_volume_name := filename (oc_part_paths cb ! i)\<rparr>, w'))))"

definition oc_get_password :: "bool \<Rightarrow> bool \<Rightarrow> open_callback \<Rightarrow> hresult \<times> wstring option \<times> open_callback" where
  "oc_get_password cancelled allocated cb =
     (let cb' = cb\<lparr>oc_password_requested := True\<rparr>
      in if cancelled then (e_abort, None, cb')
         else if allocated then (s_ok, Some (oc_password cb), cb') else (e_outofmemory, None, cb'))"

section \<open>Testing\<close>

record test_callback =
  tc_password :: wstring
  tc_operation_result :: op_result
  tc_password_requested :: bool

definition new_test_callback :: "wstring \<Rightarrow> test_callback" where
  "new_test_callback password = \<lparr>tc_password = password, tc_operation_result = kOpOk, tc_password_requested = False\<rparr>"

text \<open>\<^verbatim>\<open>SetTotal\<close>, \<^verbatim>\<open>SetCompleted\<close>, \<^verbatim>\<open>GetStream\<close> (which never hands out a stream) and \<^verbatim>\<open>PrepareOperation\<close>.\<close>

definition tc_progress :: "bool \<Rightarrow> hresult" where
  "tc_progress cancelled = (if cancelled then e_abort else s_ok)"

definition tc_set_operation_result :: "bool \<Rightarrow> op_result \<Rightarrow> test_callback \<Rightarrow> hresult \<times> test_callback" where
  "tc_set_operation_result cancelled op_res cb = (tc_progress cancelled, cb\<lparr>tc_operation_result := op_res\<rparr>)"

definition tc_get_password :: "bool \<Rightarrow> bool \<Rightarrow> test_callback \<Rightarrow> hresult \<times> wstring option \<times> test_callback" where
  "tc_get_password cancelled allocated cb =
     (let cb' = cb\<lparr>tc_password_requested := True\<rparr>
      in if cancelled then (e_abort, None, cb')
         else if allocated then (s_ok, Some (tc_password cb), cb') else (e_outofmemory, None, cb'))"

section \<open>What the names lead to\<close>

lemma alias_table_other:
  "k \<notin> set (map (\<lambda>n. lower_text t (filename n)) ns) \<Longrightarrow> alias_table t i ns m k = m k"
  by (induction ns arbitrary: i m) (auto simp: Let_def)

lemma alias_table_nth:
  assumes "distinct (map (\<lambda>n. lower_text t (filename n)) ns)" "j < length ns" "filename (ns ! j) \<noteq> []"
  shows "alias_table t i ns m (lower_text t (filename (ns ! j))) = Some (i + j)"
  using assms
proof (induction ns arbitrary: i m j)
  case (Cons n ns)
  show ?case
  proof (cases j)
    case 0
    then have "lower_text t (filename n) \<noteq> []" using Cons.prems by simp
    then show ?thesis using 0 Cons.prems alias_table_other [of "lower_text t (filename n)" t ns] by (simp add: Let_def)
  next
    case (Suc k)
    then show ?thesis using Cons.IH [of k "Suc i"] Cons.prems by (simp add: Let_def)
  qed
qed simp

text \<open>
  With canonical names, one for each part, 7-Zip's request for a volume by its canonical name opens
  exactly the part that was given for it, however the part is called on disk.
\<close>

lemma canonical_volume_found:
  assumes "length names = length parts" "distinct (map (\<lambda>n. lower_text t (filename n)) names)"
    and "i < length parts" "filename (names ! i) \<noteq> []"
  shows "find_volume t (names ! i) (new_open_callback t pw archive_path parts names config ranges) = Some i \<and>
    oc_part_paths (new_open_callback t pw archive_path parts names config ranges) = parts"
proof -
  have "names \<noteq> []" using assms(1,3) by auto
  then show ?thesis
    using assms alias_table_nth [OF assms(2), of i 0 Map.empty] by (simp add: find_volume_def new_open_callback_def Let_def)
qed

text \<open>A table never leads outside the list of parts, so a stream is always opened for an existing part.\<close>

lemma alias_table_range: "alias_table t i ns m k = Some j \<Longrightarrow> m k = Some j \<or> (i \<le> j \<and> j < i + length ns)"
proof (induction ns arbitrary: i m)
  case (Cons n ns)
  then show ?case by (fastforce simp: Let_def split: if_splits)
qed simp

lemma path_table_range: "path_table t i ps m k = Some j \<Longrightarrow> m k = Some j \<or> (i \<le> j \<and> j < i + length ps)"
proof (induction ps arbitrary: i m)
  case (Cons p ps)
  have "enter_path t i p m k = Some j \<or> (Suc i \<le> j \<and> j < Suc i + length ps)"
    using Cons.IH [of "Suc i" "enter_path t i p m"] Cons.prems by simp
  then show ?case by (auto simp: enter_path_def Let_def split: if_splits)
qed simp

lemma volume_index_in_range:
  "oc_volume_paths (new_open_callback t pw archive_path parts names config ranges) k = Some j \<Longrightarrow>
   j < length (oc_part_paths (new_open_callback t pw archive_path parts names config ranges))"
proof -
  have "index_of archive_path parts \<le> length parts" by (simp add: index_of_def length_takeWhile_le)
  then show "oc_volume_paths (new_open_callback t pw archive_path parts names config ranges) k = Some j \<Longrightarrow> ?thesis"
    using alias_table_range [of t 0 names Map.empty k j] path_table_range [of t 0 parts Map.empty k j]
    by (auto simp: new_open_callback_def enter_path_def Let_def split: if_splits)
qed

text \<open>The record of requests only grows, and parameters stay.\<close>

definition oc_grows :: "open_callback \<Rightarrow> open_callback \<Rightarrow> bool" where
  "oc_grows a b \<longleftrightarrow> oc_password b = oc_password a \<and>
     (oc_password_requested a \<longrightarrow> oc_password_requested b) \<and>
     (oc_missing_volume_requested a \<longrightarrow> oc_missing_volume_requested b) \<and>
     (oc_volume_open_failed a \<longrightarrow> oc_volume_open_failed b)"

lemma oc_get_stream_grows: "oc_grows cb (fst (snd (snd (oc_get_stream t os c name cb w))))"
  by (auto simp: oc_get_stream_def oc_grows_def split: option.splits prod.splits)

lemma oc_get_password_grows: "oc_grows cb (snd (snd (oc_get_password c a cb)))"
  by (auto simp: oc_get_password_def oc_grows_def Let_def)

text \<open>A volume that is not among the given ones is remembered by its name and never opened.\<close>

lemma missing_volume_recorded:
  "find_volume t n cb = None \<Longrightarrow>
   oc_get_stream t os False (Some n) cb w =
     (e_fail, None, cb\<lparr>oc_missing_volume_requested := True, oc_missing_volume_name := filename n\<rparr>, w)"
  by (simp add: oc_get_stream_def)

end
