(* ===== verification/Password_Testing.thy ===== *)
theory Password_Testing
  imports Open_Callbacks
begin

text \<open>
  Finding the password of an archive (\<^verbatim>\<open>password_testing.cpp\<close>): which item is tested, how one candidate is
  tried with each format handler, the handler that is kept between candidates, and the batch over a list
  of candidates.

  7-Zip is an argument: the record \<open>engine\<close> holds what its calls answer, over archive objects \<open>'a\<close> and a
  world \<open>'w\<close>. Opening and testing call back; an engine call therefore takes the callback objects and
  returns them as they are left. The cancellation flag of the job is read from the world.
\<close>

record ('a, 'w) engine =
  job_cancelled :: "'w \<Rightarrow> bool \<times> 'w"
  create_archive :: "guid \<Rightarrow> 'w \<Rightarrow> hresult \<times> 'a option \<times> 'w"
  archive_open :: "'a \<Rightarrow> in_stream \<Rightarrow> u64 option \<Rightarrow> open_callback \<Rightarrow> 'w \<Rightarrow> hresult \<times> 'a \<times> open_callback \<times> 'w"
  archive_view :: "'a \<Rightarrow> in_archive"
  archive_extract :: "'a \<Rightarrow> u32 list option \<Rightarrow> test_callback \<Rightarrow> open_callback \<Rightarrow> 'w \<Rightarrow>
    hresult \<times> 'a \<times> test_callback \<times> open_callback \<times> 'w"
  archive_close :: "'a \<Rightarrow> 'w \<Rightarrow> 'w"

section \<open>Results\<close>

record test_result =
  tr_status :: password_test_status
  tr_backend_available :: bool
  tr_is_archive :: bool
  tr_encrypted :: bool
  tr_password_required :: bool
  tr_missing_volume :: bool
  tr_missing_volume_suspected :: bool
  tr_missing_stub :: bool
  tr_volume_open_failed :: bool
  tr_wrong_password :: bool
  tr_damaged :: bool
  tr_matched_index :: int
  tr_attempts :: int
  tr_archive_offset :: u64
  tr_operation_result :: op_result
  tr_archive_type :: wstring
  tr_missing_volume_name :: wstring
  tr_missing_volume_evidence :: string
  tr_message :: string

definition empty_result :: test_result where
  "empty_result = \<lparr>tr_status = BackendUnavailable, tr_backend_available = False, tr_is_archive = False,
     tr_encrypted = False, tr_password_required = False, tr_missing_volume = False,
     tr_missing_volume_suspected = False, tr_missing_stub = False, tr_volume_open_failed = False,
     tr_wrong_password = False, tr_damaged = False, tr_matched_index = -1, tr_attempts = 0, tr_archive_offset = 0,
     tr_operation_result = kOpOk, tr_archive_type = [], tr_missing_volume_name = [],
     tr_missing_volume_evidence = [], tr_message = []\<rparr>"

definition apply_plan_metadata :: "archive_open_plan \<Rightarrow> test_result \<Rightarrow> test_result" where
  "apply_plan_metadata plan r =
     (let r1 = r\<lparr>tr_archive_offset := pl_archive_offset plan\<rparr>
      in if pl_format_hint plan \<noteq> [] then r1\<lparr>tr_archive_type := pl_format_hint plan\<rparr> else r1)"

text \<open>Characters that do not print become question marks.\<close>

definition printable :: "wstring \<Rightarrow> string" where
  "printable name = map (\<lambda>c. if 0x20 \<le> c \<and> c \<le> 0x7E then char_of (unat c) else CHR ''?'') name"

definition needs_volume_or_tail_damaged_result :: "string \<Rightarrow> wstring \<Rightarrow> test_result" where
  "needs_volume_or_tail_damaged_result evidence requested_name =
     empty_result\<lparr>tr_backend_available := True, tr_status := NeedsVolumeOrTailDamaged, tr_is_archive := True,
       tr_damaged := True, tr_missing_volume := True, tr_missing_volume_suspected := True,
       tr_missing_volume_evidence := evidence, tr_missing_volume_name := requested_name,
       tr_message :=
         ''password probe could not read required tail data; missing volume or damaged tail offset/structure'' @
         (if evidence \<noteq> [] then '' [evidence='' @ evidence @ '']'' else []) @
         (if requested_name \<noteq> [] then '' [requested_volume='' @ printable requested_name @ '']'' else [])\<rparr>"

definition encrypted_header_range_probe_candidate :: "char_tables \<Rightarrow> wstring \<Rightarrow> bool" where
  "encrypted_header_range_probe_candidate t format_hint =
     (let h0 = lower_text t format_hint; hint = (if h0 \<noteq> [] \<and> hd h0 = 46 then tl h0 else h0)
      in hint = wide ''7z'' \<or> hint = wide ''sevenzip'' \<or> hint = wide ''seven_zip'' \<or>
         hint = wide ''rar'' \<or> hint = wide ''rar4'' \<or> hint = wide ''rar5'')"

section \<open>Which item is tested\<close>

record probe_selection =
  ps_indices :: "u32 list"
  ps_item_count_known :: bool
  ps_item_count :: u32
  ps_encrypted :: bool

definition no_selection :: probe_selection where
  "no_selection = \<lparr>ps_indices = [], ps_item_count_known = False, ps_item_count = 0, ps_encrypted = False\<rparr>"

type_synonym probe_candidate = "u32 \<times> u64"

definition remember :: "bool \<Rightarrow> probe_candidate option \<Rightarrow> probe_candidate \<Rightarrow> probe_candidate option" where
  "remember solid current item =
     (case current of None \<Rightarrow> Some item | Some c \<Rightarrow> if \<not> solid \<and> snd item < snd c then Some item else Some c)"

definition item_flag :: "in_archive \<Rightarrow> u32 \<Rightarrow> u32 \<Rightarrow> bool" where
  "item_flag a index prop_id = (case get_item_property a index prop_id of (present, v) \<Rightarrow> present \<and> prop_bool v)"

text \<open>The loop over the items: whether one is encrypted, and the candidates among all and among the encrypted.\<close>

fun probe_items ::
  "in_archive \<Rightarrow> bool \<Rightarrow> u32 list \<Rightarrow> bool \<times> probe_candidate option \<times> probe_candidate option \<Rightarrow>
   bool \<times> probe_candidate option \<times> probe_candidate option" where
  "probe_items a solid [] st = st"
| "probe_items a solid (index # is) (enc, regular, encrypted) =
     (let is_encrypted = item_flag a index kpidEncrypted;
          enc' = (enc \<or> is_encrypted)
      in if item_flag a index kpidIsDir then probe_items a solid is (enc', regular, encrypted)
         else (case get_item_property a index kpidSize of (size_known, v) \<Rightarrow>
           let sz = prop_u64 v
           in if size_known \<and> sz = 0 then probe_items a solid is (enc', regular, encrypted)
              else let regular' = remember solid regular (index, sz)
                in if is_encrypted
                   then (let encrypted' = remember solid encrypted (index, sz)
                         in if solid then (enc', regular', encrypted') else probe_items a solid is (enc', regular', encrypted'))
                   else probe_items a solid is (enc', regular', encrypted)))"

definition bounded_password_probe_selection :: "in_archive \<Rightarrow> probe_selection" where
  "bounded_password_probe_selection a =
     (case number_of_items a of (hr, n) \<Rightarrow>
        if hr \<noteq> s_ok then no_selection\<lparr>ps_item_count := n\<rparr>
        else let solid = get_archive_property_bool a kpidSolid
          in case probe_items a solid (indices32 n) (False, None, None) of
               (enc, regular, encrypted) \<Rightarrow>
                 \<lparr>ps_indices = (case (if enc then encrypted else regular) of None \<Rightarrow> [] | Some (i, _) \<Rightarrow> [i]),
                  ps_item_count_known = True, ps_item_count = n, ps_encrypted = enc\<rparr>)"

section \<open>Testing an opened archive\<close>

text \<open>
  Whether a verdict was reached, the encryption evidence, the result of the call and of the operation,
  and the objects as they are left.
\<close>

definition probe_opened_archive ::
  "('a, 'w) engine \<Rightarrow> 'a \<Rightarrow> probe_selection \<Rightarrow> wstring \<Rightarrow> bool \<Rightarrow> open_callback \<Rightarrow> 'w \<Rightarrow>
   bool \<times> bool \<times> hresult \<times> op_result \<times> 'a \<times> open_callback \<times> 'w" where
  "probe_opened_archive eng a sel password evidence ocb w =
     (let run = (\<lambda>indices.
            case archive_extract eng a indices (new_test_callback password) ocb w of
              (hr, a', tcb, ocb', w') \<Rightarrow>
                (True, evidence \<or> tc_password_requested tcb, hr, tc_operation_result tcb, a', ocb', w'))
      in if ps_indices sel = [] then
           (case empty_bounded_password_probe_disposition (ps_item_count_known sel) (ps_item_count sel) evidence of
              AcceptOpenProof \<Rightarrow> (True, evidence, s_ok, kOpOk, a, ocb, w)
            | RejectInconclusive \<Rightarrow> (False, evidence, s_false, kOpWrongPassword, a, ocb, w)
            | TestAllItems \<Rightarrow> run None)
         else run (Some (ps_indices sel)))"

text \<open>The handler kept for the next candidate, with what was learnt when it was opened.\<close>

record 'a probe_cache =
  ca_archive :: 'a
  ca_callback :: open_callback
  ca_selection :: probe_selection
  ca_evidence :: test_result

definition cache_reset :: "('a, 'w) engine \<Rightarrow> 'a probe_cache option \<Rightarrow> 'w \<Rightarrow> 'w" where
  "cache_reset eng c w = (case c of None \<Rightarrow> w | Some k \<Rightarrow> archive_close eng (ca_archive k) w)"

definition mark_wrong_password :: "test_result \<Rightarrow> test_result" where
  "mark_wrong_password r =
     r\<lparr>tr_status := WrongPassword, tr_encrypted := True, tr_password_required := True, tr_wrong_password := True,
       tr_message := ''wrong password''\<rparr>"

definition accept_password :: "test_result \<Rightarrow> test_result" where
  "accept_password r = r\<lparr>tr_status := Ok, tr_message := ''password accepted''\<rparr>"

definition cancelled_result :: "test_result \<Rightarrow> test_result" where
  "cancelled_result r = r\<lparr>tr_status := Error, tr_message := ''password probe cancelled''\<rparr>"

definition damaged_result :: "op_result \<Rightarrow> test_result \<Rightarrow> test_result" where
  "damaged_result op_res r =
     r\<lparr>tr_status := Damaged,
       tr_message := ''archive appears damaged [operation_result='' @ operation_result_name op_res @ '']''\<rparr>"

text \<open>The kept handler may settle the candidate; otherwise it is closed and the candidate starts afresh.\<close>

definition test_cached ::
  "('a, 'w) engine \<Rightarrow> 'a probe_cache option \<Rightarrow> wstring \<Rightarrow> 'w \<Rightarrow> test_result option \<times> 'a probe_cache option \<times> 'w" where
  "test_cached eng c password w =
     (case c of None \<Rightarrow> (None, None, w)
      | Some k \<Rightarrow>
          (case probe_opened_archive eng (ca_archive k) (ca_selection k) password (tr_encrypted (ca_evidence k))
                  (ca_callback k) w of
             (tested, encrypted, hr, op_res, a', ocb', w') \<Rightarrow>
               let r = (ca_evidence k)\<lparr>tr_operation_result := op_res\<rparr>;
                   c' = Some (k\<lparr>ca_archive := a', ca_callback := ocb'\<rparr>)
               in if tested \<and> \<not> oc_password_requested ocb' \<and> hr = s_ok \<and> op_res = kOpOk
                  then (Some (accept_password r), c', w')
                  else if tested \<and> \<not> oc_password_requested ocb' \<and> looks_wrong_password hr op_res encrypted
                  then (Some (mark_wrong_password r), c', w')
                  else (None, None, cache_reset eng c' w')))"

section \<open>Trying one format\<close>

text \<open>What a candidate is tried on.\<close>

record probe_input =
  pi_archive_path :: wstring
  pi_part_paths :: "wstring list"
  pi_formats :: "guid list"
  pi_ranges :: "input_range list"
  pi_canonical_names :: "wstring list"
  pi_format_hint :: wstring

record 'a attempt_state =
  as_result :: test_result
  as_created :: bool
  as_opened :: bool
  as_last_hr :: hresult
  as_last_op :: op_result
  as_evidence :: bool
  as_cache :: "'a probe_cache option"

datatype verdict = Continue | Break | Return test_result

definition stub_missing :: "test_result \<Rightarrow> test_result" where
  "stub_missing r =
     r\<lparr>tr_status := NeedsVolumeOrTailDamaged, tr_is_archive := True, tr_damaged := True, tr_missing_stub := True,
       tr_missing_volume_evidence := ''sfx_stub_not_found'',
       tr_message := ''split self-extracting archive stub is missing''\<rparr>"

definition volume_failed :: "open_callback \<Rightarrow> test_result \<Rightarrow> test_result" where
  "volume_failed ocb r =
     r\<lparr>tr_status := Error, tr_is_archive := True, tr_volume_open_failed := True,
       tr_missing_volume_name := oc_failed_volume_name ocb,
       tr_missing_volume_evidence := ''open_volume_callback_open_failed'',
       tr_message := ''archive split volume could not be opened''\<rparr>"

definition rar4_rejected :: "test_result \<Rightarrow> test_result" where
  "rar4_rejected r =
     r\<lparr>tr_status := WrongPassword, tr_encrypted := True, tr_password_required := True, tr_wrong_password := True,
       tr_operation_result := kOpWrongPassword, tr_message := ''RAR4 encrypted headers could not be decoded''\<rparr>"

text \<open>The part of an attempt after the archive was opened.\<close>

definition test_opened ::
  "('a, 'w) engine \<Rightarrow> guid \<Rightarrow> wstring \<Rightarrow> 'a \<Rightarrow> open_callback \<Rightarrow> 'a attempt_state \<Rightarrow> 'w \<Rightarrow>
   verdict \<times> 'a attempt_state \<times> 'w" where
  "test_opened eng format password a ocb st w =
     (let view = archive_view eng a;
          r1 = (as_result st)\<lparr>tr_archive_type := canonical_archive_type_for_guid format, tr_is_archive := True\<rparr>;
          st1 = st\<lparr>as_opened := True, as_result := r1\<rparr>;
          sel = bounded_password_probe_selection view
      in if ps_item_count_known sel \<and>
            rar4_rejected_empty_encrypted_headers view format (ps_item_count sel) (oc_password_requested ocb)
         then (Return (rar4_rejected r1), st1, archive_close eng a w)
         else
           let evidence = (as_evidence st \<or> ps_encrypted sel);
               r2 = r1\<lparr>tr_encrypted := tr_encrypted r1 \<or> evidence, tr_password_required := tr_password_required r1 \<or> evidence\<rparr>
           in case probe_opened_archive eng a sel password evidence ocb w of
                (tested, evidence', hr, op_res, a', ocb', w1) \<Rightarrow>
                  let r3 = r2\<lparr>tr_operation_result := op_res\<rparr>;
                      st2 = st1\<lparr>as_result := r3, as_last_hr := hr, as_last_op := op_res, as_evidence := evidence'\<rparr>
                  in if \<not> tested then (Continue, st2, archive_close eng a' w1)
                     else
                       (case (if \<not> oc_password_requested ocb' \<and> looks_wrong_password hr op_res evidence'
                              then (Some \<lparr>ca_archive = a', ca_callback = ocb', ca_selection = sel, ca_evidence = r3\<rparr>,
                                    cache_reset eng (as_cache st) w1)
                              else (as_cache st, archive_close eng a' w1)) of
                          (cache, w2) \<Rightarrow>
                            let st3 = st2\<lparr>as_cache := cache\<rparr>
                            in if hr = s_ok \<and> op_res = kOpOk then (Return (accept_password r3), st3, w2)
                               else if looks_wrong_password hr op_res evidence'
                               then (Break, st3\<lparr>as_result := (mark_wrong_password r3)\<lparr>tr_is_archive := True\<rparr>\<rparr>, w2)
                               else if looks_damaged op_res then (Break, st3\<lparr>as_result := damaged_result op_res r3\<rparr>, w2)
                               else (Continue, st3, w2)))"

definition attempt ::
  "char_tables \<Rightarrow> 'w file_os \<Rightarrow> ('a, 'w) engine \<Rightarrow> probe_input \<Rightarrow> wstring \<Rightarrow> archive_open_plan \<Rightarrow> guid \<Rightarrow> u64 option \<Rightarrow>
   'a attempt_state \<Rightarrow> 'w \<Rightarrow> verdict \<times> 'a attempt_state \<times> 'w" where
  "attempt t os eng inp password plan format search_limit st w =
     (case job_cancelled eng w of (stop, w0) \<Rightarrow>
        if stop then (Return (cancelled_result (as_result st)), st, w0)
        else case create_archive eng format w0 of
          (hr, made, w1) \<Rightarrow>
            (case (if hr \<noteq> s_ok then None else made) of
               None \<Rightarrow> (Continue, st\<lparr>as_last_hr := hr\<rparr>, w1)
             | Some a \<Rightarrow>
                 let st1 = st\<lparr>as_created := True\<rparr>
                 in case open_stream_for_plan t os plan (pi_archive_path inp) (pi_part_paths inp)
                           (pi_canonical_names inp \<noteq> []) w1 of
                      (opened, stream, w2) \<Rightarrow>
                        if \<not> opened then
                          (Return (if is_sfx_path t (pi_archive_path inp) \<and> sorted_data_volume_paths t (pi_part_paths inp) \<noteq> []
                                   then stub_missing (as_result st)
                                   else (as_result st)\<lparr>tr_status := Error, tr_message := ''archive file could not be opened''\<rparr>),
                           st1, w2)
                        else
                          let callback_path = (if pi_canonical_names inp = []
                                then callback_archive_path t (pi_archive_path inp) (pi_part_paths inp)
                                else hd (pi_canonical_names inp));
                              ocb0 = new_open_callback t password callback_path (pi_part_paths inp) (pi_canonical_names inp)
                                \<lparr>pc_enabled = False, pc_window_bytes = 512 * 1024\<rparr> (pi_ranges inp)
                          in case archive_open eng a stream search_limit ocb0 w2 of
                               (hr', a', ocb, w3) \<Rightarrow>
                                 let st2 = st1\<lparr>as_evidence := as_evidence st \<or> oc_password_requested ocb\<rparr>
                                 in if oc_missing_volume_requested ocb then
                                      (Return (apply_plan_metadata plan
                                         (needs_volume_or_tail_damaged_result ''open_volume_callback_not_found''
                                            (oc_missing_volume_name ocb))), st2, w3)
                                    else if oc_volume_open_failed ocb then (Return (volume_failed ocb (as_result st)), st2, w3)
                                    else if hr' \<noteq> s_ok then (Continue, st2\<lparr>as_last_hr := hr'\<rparr>, w3)
                                    else test_opened eng format password a' ocb st2 w3))"

text \<open>Each format is tried at the start of the input first, then with a search.\<close>

definition attempts :: "guid list \<Rightarrow> (guid \<times> u64 option) list" where
  "attempts formats = map (\<lambda>f. (f, Some 0)) formats @ map (\<lambda>f. (f, None)) formats"

fun attempt_loop ::
  "char_tables \<Rightarrow> 'w file_os \<Rightarrow> ('a, 'w) engine \<Rightarrow> probe_input \<Rightarrow> wstring \<Rightarrow> archive_open_plan \<Rightarrow> (guid \<times> u64 option) list \<Rightarrow>
   'a attempt_state \<Rightarrow> 'w \<Rightarrow> test_result option \<times> 'a attempt_state \<times> 'w" where
  "attempt_loop t os eng inp password plan [] st w = (None, st, w)"
| "attempt_loop t os eng inp password plan ((format, limit) # rest) st w =
     (case attempt t os eng inp password plan format limit st w of
        (Continue, st', w') \<Rightarrow> attempt_loop t os eng inp password plan rest st' w'
      | (Break, st', w') \<Rightarrow> (None, st', w')
      | (Return r, st', w') \<Rightarrow> (Some r, st', w'))"

section \<open>One candidate\<close>

definition new_attempt_state :: "archive_open_plan \<Rightarrow> 'a probe_cache option \<Rightarrow> 'a attempt_state" where
  "new_attempt_state plan cache =
     \<lparr>as_result = apply_plan_metadata plan (empty_result\<lparr>tr_backend_available := True\<rparr>), as_created = False,
      as_opened = False, as_last_hr = e_fail, as_last_op = kOpOk, as_evidence = False, as_cache = cache\<rparr>"

text \<open>The verdict of a plan once its attempts are over.\<close>

definition classify :: "char_tables \<Rightarrow> archive_open_plan \<Rightarrow> 'a attempt_state \<Rightarrow> test_result" where
  "classify t plan st =
     (let r = as_result st
      in if \<not> as_created st then
           r\<lparr>tr_status := Unsupported,
             tr_message := ''the embedded 7-Zip backend did not create a supported archive handler''\<rparr>
         else if \<not> as_opened st \<and>
                 (looks_wrong_password (as_last_hr st) (as_last_op st) (as_evidence st) \<or>
                  (uses_ranges plan \<and> encrypted_header_range_probe_candidate t (pl_format_hint plan)))
         then (mark_wrong_password r)\<lparr>tr_is_archive := True\<rparr>
         else if \<not> as_opened st then
           r\<lparr>tr_status := Unsupported, tr_message := ''archive could not be opened by supported handlers''\<rparr>
         else if looks_damaged (as_last_op st) then damaged_result (as_last_op st) r
         else if looks_wrong_password (as_last_hr st) (as_last_op st) (as_evidence st)
         then (mark_wrong_password r)\<lparr>tr_is_archive := True\<rparr>
         else r\<lparr>tr_status := Error, tr_message := ''archive test failed''\<rparr>)"

fun plan_loop ::
  "char_tables \<Rightarrow> 'w file_os \<Rightarrow> ('a, 'w) engine \<Rightarrow> probe_input \<Rightarrow> wstring \<Rightarrow> archive_open_plan list \<Rightarrow>
   test_result option \<Rightarrow> 'a probe_cache option \<Rightarrow> 'w \<Rightarrow> test_result \<times> 'a probe_cache option \<times> 'w" where
  "plan_loop t os eng inp password [] fallback cache w =
     (case fallback of
        Some r \<Rightarrow> (r, cache, w)
      | None \<Rightarrow>
          (empty_result\<lparr>tr_backend_available := True, tr_status := Unsupported,
             tr_message := ''archive could not be opened by supported handlers''\<rparr>, cache, w))"
| "plan_loop t os eng inp password (plan # plans) fallback cache w =
     (case attempt_loop t os eng inp password plan (attempts (pl_formats plan)) (new_attempt_state plan cache) w of
        (Some r, st, w') \<Rightarrow> (r, as_cache st, w')
      | (None, st, w') \<Rightarrow>
          let r = classify t plan st;
              fallback' = (case fallback of
                  None \<Rightarrow> Some r
                | Some f \<Rightarrow>
                    if tr_status f = Unsupported \<or> tr_status f = Error \<or> tr_status r = WrongPassword then Some r else Some f)
          in plan_loop t os eng inp password plans fallback' (as_cache st) w')"

definition test_one_password ::
  "char_tables \<Rightarrow> 'w file_os \<Rightarrow> ('a, 'w) engine \<Rightarrow> probe_input \<Rightarrow> wstring \<Rightarrow> 'a probe_cache option \<Rightarrow> 'w \<Rightarrow>
   test_result \<times> 'a probe_cache option \<times> 'w" where
  "test_one_password t os eng inp password cache w =
     (case job_cancelled eng w of (stop, w0) \<Rightarrow>
        if stop then (cancelled_result empty_result, cache, w0)
        else case test_cached eng cache password w0 of
          (Some r, cache', w1) \<Rightarrow> (r, cache', w1)
        | (None, cache', w1) \<Rightarrow>
            plan_loop t os eng inp password
              (password_test_open_plans (pi_formats inp) (pi_ranges inp) (pi_format_hint inp)) None cache' w1)"

section \<open>The batch\<close>

definition retryable :: "test_result \<Rightarrow> bool" where
  "retryable r \<longleftrightarrow> tr_status r = WrongPassword \<or> (tr_status r = Damaged \<and> tr_operation_result r = kOpHeadersError)"

fun batch_loop ::
  "char_tables \<Rightarrow> 'w file_os \<Rightarrow> ('a, 'w) engine \<Rightarrow> probe_input \<Rightarrow> int \<Rightarrow> wstring option list \<Rightarrow> test_result \<Rightarrow>
   'a probe_cache option \<Rightarrow> 'w \<Rightarrow> test_result \<times> 'a probe_cache option \<times> 'w" where
  "batch_loop t os eng inp index [] last_result cache w =
     (last_result\<lparr>tr_status := WrongPassword, tr_matched_index := -1, tr_attempts := index,
        tr_message := ''wrong password''\<rparr>, cache, w)"
| "batch_loop t os eng inp index (p # ps) last_result cache w =
     (case job_cancelled eng w of (stop, w0) \<Rightarrow>
        if stop then (cancelled_result last_result, cache, w0)
        else case test_one_password t os eng inp (case p of None \<Rightarrow> [] | Some s \<Rightarrow> s) cache w0 of
          (r0, cache', w1) \<Rightarrow>
            let r = r0\<lparr>tr_attempts := index + 1\<rparr>
            in case job_cancelled eng w1 of (stop', w2) \<Rightarrow>
                 if stop' then (cancelled_result r, cache', w2)
                 else if tr_status r = Ok then (r\<lparr>tr_matched_index := index\<rparr>, cache', w2)
                 else if \<not> retryable r then (r, cache', w2)
                 else batch_loop t os eng inp (index + 1) ps r cache' w2)"

text \<open>The batch owns its handler; it is released at the end.\<close>

definition test_password_batch ::
  "char_tables \<Rightarrow> 'w file_os \<Rightarrow> ('a, 'w) engine \<Rightarrow> wstring \<Rightarrow> wstring list \<Rightarrow> input_range list \<Rightarrow> wstring \<Rightarrow>
   wstring option list \<Rightarrow> wstring list \<Rightarrow> 'w \<Rightarrow> test_result \<times> 'w" where
  "test_password_batch t os eng archive_path part_paths ranges format_hint passwords canonical_names w =
     (let inp = \<lparr>pi_archive_path = archive_path, pi_part_paths = part_paths,
                 pi_formats = extraction_formats_for_hint t format_hint, pi_ranges = ranges,
                 pi_canonical_names = canonical_names, pi_format_hint = format_hint\<rparr>;
          candidates = (if passwords = [] then [Some []] else passwords)
      in case batch_loop t os eng inp 0 candidates empty_result None w of
           (r, cache, w') \<Rightarrow> (r, cache_reset eng cache w'))"

definition test_passwords_with_parts ::
  "char_tables \<Rightarrow> 'w file_os \<Rightarrow> ('a, 'w) engine \<Rightarrow> wstring \<Rightarrow> wstring list \<Rightarrow> wstring option list \<Rightarrow> wstring list \<Rightarrow>
   wstring \<Rightarrow> input_range list \<Rightarrow> 'w \<Rightarrow> test_result \<times> 'w" where
  "test_passwords_with_parts t os eng archive_path part_paths passwords canonical_names format_hint part_ranges w =
     test_password_batch t os eng archive_path (if part_paths = [] then [archive_path] else part_paths) part_ranges
       format_hint passwords canonical_names w"

definition test_passwords_with_ranges ::
  "char_tables \<Rightarrow> 'w file_os \<Rightarrow> ('a, 'w) engine \<Rightarrow> wstring \<Rightarrow> input_range list \<Rightarrow> wstring \<Rightarrow> wstring option list \<Rightarrow> 'w \<Rightarrow>
   test_result \<times> 'w" where
  "test_passwords_with_ranges t os eng archive_path ranges format_hint passwords w =
     test_password_batch t os eng archive_path [archive_path] ranges format_hint passwords [] w"

end
