(* ===== verification/Password_Soundness.thy ===== *)
theory Password_Soundness
  imports Password_Testing
begin

text \<open>
  What the search for a password promises: the item that is tested, what an accepted candidate rests on,
  and what the counters of a batch say. The handler kept between candidates is covered by an invariant of
  the cache.
\<close>

section \<open>The item that is tested\<close>

definition eligible :: "in_archive \<Rightarrow> u32 \<Rightarrow> bool" where
  "eligible a i \<longleftrightarrow> \<not> item_flag a i kpidIsDir \<and>
     \<not> (fst (get_item_property a i kpidSize) \<and> prop_u64 (snd (get_item_property a i kpidSize)) = 0)"

definition item_size :: "in_archive \<Rightarrow> u32 \<Rightarrow> u64" where
  "item_size a i = prop_u64 (snd (get_item_property a i kpidSize))"

definition best :: "in_archive \<Rightarrow> bool \<Rightarrow> probe_candidate option \<Rightarrow> u32 list \<Rightarrow> probe_candidate option" where
  "best a solid = foldl (\<lambda>c i. remember solid c (i, item_size a i))"

lemma best_simps [simp]:
  "best a solid c [] = c"
  "best a solid c (i # is) = best a solid (remember solid c (i, item_size a i)) is"
  by (simp_all add: best_def)

lemma best_solid: "best a True (Some c) is = Some c"
  by (induction "is") (simp_all add: remember_def)

lemma remember_Some: "\<exists>d. remember solid c x = Some d"
  by (auto simp: remember_def split: option.splits)

text \<open>The loop is two independent selections, although a solid archive stops it early.\<close>

lemma probe_items_eq:
  "probe_items a solid is (enc, r, c) =
     (enc \<or> list_ex (\<lambda>i. item_flag a i kpidEncrypted) is,
      best a solid r (filter (eligible a) is),
      best a solid c (filter (\<lambda>i. eligible a i \<and> item_flag a i kpidEncrypted) is))"
proof (induction "is" arbitrary: enc r c)
  case (Cons i "is")
  have split: "get_item_property a i kpidSize =
      (fst (get_item_property a i kpidSize), snd (get_item_property a i kpidSize))" by simp
  obtain d1 where d1: "remember solid r (i, item_size a i) = Some d1" using remember_Some by metis
  obtain d2 where d2: "remember solid c (i, item_size a i) = Some d2" using remember_Some by metis
  show ?case
    using Cons.IH d1 d2 by (auto simp: eligible_def item_size_def case_prod_unfold Let_def best_solid)
qed simp

text \<open>The first element of a list that is least for a measure.\<close>

definition first_least :: "('a \<Rightarrow> 'b::linorder) \<Rightarrow> 'a list \<Rightarrow> 'a \<Rightarrow> bool" where
  "first_least f xs x \<longleftrightarrow> (\<exists>ys zs. xs = ys @ x # zs \<and> (\<forall>y\<in>set ys. f x < f y) \<and> (\<forall>z\<in>set zs. f x \<le> f z))"

lemma best_least:
  "\<exists>j. best a False (Some (i, item_size a i)) is = Some (j, item_size a j) \<and> first_least (item_size a) (i # is) j"
proof (induction "is" arbitrary: i)
  case Nil
  show ?case by (auto simp: first_least_def intro!: exI [of _ "[]"])
next
  case (Cons k "is")
  show ?case
  proof (cases "item_size a k < item_size a i")
    case True
    obtain j where j: "best a False (Some (k, item_size a k)) is = Some (j, item_size a j)"
      "first_least (item_size a) (k # is) j" using Cons.IH by blast
    from j(2) obtain ys zs where s: "k # is = ys @ j # zs" "\<forall>y\<in>set ys. item_size a j < item_size a y"
      "\<forall>z\<in>set zs. item_size a j \<le> item_size a z" unfolding first_least_def by blast
    have "item_size a j \<le> item_size a k" using s by (cases ys) auto
    then have "first_least (item_size a) (i # k # is) j"
      unfolding first_least_def using s True by (intro exI [of _ "i # ys"] exI [of _ zs]) auto
    then show ?thesis using j(1) True by (simp add: remember_def)
  next
    case False
    obtain j where j: "best a False (Some (i, item_size a i)) is = Some (j, item_size a j)"
      "first_least (item_size a) (i # is) j" using Cons.IH by blast
    from j(2) obtain ys zs where s: "i # is = ys @ j # zs" "\<forall>y\<in>set ys. item_size a j < item_size a y"
      "\<forall>z\<in>set zs. item_size a j \<le> item_size a z" unfolding first_least_def by blast
    have "first_least (item_size a) (i # k # is) j"
    proof (cases ys)
      case Nil
      then show ?thesis unfolding first_least_def using s False
        by (intro exI [of _ "[]"] exI [of _ "k # is"]) auto
    next
      case (Cons y ys')
      then have "item_size a j < item_size a k" using s False by auto
      then show ?thesis unfolding first_least_def using s Cons
        by (intro exI [of _ "i # k # ys'"] exI [of _ zs]) auto
    qed
    then show ?thesis using j(1) False by (simp add: remember_def)
  qed
qed

lemma indices32_sorted: "sorted_wrt (<) (indices32 n)"
proof -
  have "sorted_wrt (\<lambda>x y. (of_nat x :: u32) < of_nat y) [0..<unat n]"
  proof (rule sorted_wrt_mono_rel [OF _ sorted_wrt_upt])
    fix x y assume "x \<in> set [0..<unat n]" "y \<in> set [0..<unat n]" and "x < y"
    moreover have "unat n < 2 ^ 32" using unat_bound [of n] by simp
    ultimately show "(of_nat x :: u32) < of_nat y" by (simp add: word_less_nat_alt unat_of_nat)
  qed
  then show ?thesis by (simp add: indices32_def sorted_wrt_map)
qed

text \<open>The order of preference: by size, then by position; in a solid archive by position alone.\<close>

definition preferred :: "in_archive \<Rightarrow> bool \<Rightarrow> u32 \<Rightarrow> u32 \<Rightarrow> bool" where
  "preferred a solid i j \<longleftrightarrow>
     (if solid then i \<le> j else item_size a i < item_size a j \<or> (item_size a i = item_size a j \<and> i \<le> j))"

lemma best_preferred:
  assumes "sorted_wrt (<) is"
  shows "case best a solid None is of
           None \<Rightarrow> is = []
         | Some (i, _) \<Rightarrow> i \<in> set is \<and> (\<forall>j\<in>set is. preferred a solid i j)"
proof (cases "is")
  case (Cons k ks)
  show ?thesis
  proof (cases solid)
    case True
    then show ?thesis using Cons assms by (auto simp: remember_def best_solid preferred_def)
  next
    case False
    obtain j where j: "best a False (Some (k, item_size a k)) ks = Some (j, item_size a j)" "first_least (item_size a) (k # ks) j"
      using best_least by blast
    then obtain ys zs where s: "k # ks = ys @ j # zs" "\<forall>y\<in>set ys. item_size a j < item_size a y"
      "\<forall>z\<in>set zs. item_size a j \<le> item_size a z" unfolding first_least_def by blast
    have "\<forall>z\<in>set zs. j < z" using assms s(1) Cons by (simp add: sorted_wrt_append)
    then have "\<forall>x\<in>set (k # ks). preferred a False j x"
      using s unfolding s(1) preferred_def by (auto simp: order.order_iff_strict)
    moreover have "j \<in> set (k # ks)" unfolding s(1) by simp
    ultimately show ?thesis using Cons False j(1) by (simp add: remember_def)
  qed
qed simp

text \<open>
  C13. The item a password is tested on. If any item of the archive is encrypted, the encrypted items are
  considered, otherwise all; directories and items known to be empty are not. Of these the one that comes
  first in the order of preference is tested, and there is none only if there is nothing to consider: the
  smallest item, or in a solid archive the first.
\<close>

theorem probe_selection_exact:
  assumes "number_of_items a = (s_ok, n)"
  defines "sel \<equiv> bounded_password_probe_selection a"
    and "pool \<equiv> {i. i < n \<and> eligible a i \<and>
           ((\<exists>k<n. item_flag a k kpidEncrypted) \<longrightarrow> item_flag a i kpidEncrypted)}"
  shows "ps_item_count_known sel \<and> ps_item_count sel = n \<and>
    (ps_encrypted sel \<longleftrightarrow> (\<exists>k<n. item_flag a k kpidEncrypted)) \<and>
    (if pool = {} then ps_indices sel = []
     else \<exists>i\<in>pool. ps_indices sel = [i] \<and> (\<forall>j\<in>pool. preferred a (get_archive_property_bool a kpidSolid) i j))"
proof -
  let ?solid = "get_archive_property_bool a kpidSolid"
  let ?any = "\<exists>k<n. item_flag a k kpidEncrypted"
  define xs where "xs = (if ?any then filter (\<lambda>i. eligible a i \<and> item_flag a i kpidEncrypted) (indices32 n)
      else filter (eligible a) (indices32 n))"
  have any: "list_ex (\<lambda>i. item_flag a i kpidEncrypted) (indices32 n) = ?any"
    by (auto simp: list_ex_iff set_indices32)
  have pool: "set xs = pool" by (auto simp: xs_def pool_def set_indices32)
  have sorted: "sorted_wrt (<) xs" using indices32_sorted [of n] by (simp add: xs_def sorted_wrt_filter)
  have sel: "sel = \<lparr>ps_indices = (case best a ?solid None xs of None \<Rightarrow> [] | Some (i, _) \<Rightarrow> [i]),
      ps_item_count_known = True, ps_item_count = n, ps_encrypted = ?any\<rparr>"
    unfolding sel_def bounded_password_probe_selection_def using assms(1)
    by (auto simp: Let_def probe_items_eq any xs_def)
  show ?thesis
    using best_preferred [OF sorted, of a ?solid] unfolding sel pool [symmetric]
    by (auto split: option.splits prod.splits)
qed

definition demo_item :: "u32 \<Rightarrow> u32 \<Rightarrow> hresult \<times> propvariant" where
  "demo_item i prop_id =
     (if prop_id = kpidSize then (s_ok, VT_UI8 (if i = 0 then 0 else if i = 1 then 70 else 50))
      else if prop_id = kpidEncrypted then (s_ok, VT_BOOL (if i = 2 then 0 else 1))
      else (s_ok, VT_EMPTY))"

definition demo_archive :: in_archive where
  "demo_archive = \<lparr>number_of_items = (s_ok, 4), archive_property = (\<lambda>_. (s_ok, VT_EMPTY)), item_property = demo_item\<rparr>"

theorem probe_selection_exact_witness:
  "number_of_items demo_archive = (s_ok, 4) \<and> ps_indices (bounded_password_probe_selection demo_archive) = [3] \<and>
   ps_item_count_known (bounded_password_probe_selection demo_archive)"
proof (intro conjI)
  show n: "number_of_items demo_archive = (s_ok, 4)" by (simp add: demo_archive_def)
  show "ps_indices (bounded_password_probe_selection demo_archive) = [3]" by code_simp
  show "ps_item_count_known (bounded_password_probe_selection demo_archive)"
    using probe_selection_exact [OF n] by blast
qed

section \<open>What acceptance rests on\<close>

text \<open>
  The assumption on 7-Zip, for a set of good passwords: a test of items under a password ends without
  error only if the password is good, and so does an opening that shows an archive without items. Without
  encryption every password is good.
\<close>

definition engine_sound :: "('a, 'w) engine \<Rightarrow> (wstring \<Rightarrow> bool) \<Rightarrow> bool" where
  "engine_sound eng good \<longleftrightarrow>
     (\<forall>a is pw ocb w a' tcb ocb' w'.
        archive_extract eng a is (new_test_callback pw) ocb w = (s_ok, a', tcb, ocb', w') \<and>
        tc_operation_result tcb = kOpOk \<longrightarrow> good pw) \<and>
     (\<forall>a s bnd ocb w a' ocb' w'.
        archive_open eng a s bnd ocb w = (s_ok, a', ocb', w') \<and>
        number_of_items (archive_view eng a') = (s_ok, 0) \<longrightarrow> good (oc_password ocb))"

lemma engine_soundD:
  assumes "engine_sound eng good"
  shows "archive_extract eng a is (new_test_callback pw) ocb w = (s_ok, a', tcb, ocb', w') \<Longrightarrow>
      tc_operation_result tcb = kOpOk \<Longrightarrow> good pw"
    and "archive_open eng b s bnd ocb w = (s_ok, b', ocb', w') \<Longrightarrow>
      number_of_items (archive_view eng b') = (s_ok, 0) \<Longrightarrow> good (oc_password ocb)"
  using assms unfolding engine_sound_def by blast+

text \<open>
  A selection that leads to a test, never to a verdict from the opening alone. Only such a selection is
  kept with a handler, so a kept handler cannot accept a candidate that was not tested.
\<close>

definition testing :: "probe_selection \<Rightarrow> bool" where
  "testing sel \<longleftrightarrow> ps_indices sel \<noteq> [] \<or> (ps_item_count_known sel \<and> ps_item_count sel \<noteq> 0)"

definition cache_ok :: "'a probe_cache option \<Rightarrow> bool" where
  "cache_ok c \<longleftrightarrow> (\<forall>k. c = Some k \<longrightarrow> testing (ca_selection k) \<and> tr_matched_index (ca_evidence k) = -1)"

lemma cache_ok_None [simp]: "cache_ok None"
  by (simp add: cache_ok_def)

lemma probe_sound:
  assumes "engine_sound eng good" "probe_opened_archive eng a sel pw ev ocb w = (tested, ev', hr, op_res, a', ocb', w')"
    and "tested" "hr = s_ok" "op_res = kOpOk"
  shows "good pw \<or> (\<not> testing sel \<and> ps_item_count_known sel \<and> ps_item_count sel = 0)"
  using assms engine_soundD(1) [OF assms(1)]
  by (auto simp: probe_opened_archive_def empty_bounded_password_probe_disposition_def testing_def Let_def
      split: if_splits prod.splits)

lemma not_testing_verdict:
  "\<not> testing sel \<Longrightarrow> probe_opened_archive eng a sel pw ev ocb w = (tested, ev', hr, op_res, a', ocb', w') \<Longrightarrow> tested \<Longrightarrow>
   hr = s_ok \<and> op_res = kOpOk"
  by (auto simp: probe_opened_archive_def empty_bounded_password_probe_disposition_def testing_def Let_def split: if_splits)

lemma success_not_wrong: "\<not> looks_wrong_password s_ok kOpOk ev"
  by (simp add: looks_wrong_password_def)

lemma result_index_simps [simp]:
  "tr_matched_index (accept_password r) = tr_matched_index r"
  "tr_matched_index (mark_wrong_password r) = tr_matched_index r"
  "tr_matched_index (cancelled_result r) = tr_matched_index r"
  "tr_matched_index (damaged_result op_res r) = tr_matched_index r"
  "tr_matched_index (stub_missing r) = tr_matched_index r"
  "tr_matched_index (volume_failed ocb r) = tr_matched_index r"
  "tr_matched_index (rar4_rejected r) = tr_matched_index r"
  "tr_matched_index (needs_volume_or_tail_damaged_result e n) = -1"
  "tr_matched_index (apply_plan_metadata plan r) = tr_matched_index r"
  "tr_matched_index empty_result = -1"
  by (simp_all add: accept_password_def mark_wrong_password_def cancelled_result_def damaged_result_def stub_missing_def
      volume_failed_def rar4_rejected_def needs_volume_or_tail_damaged_result_def apply_plan_metadata_def empty_result_def Let_def)

lemma result_status_simps [simp]:
  "tr_status (accept_password r) = Ok"
  "tr_status (mark_wrong_password r) = WrongPassword"
  "tr_status (cancelled_result r) = Error"
  "tr_status (damaged_result op_res r) = Damaged"
  "tr_status (stub_missing r) = NeedsVolumeOrTailDamaged"
  "tr_status (volume_failed ocb r) = Error"
  "tr_status (rar4_rejected r) = WrongPassword"
  "tr_status (apply_plan_metadata plan r) = tr_status r"
  "tr_status (needs_volume_or_tail_damaged_result e n) = NeedsVolumeOrTailDamaged"
  by (simp_all add: accept_password_def mark_wrong_password_def cancelled_result_def damaged_result_def stub_missing_def
      volume_failed_def rar4_rejected_def needs_volume_or_tail_damaged_result_def apply_plan_metadata_def Let_def)

text \<open>What every result of one candidate satisfies.\<close>

definition verdict_ok :: "(wstring \<Rightarrow> bool) \<Rightarrow> wstring \<Rightarrow> test_result \<Rightarrow> bool" where
  "verdict_ok good pw r \<longleftrightarrow> tr_matched_index r = -1 \<and> (tr_status r = Ok \<longrightarrow> good pw)"

definition state_ok :: "'a attempt_state \<Rightarrow> bool" where
  "state_ok st \<longleftrightarrow> cache_ok (as_cache st) \<and> tr_matched_index (as_result st) = -1"

lemma test_cached_ok:
  assumes "engine_sound eng good" "cache_ok c" "test_cached eng c pw w = (r, c', w')"
  shows "cache_ok c' \<and> (\<forall>x. r = Some x \<longrightarrow> verdict_ok good pw x)"
proof (cases c)
  case (Some k)
  obtain tested enc hr op_res a' ocb' w1 where
    p: "probe_opened_archive eng (ca_archive k) (ca_selection k) pw (tr_encrypted (ca_evidence k)) (ca_callback k) w =
      (tested, enc, hr, op_res, a', ocb', w1)" by (metis prod_cases7)
  have k: "testing (ca_selection k)" "tr_matched_index (ca_evidence k) = -1" using assms(2) Some by (auto simp: cache_ok_def)
  have g: "tested \<Longrightarrow> hr = s_ok \<Longrightarrow> op_res = kOpOk \<Longrightarrow> good pw"
    using probe_sound [OF assms(1) p] k(1) by blast
  show ?thesis
    using assms(3) Some p k g by (auto simp: test_cached_def cache_ok_def verdict_ok_def Let_def split: if_splits)
qed (use assms in \<open>simp add: test_cached_def\<close>)

lemma selection_of_empty:
  "ps_item_count_known (bounded_password_probe_selection a) \<Longrightarrow> ps_item_count (bounded_password_probe_selection a) = 0 \<Longrightarrow>
   number_of_items a = (s_ok, 0)"
  by (auto simp: bounded_password_probe_selection_def no_selection_def Let_def split: prod.splits if_splits)

lemma test_opened_ok:
  assumes "engine_sound eng good" "number_of_items (archive_view eng a) = (s_ok, 0) \<Longrightarrow> good pw" "state_ok st"
    and "test_opened eng format pw a ocb st w = (v, st', w')"
  shows "state_ok st' \<and> (\<forall>r. v = Return r \<longrightarrow> verdict_ok good pw r)"
proof -
  let ?sel = "bounded_password_probe_selection (archive_view eng a)"
  obtain tested ev hr op_res a' ocb' w1 where
    p: "probe_opened_archive eng a ?sel pw (as_evidence st \<or> ps_encrypted ?sel) ocb w = (tested, ev, hr, op_res, a', ocb', w1)"
    by (metis prod_cases7)
  have g: "good pw" if "tested" "hr = s_ok" "op_res = kOpOk"
    using probe_sound [OF assms(1) p that] assms(2) selection_of_empty by blast
  have t: "testing ?sel" if "tested" "looks_wrong_password hr op_res ev"
    using not_testing_verdict [OF _ p] that success_not_wrong by blast
  show ?thesis
    using assms(3,4) p g t
    by (auto simp: test_opened_def state_ok_def cache_ok_def verdict_ok_def Let_def split: if_splits)
qed

lemma new_open_callback_password [simp]:
  "oc_password (new_open_callback t pw archive_path parts names config ranges) = pw"
  by (simp add: new_open_callback_def Let_def)

lemma attempt_ok:
  assumes "engine_sound eng good" "state_ok st" "attempt t os eng inp pw plan format bnd st w = (v, st', w')"
  shows "state_ok st' \<and> (\<forall>r. v = Return r \<longrightarrow> verdict_ok good pw r)"
proof -
  obtain stop w0 where c: "job_cancelled eng w = (stop, w0)" by (metis prod.exhaust)
  obtain hr made w1 where m: "create_archive eng format w0 = (hr, made, w1)" by (metis prod_cases3)
  obtain opened stream w2 where o: "open_stream_for_plan t os plan (pi_archive_path inp) (pi_part_paths inp)
      (pi_canonical_names inp \<noteq> []) w1 = (opened, stream, w2)" by (metis prod_cases3)
  let ?ocb0 = "new_open_callback t pw (if pi_canonical_names inp = []
      then callback_archive_path t (pi_archive_path inp) (pi_part_paths inp) else hd (pi_canonical_names inp))
      (pi_part_paths inp) (pi_canonical_names inp) \<lparr>pc_enabled = False, pc_window_bytes = 512 * 1024\<rparr> (pi_ranges inp)"
  have basic: "state_ok (st\<lparr>as_last_hr := x\<rparr>)" "state_ok (st\<lparr>as_created := True\<rparr>)"
    "state_ok (st\<lparr>as_created := True, as_evidence := e\<rparr>)" "state_ok (st\<lparr>as_created := True, as_evidence := e, as_last_hr := x\<rparr>)" for x e
    using assms(2) by (simp_all add: state_ok_def)
  show ?thesis
  proof (cases "stop \<or> (if hr \<noteq> s_ok then None else made) = None \<or> \<not> opened")
    case True
    then show ?thesis
      using assms(2,3) c m o basic
      by (auto simp: attempt_def verdict_ok_def state_ok_def Let_def split: if_splits option.splits)
  next
    case False
    then obtain a where a: "made = Some a" "hr = s_ok" "\<not> stop" opened by (auto split: if_splits)
    obtain hr' a' ocb w3 where op: "archive_open eng a stream bnd ?ocb0 w2 = (hr', a', ocb, w3)" by (metis prod_cases4)
    let ?st2 = "st\<lparr>as_created := True, as_evidence := as_evidence st \<or> oc_password_requested ocb\<rparr>"
    show ?thesis
    proof (cases "oc_missing_volume_requested ocb \<or> oc_volume_open_failed ocb \<or> hr' \<noteq> s_ok")
      case True
      then show ?thesis
        using assms(2,3) c m o a op basic
        by (auto simp: attempt_def verdict_ok_def state_ok_def Let_def split: if_splits)
    next
      case False
      then have "test_opened eng format pw a' ocb ?st2 w3 = (v, st', w')"
        using assms(3) c m o a op by (auto simp: attempt_def Let_def)
      moreover have "number_of_items (archive_view eng a') = (s_ok, 0) \<Longrightarrow> good pw"
        using engine_soundD(2) [OF assms(1), of a stream bnd ?ocb0 w2 a' ocb w3] op False by simp
      ultimately show ?thesis using test_opened_ok [OF assms(1) _ basic(3)] by blast
    qed
  qed
qed

lemma attempt_loop_ok:
  assumes "engine_sound eng good"
  shows "state_ok st \<Longrightarrow> attempt_loop t os eng inp pw plan as st w = (r, st', w') \<Longrightarrow>
    state_ok st' \<and> (\<forall>x. r = Some x \<longrightarrow> verdict_ok good pw x)"
proof (induction "as" arbitrary: st w)
  case (Cons x xs)
  obtain format bnd where x: "x = (format, bnd)" by (cases x)
  obtain v st1 w1 where a: "attempt t os eng inp pw plan format bnd st w = (v, st1, w1)" by (metis prod_cases3)
  from attempt_ok [OF assms Cons.prems(1) a] show ?case
    using Cons x a by (cases v) auto
qed simp

lemma classify_verdict:
  "state_ok st \<Longrightarrow> tr_matched_index (classify t plan st) = -1 \<and> tr_status (classify t plan st) \<noteq> Ok"
  by (simp add: classify_def state_ok_def Let_def)

text \<open>
  The verdict after the attempts overrides the one that ended them: a test that fails under evidence of
  encryption ends the attempts as a wrong password, but with a truncated input the plan reports damage,
  which ends the batch, with the mark of a wrong password left in the result.
\<close>

lemma classify_overrides_wrong_password:
  assumes "as_created st" "as_opened st" "as_last_hr st = s_false" "as_last_op st = kOpUnexpectedEnd" "as_evidence st"
    and "as_result st = mark_wrong_password r" "tr_operation_result r = as_last_op st"
  shows "looks_wrong_password (as_last_hr st) (as_last_op st) (as_evidence st) \<and>
    tr_status (classify t plan st) = Damaged \<and> tr_wrong_password (classify t plan st) \<and> \<not> retryable (classify t plan st)"
  using assms by (simp add: classify_def looks_wrong_password_def looks_damaged_def damaged_result_def mark_wrong_password_def
      retryable_def Let_def)

lemma plan_loop_ok:
  assumes "engine_sound eng good"
  shows "cache_ok c \<Longrightarrow> (\<And>f. fallback = Some f \<Longrightarrow> verdict_ok good pw f) \<Longrightarrow>
    plan_loop t os eng inp pw plans fallback c w = (r, c', w') \<Longrightarrow> cache_ok c' \<and> verdict_ok good pw r"
proof (induction plans arbitrary: fallback c w)
  case Nil
  then show ?case by (auto simp: verdict_ok_def empty_result_def split: option.splits)
next
  case (Cons plan plans)
  have st: "state_ok (new_attempt_state plan c)" using Cons.prems(1) by (simp add: state_ok_def new_attempt_state_def empty_result_def)
  obtain x st' w1 where a: "attempt_loop t os eng inp pw plan (attempts (pl_formats plan)) (new_attempt_state plan c) w = (x, st', w1)"
    by (metis prod_cases3)
  note ok = attempt_loop_ok [OF assms st a]
  show ?case
  proof (cases x)
    case (Some y)
    then show ?thesis using Cons.prems(3) a ok by (auto simp: state_ok_def)
  next
    case None
    let ?r = "classify t plan st'"
    let ?f = "case fallback of None \<Rightarrow> Some ?r
        | Some f \<Rightarrow> if tr_status f = Unsupported \<or> tr_status f = Error \<or> tr_status ?r = WrongPassword then Some ?r else Some f"
    have "verdict_ok good pw ?r" using classify_verdict ok by (auto simp: verdict_ok_def)
    then have "verdict_ok good pw f" if "?f = Some f" for f
      using that Cons.prems(2) by (auto split: option.splits if_splits)
    moreover have "plan_loop t os eng inp pw plans ?f (as_cache st') w1 = (r, c', w')"
      using Cons.prems(3) a None by (simp add: Let_def)
    ultimately show ?thesis using Cons.IH ok by (auto simp: state_ok_def)
  qed
qed

lemma test_one_password_ok:
  assumes "engine_sound eng good" "cache_ok c" "test_one_password t os eng inp pw c w = (r, c', w')"
  shows "cache_ok c' \<and> verdict_ok good pw r"
proof -
  obtain stop w0 where s: "job_cancelled eng w = (stop, w0)" by (metis prod.exhaust)
  obtain x c1 w1 where x: "test_cached eng c pw w0 = (x, c1, w1)" by (metis prod_cases3)
  note ok = test_cached_ok [OF assms(1,2) x]
  show ?thesis
  proof (cases "stop \<or> x \<noteq> None")
    case True
    then show ?thesis using assms(2,3) s x ok by (cases stop) (auto simp: test_one_password_def verdict_ok_def)
  next
    case False
    then have "plan_loop t os eng inp pw (password_test_open_plans (pi_formats inp) (pi_ranges inp) (pi_format_hint inp)) None c1 w1
        = (r, c', w')" using assms(3) s x by (simp add: test_one_password_def)
    then show ?thesis using plan_loop_ok [OF assms(1)] ok by blast
  qed
qed

section \<open>The batch\<close>

definition candidate_text :: "wstring option \<Rightarrow> wstring" where
  "candidate_text p = (case p of None \<Rightarrow> [] | Some s \<Rightarrow> s)"

text \<open>What a batch says of the candidates from \<open>index\<close> on.\<close>

definition report_ok :: "(wstring \<Rightarrow> bool) \<Rightarrow> int \<Rightarrow> wstring option list \<Rightarrow> test_result \<Rightarrow> bool" where
  "report_ok good index ps r \<longleftrightarrow>
     0 \<le> tr_attempts r \<and> tr_attempts r \<le> index + int (length ps) \<and>
     (if tr_status r = Ok
      then (\<exists>i<length ps. tr_matched_index r = index + int i \<and> tr_attempts r = index + int i + 1 \<and> good (candidate_text (ps ! i)))
      else tr_matched_index r = -1) \<and>
     (tr_status r = WrongPassword \<longrightarrow> tr_attempts r = index + int (length ps))"

lemma report_ok_shift:
  assumes "report_ok good (index + 1) ps r"
  shows "report_ok good index (p # ps) r"
proof -
  have "\<exists>j<length (p # ps). tr_matched_index r = index + int j \<and> tr_attempts r = index + int j + 1 \<and> good (candidate_text ((p # ps) ! j))"
    if "tr_status r = Ok"
  proof -
    from that assms obtain i where "i < length ps" "tr_matched_index r = index + 1 + int i" "tr_attempts r = index + 1 + int i + 1"
      "good (candidate_text (ps ! i))" by (auto simp: report_ok_def)
    then show ?thesis by (intro exI [of _ "Suc i"]) simp
  qed
  then show ?thesis using assms by (auto simp: report_ok_def)
qed

lemma batch_loop_ok:
  assumes "engine_sound eng good"
  shows "cache_ok c \<Longrightarrow> 0 \<le> index \<Longrightarrow> 0 \<le> tr_attempts prev \<Longrightarrow> tr_attempts prev \<le> index \<Longrightarrow> tr_matched_index prev = -1 \<Longrightarrow>
    batch_loop t os eng inp index ps prev c w = (r, c', w') \<Longrightarrow> report_ok good index ps r"
proof (induction ps arbitrary: index prev c w)
  case Nil
  then show ?case by (auto simp: report_ok_def)
next
  case (Cons p ps)
  obtain stop w0 where s: "job_cancelled eng w = (stop, w0)" by (metis prod.exhaust)
  obtain r0 c1 w1 where o: "test_one_password t os eng inp (candidate_text p) c w0 = (r0, c1, w1)" by (metis prod_cases3)
  obtain stop' w2 where s': "job_cancelled eng w1 = (stop', w2)" by (metis prod.exhaust)
  have ok: "cache_ok c1" "tr_matched_index r0 = -1" "tr_status r0 = Ok \<Longrightarrow> good (candidate_text p)"
    using test_one_password_ok [OF assms Cons.prems(1) o] by (auto simp: verdict_ok_def)
  let ?r = "r0\<lparr>tr_attempts := index + 1\<rparr>"
  have eq: "(r, c', w') =
      (if stop then (cancelled_result prev, c, w0)
       else if stop' then (cancelled_result ?r, c1, w2)
       else if tr_status r0 = Ok then (?r\<lparr>tr_matched_index := index\<rparr>, c1, w2)
       else if \<not> retryable ?r then (?r, c1, w2)
       else batch_loop t os eng inp (index + 1) ps ?r c1 w2)"
    using Cons.prems(6) s o s'
    by (cases stop; cases stop'; cases "tr_status r0 = Ok"; cases "retryable ?r") (simp_all add: candidate_text_def Let_def)
  have final: "report_ok good index (p # ps) r" if "batch_loop t os eng inp (index + 1) ps ?r c1 w2 = (r, c', w')"
    using Cons.IH [OF ok(1) _ _ _ _ that] Cons.prems(2) ok(2) by (intro report_ok_shift) simp
  show ?case
  proof (cases "stop \<or> stop' \<or> tr_status r0 = Ok \<or> \<not> retryable ?r")
    case True
    then show ?thesis
      using eq Cons.prems(2-5) ok
      by (auto simp: report_ok_def cancelled_result_def retryable_def split: if_splits intro!: exI [of _ "0::nat"])
  next
    case False
    then show ?thesis using eq final by simp
  qed
qed

definition batch_candidates :: "wstring option list \<Rightarrow> wstring option list" where
  "batch_candidates passwords = (if passwords = [] then [Some []] else passwords)"

lemma batch_report:
  assumes "engine_sound eng good"
  shows "report_ok good 0 (batch_candidates passwords)
    (fst (test_password_batch t os eng archive_path part_paths ranges format_hint passwords canonical_names w))"
proof -
  let ?inp = "\<lparr>pi_archive_path = archive_path, pi_part_paths = part_paths, pi_formats = extraction_formats_for_hint t format_hint,
      pi_ranges = ranges, pi_canonical_names = canonical_names, pi_format_hint = format_hint\<rparr>"
  obtain r c w' where b: "batch_loop t os eng ?inp 0 (batch_candidates passwords) empty_result None w = (r, c, w')"
    by (metis prod_cases3)
  have "report_ok good 0 (batch_candidates passwords) r"
    by (rule batch_loop_ok [OF assms _ _ _ _ _ b]) (simp_all add: empty_result_def)
  then show ?thesis
    using b by (simp add: test_password_batch_def batch_candidates_def Let_def)
qed


definition demo_engine :: "(unit, unit) engine" where
  "demo_engine = \<lparr>job_cancelled = (\<lambda>w. (False, w)), create_archive = (\<lambda>g w. (s_ok, Some (), w)),
     archive_open = (\<lambda>a s bnd ocb w. (s_ok, a, ocb, w)), archive_view = (\<lambda>a. demo_archive),
     archive_extract = (\<lambda>a is cb ocb w.
       (s_ok, a, cb\<lparr>tc_password_requested := True,
          tc_operation_result := (if tc_password cb = wide ''b'' then kOpOk else kOpWrongPassword)\<rparr>, ocb, w)),
     archive_close = (\<lambda>a w. w)\<rparr>"

lemma demo_engine_sound: "engine_sound demo_engine (\<lambda>pw. pw = wide ''b'')"
  by (auto simp: engine_sound_def demo_engine_def new_test_callback_def demo_archive_def split: if_splits)

lemma demo_probe:
  "probe_opened_archive demo_engine a (bounded_password_probe_selection demo_archive) pw ev ocb w =
     (True, True, s_ok, (if pw = wide ''b'' then kOpOk else kOpWrongPassword), a, ocb, w)"
proof -
  have "ps_indices (bounded_password_probe_selection demo_archive) = [3]" by code_simp
  then show ?thesis by (simp add: probe_opened_archive_def demo_engine_def new_test_callback_def Let_def)
qed


lemma demo_attempt:
  assumes "pw \<noteq> wide ''b''"
    and "input_paths ascii_tables (pi_archive_path inp) (pi_part_paths inp) (pi_canonical_names inp \<noteq> []) \<noteq> []"
    and "pl_ranges plan = []"
  shows "\<exists>st' k. attempt ascii_tables (static_os demo_files) demo_engine inp pw plan format bnd st () = (Break, st', ()) \<and>
     as_created st' \<and> as_opened st' \<and> as_last_hr st' = s_ok \<and> as_last_op st' = kOpWrongPassword \<and>
     as_cache st' = Some k \<and> ca_selection k = bounded_password_probe_selection demo_archive \<and>
     \<not> oc_password_requested (ca_callback k)"
proof -
  obtain s where s: "open_archive_stream ascii_tables (static_os demo_files) (pi_archive_path inp) (pi_part_paths inp) None
      (pi_canonical_names inp \<noteq> []) \<lparr>pc_enabled = False, pc_window_bytes = 512 * 1024\<rparr> () = (True, s, ())"
    using static_os_opens [OF assms(2)] by blast
  have eng: "job_cancelled demo_engine w = (False, w)" "create_archive demo_engine format w = (s_ok, Some (), w)"
    "archive_open demo_engine a str bnd ocb w = (s_ok, a, ocb, w)" "archive_view demo_engine a = demo_archive"
    "cache_reset demo_engine c w = w" for w a str ocb c
    by (simp_all add: demo_engine_def cache_reset_def split: option.splits)
  show ?thesis
    using assms(1,3) s
    by (simp add: attempt_def eng open_stream_for_plan_def uses_ranges_def new_open_callback_def test_opened_def demo_probe
        rar4_rejected_empty_encrypted_headers_def looks_wrong_password_def Let_def)
qed

lemma demo_batch:
  "\<exists>r. test_password_batch ascii_tables (static_os demo_files) demo_engine (wide ''a.001'') [wide ''a.001''] [] []
     [Some (wide ''a''), Some (wide ''b'')] [] () = (r, ()) \<and> tr_status r = Ok"
proof -
  define inp where "inp = \<lparr>pi_archive_path = wide ''a.001'', pi_part_paths = [wide ''a.001''],
      pi_formats = extraction_formats_for_hint ascii_tables [], pi_ranges = [], pi_canonical_names = [], pi_format_hint = []\<rparr>"
  have ab: "wide ''a'' \<noteq> wide ''b''" by code_simp
  have paths: "input_paths ascii_tables (pi_archive_path inp) (pi_part_paths inp) (pi_canonical_names inp \<noteq> []) \<noteq> []"
    unfolding inp_def by code_simp
  obtain plan where plan: "password_test_open_plans (pi_formats inp) (pi_ranges inp) (pi_format_hint inp) = [plan]"
    "pl_ranges plan = []" "pl_formats plan = extraction_formats_for_hint ascii_tables []"
    by (simp add: password_test_open_plans_def inp_def)
  obtain f fs where f: "attempts (pl_formats plan) = (f, Some 0) # fs"
    using extraction_formats_nonempty [of ascii_tables "[]"] plan(3)
    by (cases "extraction_formats_for_hint ascii_tables []") (auto simp: attempts_def)
  obtain st k where a: "attempt ascii_tables (static_os demo_files) demo_engine inp (wide ''a'') plan f (Some 0)
      (new_attempt_state plan None) () = (Break, st, ())"
    "as_created st" "as_opened st" "as_last_hr st = s_ok" "as_last_op st = kOpWrongPassword" "as_cache st = Some k"
    "ca_selection k = bounded_password_probe_selection demo_archive" "\<not> oc_password_requested (ca_callback k)"
    using demo_attempt [OF ab paths plan(2)] by blast
  have stop: "job_cancelled demo_engine w = (False, w)" for w by (simp add: demo_engine_def)
  have one: "\<exists>r. test_one_password ascii_tables (static_os demo_files) demo_engine inp (wide ''a'') None () = (r, Some k, ()) \<and>
      tr_status r = WrongPassword"
    using a by (simp add: test_one_password_def test_cached_def stop plan(1,2) f classify_def looks_damaged_def
        looks_wrong_password_def Let_def)
  have two: "\<exists>r c. test_one_password ascii_tables (static_os demo_files) demo_engine inp (wide ''b'') (Some k) () = (r, c, ()) \<and>
      tr_status r = Ok"
    using a by (simp add: test_one_password_def test_cached_def stop demo_probe Let_def)
  have "\<exists>r c. batch_loop ascii_tables (static_os demo_files) demo_engine inp 0 [Some (wide ''a''), Some (wide ''b'')]
      empty_result None () = (r, c, ()) \<and> tr_status r = Ok"
    using one two by (auto simp: stop retryable_def Let_def)
  then show ?thesis by (auto simp: test_password_batch_def inp_def)
qed


end
