(* ===== verification/Async_Writer.thy ===== *)
theory Async_Writer
  imports Space_Retry Writer_Meters Written_Ranges Archive_Formats
begin

text \<open>
  The asynchronous writer of a volume (\<^verbatim>\<open>sevenzip_async_output.hpp\<close>): producers fill staging buffers and
  queue them, the threads of the writer submit them as overlapped writes, completions arrive in any order,
  a full disk sends work to a retry queue, and a file is closed once nothing of it is outstanding.

  Jobs, files and buffers are shared objects: the state holds a store of each and an address is an index.
  Every region the code runs under \<^verbatim>\<open>mutex_\<close> is one definition. Where a thread is between two regions is
  kept with the object it owns at that moment: \<open>bf_stage\<close> for a buffer that a writer thread works on,
  \<open>wf_closing\<close> for a file that is being closed and \<open>wf_producer\<close> for a producer inside \<^verbatim>\<open>write\<close>, which holds the
  file's \<^verbatim>\<open>producer_mutex\<close>. The bytes of a buffer are those below its size.

  Answers of the system are arguments: posting a packet, allocating, opening, writing, flushing and closing.
  The fault injection of the tests and the timing probes are not modelled.
\<close>

section \<open>Data\<close>

record writer_job =
  jb_terminal_requested :: bool
  jb_first_error :: hresult
  jb_first_win32_error :: u32
  jb_inflight_bytes :: nat
  jb_pending_jobs :: nat
  jb_cancelled :: bool
  jb_max_inflight_bytes :: nat
  jb_cancel_token :: "bool option"

text \<open>The producer of a file: idle, with bytes left to hand over, or copying a chunk into the staging buffer.\<close>

datatype producer_stage =
    P_idle
  | P_write "u8 list" nat
  | P_copy "u8 list" nat nat nat bool

text \<open>Where the thread is that closes a file: the result of the attempt and the lease it holds.\<close>

datatype close_stage =
    C_none
  | C_queued
  | C_retry
  | C_begin probe_lease
  | C_open probe_lease
  | C_settle attempt_result probe_lease
  | C_finish bool

record file_state =
  wf_item_index :: u32
  wf_path :: wstring
  wf_job :: nat
  wf_gated :: bool
  wf_accepted_bytes :: u64
  wf_next_write_offset :: u64
  wf_staging_buffer :: "nat option"
  wf_inflight_bytes :: nat
  wf_outstanding_data :: nat
  wf_active_data_writes :: nat
  wf_peak_active_data_writes :: nat
  wf_written_bytes :: u64
  wf_operation_result :: op_result
  wf_operation_result_set :: bool
  wf_hresult :: hresult
  wf_win32_error :: u32
  wf_metadata_errors :: "u32 \<times> u32"
  wf_has_mtime_ns :: bool
  wf_mtime_ns :: u64
  wf_magic :: "u8 list"
  wf_failed :: bool
  wf_closed :: bool
  wf_close_requested :: bool
  wf_close_enqueued :: bool
  wf_active_index :: nat
  wf_handle :: bool
  wf_open_attempted :: bool
  wf_new_writes :: bool
  wf_output_created :: bool
  wf_replay :: "replay_file option"
  wf_track_replay :: bool
  wf_written_ranges :: written_ranges
  wf_producer :: producer_stage
  wf_closing :: close_stage

datatype buffer_stage =
    B_free
  | B_staging
  | B_queued
  | B_retry
  | B_attempt
  | B_open
  | B_begin
  | B_submitted
  | B_finish attempt_result

record io_buffer =
  bf_bytes :: "u8 list"
  bf_allocated :: bool
  bf_output_offset :: u64
  bf_transferred :: nat
  bf_probe_lease :: probe_lease
  bf_file :: "nat option"
  bf_stage :: buffer_stage

datatype work_item = Work_data nat u64 u32 | Work_close nat u32

record awriter =
  aw_jobs :: "writer_job list"
  aw_files :: "file_state list"
  aw_buffers :: "io_buffer list"
  aw_free_buffers :: "nat list"
  aw_work_queue :: "work_item list"
  aw_retry_queue :: "work_item list"
  aw_active_jobs :: "nat list"
  aw_active_files :: "nat list"
  aw_queued_jobs :: nat
  aw_queue_limit :: nat
  aw_stopping :: bool
  aw_write_through :: bool
  aw_meters :: writer_counters
  aw_volume :: volume_state
  aw_wake_posted :: bool
  aw_effects :: "gate_effect list"

abbreviation kBufferSize :: nat where "kBufferSize \<equiv> 2 ^ 20"
abbreviation kDefaultJobInFlightBytes :: nat where "kDefaultJobInFlightBytes \<equiv> 2 ^ 25"
abbreviation kDefaultFileInFlightBytes :: nat where "kDefaultFileInFlightBytes \<equiv> 2 ^ 23"

abbreviation (input) ERROR_OUTOFMEMORY :: u32 where "ERROR_OUTOFMEMORY \<equiv> 14"
abbreviation (input) ERROR_WRITE_FAULT :: u32 where "ERROR_WRITE_FAULT \<equiv> 29"
abbreviation (input) ERROR_OPEN_FAILED :: u32 where "ERROR_OPEN_FAILED \<equiv> 110"
abbreviation (input) ERROR_ARITHMETIC_OVERFLOW :: u32 where "ERROR_ARITHMETIC_OVERFLOW \<equiv> 534"
abbreviation (input) ERROR_OPERATION_ABORTED :: u32 where "ERROR_OPERATION_ABORTED \<equiv> 995"
abbreviation (input) ERROR_INVALID_STATE :: u32 where "ERROR_INVALID_STATE \<equiv> 5023"

definition upd_job :: "nat \<Rightarrow> (writer_job \<Rightarrow> writer_job) \<Rightarrow> awriter \<Rightarrow> awriter" where
  "upd_job j g s = s\<lparr>aw_jobs := (aw_jobs s)[j := g (aw_jobs s ! j)]\<rparr>"

definition upd_file :: "nat \<Rightarrow> (file_state \<Rightarrow> file_state) \<Rightarrow> awriter \<Rightarrow> awriter" where
  "upd_file f g s = s\<lparr>aw_files := (aw_files s)[f := g (aw_files s ! f)]\<rparr>"

definition upd_buf :: "nat \<Rightarrow> (io_buffer \<Rightarrow> io_buffer) \<Rightarrow> awriter \<Rightarrow> awriter" where
  "upd_buf b g s = s\<lparr>aw_buffers := (aw_buffers s)[b := g (aw_buffers s ! b)]\<rparr>"

abbreviation job_of :: "awriter \<Rightarrow> nat \<Rightarrow> writer_job" where "job_of s j \<equiv> aw_jobs s ! j"
abbreviation file_of :: "awriter \<Rightarrow> nat \<Rightarrow> file_state" where "file_of s f \<equiv> aw_files s ! f"
abbreviation buf_of :: "awriter \<Rightarrow> nat \<Rightarrow> io_buffer" where "buf_of s b \<equiv> aw_buffers s ! b"

definition bf_size :: "io_buffer \<Rightarrow> nat" where
  "bf_size b = length (bf_bytes b)"

section \<open>The gate and the meters of the volume\<close>

definition with_gate :: "(gate \<Rightarrow> gate \<times> gate_effect list) \<Rightarrow> awriter \<Rightarrow> awriter" where
  "with_gate h s =
     (case vs_gate (aw_volume s) of
        None \<Rightarrow> s
      | Some g \<Rightarrow> (case h g of (g', es) \<Rightarrow>
          s\<lparr>aw_volume := (aw_volume s)\<lparr>vs_gate := Some g'\<rparr>, aw_effects := aw_effects s @ es\<rparr>))"

definition meter :: "(writer_counters \<times> volume_state \<Rightarrow> writer_counters \<times> volume_state) \<Rightarrow> awriter \<Rightarrow> awriter" where
  "meter h s = (case h (aw_meters s, aw_volume s) of (m, v) \<Rightarrow> s\<lparr>aw_meters := m, aw_volume := v\<rparr>)"

text \<open>\<^verbatim>\<open>CompletionWake::wake\<close>: at most one retry packet is on its way.\<close>

definition completion_wake :: "bool \<Rightarrow> awriter \<Rightarrow> awriter" where
  "completion_wake posted s = (if aw_wake_posted s then s else s\<lparr>aw_wake_posted := posted\<rparr>)"

section \<open>Errors\<close>

definition set_job_error_locked :: "nat \<Rightarrow> hresult \<Rightarrow> u32 \<Rightarrow> awriter \<Rightarrow> awriter" where
  "set_job_error_locked j hr e =
     upd_job j (\<lambda>x. if jb_first_error x = s_ok
                    then x\<lparr>jb_first_error := hr, jb_first_win32_error := e, jb_terminal_requested := True\<rparr> else x)"

definition cancel_job_locked :: "nat \<Rightarrow> awriter \<Rightarrow> awriter" where
  "cancel_job_locked j s =
     set_job_error_locked j e_abort ERROR_OPERATION_ABORTED
       (upd_job j (\<lambda>x. x\<lparr>jb_cancelled := True, jb_terminal_requested := True\<rparr>) s)"

definition synchronize_cancellation_locked :: "nat \<Rightarrow> awriter \<Rightarrow> awriter" where
  "synchronize_cancellation_locked j s = (if jb_cancel_token (job_of s j) = Some True then cancel_job_locked j s else s)"

definition terminal_result_locked :: "nat \<Rightarrow> awriter \<Rightarrow> hresult" where
  "terminal_result_locked j s =
     (if jb_first_error (job_of s j) \<noteq> s_ok then jb_first_error (job_of s j)
      else if jb_cancelled (job_of s j) \<or> aw_stopping s then e_abort else s_ok)"

definition current_win32_error_locked :: "nat \<Rightarrow> awriter \<Rightarrow> u32" where
  "current_win32_error_locked j s =
     (if jb_first_win32_error (job_of s j) \<noteq> 0 then jb_first_win32_error (job_of s j)
      else if jb_cancelled (job_of s j) \<or> aw_stopping s then ERROR_OPERATION_ABORTED else 0)"

definition current_error :: "nat \<Rightarrow> awriter \<Rightarrow> hresult \<times> awriter" where
  "current_error j s = (let s' = synchronize_cancellation_locked j s in (terminal_result_locked j s', s'))"

definition current_win32_error :: "nat \<Rightarrow> awriter \<Rightarrow> u32 \<times> awriter" where
  "current_win32_error j s = (let s' = synchronize_cancellation_locked j s in (current_win32_error_locked j s', s'))"

definition mark_file_failure_locked :: "nat \<Rightarrow> hresult \<Rightarrow> u32 \<Rightarrow> awriter \<Rightarrow> awriter" where
  "mark_file_failure_locked f hr e =
     upd_file f (\<lambda>x. if wf_failed x then x else x\<lparr>wf_failed := True, wf_hresult := hr, wf_win32_error := e\<rparr>)"

definition fail_file :: "nat \<Rightarrow> hresult \<Rightarrow> u32 \<Rightarrow> awriter \<Rightarrow> awriter" where
  "fail_file f hr e s = set_job_error_locked (wf_job (file_of s f)) hr e (mark_file_failure_locked f hr e s)"

definition record_failure :: "os \<Rightarrow> nat \<Rightarrow> hresult \<Rightarrow> u32 \<Rightarrow> u64 \<Rightarrow> awriter \<Rightarrow> awriter" where
  "record_failure os f hr e discarded s =
     (let s1 = fail_file f hr e (meter (account_discarded discarded) s)
      in if wf_gated (file_of s1 f) then with_gate (wake_waiters os) s1 else s1)"

section \<open>Jobs and files\<close>

definition make_job :: "nat \<Rightarrow> bool option \<Rightarrow> awriter \<Rightarrow> nat \<times> awriter" where
  "make_job max_inflight token s =
     (let j = length (aw_jobs s);
          s1 = s\<lparr>aw_jobs := aw_jobs s @
             [\<lparr>jb_terminal_requested = False, jb_first_error = s_ok, jb_first_win32_error = 0, jb_inflight_bytes = 0,
               jb_pending_jobs = 0, jb_cancelled = False,
               jb_max_inflight_bytes = (if max_inflight = 0 then kDefaultJobInFlightBytes else max_inflight),
               jb_cancel_token = token\<rparr>]\<rparr>;
          s2 = synchronize_cancellation_locked j s1
      in (j, s2\<lparr>aw_active_jobs := aw_active_jobs s2 @ [j]\<rparr>))"

definition new_file_state :: "nat \<Rightarrow> wstring \<Rightarrow> u32 \<Rightarrow> bool \<Rightarrow> replay_file option \<Rightarrow> bool \<Rightarrow> nat \<Rightarrow> file_state" where
  "new_file_state j path item_index gated replay tracked index =
     \<lparr>wf_item_index = item_index, wf_path = path, wf_job = j, wf_gated = gated, wf_accepted_bytes = 0,
      wf_next_write_offset = 0, wf_staging_buffer = None, wf_inflight_bytes = 0, wf_outstanding_data = 0,
      wf_active_data_writes = 0, wf_peak_active_data_writes = 0,
      wf_written_bytes = (case replay of None \<Rightarrow> 0 | Some r \<Rightarrow> ranges_bytes (written r)),
      wf_operation_result = 0, wf_operation_result_set = False, wf_hresult = s_ok, wf_win32_error = 0,
      wf_metadata_errors = (0, 0), wf_has_mtime_ns = (case replay of None \<Rightarrow> False | Some r \<Rightarrow> has_mtime r),
      wf_mtime_ns = (case replay of None \<Rightarrow> 0 | Some r \<Rightarrow> mtime r), wf_magic = [], wf_failed = False,
      wf_closed = False, wf_close_requested = False, wf_close_enqueued = False, wf_active_index = index,
      wf_handle = False, wf_open_attempted = False, wf_new_writes = False, wf_output_created = False,
      wf_replay = replay, wf_track_replay = (replay \<noteq> None \<or> tracked),
      wf_written_ranges = (case replay of None \<Rightarrow> empty_ranges | Some r \<Rightarrow> written r),
      wf_producer = P_idle, wf_closing = C_none\<rparr>"

definition make_file :: "nat \<Rightarrow> wstring \<Rightarrow> u32 \<Rightarrow> replay_file option \<Rightarrow> bool \<Rightarrow> awriter \<Rightarrow> nat \<times> awriter" where
  "make_file j path item_index replay tracked s =
     (let f = length (aw_files s)
      in (f, s\<lparr>aw_files := aw_files s @ [new_file_state j path item_index (vs_gate (aw_volume s) \<noteq> None) replay tracked
                                           (length (aw_active_files s))],
               aw_active_files := aw_active_files s @ [f]\<rparr>))"

text \<open>\<^verbatim>\<open>previous_writes\<close>: the bytes an earlier attempt confirmed.\<close>

definition previous_writes :: "file_state \<Rightarrow> written_ranges" where
  "previous_writes x = (case wf_replay x of None \<Rightarrow> empty_ranges | Some r \<Rightarrow> written r)"

definition writer_unregister_job :: "nat \<Rightarrow> awriter \<Rightarrow> awriter" where
  "writer_unregister_job j s = s\<lparr>aw_active_jobs := filter (\<lambda>i. i \<noteq> j) (aw_active_jobs s)\<rparr>"

text \<open>The last file takes the place of the one that leaves.\<close>

definition unregister_file_locked :: "nat \<Rightarrow> awriter \<Rightarrow> awriter" where
  "unregister_file_locked f s =
     (let index = wf_active_index (file_of s f); fs = aw_active_files s
      in if index + 1 \<noteq> length fs
         then upd_file (last fs) (\<lambda>x. x\<lparr>wf_active_index := index\<rparr>) (s\<lparr>aw_active_files := butlast (fs[index := last fs])\<rparr>)
         else s\<lparr>aw_active_files := butlast fs\<rparr>)"

definition record_operation_result :: "nat \<Rightarrow> op_result \<Rightarrow> awriter \<Rightarrow> awriter" where
  "record_operation_result f r = upd_file f (\<lambda>x. x\<lparr>wf_operation_result := r, wf_operation_result_set := True\<rparr>)"

section \<open>Buffers and the queue\<close>

definition free_buffer :: "nat \<Rightarrow> awriter \<Rightarrow> awriter" where
  "free_buffer b s =
     (upd_buf b (\<lambda>x. x\<lparr>bf_file := None, bf_bytes := [], bf_stage := B_free\<rparr>) s)\<lparr>aw_free_buffers := aw_free_buffers s @ [b]\<rparr>"

definition discard_staging_locked :: "nat \<Rightarrow> awriter \<Rightarrow> awriter" where
  "discard_staging_locked f s =
     (case wf_staging_buffer (file_of s f) of
        None \<Rightarrow> s
      | Some b \<Rightarrow>
          let n = bf_size (buf_of s b); j = wf_job (file_of s f);
              s1 = upd_file f (\<lambda>x. x\<lparr>wf_staging_buffer := None\<rparr>) s;
              s2 = (if n = 0 then s1
                    else upd_job j (\<lambda>x. x\<lparr>jb_inflight_bytes := jb_inflight_bytes x - n, jb_pending_jobs := jb_pending_jobs x - 1\<rparr>)
                          (upd_file f (\<lambda>x. x\<lparr>wf_inflight_bytes := wf_inflight_bytes x - n,
                                             wf_outstanding_data := wf_outstanding_data x - 1\<rparr>)
                            (meter (account_discarded (of_nat n)) s1)))
          in free_buffer b s2)"

text \<open>The answer to queueing a work item and posting its packet.\<close>

datatype post_answer = Posted | Post_failed u32 | Post_no_memory

definition enqueue_staging_locked :: "post_answer \<Rightarrow> nat \<Rightarrow> bool \<Rightarrow> awriter \<Rightarrow> bool \<times> awriter" where
  "enqueue_staging_locked ans f force_queue s =
     (case wf_staging_buffer (file_of s f) of
        None \<Rightarrow> (False, s)
      | Some b \<Rightarrow>
          let n = bf_size (buf_of s b); off = wf_next_write_offset (file_of s f)
          in if n = 0 then (False, s)
             else if \<not> force_queue \<and> aw_queued_jobs s \<ge> aw_queue_limit s then (False, s)
             else if off > - 1 - of_nat n
             then (False, fail_file f e_fail ERROR_ARITHMETIC_OVERFLOW (discard_staging_locked f s))
             else (case ans of
                 Post_failed e \<Rightarrow> (False, fail_file f (hresult_from_win32 e) e (discard_staging_locked f s))
               | Post_no_memory \<Rightarrow> (False, fail_file f e_outofmemory ERROR_OUTOFMEMORY (discard_staging_locked f s))
               | Posted \<Rightarrow>
                   let s1 = upd_buf b (\<lambda>x. x\<lparr>bf_stage := B_queued\<rparr>) (s\<lparr>aw_work_queue := aw_work_queue s @ [Work_data b off 0]\<rparr>);
                       s2 = upd_file f (\<lambda>x. x\<lparr>wf_staging_buffer := None, wf_next_write_offset := off + of_nat n\<rparr>) s1
                   in (True, s2\<lparr>aw_queued_jobs := aw_queued_jobs s2 + 1\<rparr>)))"

text \<open>A close that cannot be queued is done by the caller.\<close>

definition enqueue_close_locked :: "post_answer \<Rightarrow> nat \<Rightarrow> awriter \<Rightarrow> bool \<times> awriter" where
  "enqueue_close_locked ans f s =
     (let x = file_of s f
      in if \<not> wf_close_requested x \<or> wf_close_enqueued x \<or> wf_closed x \<or> wf_outstanding_data x \<noteq> 0 then (False, s)
         else let s1 = upd_file f (\<lambda>x. x\<lparr>wf_close_enqueued := True\<rparr>) s
           in case ans of
                Post_failed e \<Rightarrow>
                  (False, upd_file f (\<lambda>x. x\<lparr>wf_closing := C_begin empty_lease\<rparr>) (fail_file f (hresult_from_win32 e) e s1))
              | Post_no_memory \<Rightarrow>
                  (False, upd_file f (\<lambda>x. x\<lparr>wf_closing := C_begin empty_lease\<rparr>) (fail_file f e_outofmemory ERROR_OUTOFMEMORY s1))
              | Posted \<Rightarrow>
                  (True, upd_file f (\<lambda>x. x\<lparr>wf_closing := C_queued\<rparr>)
                           (s1\<lparr>aw_work_queue := aw_work_queue s1 @ [Work_close f 0], aw_queued_jobs := aw_queued_jobs s1 + 1\<rparr>)))"

section \<open>The producer\<close>

definition can_accept_locked :: "nat \<Rightarrow> awriter \<Rightarrow> bool" where
  "can_accept_locked f s =
     (let x = file_of s f; j = job_of s (wf_job x)
      in if wf_close_requested x \<or> jb_inflight_bytes j \<ge> jb_max_inflight_bytes j \<or> wf_inflight_bytes x \<ge> kDefaultFileInFlightBytes
         then (case wf_staging_buffer x of
                 None \<Rightarrow> False
               | Some b \<Rightarrow> bf_size (buf_of s b) = kBufferSize \<and> aw_queued_jobs s < aw_queue_limit s)
         else (case wf_staging_buffer x of
                 Some b \<Rightarrow> bf_size (buf_of s b) < kBufferSize
               | None \<Rightarrow> aw_free_buffers s \<noteq> []))"

text \<open>\<^verbatim>\<open>write\<close> returns: the producer is idle again; the result and the bytes consumed go to the caller.\<close>

definition write_return :: "nat \<Rightarrow> awriter \<Rightarrow> awriter" where
  "write_return f = upd_file f (\<lambda>x. x\<lparr>wf_producer := P_idle\<rparr>)"

text \<open>
  The first region of an iteration of \<^verbatim>\<open>write\<close>, once the wait for capacity is over: the result is given
  when the call returns here. \<open>allocated\<close> says whether a buffer that has no memory yet gets some.
\<close>

definition take_buffer :: "bool \<Rightarrow> nat \<Rightarrow> awriter \<Rightarrow> (nat \<times> bool) option \<times> awriter" where
  "take_buffer allocated f s =
     (case wf_staging_buffer (file_of s f) of
        Some b \<Rightarrow> (Some (b, False), s)
      | None \<Rightarrow>
          if aw_free_buffers s = [] then (None, s)
          else let b = last (aw_free_buffers s)
            in if bf_allocated (buf_of s b) \<or> allocated
               then (Some (b, True),
                     upd_file f (\<lambda>x. x\<lparr>wf_staging_buffer := Some b\<rparr>)
                       (upd_buf b (\<lambda>x. x\<lparr>bf_allocated := True, bf_file := Some f, bf_bytes := [], bf_stage := B_staging\<rparr>)
                         (s\<lparr>aw_free_buffers := butlast (aw_free_buffers s)\<rparr>)))
               else (None, fail_file f e_outofmemory ERROR_OUTOFMEMORY s))"

definition reserve_chunk :: "nat \<Rightarrow> nat \<Rightarrow> bool \<Rightarrow> u8 list \<Rightarrow> nat \<Rightarrow> awriter \<Rightarrow> awriter" where
  "reserve_chunk f b newly data consumed s =
     (let x = file_of s f; j = job_of s (wf_job x); previous = bf_size (buf_of s b);
          chunk = min (length data - consumed)
                    (min (kBufferSize - previous)
                      (min (jb_max_inflight_bytes j - min (jb_inflight_bytes j) (jb_max_inflight_bytes j))
                           (kDefaultFileInFlightBytes - min (wf_inflight_bytes x) kDefaultFileInFlightBytes)))
      in if chunk = 0 then
           (if newly then free_buffer b (upd_file f (\<lambda>x. x\<lparr>wf_staging_buffer := None\<rparr>) s) else s)
         else upd_job (wf_job x) (\<lambda>y. y\<lparr>jb_inflight_bytes := jb_inflight_bytes y + chunk\<rparr>)
                (upd_file f (\<lambda>y. y\<lparr>wf_inflight_bytes := wf_inflight_bytes y + chunk,
                                   wf_producer := P_copy data consumed previous chunk newly\<rparr>) s))"

definition write_setup :: "post_answer \<Rightarrow> bool \<Rightarrow> nat \<Rightarrow> u8 list \<Rightarrow> nat \<Rightarrow> awriter \<Rightarrow> (hresult \<times> nat) option \<times> awriter" where
  "write_setup ans allocated f data consumed s =
     (let j = wf_job (file_of s f); error = terminal_result_locked j s
      in if error \<noteq> s_ok \<or> wf_close_requested (file_of s f)
         then (Some (if error = s_ok then e_abort else error, consumed), write_return f s)
         else case (case wf_staging_buffer (file_of s f) of
                      Some b \<Rightarrow> if bf_size (buf_of s b) = kBufferSize then enqueue_staging_locked ans f False s else (True, s)
                    | None \<Rightarrow> (True, s)) of
           (ok, s1) \<Rightarrow>
             if \<not> ok then
               (if terminal_result_locked j s1 \<noteq> s_ok then (Some (terminal_result_locked j s1, consumed), write_return f s1)
                else (None, s1))
             else case take_buffer allocated f s1 of
               (Some (b, newly), s2) \<Rightarrow> (None, reserve_chunk f b newly data consumed s2)
             | (None, s2) \<Rightarrow>
                 if aw_free_buffers s1 = [] then (None, s2) else (Some (e_outofmemory, consumed), write_return f s2))"

text \<open>The chunk is copied outside the lock and becomes part of the buffer in the second region.\<close>

definition commit_chunk :: "post_answer \<Rightarrow> nat \<Rightarrow> nat \<Rightarrow> u8 list \<Rightarrow> nat \<Rightarrow> nat \<Rightarrow> nat \<Rightarrow> awriter \<Rightarrow> (hresult \<times> nat) option \<times> awriter" where
  "commit_chunk ans f b data consumed previous chunk s =
     (let j = wf_job (file_of s f);
          s1 = upd_buf b (\<lambda>x. x\<lparr>bf_bytes := take previous (bf_bytes x) @ take chunk (drop consumed data)\<rparr>) s;
          s2 = (if previous = 0
                then upd_job j (\<lambda>x. x\<lparr>jb_pending_jobs := jb_pending_jobs x + 1\<rparr>)
                       (upd_file f (\<lambda>x. x\<lparr>wf_outstanding_data := wf_outstanding_data x + 1\<rparr>) s1)
                else s1);
          s3 = meter (account_accepted (of_nat chunk))
                 (upd_file f (\<lambda>x. x\<lparr>wf_accepted_bytes := wf_accepted_bytes x + of_nat chunk, wf_new_writes := True,
                                    wf_producer := P_write data (consumed + chunk)\<rparr>) s2);
          finished = (\<lambda>s. if consumed + chunk < length data then (None, s)
                      else (Some (s_ok, consumed + chunk), write_return f s))
      in if bf_size (buf_of s3 b) = kBufferSize then
           (case enqueue_staging_locked ans f False s3 of
              (True, s4) \<Rightarrow> finished s4
            | (False, s4) \<Rightarrow>
                (Some (if terminal_result_locked j s4 = s_ok then e_fail else terminal_result_locked j s4, consumed + chunk),
                 write_return f s4))
         else finished s3)"

definition write_commit ::
  "post_answer \<Rightarrow> nat \<Rightarrow> u8 list \<Rightarrow> nat \<Rightarrow> nat \<Rightarrow> nat \<Rightarrow> bool \<Rightarrow> awriter \<Rightarrow> (hresult \<times> nat) option \<times> awriter" where
  "write_commit ans f data consumed previous chunk newly s =
     (let x = file_of s f; j = wf_job x; error = terminal_result_locked j s
      in case wf_staging_buffer x of
           Some b \<Rightarrow>
             if error \<noteq> s_ok \<or> wf_close_requested x then
               (let s1 = upd_job j (\<lambda>y. y\<lparr>jb_inflight_bytes := jb_inflight_bytes y - chunk\<rparr>)
                      (upd_file f (\<lambda>y. y\<lparr>wf_inflight_bytes := wf_inflight_bytes y - chunk\<rparr>) s);
                    s2 = (if newly \<and> bf_size (buf_of s b) = previous
                          then free_buffer b (upd_file f (\<lambda>y. y\<lparr>wf_staging_buffer := None\<rparr>) s1) else s1)
                in (Some (if error = s_ok then e_abort else error, consumed), write_return f s2))
             else commit_chunk ans f b data consumed previous chunk s
         | None \<Rightarrow>
             (Some (if error = s_ok then e_abort else error, consumed),
              write_return f (upd_job j (\<lambda>y. y\<lparr>jb_inflight_bytes := jb_inflight_bytes y - chunk\<rparr>)
                (upd_file f (\<lambda>y. y\<lparr>wf_inflight_bytes := wf_inflight_bytes y - chunk\<rparr>) s))))"

text \<open>Bytes an earlier attempt confirmed move the cursor of the file without being written again.\<close>

definition skip_written :: "post_answer \<Rightarrow> nat \<Rightarrow> u32 \<Rightarrow> awriter \<Rightarrow> hresult \<times> awriter" where
  "skip_written ans f n s =
     (let j = wf_job (file_of s f); error = terminal_result_locked j s
      in if error \<noteq> s_ok then (error, s)
         else case (case wf_staging_buffer (file_of s f) of
                      Some b \<Rightarrow> if bf_size (buf_of s b) \<noteq> 0 then enqueue_staging_locked ans f True s else (True, s)
                    | None \<Rightarrow> (True, s)) of
           (False, s1) \<Rightarrow> (terminal_result_locked j s1, s1)
         | (True, s1) \<Rightarrow>
             (s_ok, upd_file f (\<lambda>x. x\<lparr>wf_next_write_offset := wf_next_write_offset x + ucast n,
                                      wf_accepted_bytes := wf_accepted_bytes x + ucast n\<rparr>) s1))"

definition close_file :: "post_answer \<Rightarrow> post_answer \<Rightarrow> nat \<Rightarrow> u8 list \<Rightarrow> awriter \<Rightarrow> awriter" where
  "close_file ans ans' f magic s =
     (if wf_close_requested (file_of s f) then s
      else
        let j = wf_job (file_of s f);
            s1 = synchronize_cancellation_locked j s;
            s2 = upd_job j (\<lambda>x. x\<lparr>jb_pending_jobs := jb_pending_jobs x + 1\<rparr>)
                   (upd_file f (\<lambda>x. x\<lparr>wf_close_requested := True, wf_magic := magic\<rparr>) s1);
            s3 = (if terminal_result_locked j s2 \<noteq> s_ok then discard_staging_locked f s2
                  else case wf_staging_buffer (file_of s2 f) of
                         None \<Rightarrow> s2
                       | Some b \<Rightarrow> snd (enqueue_staging_locked ans f True s2))
        in if wf_outstanding_data (file_of s3 f) = 0 then snd (enqueue_close_locked ans' f s3) else s3)"

section \<open>The writer threads\<close>

text \<open>The next item of the queue; a data item starts its attempt, a close item its close.\<close>

fun start_item :: "work_item \<Rightarrow> awriter \<Rightarrow> awriter" where
  "start_item (Work_data b off e) s = upd_buf b (\<lambda>x. x\<lparr>bf_output_offset := off, bf_transferred := 0, bf_stage := B_attempt\<rparr>) s"
| "start_item (Work_close f e) s = upd_file f (\<lambda>x. x\<lparr>wf_closing := C_begin empty_lease\<rparr>) s"

definition dequeue_work :: "awriter \<Rightarrow> awriter" where
  "dequeue_work s =
     (case aw_work_queue s of
        [] \<Rightarrow> s
      | item # rest \<Rightarrow> start_item item (s\<lparr>aw_work_queue := rest, aw_queued_jobs := aw_queued_jobs s - 1\<rparr>))"

text \<open>\<^verbatim>\<open>CreateFileW\<close> and the registration with the completion port, each with the error code of a failure.\<close>

datatype open_answer = Opened | Open_failed u32 | Register_failed u32

definition permanent :: "u32 \<Rightarrow> attempt_result" where
  "permanent e = \<lparr>ar_kind = Permanent_failure, ar_error = e\<rparr>"

definition space_failed :: "u32 \<Rightarrow> attempt_result" where
  "space_failed e = \<lparr>ar_kind = Space_failure, ar_error = e\<rparr>"

definition succeeded :: attempt_result where
  "succeeded = \<lparr>ar_kind = Succeeded, ar_error = 0\<rparr>"

definition terminal_attempt :: attempt_result where
  "terminal_attempt = \<lparr>ar_kind = Attempt_terminal, ar_error = 0\<rparr>"

text \<open>Attempts to open one file are serialised by its \<^verbatim>\<open>open_mutex\<close>.\<close>

definition try_open_file :: "open_answer \<Rightarrow> nat \<Rightarrow> awriter \<Rightarrow> attempt_result \<times> awriter" where
  "try_open_file ans f s =
     (let x = file_of s f
      in if wf_failed x then (permanent ERROR_INVALID_STATE, s)
         else if wf_handle x then (succeeded, s)
         else if wf_open_attempted x then (permanent ERROR_OPEN_FAILED, s)
         else
           let opened = (\<lambda>x. x\<lparr>wf_output_created := True, wf_open_attempted := True,
                   wf_replay := map_option (\<lambda>r. r\<lparr>created := True\<rparr>) (wf_replay x)\<rparr>)
           in case ans of
             Open_failed e \<Rightarrow>
               if is_space_exhaustion_error e
               then (space_failed e, if wf_gated x then s else upd_file f (\<lambda>x. x\<lparr>wf_open_attempted := True\<rparr>) s)
               else (permanent e, fail_file f (hresult_from_win32 e) e (upd_file f (\<lambda>x. x\<lparr>wf_open_attempted := True\<rparr>) s))
           | Register_failed e \<Rightarrow> (permanent e, fail_file f (hresult_from_win32 e) e (upd_file f opened s))
           | Opened \<Rightarrow> (succeeded, upd_file f (\<lambda>x. (opened x)\<lparr>wf_handle := True\<rparr>) s))"

definition buf_file :: "awriter \<Rightarrow> nat \<Rightarrow> nat" where
  "buf_file s b = the (bf_file (buf_of s b))"

text \<open>The first check of \<^verbatim>\<open>attempt_data_write\<close>: a job that is over writes nothing more.\<close>

definition attempt_check :: "os \<Rightarrow> nat \<Rightarrow> awriter \<Rightarrow> awriter" where
  "attempt_check os b s =
     (let f = buf_file s b; j = wf_job (file_of s f)
      in case current_error j s of (error, s1) \<Rightarrow>
           if error \<noteq> s_ok
           then (case current_win32_error j s1 of (e, s2) \<Rightarrow>
                   upd_buf b (\<lambda>x. x\<lparr>bf_stage := B_finish terminal_attempt\<rparr>) (record_failure os f error e 0 s2))
           else upd_buf b (\<lambda>x. x\<lparr>bf_stage := B_open\<rparr>) s1)"

definition attempt_open :: "open_answer \<Rightarrow> nat \<Rightarrow> awriter \<Rightarrow> awriter" where
  "attempt_open ans b s =
     (case try_open_file ans (buf_file s b) s of (result, s1) \<Rightarrow>
        upd_buf b (\<lambda>x. x\<lparr>bf_stage := (if ar_kind result = Succeeded then B_begin else B_finish result)\<rparr>) s1)"

definition begin_data_write :: "nat \<Rightarrow> awriter \<Rightarrow> bool \<times> awriter" where
  "begin_data_write f s =
     (if wf_failed (file_of s f) \<or> terminal_result_locked (wf_job (file_of s f)) s \<noteq> s_ok then (False, s)
      else (True, upd_file f (\<lambda>x. x\<lparr>wf_active_data_writes := wf_active_data_writes x + 1,
              wf_peak_active_data_writes := max (wf_peak_active_data_writes x) (wf_active_data_writes x + 1)\<rparr>) s))"

definition end_data_write :: "nat \<Rightarrow> awriter \<Rightarrow> awriter" where
  "end_data_write f = upd_file f (\<lambda>x. x\<lparr>wf_active_data_writes := wf_active_data_writes x - 1\<rparr>)"

definition classify_data_failure :: "os \<Rightarrow> nat \<Rightarrow> u32 \<Rightarrow> awriter \<Rightarrow> attempt_result \<times> awriter" where
  "classify_data_failure os f e s =
     (if is_space_exhaustion_error e then (space_failed e, s)
      else (permanent e, record_failure os f (hresult_from_win32 e) e 0 s))"

text \<open>
  Submission: \<open>None\<close> when \<^verbatim>\<open>WriteFile\<close> takes the request, at once or as pending; from then on only the
  completion packet owns the buffer.
\<close>

definition submit_data_write :: "os \<Rightarrow> u32 option \<Rightarrow> nat \<Rightarrow> awriter \<Rightarrow> awriter" where
  "submit_data_write os error b s =
     (let f = buf_file s b
      in case begin_data_write f s of
           (False, s1) \<Rightarrow> upd_buf b (\<lambda>x. x\<lparr>bf_stage := B_finish terminal_attempt\<rparr>) s1
         | (True, s1) \<Rightarrow>
             (case error of
                None \<Rightarrow> upd_buf b (\<lambda>x. x\<lparr>bf_stage := B_submitted\<rparr>) s1
              | Some e \<Rightarrow>
                  (case classify_data_failure os f e (end_data_write f s1) of (result, s2) \<Rightarrow>
                     upd_buf b (\<lambda>x. x\<lparr>bf_stage := B_finish result\<rparr>) s2)))"

text \<open>\<open>no_memory\<close>: the record of confirmed bytes could not grow.\<close>

definition add_written_bytes :: "bool \<Rightarrow> nat \<Rightarrow> u32 \<Rightarrow> u64 \<Rightarrow> awriter \<Rightarrow> awriter" where
  "add_written_bytes no_memory f n off s =
     (let s1 = upd_file f (\<lambda>x. x\<lparr>wf_written_bytes := wf_written_bytes x + ucast n\<rparr>) (meter (account_written (ucast n)) s)
      in if \<not> wf_track_replay (file_of s f) then s1
         else if no_memory then set_job_error_locked (wf_job (file_of s f)) e_outofmemory ERROR_OUTOFMEMORY s1
         else upd_file f (\<lambda>x. x\<lparr>wf_written_ranges := ranges_add (wf_written_ranges x) off (off + ucast n)\<rparr>) s1)"

definition complete_data_write :: "os \<Rightarrow> bool \<Rightarrow> u32 \<Rightarrow> u32 \<Rightarrow> nat \<Rightarrow> awriter \<Rightarrow> awriter" where
  "complete_data_write os no_memory bytes error b s =
     (let f = buf_file s b; x = buf_of s b; s1 = end_data_write f s
      in if error \<noteq> 0
         then (case classify_data_failure os f error s1 of (result, s2) \<Rightarrow>
                 upd_buf b (\<lambda>x. x\<lparr>bf_stage := B_finish result\<rparr>) s2)
         else if bytes = 0 \<or> unat bytes > bf_size x - bf_transferred x
         then upd_buf b (\<lambda>x. x\<lparr>bf_stage := B_finish (permanent ERROR_WRITE_FAULT)\<rparr>)
                (record_failure os f (hresult_from_win32 ERROR_WRITE_FAULT) ERROR_WRITE_FAULT 0 s1)
         else let s2 = add_written_bytes no_memory f bytes (bf_output_offset x + of_nat (bf_transferred x)) s1;
                  moved = bf_transferred x + unat bytes
              in upd_buf b (\<lambda>x. x\<lparr>bf_transferred := moved,
                   bf_stage := (if moved < bf_size x then B_attempt else B_finish succeeded)\<rparr>) s2)"

definition release_buffer :: "post_answer \<Rightarrow> nat \<Rightarrow> awriter \<Rightarrow> awriter" where
  "release_buffer ans b s =
     (let f = buf_file s b; j = wf_job (file_of s f); n = bf_size (buf_of s b);
          s1 = upd_job j (\<lambda>x. x\<lparr>jb_inflight_bytes := jb_inflight_bytes x - n, jb_pending_jobs := jb_pending_jobs x - 1\<rparr>)
                 (upd_file f (\<lambda>x. x\<lparr>wf_inflight_bytes := wf_inflight_bytes x - n,
                                    wf_outstanding_data := wf_outstanding_data x - 1\<rparr>) s);
          s2 = free_buffer b s1
      in if wf_close_requested (file_of s2 f) \<and> wf_outstanding_data (file_of s2 f) = 0
         then snd (enqueue_close_locked ans f s2) else s2)"

text \<open>A failure for lack of space waits in the retry queue; without a permit it is reported to the gate first.\<close>

definition defer_space_work :: "os \<Rightarrow> bool \<Rightarrow> nat \<Rightarrow> work_item \<Rightarrow> awriter \<Rightarrow> awriter" where
  "defer_space_work os posted f item s =
     (let e = (case item of Work_data _ _ e \<Rightarrow> e | Work_close _ e \<Rightarrow> e);
          s1 = (if e \<noteq> 0 then with_gate (\<lambda>g. case report_space_failure os e (wf_path (file_of s f)) g of (_, g', es) \<Rightarrow> (g', es)) s
                else s)
      in completion_wake posted (s1\<lparr>aw_retry_queue := aw_retry_queue s1 @ [item]\<rparr>))"

definition settle_lease :: "os \<Rightarrow> attempt_result \<Rightarrow> wstring \<Rightarrow> probe_lease \<Rightarrow> awriter \<Rightarrow> awriter" where
  "settle_lease os result path l = with_gate (\<lambda>g. case settle_space_attempt os l result path g of (_, g', es) \<Rightarrow> (g', es))"

definition finish_data_attempt :: "os \<Rightarrow> bool \<Rightarrow> post_answer \<Rightarrow> attempt_result \<Rightarrow> nat \<Rightarrow> awriter \<Rightarrow> awriter" where
  "finish_data_attempt os posted ans result b s =
     (let f = buf_file s b; l = bf_probe_lease (buf_of s b); held_probe = lease_valid l;
          s1 = upd_buf b (\<lambda>x. x\<lparr>bf_probe_lease := empty_lease\<rparr>) (settle_lease os result (wf_path (file_of s f)) l s)
      in if ar_kind result = Space_failure \<and> wf_gated (file_of s f)
         then upd_buf b (\<lambda>x. x\<lparr>bf_stage := B_retry\<rparr>)
                (defer_space_work os posted f
                  (Work_data b (bf_output_offset (buf_of s b)) (if held_probe then 0 else ar_error result)) s1)
         else
           let s2 = (if ar_kind result = Space_failure
                     then record_failure os f (hresult_from_win32 (ar_error result)) (ar_error result) 0 s1 else s1);
               left = bf_size (buf_of s b) - bf_transferred (buf_of s b);
               s3 = (if ar_kind result \<noteq> Succeeded \<and> left \<noteq> 0 then meter (account_discarded (of_nat left)) s2 else s2)
           in release_buffer ans b s3)"

section \<open>Retries\<close>

definition terminal_predicate :: "nat \<Rightarrow> awriter \<Rightarrow> bool" where
  "terminal_predicate j s \<longleftrightarrow>
     aw_stopping s \<or> jb_terminal_requested (job_of s j) \<or> jb_cancel_token (job_of s j) = Some True"

definition item_file :: "awriter \<Rightarrow> work_item \<Rightarrow> nat" where
  "item_file s item = (case item of Work_data b _ _ \<Rightarrow> buf_file s b | Work_close f _ \<Rightarrow> f)"

text \<open>The first item the gate lets through, with the lease it gets; the items before it stay.\<close>

fun pick_retry :: "work_item list \<Rightarrow> awriter \<Rightarrow> (work_item \<times> probe_lease \<times> work_item list) option \<times> awriter" where
  "pick_retry [] s = (None, s)"
| "pick_retry (item # rest) s =
     (let j = wf_job (file_of s (item_file s item)); s1 = synchronize_cancellation_locked j s
      in case vs_gate (aw_volume s1) of
           None \<Rightarrow> (None, s1)
         | Some g \<Rightarrow>
             (case try_wait True (terminal_predicate j s1) g of
                (decision, g') \<Rightarrow>
                  let s2 = s1\<lparr>aw_volume := (aw_volume s1)\<lparr>vs_gate := Some g'\<rparr>\<rparr>
                  in case decision of
                       Wait_Pending \<Rightarrow>
                         (case pick_retry rest s2 of
                            (None, s3) \<Rightarrow> (None, s3)
                          | (Some (i, l, q), s3) \<Rightarrow> (Some (i, l, item # q), s3))
                     | Wait_Probe t \<Rightarrow> (Some (item, new_lease t, rest), s2)
                     | _ \<Rightarrow> (Some (item, empty_lease, rest), s2)))"

fun resume_item :: "os \<Rightarrow> work_item \<Rightarrow> probe_lease \<Rightarrow> awriter \<Rightarrow> awriter" where
  "resume_item os (Work_data b off e) l s =
     upd_buf b (\<lambda>x. x\<lparr>bf_probe_lease := l, bf_stage := B_attempt\<rparr>)
       (with_gate (\<lambda>g. case settle_unfinished os (bf_probe_lease (buf_of s b)) g of (_, g', es) \<Rightarrow> (g', es)) s)"
| "resume_item os (Work_close f e) l s = upd_file f (\<lambda>x. x\<lparr>wf_closing := C_begin l\<rparr>) s"

text \<open>A retry packet is acknowledged, then iterations run until no item is let through.\<close>

definition acknowledge_wake :: "awriter \<Rightarrow> awriter" where
  "acknowledge_wake s = s\<lparr>aw_wake_posted := False\<rparr>"

definition dispatch_space_retry :: "os \<Rightarrow> awriter \<Rightarrow> awriter" where
  "dispatch_space_retry os s =
     (case pick_retry (aw_retry_queue s) s of
        (None, s1) \<Rightarrow> s1
      | (Some (item, l, q), s1) \<Rightarrow> resume_item os item l (s1\<lparr>aw_retry_queue := q\<rparr>))"

definition drain_cancelled_retries :: "bool \<Rightarrow> awriter \<Rightarrow> awriter" where
  "drain_cancelled_retries posted s = (if aw_retry_queue s \<noteq> [] then completion_wake posted s else s)"

section \<open>Closing\<close>

text \<open>
  The regions of \<^verbatim>\<open>process_close\<close>. Before anything else the error of the job becomes one of the file; the
  file is opened if no write did so, unless it is complete from an earlier attempt.
\<close>

definition close_begin :: "os \<Rightarrow> nat \<Rightarrow> probe_lease \<Rightarrow> awriter \<Rightarrow> awriter" where
  "close_begin os f l s =
     (let j = wf_job (file_of s f)
      in case current_error j s of (error, s1) \<Rightarrow>
           let s2 = (if error \<noteq> s_ok
                     then (case current_win32_error j s1 of (e, s1') \<Rightarrow> record_failure os f error e 0 s1') else s1);
               x = file_of s2 f;
               should_open = (\<not> wf_failed x \<and> \<not> wf_handle x \<and> \<not> wf_open_attempted x \<and>
                 \<not> ((case wf_replay x of None \<Rightarrow> False | Some r \<Rightarrow> complete r) \<and> \<not> wf_new_writes x))
           in upd_file f (\<lambda>x. x\<lparr>wf_closing := (if should_open then C_open l else C_settle succeeded l)\<rparr>) s2)"

definition close_open :: "open_answer \<Rightarrow> nat \<Rightarrow> probe_lease \<Rightarrow> awriter \<Rightarrow> awriter" where
  "close_open ans f l s =
     (case try_open_file ans f s of (result, s1) \<Rightarrow> upd_file f (\<lambda>x. x\<lparr>wf_closing := C_settle result l\<rparr>) s1)"

text \<open>The flush of a write-through file, with the error code of a failure.\<close>

definition flush_result :: "u32 option \<Rightarrow> nat \<Rightarrow> attempt_result \<Rightarrow> awriter \<Rightarrow> attempt_result" where
  "flush_result flush f result s =
     (if ar_kind result = Succeeded \<and> wf_handle (file_of s f) \<and> aw_write_through s
      then (case flush of None \<Rightarrow> result | Some e \<Rightarrow> if is_space_exhaustion_error e then space_failed e else permanent e)
      else result)"

definition close_settle :: "os \<Rightarrow> bool \<Rightarrow> u32 option \<Rightarrow> nat \<Rightarrow> attempt_result \<Rightarrow> probe_lease \<Rightarrow> awriter \<Rightarrow> awriter" where
  "close_settle os posted flush f result0 l s =
     (let held_probe = lease_valid l; j = wf_job (file_of s f); path = wf_path (file_of s f);
          result1 = flush_result flush f result0 s
      in case current_error j s of (error, s1) \<Rightarrow>
           let result = (if error \<noteq> s_ok then terminal_attempt else result1);
               s2 = settle_lease os result path l s1
           in if ar_kind result = Space_failure \<and> wf_gated (file_of s f)
              then upd_file f (\<lambda>x. x\<lparr>wf_closing := C_retry\<rparr>)
                     (defer_space_work os posted f (Work_close f (if held_probe then 0 else ar_error result)) s2)
              else
                let s3 = (if ar_kind result = Space_failure \<or> ar_kind result = Permanent_failure
                          then record_failure os f (hresult_from_win32 (ar_error result)) (ar_error result) 0 s2 else s2)
                in upd_file f (\<lambda>x. x\<lparr>wf_closing := C_finish (\<not> wf_failed x \<and> ar_kind result = Succeeded)\<rparr>) s3)"

text \<open>
  What the system says at the end: the errors of restoring times and attributes, the time of the last
  write as 100 ns ticks since 1601, and the error of \<^verbatim>\<open>CloseHandle\<close>.
\<close>

record close_answer =
  ca_times :: u32
  ca_attributes :: u32
  ca_last_write :: "u64 option"
  ca_close_error :: "u32 option"

definition unix_epoch_100ns :: u64 where
  "unix_epoch_100ns = 116444736000000000"

definition unix_mtime_ns :: "u64 \<Rightarrow> u64 option" where
  "unix_mtime_ns ticks =
     (if ticks \<ge> unix_epoch_100ns \<and> ticks - unix_epoch_100ns \<le> (- 1) div 100
      then Some ((ticks - unix_epoch_100ns) * 100) else None)"

definition close_handle :: "os \<Rightarrow> close_answer \<Rightarrow> nat \<Rightarrow> awriter \<Rightarrow> awriter" where
  "close_handle os ans f s =
     (let s1 = (case Option.bind (ca_last_write ans) unix_mtime_ns of
                  None \<Rightarrow> s
                | Some t \<Rightarrow> upd_file f (\<lambda>x. x\<lparr>wf_mtime_ns := t, wf_has_mtime_ns := True\<rparr>) s)
      in case ca_close_error ans of None \<Rightarrow> s1 | Some e \<Rightarrow> record_failure os f (hresult_from_win32 e) e 0 s1)"

definition count_file :: "writer_counters \<Rightarrow> writer_counters" where
  "count_file c = c\<lparr>completed_files := completed_files c + 1\<rparr>"

definition close_finish :: "os \<Rightarrow> close_answer \<Rightarrow> nat \<Rightarrow> bool \<Rightarrow> awriter \<Rightarrow> awriter" where
  "close_finish os ans f restore_times s =
     (let had_handle = wf_handle (file_of s f);
          s1 = upd_file f (\<lambda>x. x\<lparr>wf_handle := False\<rparr>) s;
          s2 = (if had_handle then close_handle os ans f s1 else s1);
          s3 = upd_file f (\<lambda>x. x\<lparr>wf_metadata_errors :=
                   (if had_handle \<and> restore_times then (ca_times ans, ca_attributes ans) else (0, 0)),
                 wf_closed := True, wf_closing := C_none\<rparr>) s2;
          s4 = unregister_file_locked f (upd_job (wf_job (file_of s f)) (\<lambda>x. x\<lparr>jb_pending_jobs := jb_pending_jobs x - 1\<rparr>) s3)
      in if wf_failed (file_of s3 f) then s4
         else meter (\<lambda>(m, v). (count_file m, v\<lparr>vs_counters := count_file (vs_counters v)\<rparr>)) s4)"

section \<open>Jobs that end\<close>

definition cancel_job :: "os \<Rightarrow> nat \<Rightarrow> awriter \<Rightarrow> awriter" where
  "cancel_job os j s = with_gate (wake_waiters os) (cancel_job_locked j s)"

text \<open>
  The scan of \<^verbatim>\<open>seal_job_files\<close> from the end of the list: the next file that was not closed; \<open>None\<close> stands
  for every job.
\<close>

definition next_unsealed :: "nat option \<Rightarrow> nat \<Rightarrow> awriter \<Rightarrow> nat option" where
  "next_unsealed job remaining s =
     (let open_files = filter (\<lambda>f. (case job of None \<Rightarrow> True | Some j \<Rightarrow> wf_job (file_of s f) = j) \<and>
                                 \<not> wf_close_requested (file_of s f)) (take remaining (aw_active_files s))
      in if open_files = [] then None else Some (last open_files))"

definition finish_job_result :: "nat \<Rightarrow> awriter \<Rightarrow> hresult \<times> awriter" where
  "finish_job_result j s =
     (let result = terminal_result_locked j s; s1 = writer_unregister_job j s
      in (result, if result = s_ok
                  then meter (\<lambda>(m, v). (m\<lparr>completed_jobs := completed_jobs m + 1\<rparr>,
                         v\<lparr>vs_counters := (vs_counters v)\<lparr>completed_jobs := completed_jobs (vs_counters v) + 1\<rparr>\<rparr>)) s1
                  else s1))"

definition stop_writer :: "awriter \<Rightarrow> awriter" where
  "stop_writer s = fold cancel_job_locked (aw_active_jobs s) (s\<lparr>aw_stopping := True\<rparr>)"

definition synchronize_jobs :: "awriter \<Rightarrow> awriter" where
  "synchronize_jobs s = fold synchronize_cancellation_locked (aw_active_jobs s) s"

text \<open>What remains of a file for a later attempt; its confirmed bytes and, if needed, its path move out.\<close>

definition capture_replay :: "nat \<Rightarrow> replay_file \<Rightarrow> awriter \<Rightarrow> replay_file \<times> awriter" where
  "capture_replay f receipt s =
     (let x = file_of s f
      in (receipt\<lparr>rf_path := (if rf_path receipt = [] then wf_path x else rf_path receipt),
            created := created receipt \<or> wf_output_created x, written := wf_written_ranges x,
            complete := complete receipt \<or> (wf_closed x \<and> \<not> wf_failed x \<and> wf_operation_result_set x \<and> wf_operation_result x = 0),
            has_mtime := wf_has_mtime_ns x, mtime := wf_mtime_ns x\<rparr>,
          upd_file f (\<lambda>x. x\<lparr>wf_written_ranges := (wf_written_ranges x)\<lparr>ranges := []\<rparr>,
            wf_path := (if rf_path receipt = [] then [] else wf_path x)\<rparr>) s))"

end
