(* ===== verification/Writer_Invariant.thy ===== *)
theory Writer_Invariant
  imports Async_Writer
begin

text \<open>
  The invariant of the asynchronous writer: every accepted byte of a file is on disk, or in a buffer that still has
  to write it, or the file cannot close without failure; no buffer writes a byte that is confirmed, and the
  buffers of a file are apart. Here it is kept by the attempts, the requests and their completions.
\<close>

section \<open>The system\<close>

text \<open>
  The disk holds a byte for every offset of every file. A completed request has put its confirmed bytes at
  their offsets; what a request that failed, or that was cut short, did to the rest of its range is open.
\<close>

record writer_sys =
  ws_w :: awriter
  ws_disk :: "nat \<Rightarrow> nat \<Rightarrow> u8"

definition data_items :: "work_item list \<Rightarrow> (nat \<times> u64) list" where
  "data_items q = concat (map (\<lambda>i. case i of Work_data b off _ \<Rightarrow> [(b, off)] | Work_close _ _ \<Rightarrow> []) q)"

lemma data_items_simps [simp]:
  "data_items [] = []"
  "data_items (Work_data b off e # q) = (b, off) # data_items q"
  "data_items (Work_close f e # q) = data_items q"
  "data_items (p @ q) = data_items p @ data_items q"
  by (simp_all add: data_items_def)

definition close_items :: "work_item list \<Rightarrow> nat list" where
  "close_items q = concat (map (\<lambda>i. case i of Work_data _ _ _ \<Rightarrow> [] | Work_close f _ \<Rightarrow> [f]) q)"

lemma close_items_simps [simp]:
  "close_items [] = []"
  "close_items (Work_data b off e # q) = close_items q"
  "close_items (Work_close f e # q) = f # close_items q"
  "close_items (p @ q) = close_items p @ close_items q"
  by (simp_all add: close_items_def)

section \<open>Selectors\<close>

lemma upd_sel [simp]:
  "aw_jobs (upd_file f g s) = aw_jobs s" "aw_buffers (upd_file f g s) = aw_buffers s"
  "aw_free_buffers (upd_file f g s) = aw_free_buffers s" "aw_work_queue (upd_file f g s) = aw_work_queue s"
  "aw_retry_queue (upd_file f g s) = aw_retry_queue s" "aw_stopping (upd_file f g s) = aw_stopping s"
  "aw_files (upd_job j h s) = aw_files s" "aw_buffers (upd_job j h s) = aw_buffers s"
  "aw_free_buffers (upd_job j h s) = aw_free_buffers s" "aw_work_queue (upd_job j h s) = aw_work_queue s"
  "aw_retry_queue (upd_job j h s) = aw_retry_queue s" "aw_stopping (upd_job j h s) = aw_stopping s"
  "aw_jobs (upd_buf b k s) = aw_jobs s" "aw_files (upd_buf b k s) = aw_files s"
  "aw_free_buffers (upd_buf b k s) = aw_free_buffers s" "aw_work_queue (upd_buf b k s) = aw_work_queue s"
  "aw_retry_queue (upd_buf b k s) = aw_retry_queue s" "aw_stopping (upd_buf b k s) = aw_stopping s"
  "length (aw_files (upd_file f g s)) = length (aw_files s)"
  "length (aw_jobs (upd_job j h s)) = length (aw_jobs s)"
  "length (aw_buffers (upd_buf b k s)) = length (aw_buffers s)"
  by (simp_all add: upd_file_def upd_job_def upd_buf_def)

lemma file_upd: "x < length (aw_files s) \<Longrightarrow> file_of (upd_file f g s) x = (if x = f then g (file_of s f) else file_of s x)"
  by (simp add: upd_file_def nth_list_update)

lemma job_upd: "x < length (aw_jobs s) \<Longrightarrow> job_of (upd_job f g s) x = (if x = f then g (job_of s f) else job_of s x)"
  by (simp add: upd_job_def nth_list_update)

lemma buf_upd: "x < length (aw_buffers s) \<Longrightarrow> buf_of (upd_buf f g s) x = (if x = f then g (buf_of s f) else buf_of s x)"
  by (simp add: upd_buf_def nth_list_update)

definition terminal_job :: "awriter \<Rightarrow> nat \<Rightarrow> bool" where
  "terminal_job s j \<longleftrightarrow> terminal_result_locked j s \<noteq> s_ok"

definition doomed :: "awriter \<Rightarrow> nat \<Rightarrow> bool" where
  "doomed s f \<longleftrightarrow> wf_failed (file_of s f) \<or> terminal_job s (wf_job (file_of s f))"

lemma terminal_upd [simp]: "terminal_job (upd_file f g s) j = terminal_job s j" "terminal_job (upd_buf b k s) j = terminal_job s j"
  by (simp_all add: terminal_job_def terminal_result_locked_def)

lemma terminal_same: "aw_jobs s' = aw_jobs s \<Longrightarrow> aw_stopping s' = aw_stopping s \<Longrightarrow> terminal_job s' j = terminal_job s j"
  by (simp add: terminal_job_def terminal_result_locked_def)

section \<open>What only makes matters worse\<close>

text \<open>The fields of a file the invariant speaks of, apart from its failure.\<close>

definition file_core ::
  "file_state \<Rightarrow> nat \<times> u64 \<times> u64 \<times> nat option \<times> nat \<times> bool \<times> bool \<times> bool \<times> written_ranges \<times> written_ranges \<times> producer_stage \<times> close_stage \<times>
   bool \<times> bool \<times> bool" where
  "file_core x = (wf_job x, wf_accepted_bytes x, wf_next_write_offset x, wf_staging_buffer x, wf_outstanding_data x,
     wf_close_requested x, wf_close_enqueued x, wf_closed x, previous_writes x, wf_written_ranges x, wf_producer x, wf_closing x,
     wf_gated x, wf_open_attempted x, wf_handle x)"

definition worsens :: "awriter \<Rightarrow> awriter \<Rightarrow> bool" where
  "worsens s s' \<longleftrightarrow> aw_buffers s' = aw_buffers s \<and> aw_free_buffers s' = aw_free_buffers s \<and>
     aw_work_queue s' = aw_work_queue s \<and> aw_retry_queue s' = aw_retry_queue s \<and>
     length (aw_jobs s') = length (aw_jobs s) \<and> length (aw_files s') = length (aw_files s) \<and>
     (\<forall>f<length (aw_files s). file_core (file_of s' f) = file_core (file_of s f) \<and>
        (wf_failed (file_of s f) \<longrightarrow> wf_failed (file_of s' f))) \<and>
     (\<forall>j<length (aw_jobs s). terminal_job s j \<longrightarrow> terminal_job s' j)"

lemma worsens_refl [simp]: "worsens s s"
  by (simp add: worsens_def)

lemma worsens_trans: "worsens s t \<Longrightarrow> worsens t u \<Longrightarrow> worsens s u"
  by (simp add: worsens_def)

lemma worsens_frame:
  assumes "aw_buffers s' = aw_buffers s" "aw_free_buffers s' = aw_free_buffers s" "aw_work_queue s' = aw_work_queue s"
    and "aw_retry_queue s' = aw_retry_queue s" "aw_jobs s' = aw_jobs s" "aw_files s' = aw_files s" "aw_stopping s \<longrightarrow> aw_stopping s'"
  shows "worsens s s'"
  using assms by (auto simp: worsens_def terminal_job_def terminal_result_locked_def)

lemma worsens_with_gate [simp]: "worsens s (with_gate h s)"
  by (auto simp: with_gate_def split: option.splits prod.splits intro: worsens_frame)

lemma worsens_meter [simp]: "worsens s (meter h s)"
  by (auto simp: meter_def split: prod.splits intro: worsens_frame)

lemma worsens_wake [simp]: "worsens s (completion_wake p s)"
  by (auto simp: completion_wake_def intro: worsens_frame)

lemma worsens_upd_file:
  assumes "\<And>x. file_core (g x) = file_core x" "\<And>x. wf_failed x \<Longrightarrow> wf_failed (g x)"
  shows "worsens s (upd_file f g s)"
  using assms by (auto simp: worsens_def file_upd terminal_job_def terminal_result_locked_def)

lemma worsens_upd_job:
  assumes "\<And>x. jb_first_error x \<noteq> s_ok \<Longrightarrow> jb_first_error (h x) \<noteq> s_ok"
    and "\<And>x. jb_cancelled x \<Longrightarrow> jb_cancelled (h x) \<or> jb_first_error (h x) \<noteq> s_ok"
  shows "worsens s (upd_job j h s)"
  using assms by (auto simp: worsens_def job_upd terminal_job_def terminal_result_locked_def split: if_splits)

lemma worsens_set_job_error [simp]: "worsens s (set_job_error_locked j hr e s)"
  unfolding set_job_error_locked_def by (rule worsens_upd_job) auto

lemma worsens_cancel [simp]: "worsens s (cancel_job_locked j s)"
  unfolding cancel_job_locked_def by (rule worsens_trans [OF _ worsens_set_job_error], rule worsens_upd_job) auto

lemma worsens_sync [simp]: "worsens s (synchronize_cancellation_locked j s)"
  by (simp add: synchronize_cancellation_locked_def)

lemma worsens_mark [simp]: "worsens s (mark_file_failure_locked f hr e s)"
  unfolding mark_file_failure_locked_def by (rule worsens_upd_file) (auto simp: file_core_def previous_writes_def)

lemma worsens_fail_file [simp]: "worsens s (fail_file f hr e s)"
  unfolding fail_file_def by (rule worsens_trans [OF worsens_mark worsens_set_job_error])

lemma worsens_record_failure [simp]: "worsens s (record_failure os f hr e n s)"
proof -
  have "worsens s (fail_file f hr e (meter (account_discarded n) s))" by (rule worsens_trans [OF worsens_meter worsens_fail_file])
  then show ?thesis unfolding record_failure_def Let_def by (auto intro: worsens_trans [OF _ worsens_with_gate])
qed

lemma worsens_begin [simp]: "worsens s (snd (begin_data_write f s))"
  unfolding begin_data_write_def by (auto intro!: worsens_upd_file simp: file_core_def previous_writes_def)

lemma worsens_end [simp]: "worsens s (end_data_write f s)"
  unfolding end_data_write_def by (rule worsens_upd_file) (auto simp: file_core_def previous_writes_def)

lemma worsens_classify [simp]: "worsens s (snd (classify_data_failure os f e s))"
  by (simp add: classify_data_failure_def)

lemma worsens_current_error [simp]: "worsens s (snd (current_error j s))" "worsens s (snd (current_win32_error j s))"
  by (simp_all add: current_error_def current_win32_error_def Let_def)

lemma worsens_settle [simp]: "worsens s (settle_lease os r p l s)"
  by (simp add: settle_lease_def)

lemma worsens_close_handle [simp]: "worsens s (close_handle os ans f s)"
proof -
  have u: "worsens s (upd_file f (\<lambda>x. x\<lparr>wf_mtime_ns := t, wf_has_mtime_ns := True\<rparr>) s)" for t
    by (rule worsens_upd_file) (auto simp: file_core_def previous_writes_def)
  then show ?thesis
    unfolding close_handle_def Let_def
    by (auto split: option.splits intro: worsens_trans [OF u worsens_record_failure])
qed

lemma worsens_unregister_file [simp]: "worsens s (unregister_file_locked f s)"
proof -
  have "worsens s (s\<lparr>aw_active_files := xs\<rparr>)" for xs by (rule worsens_frame) auto
  then show ?thesis
    unfolding unregister_file_locked_def Let_def
    by (auto intro: worsens_trans [OF _ worsens_upd_file] simp: file_core_def previous_writes_def)
qed

section \<open>The invariant\<close>

text \<open>Where the bytes of a buffer belong, and how many of them are confirmed.\<close>

definition start :: "awriter \<Rightarrow> nat \<Rightarrow> u64" where
  "start s b = (case bf_stage (buf_of s b) of
       B_staging \<Rightarrow> wf_next_write_offset (file_of s (buf_file s b))
     | B_queued \<Rightarrow> the (map_of (data_items (aw_work_queue s)) b)
     | _ \<Rightarrow> bf_output_offset (buf_of s b))"

definition moved :: "io_buffer \<Rightarrow> nat" where
  "moved x = (if bf_stage x = B_staging \<or> bf_stage x = B_queued then 0 else bf_transferred x)"

definition pending :: "awriter \<Rightarrow> nat \<Rightarrow> nat set" where
  "pending s b = {unat (start s b) + moved (buf_of s b) ..< unat (start s b) + bf_size (buf_of s b)}"

definition confirmed :: "written_ranges \<Rightarrow> nat set" where
  "confirmed w = unat ` covered w"

definition bytes_at :: "(nat \<Rightarrow> u8) \<Rightarrow> nat \<Rightarrow> nat \<Rightarrow> u8 list" where
  "bytes_at c i n = map c [i..<i + n]"

lemma length_bytes_at [simp]: "length (bytes_at c i n) = n"
  by (simp add: bytes_at_def)

lemma bytes_at_add: "bytes_at c i (m + n) = bytes_at c i m @ bytes_at c (i + m) n"
proof -
  have "[i..<i + (m + n)] = [i..<i + m] @ [i + m..<i + m + n]"
    using upt_add_eq_append [of i "i + m" n] by (simp add: add.assoc)
  then show ?thesis by (simp add: bytes_at_def)
qed

lemma take_bytes_at: "n \<le> m \<Longrightarrow> take n (bytes_at c i m) = bytes_at c i n"
  by (simp add: bytes_at_def take_map)

lemma drop_bytes_at: "drop n (bytes_at c i m) = bytes_at c (i + n) (m - n)"
  by (cases "n \<le> m") (auto simp: bytes_at_def drop_map)

lemma nth_bytes_at: "k < n \<Longrightarrow> bytes_at c i n ! k = c (i + k)"
  by (simp add: bytes_at_def)

text \<open>Data and close items of the queues, and the free buffers.\<close>

definition lists_ok :: "awriter \<Rightarrow> bool" where
  "lists_ok s \<longleftrightarrow>
     distinct (aw_free_buffers s) \<and>
     set (aw_free_buffers s) = {b. b < length (aw_buffers s) \<and> bf_stage (buf_of s b) = B_free} \<and>
     distinct (map fst (data_items (aw_work_queue s))) \<and> distinct (map fst (data_items (aw_retry_queue s))) \<and>
     fst ` set (data_items (aw_work_queue s)) = {b. b < length (aw_buffers s) \<and> bf_stage (buf_of s b) = B_queued} \<and>
     fst ` set (data_items (aw_retry_queue s)) = {b. b < length (aw_buffers s) \<and> bf_stage (buf_of s b) = B_retry} \<and>
     distinct (close_items (aw_work_queue s)) \<and> distinct (close_items (aw_retry_queue s)) \<and>
     (\<forall>f\<in>set (close_items (aw_work_queue s)). f < length (aw_files s) \<and> wf_close_enqueued (file_of s f) \<and> wf_closing (file_of s f) = C_queued) \<and>
     (\<forall>f\<in>set (close_items (aw_retry_queue s)). f < length (aw_files s) \<and> wf_close_enqueued (file_of s f) \<and> wf_closing (file_of s f) = C_retry)"

definition nonempty_buffers :: "awriter \<Rightarrow> nat \<Rightarrow> nat set" where
  "nonempty_buffers s f = {b. b < length (aw_buffers s) \<and> bf_file (buf_of s b) = Some f \<and> bf_bytes (buf_of s b) \<noteq> []}"

text \<open>
  A file that cannot close without failure: it has failed, its job is over, or one of its writes failed for
  lack of space with no gate to wait at, which is recorded when the attempt is finished.
\<close>

definition failing :: "awriter \<Rightarrow> nat \<Rightarrow> bool" where
  "failing s f \<longleftrightarrow> doomed s f \<or> (\<not> wf_gated (file_of s f) \<and>
     (\<exists>b\<in>nonempty_buffers s f. \<exists>r. bf_stage (buf_of s b) = B_finish r \<and> ar_kind r = Space_failure))"

definition result_ok :: "awriter \<Rightarrow> nat \<Rightarrow> io_buffer \<Rightarrow> bool" where
  "result_ok s f x \<longleftrightarrow> (\<forall>r. bf_stage x = B_finish r \<longrightarrow>
     (if ar_kind r = Succeeded then bf_transferred x = bf_size x else ar_kind r = Space_failure \<or> failing s f))"

text \<open>A buffer holds the bytes of its file that belong to its range; none of those still to be written is confirmed.\<close>

definition buf_ok :: "(nat \<Rightarrow> nat \<Rightarrow> u8) \<Rightarrow> awriter \<Rightarrow> nat \<Rightarrow> bool" where
  "buf_ok c s b \<longleftrightarrow>
     (case bf_file (buf_of s b) of
        None \<Rightarrow> bf_stage (buf_of s b) = B_free \<and> bf_bytes (buf_of s b) = []
      | Some f \<Rightarrow>
          f < length (aw_files s) \<and> bf_stage (buf_of s b) \<noteq> B_free \<and>
          (if bf_stage (buf_of s b) = B_staging then wf_staging_buffer (file_of s f) = Some b
           else bf_bytes (buf_of s b) \<noteq> [] \<and>
                unat (start s b) + bf_size (buf_of s b) \<le> unat (wf_next_write_offset (file_of s f))) \<and>
          bf_bytes (buf_of s b) = bytes_at (c f) (unat (start s b)) (bf_size (buf_of s b)) \<and>
          bf_size (buf_of s b) \<le> kBufferSize \<and> moved (buf_of s b) \<le> bf_size (buf_of s b) \<and>
          pending s b \<inter> (confirmed (wf_written_ranges (file_of s f)) \<union> confirmed (previous_writes (file_of s f))) = {} \<and>
          result_ok s f (buf_of s b))"

text \<open>The bytes a producer has still to hand over continue the file.\<close>

definition rest_ok :: "(nat \<Rightarrow> u8) \<Rightarrow> file_state \<Rightarrow> u8 list \<Rightarrow> nat \<Rightarrow> bool" where
  "rest_ok c x data consumed \<longleftrightarrow>
     (let n = length data - consumed; a = unat (wf_accepted_bytes x)
      in consumed \<le> length data \<and> drop consumed data = bytes_at c a n \<and> a + n < 2 ^ 64 \<and>
         {a..<a + n} \<inter> confirmed (previous_writes x) = {})"

definition producer_ok :: "(nat \<Rightarrow> u8) \<Rightarrow> awriter \<Rightarrow> file_state \<Rightarrow> bool" where
  "producer_ok c s x \<longleftrightarrow>
     (case wf_producer x of
        P_idle \<Rightarrow> True
      | P_write data consumed \<Rightarrow> rest_ok c x data consumed
      | P_copy data consumed previous chunk newly \<Rightarrow>
          rest_ok c x data consumed \<and> 0 < chunk \<and> chunk \<le> length data - consumed \<and> previous + chunk \<le> kBufferSize \<and> (newly \<longrightarrow> previous = 0) \<and>
          (\<exists>b. wf_staging_buffer x = Some b \<and> bf_size (buf_of s b) = previous))"

fun past_begin :: "close_stage \<Rightarrow> bool" where
  "past_begin (C_open l) = True"
| "past_begin (C_settle r l) = True"
| "past_begin (C_finish t) = True"
| "past_begin cs = False"

fun settled :: "close_stage \<Rightarrow> bool" where
  "settled (C_settle r l) = True"
| "settled (C_finish t) = True"
| "settled cs = False"

text \<open>A file whose opening failed is failing, unless the thread that closes it is about to record that.\<close>

definition open_ok :: "awriter \<Rightarrow> nat \<Rightarrow> bool" where
  "open_ok s f \<longleftrightarrow>
     (let x = file_of s f
      in wf_open_attempted x \<and> \<not> wf_handle x \<and> \<not> wf_closed x \<longrightarrow>
         failing s f \<or> (\<exists>t. wf_closing x = C_finish t) \<or>
         (\<exists>r l. wf_closing x = C_settle r l \<and> (ar_kind r = Permanent_failure \<or> (ar_kind r = Space_failure \<and> \<not> wf_gated x))))"

definition file_ok :: "(nat \<Rightarrow> nat \<Rightarrow> u8) \<Rightarrow> (nat \<Rightarrow> nat \<Rightarrow> u8) \<Rightarrow> awriter \<Rightarrow> nat \<Rightarrow> bool" where
  "file_ok c disk s f \<longleftrightarrow>
     (let x = file_of s f
      in wf_job x < length (aw_jobs s) \<and>
         (case wf_staging_buffer x of
            None \<Rightarrow> wf_next_write_offset x = wf_accepted_bytes x \<or> terminal_job s (wf_job x)
          | Some b \<Rightarrow> b < length (aw_buffers s) \<and> bf_stage (buf_of s b) = B_staging \<and> bf_file (buf_of s b) = Some f \<and>
              unat (wf_next_write_offset x) + bf_size (buf_of s b) = unat (wf_accepted_bytes x)) \<and>
         producer_ok (c f) s x \<and>
         wf_outstanding_data x = card (nonempty_buffers s f) \<and>
         ranges_inv (wf_written_ranges x) \<and> ranges_inv (previous_writes x) \<and>
         confirmed (wf_written_ranges x) \<subseteq> confirmed (previous_writes x) \<union> {..<unat (wf_next_write_offset x)} \<and>
         (\<forall>i\<in>confirmed (wf_written_ranges x) \<union> confirmed (previous_writes x). disk f i = c f i) \<and>
         (\<forall>i<unat (wf_accepted_bytes x). disk f i = c f i \<or> failing s f \<or> (\<exists>b\<in>nonempty_buffers s f. i \<in> pending s b)) \<and>
         open_ok s f \<and>
         (wf_close_enqueued x \<longrightarrow> wf_close_requested x \<and> wf_outstanding_data x = 0) \<and>
         (wf_closing x \<noteq> C_none \<or> wf_closed x \<longrightarrow> wf_close_enqueued x) \<and> (wf_closing x \<noteq> C_none \<longrightarrow> \<not> wf_closed x) \<and>
         (past_begin (wf_closing x) \<or> wf_closed x \<longrightarrow> wf_failed x \<or> (\<forall>i<unat (wf_accepted_bytes x). disk f i = c f i)))"

text \<open>Queued buffers of one file have separate ranges.\<close>

definition apart :: "awriter \<Rightarrow> bool" where
  "apart s \<longleftrightarrow> (\<forall>b<length (aw_buffers s). \<forall>b'<length (aw_buffers s). b \<noteq> b' \<longrightarrow>
     bf_file (buf_of s b) \<noteq> None \<longrightarrow> bf_file (buf_of s b) = bf_file (buf_of s b') \<longrightarrow>
     bf_stage (buf_of s b) \<noteq> B_staging \<longrightarrow> bf_stage (buf_of s b') \<noteq> B_staging \<longrightarrow>
     unat (start s b) + bf_size (buf_of s b) \<le> unat (start s b') \<or> unat (start s b') + bf_size (buf_of s b') \<le> unat (start s b))"

definition writer_inv :: "(nat \<Rightarrow> nat \<Rightarrow> u8) \<Rightarrow> (nat \<Rightarrow> nat \<Rightarrow> u8) \<Rightarrow> awriter \<Rightarrow> bool" where
  "writer_inv c disk s \<longleftrightarrow> lists_ok s \<and> apart s \<and>
     (\<forall>b<length (aw_buffers s). buf_ok c s b) \<and> (\<forall>f<length (aw_files s). file_ok c disk s f)"

lemma worsens_core:
  assumes "worsens s s'" "f < length (aw_files s)"
  shows "wf_job (file_of s' f) = wf_job (file_of s f)" "wf_accepted_bytes (file_of s' f) = wf_accepted_bytes (file_of s f)"
    "wf_next_write_offset (file_of s' f) = wf_next_write_offset (file_of s f)"
    "wf_staging_buffer (file_of s' f) = wf_staging_buffer (file_of s f)"
    "wf_outstanding_data (file_of s' f) = wf_outstanding_data (file_of s f)"
    "wf_close_requested (file_of s' f) = wf_close_requested (file_of s f)"
    "wf_close_enqueued (file_of s' f) = wf_close_enqueued (file_of s f)"
    "wf_closed (file_of s' f) = wf_closed (file_of s f)" "previous_writes (file_of s' f) = previous_writes (file_of s f)"
    "wf_written_ranges (file_of s' f) = wf_written_ranges (file_of s f)" "wf_producer (file_of s' f) = wf_producer (file_of s f)"
    "wf_closing (file_of s' f) = wf_closing (file_of s f)" "wf_gated (file_of s' f) = wf_gated (file_of s f)"
    "wf_open_attempted (file_of s' f) = wf_open_attempted (file_of s f)" "wf_handle (file_of s' f) = wf_handle (file_of s f)"
  using assms by (simp_all add: worsens_def file_core_def)

lemma worsens_doomed: "worsens s s' \<Longrightarrow> f < length (aw_files s) \<Longrightarrow> wf_job (file_of s f) < length (aw_jobs s) \<Longrightarrow> doomed s f \<Longrightarrow> doomed s' f"
  using worsens_core(1) [of s s' f] by (auto simp: doomed_def worsens_def)

lemma worsens_failing:
  "worsens s s' \<Longrightarrow> f < length (aw_files s) \<Longrightarrow> wf_job (file_of s f) < length (aw_jobs s) \<Longrightarrow> failing s f \<Longrightarrow> failing s' f"
  using worsens_doomed [of s s' f] worsens_core(13) [of s s' f]
  unfolding failing_def nonempty_buffers_def worsens_def by auto

lemma worsens_open_ok:
  "worsens s s' \<Longrightarrow> f < length (aw_files s) \<Longrightarrow> wf_job (file_of s f) < length (aw_jobs s) \<Longrightarrow> open_ok s f \<Longrightarrow> open_ok s' f"
  using worsens_failing [of s s' f] worsens_core [of s s' f] by (auto simp: open_ok_def Let_def)

lemma writer_inv_worsens:
  assumes inv: "writer_inv c disk s" and w: "worsens s s'"
  shows "writer_inv c disk s'"
proof -
  have eq: "aw_buffers s' = aw_buffers s" "aw_free_buffers s' = aw_free_buffers s" "aw_work_queue s' = aw_work_queue s"
    "aw_retry_queue s' = aw_retry_queue s" "length (aw_jobs s') = length (aw_jobs s)" "length (aw_files s') = length (aw_files s)"
    using w by (auto simp: worsens_def)
  have fo: "file_ok c disk s f" "wf_job (file_of s f) < length (aw_jobs s)" if "f < length (aw_files s)" for f
    using inv that by (auto simp: writer_inv_def file_ok_def Let_def)
  have st: "start s' b = start s b" if "b < length (aw_buffers s)" for b
  proof -
    have "buf_ok c s b" using inv that by (simp add: writer_inv_def)
    then have "bf_stage (buf_of s b) = B_staging \<Longrightarrow> buf_file s b < length (aw_files s)"
      by (auto simp: buf_ok_def buf_file_def split: option.splits)
    then show ?thesis using worsens_core(3) [OF w] by (auto simp: start_def eq buf_file_def split: buffer_stage.splits)
  qed
  have pe: "pending s' b = pending s b" if "b < length (aw_buffers s)" for b
    using st [OF that] by (simp add: pending_def eq)
  have d: "failing s' f" if "f < length (aw_files s)" "failing s f" for f
    using worsens_failing [OF w that(1) fo(2) [OF that(1)] that(2)] .
  have "lists_ok s'"
    using inv worsens_core(7,12) [OF w] unfolding writer_inv_def lists_ok_def eq by auto
  moreover have "apart s'"
    using inv st unfolding writer_inv_def apart_def eq by (simp, blast)
  moreover have "buf_ok c s' b" if b: "b < length (aw_buffers s)" for b
  proof -
    have "buf_ok c s b" using inv b by (simp add: writer_inv_def)
    then show ?thesis
      using st [OF b] pe [OF b] d worsens_core [OF w]
      unfolding buf_ok_def eq result_ok_def by (auto split: option.splits if_splits)
  qed
  moreover have "file_ok c disk s' f" if f: "f < length (aw_files s)" for f
  proof -
    have nb: "nonempty_buffers s' f = nonempty_buffers s f" by (simp add: nonempty_buffers_def eq)
    have pr: "producer_ok (c f) s' (file_of s' f) = producer_ok (c f) s (file_of s f)"
      by (simp add: producer_ok_def rest_ok_def worsens_core [OF w f] eq split: producer_stage.splits)
    have "wf_failed (file_of s f) \<longrightarrow> wf_failed (file_of s' f)" using w f by (simp add: worsens_def)
    moreover have "(\<exists>b\<in>nonempty_buffers s f. i \<in> pending s' b) = (\<exists>b\<in>nonempty_buffers s f. i \<in> pending s b)" for i
      using pe by (auto simp: nonempty_buffers_def)
    moreover have "terminal_job s (wf_job (file_of s f)) \<longrightarrow> terminal_job s' (wf_job (file_of s f))"
      using w fo(2) [OF f] by (simp add: worsens_def)
    then have "(case wf_staging_buffer (file_of s f) of None \<Rightarrow> A \<or> terminal_job s (wf_job (file_of s f)) | Some b \<Rightarrow> B b) \<longrightarrow>
        (case wf_staging_buffer (file_of s f) of None \<Rightarrow> A \<or> terminal_job s' (wf_job (file_of s f)) | Some b \<Rightarrow> B b)" for A B
      by (auto split: option.splits)
    ultimately show ?thesis
      using fo(1) [OF f] d [OF f] worsens_open_ok [OF w f fo(2) [OF f]]
      unfolding file_ok_def Let_def worsens_core [OF w f] nb pr eq by blast
  qed
  ultimately show ?thesis by (simp add: writer_inv_def eq)
qed

section \<open>Moves that keep the bytes in place\<close>

lemma inv_lists: "writer_inv c disk s \<Longrightarrow> lists_ok s"
  by (simp add: writer_inv_def)

lemma inv_buf: "writer_inv c disk s \<Longrightarrow> b < length (aw_buffers s) \<Longrightarrow> buf_ok c s b"
  by (simp add: writer_inv_def)

lemma inv_file: "writer_inv c disk s \<Longrightarrow> f < length (aw_files s) \<Longrightarrow> file_ok c disk s f"
  by (simp add: writer_inv_def)

lemma inv_job: "writer_inv c disk s \<Longrightarrow> f < length (aw_files s) \<Longrightarrow> wf_job (file_of s f) < length (aw_jobs s)"
  by (auto dest: inv_file simp: file_ok_def Let_def)

text \<open>A buffer that is not free belongs to a file.\<close>

lemma inv_buf_file:
  assumes "writer_inv c disk s" "b < length (aw_buffers s)" "bf_stage (buf_of s b) \<noteq> B_free"
  shows "bf_file (buf_of s b) = Some (buf_file s b)" "buf_file s b < length (aw_files s)"
  using inv_buf [OF assms(1,2)] assms(3) by (auto simp: buf_ok_def buf_file_def split: option.splits)

text \<open>
  A change of places: stages, queues and offsets may change as long as every buffer keeps its file, its
  bytes, the range they belong to and the number of those that are confirmed.
\<close>

lemma inv_relocate:
  assumes inv: "writer_inv c disk s"
    and eq: "aw_files s' = aw_files s" "aw_jobs s' = aw_jobs s" "aw_stopping s' = aw_stopping s"
      "length (aw_buffers s') = length (aw_buffers s)"
    and b: "\<And>b. b < length (aw_buffers s) \<Longrightarrow> bf_file (buf_of s' b) = bf_file (buf_of s b) \<and>
        bf_bytes (buf_of s' b) = bf_bytes (buf_of s b) \<and> start s' b = start s b \<and> moved (buf_of s' b) = moved (buf_of s b) \<and>
        (bf_stage (buf_of s' b) = B_staging \<longleftrightarrow> bf_stage (buf_of s b) = B_staging) \<and>
        (bf_stage (buf_of s' b) = B_free \<longleftrightarrow> bf_stage (buf_of s b) = B_free)"
    and r: "\<And>b f. b < length (aw_buffers s) \<Longrightarrow> bf_file (buf_of s b) = Some f \<Longrightarrow> result_ok s f (buf_of s' b)"
    and fl: "\<And>f. f < length (aw_files s) \<Longrightarrow> failing s f \<Longrightarrow> failing s' f"
    and l: "lists_ok s'"
  shows "writer_inv c disk s'"
proof -
  have ro: "result_ok s f x \<Longrightarrow> f < length (aw_files s) \<Longrightarrow> result_ok s' f x" for f x using fl by (auto simp: result_ok_def)
  have sz: "bf_size (buf_of s' b) = bf_size (buf_of s b)" "pending s' b = pending s b" if "b < length (aw_buffers s)" for b
    using b [OF that] by (simp_all add: pending_def bf_size_def)
  have "apart s'"
    using inv b sz unfolding writer_inv_def apart_def eq by simp blast
  moreover have "buf_ok c s' x" if x: "x < length (aw_buffers s)" for x
    using inv_buf [OF inv x] b [OF x] sz [OF x] r [OF x] by (auto simp: buf_ok_def eq intro: ro split: option.splits)
  moreover have "file_ok c disk s' f" if f: "f < length (aw_files s)" for f
  proof -
    have nb: "nonempty_buffers s' f = nonempty_buffers s f"
      using b eq(4) by (auto simp: nonempty_buffers_def)
    have pe: "(\<exists>b\<in>nonempty_buffers s f. i \<in> pending s' b) = (\<exists>b\<in>nonempty_buffers s f. i \<in> pending s b)" for i
      using sz by (auto simp: nonempty_buffers_def)
    have stg: "bf_size (buf_of s' k) = bf_size (buf_of s k) \<and> (bf_stage (buf_of s' k) = B_staging \<longleftrightarrow> bf_stage (buf_of s k) = B_staging) \<and>
        bf_file (buf_of s' k) = bf_file (buf_of s k)" if "k < length (aw_buffers s)" for k
      using b [OF that] sz [OF that] by simp
    have fo: "file_ok c disk s f" using inv_file [OF inv f] .
    then have "k < length (aw_buffers s)" if "wf_staging_buffer (file_of s f) = Some k" for k
      using that by (simp add: file_ok_def Let_def)
    then have pr: "producer_ok (c f) s' (file_of s f) = producer_ok (c f) s (file_of s f)"
      using stg by (auto simp: producer_ok_def split: producer_stage.splits)
    have op: "open_ok s f \<Longrightarrow> open_ok s' f" using fl [OF f] eq by (auto simp: open_ok_def Let_def)
    show ?thesis
      using fo stg fl [OF f] op unfolding file_ok_def Let_def nb pe eq pr terminal_same [OF eq(2,3)] by (auto split: option.splits)
  qed
  ultimately show ?thesis using l eq by (simp add: writer_inv_def)
qed

text \<open>A change of one file that keeps its bytes in place.\<close>

lemma inv_upd_file:
  assumes inv: "writer_inv c disk s" and f: "f < length (aw_files s)"
    and g: "wf_job (g (file_of s f)) = wf_job (file_of s f)"
      "wf_next_write_offset (g (file_of s f)) = wf_next_write_offset (file_of s f)"
      "wf_staging_buffer (g (file_of s f)) = wf_staging_buffer (file_of s f)"
      "wf_written_ranges (g (file_of s f)) = wf_written_ranges (file_of s f)"
      "previous_writes (g (file_of s f)) = previous_writes (file_of s f)"
      "wf_failed (g (file_of s f)) = wf_failed (file_of s f)" "wf_gated (g (file_of s f)) = wf_gated (file_of s f)"
      "wf_close_enqueued (file_of s f) \<Longrightarrow> wf_close_enqueued (g (file_of s f))"
      "wf_closing (g (file_of s f)) = wf_closing (file_of s f) \<or>
       f \<notin> set (close_items (aw_work_queue s)) \<union> set (close_items (aw_retry_queue s))"
    and ok: "file_ok c disk (upd_file f g s) f"
  shows "writer_inv c disk (upd_file f g s)"
proof -
  have fu: "file_of (upd_file f g s) k = (if k = f then g (file_of s f) else file_of s k)" if "k < length (aw_files s)" for k
    using file_upd [OF that] .
  have st: "start (upd_file f g s) b = start s b" if "b < length (aw_buffers s)" for b
    using inv_buf_file [OF inv that] fu g(2) by (auto simp: start_def buf_file_def split: buffer_stage.splits)
  have nb: "nonempty_buffers (upd_file f g s) k = nonempty_buffers s k" for k by (simp add: nonempty_buffers_def)
  have dm: "failing (upd_file f g s) k = failing s k" if "k < length (aw_files s)" for k
    using fu [OF that] g by (simp add: failing_def doomed_def terminal_job_def terminal_result_locked_def nb)
  have pe: "pending (upd_file f g s) b = pending s b" if "b < length (aw_buffers s)" for b
    using st [OF that] by (simp add: pending_def)
  have "lists_ok (upd_file f g s)"
    using inv_lists [OF inv] fu g(8,9) by (auto simp: lists_ok_def)
  moreover have "apart (upd_file f g s)"
    using inv st by (simp add: writer_inv_def apart_def) blast
  moreover have "buf_ok c (upd_file f g s) b" if b: "b < length (aw_buffers s)" for b
    using inv_buf [OF inv b] st [OF b] pe [OF b] fu g dm
    by (auto simp: buf_ok_def result_ok_def split: option.splits)
  moreover have "file_ok c disk (upd_file f g s) k" if k: "k < length (aw_files s)" for k
  proof (cases "k = f")
    case False
    have "(\<exists>b\<in>nonempty_buffers s k. i \<in> pending (upd_file f g s) b) = (\<exists>b\<in>nonempty_buffers s k. i \<in> pending s b)" for i
      using pe by (auto simp: nonempty_buffers_def)
    note pe' = this
    have fk: "file_of (upd_file f g s) k = file_of s k" using False fu [OF k] by simp
    show ?thesis
      using inv_file [OF inv k] unfolding file_ok_def open_ok_def Let_def fk nb producer_ok_def upd_sel terminal_upd dm [OF k] pe' .
  qed (use ok in simp)
  ultimately show ?thesis by (simp add: writer_inv_def)
qed

section \<open>Stages of a write\<close>

text \<open>Stages in which a writer thread, or the system, owns the buffer.\<close>

fun working :: "buffer_stage \<Rightarrow> bool" where
  "working B_free = False"
| "working B_staging = False"
| "working B_queued = False"
| "working B_retry = False"
| "working st = True"

lemma start_other: "\<not> st = B_staging \<Longrightarrow> \<not> st = B_queued \<Longrightarrow> bf_stage (buf_of s b) = st \<Longrightarrow> start s b = bf_output_offset (buf_of s b)"
  by (auto simp: start_def split: buffer_stage.splits)

lemma working_simps: "working st \<Longrightarrow> st \<noteq> B_free \<and> st \<noteq> B_staging \<and> st \<noteq> B_queued \<and> st \<noteq> B_retry"
  by auto

lemma inv_stage:
  assumes inv: "writer_inv c disk s" and b: "b < length (aw_buffers s)"
    and w': "working (bf_stage (buf_of s b))" "working (bf_stage (g (buf_of s b)))"
    and g: "bf_file (g (buf_of s b)) = bf_file (buf_of s b)" "bf_bytes (g (buf_of s b)) = bf_bytes (buf_of s b)"
      "bf_output_offset (g (buf_of s b)) = bf_output_offset (buf_of s b)" "bf_transferred (g (buf_of s b)) = bf_transferred (buf_of s b)"
    and n: "\<And>r. bf_stage (buf_of s b) \<noteq> B_finish r"
    and r: "result_ok s (buf_file s b) (g (buf_of s b))"
  shows "writer_inv c disk (upd_buf b g s)"
proof -
  let ?s = "upd_buf b g s"
  note ws = working_simps [of "bf_stage (buf_of s b)"] working_simps [of "bf_stage (g (buf_of s b))"]
  have bu: "buf_of ?s k = (if k = b then g (buf_of s b) else buf_of s k)" if "k < length (aw_buffers s)" for k
    using buf_upd [OF that] .
  have st: "start ?s k = start s k" if "k < length (aw_buffers s)" for k
  proof (cases "k = b")
    case True
    then show ?thesis using bu [OF that] w' ws g by (simp add: start_def split: buffer_stage.splits)
  next
    case False
    then show ?thesis using bu [OF that] by (simp add: start_def buf_file_def split: buffer_stage.splits)
  qed
  show ?thesis
  proof (rule inv_relocate [OF inv])
    fix k assume k: "k < length (aw_buffers s)"
    show "bf_file (buf_of ?s k) = bf_file (buf_of s k) \<and> bf_bytes (buf_of ?s k) = bf_bytes (buf_of s k) \<and> start ?s k = start s k \<and>
        moved (buf_of ?s k) = moved (buf_of s k) \<and> (bf_stage (buf_of ?s k) = B_staging \<longleftrightarrow> bf_stage (buf_of s k) = B_staging) \<and>
        (bf_stage (buf_of ?s k) = B_free \<longleftrightarrow> bf_stage (buf_of s k) = B_free)"
      using bu [OF k] st [OF k] g w' ws by (auto simp: moved_def)
    fix f assume f: "bf_file (buf_of s k) = Some f"
    have "result_ok s f (buf_of s k)" using inv_buf [OF inv k] f by (auto simp: buf_ok_def)
    then show "result_ok s f (buf_of ?s k)" using bu [OF k] r f by (auto simp: buf_file_def)
  next
    have "{k. k < length (aw_buffers s) \<and> bf_stage (buf_of ?s k) = t} = {k. k < length (aw_buffers s) \<and> bf_stage (buf_of s k) = t}"
      if "t = B_free \<or> t = B_queued \<or> t = B_retry" for t
      using bu w' ws that by (auto split: if_splits)
    then show "lists_ok ?s" using inv_lists [OF inv] by (simp add: lists_ok_def)
  next
    fix f assume "failing s f"
    then show "failing ?s f"
      using bu n g by (fastforce simp: failing_def nonempty_buffers_def doomed_def terminal_job_def terminal_result_locked_def)
  qed simp_all
qed

lemma terminal_after: "fst (current_error j s) \<noteq> s_ok \<Longrightarrow> terminal_job (snd (current_error j s)) j"
  by (simp add: current_error_def terminal_job_def Let_def)

lemma record_failure_doomed:
  assumes "f < length (aw_files s)"
  shows "doomed (record_failure os f hr e n s) f"
proof -
  have m: "worsens s (meter (account_discarded n) s)" by simp
  have "wf_failed (file_of (fail_file f hr e t) f)" if "f < length (aw_files t)" for t
    using that by (simp add: fail_file_def mark_file_failure_locked_def set_job_error_locked_def file_upd)
  then have "wf_failed (file_of (fail_file f hr e (meter (account_discarded n) s)) f)"
    using m assms by (simp add: worsens_def)
  moreover have "worsens t (with_gate h t)" for t h by simp
  moreover have "length (aw_files (fail_file f hr e (meter (account_discarded n) s))) = length (aw_files s)"
    using worsens_trans [OF m worsens_fail_file] unfolding worsens_def by blast
  ultimately show ?thesis
    unfolding record_failure_def Let_def doomed_def using assms by (auto simp: worsens_def)
qed

lemma worsens_buf: "worsens s s' \<Longrightarrow> aw_buffers s' = aw_buffers s" "worsens s s' \<Longrightarrow> buf_file s' b = buf_file s b"
  "worsens s s' \<Longrightarrow> length (aw_files s') = length (aw_files s)" "worsens s s' \<Longrightarrow> length (aw_jobs s') = length (aw_jobs s)"
  by (simp_all add: worsens_def buf_file_def)

text \<open>A working buffer changes its stage after the state got worse.\<close>

lemma inv_worse_stage:
  assumes inv: "writer_inv c disk s" and ws: "worsens s s'" and b: "b < length (aw_buffers s)"
    and w: "working (bf_stage (buf_of s b))" "working st"
    and r: "\<And>r. st = B_finish r \<Longrightarrow> if ar_kind r = Succeeded then bf_transferred (buf_of s b) = bf_size (buf_of s b)
        else ar_kind r = Space_failure \<or> failing s' (buf_file s b)"
    and n: "\<And>r. bf_stage (buf_of s b) \<noteq> B_finish r"
  shows "writer_inv c disk (upd_buf b (\<lambda>x. x\<lparr>bf_stage := st\<rparr>) s')"
proof (rule inv_stage)
  show "writer_inv c disk s'" by (rule writer_inv_worsens [OF inv ws])
  show "b < length (aw_buffers s')" using worsens_buf [OF ws] b by simp
  show "result_ok s' (buf_file s' b) ((buf_of s' b)\<lparr>bf_stage := st\<rparr>)"
    using r worsens_buf [OF ws] by (auto simp: result_ok_def bf_size_def)
qed (use worsens_buf [OF ws] w n in simp_all)

lemma attempt_check_inv:
  assumes inv: "writer_inv c disk s" and b: "b < length (aw_buffers s)" "bf_stage (buf_of s b) = B_attempt"
  shows "writer_inv c disk (attempt_check os b s)"
proof -
  let ?f = "buf_file s b" let ?j = "wf_job (file_of s ?f)"
  obtain error s1 where e: "current_error ?j s = (error, s1)" by (metis prod.exhaust)
  obtain x s2 where x: "current_win32_error ?j s1 = (x, s2)" by (metis prod.exhaust)
  have w1: "worsens s s1" using worsens_current_error(1) [of s ?j] e by simp
  have w2: "worsens s s2" using worsens_trans [OF w1] worsens_current_error(2) [of s1 ?j] x by simp
  have f: "?f < length (aw_files s)" using inv_buf_file [OF inv b(1)] b(2) by simp
  have d: "doomed (record_failure os ?f error x 0 s2) ?f" using record_failure_doomed [of ?f s2] f worsens_buf [OF w2] by simp
  have "writer_inv c disk (upd_buf b (\<lambda>x. x\<lparr>bf_stage := B_finish terminal_attempt\<rparr>) (record_failure os ?f error x 0 s2))"
    by (rule inv_worse_stage [OF inv worsens_trans [OF w2 worsens_record_failure] b(1)])
      (use b(2) d in \<open>auto simp: terminal_attempt_def failing_def\<close>)
  moreover have "writer_inv c disk (upd_buf b (\<lambda>x. x\<lparr>bf_stage := B_open\<rparr>) s1)"
    by (rule inv_worse_stage [OF inv w1 b(1)]) (use b(2) in auto)
  ultimately show ?thesis using e x by (simp add: attempt_check_def Let_def)
qed

section \<open>Opening\<close>

text \<open>A change of a file that concerns its handle only.\<close>

lemma inv_upd_open:
  assumes inv: "writer_inv c disk s" and f: "f < length (aw_files s)"
    and h: "file_core (h (file_of s f)\<lparr>wf_open_attempted := a, wf_handle := b\<rparr>) =
      file_core (file_of s f\<lparr>wf_open_attempted := a, wf_handle := b\<rparr>)" "wf_failed (h (file_of s f)) = wf_failed (file_of s f)"
    and ok: "open_ok (upd_file f h s) f"
  shows "writer_inv c disk (upd_file f h s)"
proof -
  have p: "previous_writes (x\<lparr>wf_open_attempted := a, wf_handle := b\<rparr>) = previous_writes x" for x by (simp add: previous_writes_def)
  let ?x = "file_of s f"
  have core: "wf_job (h ?x) = wf_job ?x" "wf_accepted_bytes (h ?x) = wf_accepted_bytes ?x"
    "wf_next_write_offset (h ?x) = wf_next_write_offset ?x" "wf_staging_buffer (h ?x) = wf_staging_buffer ?x"
    "wf_outstanding_data (h ?x) = wf_outstanding_data ?x" "wf_close_requested (h ?x) = wf_close_requested ?x"
    "wf_close_enqueued (h ?x) = wf_close_enqueued ?x" "wf_closed (h ?x) = wf_closed ?x"
    "previous_writes (h ?x) = previous_writes ?x" "wf_written_ranges (h ?x) = wf_written_ranges ?x"
    "wf_producer (h ?x) = wf_producer ?x" "wf_closing (h ?x) = wf_closing ?x" "wf_gated (h ?x) = wf_gated ?x"
    using h(1) by (simp_all add: file_core_def p)
  have fu: "file_of (upd_file f h s) f = h (file_of s f)" using f by (simp add: file_upd)
  have st: "start (upd_file f h s) k = start s k" if "k < length (aw_buffers s)" for k
    using inv_buf_file [OF inv that] file_upd [of "buf_file s k" s f h] core by (auto simp: start_def buf_file_def split: buffer_stage.splits)
  then have pe: "(\<exists>k\<in>nonempty_buffers s f. i \<in> pending (upd_file f h s) k) = (\<exists>k\<in>nonempty_buffers s f. i \<in> pending s k)" for i
    by (auto simp: nonempty_buffers_def pending_def)
  have nb: "nonempty_buffers (upd_file f h s) f = nonempty_buffers s f" by (simp add: nonempty_buffers_def)
  have fl: "failing (upd_file f h s) f = failing s f"
    using core h(2) by (simp add: failing_def doomed_def terminal_job_def terminal_result_locked_def nb fu)
  have "file_ok c disk (upd_file f h s) f"
    using inv_file [OF inv f] ok
    unfolding file_ok_def Let_def fu nb pe fl producer_ok_def rest_ok_def upd_sel terminal_upd core h(2) by blast
  then show ?thesis using core h(2) by (intro inv_upd_file [OF inv f]) auto
qed

lemma upd_file_commute [simp]:
  "upd_buf b g (upd_file f h s) = upd_file f h (upd_buf b g s)"
  "set_job_error_locked j hr e (upd_file f h s) = upd_file f h (set_job_error_locked j hr e s)"
  by (simp_all add: upd_buf_def upd_file_def upd_job_def set_job_error_locked_def)

lemma upd_file_twice: "upd_file f h (upd_file f k s) = upd_file f (\<lambda>x. h (k x)) s"
  by (cases "f < length (aw_files s)") (simp_all add: upd_file_def list_update_beyond)

lemma fail_file_after:
  assumes "\<And>x. wf_job (h x) = wf_job x" "f < length (aw_files s)"
    and "\<And>x. (if wf_failed (h x) then h x else h x\<lparr>wf_failed := True, wf_hresult := hr, wf_win32_error := e\<rparr>) =
      h (if wf_failed x then x else x\<lparr>wf_failed := True, wf_hresult := hr, wf_win32_error := e\<rparr>)"
  shows "fail_file f hr e (upd_file f h s) = upd_file f h (fail_file f hr e s)"
  using assms by (simp add: fail_file_def mark_file_failure_locked_def upd_file_twice file_upd)

lemma fail_file_doomed: "f < length (aw_files s) \<Longrightarrow> wf_failed (file_of (fail_file f hr e s) f)"
  by (simp add: fail_file_def mark_file_failure_locked_def set_job_error_locked_def file_upd)

lemma inv_fail_open:
  assumes inv: "writer_inv c disk s" and f: "f < length (aw_files s)"
    and h: "\<And>x. file_core (h x\<lparr>wf_open_attempted := a, wf_handle := b\<rparr>) = file_core (x\<lparr>wf_open_attempted := a, wf_handle := b\<rparr>)"
      "\<And>x. wf_failed (h x) = wf_failed x" "\<And>x. wf_job (h x) = wf_job x"
      "\<And>x. (if wf_failed (h x) then h x else h x\<lparr>wf_failed := True, wf_hresult := hr, wf_win32_error := e\<rparr>) =
      h (if wf_failed x then x else x\<lparr>wf_failed := True, wf_hresult := hr, wf_win32_error := e\<rparr>)"
  shows "writer_inv c disk (fail_file f hr e (upd_file f h s))"
proof -
  have w: "worsens s (fail_file f hr e s)" by simp
  have f': "f < length (aw_files (fail_file f hr e s))" using f worsens_buf(3) [OF w] by simp
  have "failing (upd_file f h (fail_file f hr e s)) f"
    using f' fail_file_doomed [OF f] h(2) by (simp add: failing_def doomed_def file_upd)
  then have "open_ok (upd_file f h (fail_file f hr e s)) f" by (simp add: open_ok_def)
  then have "writer_inv c disk (upd_file f h (fail_file f hr e s))"
    by (intro inv_upd_open [OF writer_inv_worsens [OF inv w] f', of b a h] h(1,2))
  moreover have "fail_file f hr e (upd_file f h s) = upd_file f h (fail_file f hr e s)"
    by (rule fail_file_after) (use h f in auto)
  ultimately show ?thesis by simp
qed

text \<open>
  An attempt to open keeps the invariant unless it fails for lack of space with no gate, which only
  becomes visible as a failure of the attempt. Every failure that is neither of these dooms the file.
\<close>

lemma try_open_inv:
  assumes inv: "writer_inv c disk s" and f: "f < length (aw_files s)" "\<not> wf_closed (file_of s f)"
    and o: "try_open_file ans f s = (result, s')"
    and c: "\<not> settled (wf_closing (file_of s f))"
  shows "(writer_inv c disk s' \<and> (ar_kind result = Permanent_failure \<longrightarrow> failing s' f)) \<or>
    (\<exists>e. result = space_failed e \<and> \<not> wf_gated (file_of s f) \<and> s' = upd_file f (\<lambda>x. x\<lparr>wf_open_attempted := True\<rparr>) s)"
    and "ar_kind result = Succeeded \<or> ar_kind result = Space_failure \<or> ar_kind result = Permanent_failure"
proof -
  let ?x = "file_of s f"
  let ?opened = "\<lambda>x. x\<lparr>wf_output_created := True, wf_open_attempted := True,
      wf_replay := map_option (\<lambda>r. r\<lparr>created := True\<rparr>) (wf_replay x)\<rparr>"
  have core: "file_core (?opened x\<lparr>wf_open_attempted := a, wf_handle := b\<rparr>) = file_core (x\<lparr>wf_open_attempted := a, wf_handle := b\<rparr>)" for x a b
    by (cases "wf_replay x") (simp_all add: file_core_def previous_writes_def)
  have op: "open_ok s f" using inv_file [OF inv f(1)] by (simp add: file_ok_def Let_def)
  have at: "writer_inv c disk (fail_file f hr e (upd_file f (\<lambda>x. x\<lparr>wf_open_attempted := True\<rparr>) s))" for hr e
    by (rule inv_fail_open [OF inv f(1), of True True]) (auto simp: file_core_def previous_writes_def)
  have re: "writer_inv c disk (fail_file f hr e (upd_file f ?opened s))" for hr e
    by (rule inv_fail_open [OF inv f(1), of True True]) (rule core, auto)
  have ok: "writer_inv c disk (upd_file f (\<lambda>x. (?opened x)\<lparr>wf_handle := True\<rparr>) s)"
    by (rule inv_upd_open [OF inv f(1), of True True])
      (use f(1) in \<open>cases "wf_replay ?x"; simp add: file_core_def previous_writes_def open_ok_def Let_def file_upd\<close>)+
  have fd: "failing (fail_file f hr e (upd_file f h s)) f" for hr e h
    using fail_file_doomed [of f "upd_file f h s"] f(1) by (simp add: failing_def doomed_def)
  have ff: "failing s f" if "wf_failed ?x" using that by (simp add: failing_def doomed_def)
  have nf: "failing s f" if "wf_open_attempted ?x" "\<not> wf_handle ?x"
    using op f(2) that c by (auto simp: open_ok_def Let_def)
  show "(writer_inv c disk s' \<and> (ar_kind result = Permanent_failure \<longrightarrow> failing s' f)) \<or>
    (\<exists>e. result = space_failed e \<and> \<not> wf_gated (file_of s f) \<and> s' = upd_file f (\<lambda>x. x\<lparr>wf_open_attempted := True\<rparr>) s)"
    using o inv at re ok fd nf ff unfolding try_open_file_def Let_def
    by (auto split: if_splits open_answer.splits simp: permanent_def succeeded_def space_failed_def)
  show "ar_kind result = Succeeded \<or> ar_kind result = Space_failure \<or> ar_kind result = Permanent_failure"
    using o unfolding try_open_file_def Let_def
    by (auto split: if_splits open_answer.splits simp: permanent_def succeeded_def space_failed_def)
qed

section \<open>Requests\<close>

lemma finite_nonempty [simp]: "finite (nonempty_buffers s f)"
  by (simp add: nonempty_buffers_def)

text \<open>While a buffer of a file is queued or worked on, the file is not being closed.\<close>

lemma busy:
  assumes inv: "writer_inv c disk s" and b: "b < length (aw_buffers s)" "bf_stage (buf_of s b) \<noteq> B_free" "bf_stage (buf_of s b) \<noteq> B_staging"
  shows "b \<in> nonempty_buffers s (buf_file s b)" "\<not> wf_close_enqueued (file_of s (buf_file s b))"
    "wf_closing (file_of s (buf_file s b)) = C_none" "\<not> wf_closed (file_of s (buf_file s b))"
proof -
  note f = inv_buf_file [OF inv b(1,2)]
  show n: "b \<in> nonempty_buffers s (buf_file s b)"
    using inv_buf [OF inv b(1)] b f by (auto simp: buf_ok_def nonempty_buffers_def)
  then have "card (nonempty_buffers s (buf_file s b)) \<noteq> 0" by auto
  then show "\<not> wf_close_enqueued (file_of s (buf_file s b))" "wf_closing (file_of s (buf_file s b)) = C_none"
    "\<not> wf_closed (file_of s (buf_file s b))"
    using inv_file [OF inv f(2)] by (auto simp: file_ok_def Let_def)
qed

lemma try_open_frame:
  "aw_buffers (snd (try_open_file ans f s)) = aw_buffers s" "length (aw_files (snd (try_open_file ans f s))) = length (aw_files s)"
  by (auto simp: try_open_file_def fail_file_def mark_file_failure_locked_def set_job_error_locked_def Let_def split: open_answer.splits)

lemma attempt_open_inv:
  assumes inv: "writer_inv c disk s" and b: "b < length (aw_buffers s)" "bf_stage (buf_of s b) = B_open"
  shows "writer_inv c disk (attempt_open ans b s)"
proof -
  let ?f = "buf_file s b"
  have f: "?f < length (aw_files s)" using inv_buf_file [OF inv b(1)] b(2) by simp
  note bz = busy [OF inv b(1)]
  obtain result s' where o: "try_open_file ans ?f s = (result, s')" by (metis prod.exhaust)
  have bs: "aw_buffers s' = aw_buffers s" using try_open_frame(1) [of ans ?f s] o by simp
  let ?st = "if ar_kind result = Succeeded then B_begin else B_finish result"
  have nc: "\<not> settled (wf_closing (file_of s ?f))" using bz b(2) by simp
  have "\<not> wf_closed (file_of s ?f)" using bz b(2) by simp
  note opened = try_open_inv [OF inv f this o nc]
  note kinds = opened(2)
  from opened(1) have "writer_inv c disk (upd_buf b (\<lambda>x. x\<lparr>bf_stage := ?st\<rparr>) s')"
    proof (elim disjE)
      assume s': "writer_inv c disk s' \<and> (ar_kind result = Permanent_failure \<longrightarrow> failing s' ?f)"
      have "result_ok s' (buf_file s' b) (buf_of s' b\<lparr>bf_stage := ?st\<rparr>)"
        using s' kinds bs by (auto simp: result_ok_def buf_file_def bf_size_def split: if_splits)
      then show ?thesis using s' b bs by (intro inv_stage) (auto simp: permanent_def)
    next
      assume "\<exists>e. result = space_failed e \<and> \<not> wf_gated (file_of s ?f) \<and> s' = upd_file ?f (\<lambda>x. x\<lparr>wf_open_attempted := True\<rparr>) s"
      then obtain e where e: "result = space_failed e" "\<not> wf_gated (file_of s ?f)"
        "s' = upd_file ?f (\<lambda>x. x\<lparr>wf_open_attempted := True\<rparr>) s" by blast
      let ?s = "upd_buf b (\<lambda>x. x\<lparr>bf_stage := B_finish result\<rparr>) s"
      have i: "writer_inv c disk ?s"
        by (rule inv_worse_stage [OF inv worsens_refl b(1)]) (use b(2) e in \<open>auto simp: space_failed_def\<close>)
      have "b \<in> nonempty_buffers (upd_file ?f (\<lambda>x. x\<lparr>wf_open_attempted := True\<rparr>) ?s) ?f"
        using bz(1) b by (auto simp: nonempty_buffers_def buf_upd)
      then have "failing (upd_file ?f (\<lambda>x. x\<lparr>wf_open_attempted := True\<rparr>) ?s) ?f"
        using e b(1) f unfolding failing_def by (auto simp: buf_upd file_upd space_failed_def intro!: bexI [of _ b])
      then have "writer_inv c disk (upd_file ?f (\<lambda>x. x\<lparr>wf_open_attempted := True\<rparr>) ?s)"
        using f by (intro inv_upd_open [OF i, of ?f True True]) (auto simp: file_core_def previous_writes_def open_ok_def)
      then show ?thesis using e by (simp add: space_failed_def)
    qed
  then show ?thesis using o by (simp add: attempt_open_def)
qed

lemma submit_inv:
  assumes inv: "writer_inv c disk s" and b: "b < length (aw_buffers s)" "bf_stage (buf_of s b) = B_begin"
  shows "writer_inv c disk (submit_data_write os error b s)"
proof -
  let ?f = "buf_file s b"
  have f: "?f < length (aw_files s)" using inv_buf_file [OF inv b(1)] b(2) by simp
  obtain ok s1 where o: "begin_data_write ?f s = (ok, s1)" by (metis prod.exhaust)
  have w: "worsens s s1" using worsens_begin [of s ?f] o by simp
  note stage = inv_worse_stage [OF inv _ b(1)]
  show ?thesis
  proof (cases ok)
    case False
    then have d: "failing s1 ?f" using o by (auto simp: begin_data_write_def failing_def doomed_def terminal_job_def split: if_splits)
    have "writer_inv c disk (upd_buf b (\<lambda>x. x\<lparr>bf_stage := B_finish terminal_attempt\<rparr>) s1)"
      by (rule stage [OF w]) (use b(2) d in \<open>auto simp: terminal_attempt_def\<close>)
    then show ?thesis using o False by (simp add: submit_data_write_def Let_def)
  next
    case True
    show ?thesis
    proof (cases error)
      case None
      have "writer_inv c disk (upd_buf b (\<lambda>x. x\<lparr>bf_stage := B_submitted\<rparr>) s1)"
        by (rule stage [OF w]) (use b(2) in auto)
      then show ?thesis using o True None by (simp add: submit_data_write_def Let_def)
    next
      case (Some e)
      obtain r s2 where c: "classify_data_failure os ?f e (end_data_write ?f s1) = (r, s2)" by (metis prod.exhaust)
      have w1: "worsens s (end_data_write ?f s1)" by (rule worsens_trans [OF w worsens_end])
      have w2: "worsens s s2" using worsens_trans [OF w1 worsens_classify [of _ os ?f e]] c by simp
      have "ar_kind r = Space_failure \<or> (ar_kind r = Permanent_failure \<and> doomed s2 ?f)"
        using c record_failure_doomed [of ?f "end_data_write ?f s1"] f worsens_buf [OF w1]
        by (auto simp: classify_data_failure_def space_failed_def permanent_def split: if_splits)
      then have "writer_inv c disk (upd_buf b (\<lambda>x. x\<lparr>bf_stage := B_finish r\<rparr>) s2)"
        by (intro stage [OF w2]) (use b(2) in \<open>auto simp: failing_def\<close>)
      then show ?thesis using o True Some c by (simp add: submit_data_write_def Let_def)
    qed
  qed
qed

section \<open>Completions\<close>

text \<open>What a request does to its own range of the disk is not seen by anything else.\<close>

lemma inv_disk:
  assumes inv: "writer_inv c disk s" and b: "b < length (aw_buffers s)" "bf_stage (buf_of s b) \<noteq> B_free" "bf_stage (buf_of s b) \<noteq> B_staging"
    and d: "\<And>k i. k \<noteq> buf_file s b \<or> i \<notin> pending s b \<Longrightarrow> disk' k i = disk k i"
  shows "writer_inv c disk' s"
proof -
  note bz = busy [OF inv b]
  note f = inv_buf_file [OF inv b(1,2)]
  have dis: "pending s b \<inter> (confirmed (wf_written_ranges (file_of s (buf_file s b))) \<union> confirmed (previous_writes (file_of s (buf_file s b)))) = {}"
    using inv_buf [OF inv b(1)] f by (simp add: buf_ok_def)
  have "file_ok c disk' s k" if k: "k < length (aw_files s)" for k
  proof (cases "k = buf_file s b")
    case False
    then have "disk' k = disk k" using d by auto
    then show ?thesis using inv_file [OF inv k] by (simp add: file_ok_def)
  next
    case True
    have "disk' k i = c k i" if "i \<in> confirmed (wf_written_ranges (file_of s k)) \<union> confirmed (previous_writes (file_of s k))" for i
      using that inv_file [OF inv k] d [of k i] dis True by (auto simp: file_ok_def Let_def)
    moreover have "disk' k i = c k i \<or> failing s k \<or> (\<exists>b\<in>nonempty_buffers s k. i \<in> pending s b)"
      if "i < unat (wf_accepted_bytes (file_of s k))" for i
    proof (cases "i \<in> pending s b")
      case False
      then show ?thesis using that inv_file [OF inv k] d [of k i] by (auto simp: file_ok_def Let_def)
    qed (use True bz(1) in auto)
    moreover have "\<not> (past_begin (wf_closing (file_of s k)) \<or> wf_closed (file_of s k))" using bz True by simp
    ultimately show ?thesis using inv_file [OF inv k] unfolding file_ok_def Let_def by blast
  qed
  then show ?thesis using inv by (simp add: writer_inv_def)
qed

text \<open>The confirmed prefix of a submitted buffer grows over bytes that are on disk.\<close>

lemma inv_transfer:
  assumes inv: "writer_inv c disk s" and b: "b < length (aw_buffers s)" "bf_stage (buf_of s b) = B_submitted"
    and n: "bf_transferred (buf_of s b) \<le> n" "n \<le> bf_size (buf_of s b)"
    and st: "st = B_attempt \<or> (st = B_finish succeeded \<and> n = bf_size (buf_of s b))"
    and good: "\<And>i. i < n \<Longrightarrow> bf_transferred (buf_of s b) \<le> i \<Longrightarrow>
      disk (buf_file s b) (unat (start s b) + i) = c (buf_file s b) (unat (start s b) + i)"
  shows "writer_inv c disk (upd_buf b (\<lambda>x. x\<lparr>bf_transferred := n, bf_stage := st\<rparr>) s)"
proof -
  let ?s = "upd_buf b (\<lambda>x. x\<lparr>bf_transferred := n, bf_stage := st\<rparr>) s"
  note f = inv_buf_file [OF inv b(1), unfolded b(2), simplified]
  have bu: "buf_of ?s k = (if k = b then (buf_of s b)\<lparr>bf_transferred := n, bf_stage := st\<rparr> else buf_of s k)" if "k < length (aw_buffers s)" for k
    using buf_upd [OF that] .
  have ws: "working st" using st by (auto simp: succeeded_def)
  have start: "start ?s k = start s k" if "k < length (aw_buffers s)" for k
    using bu [OF that] b(2) ws by (auto simp: start_def buf_file_def split: buffer_stage.splits)
  have sz: "bf_size (buf_of ?s k) = bf_size (buf_of s k)" "bf_file (buf_of ?s k) = bf_file (buf_of s k)"
    "bf_bytes (buf_of ?s k) = bf_bytes (buf_of s k)" if "k < length (aw_buffers s)" for k
    using bu [OF that] by (auto simp: bf_size_def)
  have pe: "pending ?s k = pending s k" if "k < length (aw_buffers s)" "k \<noteq> b" for k
    using bu [OF that(1)] start [OF that(1)] that(2) by (simp add: pending_def)
  have pb: "pending s b = {unat (start s b) + bf_transferred (buf_of s b)..<unat (start s b) + n} \<union> pending ?s b"
    using bu [OF b(1)] start [OF b(1)] n b(2) ws sz [OF b(1)] by (auto simp: pending_def moved_def)
  have stage: "bf_stage (buf_of ?s k) = t \<longleftrightarrow> bf_stage (buf_of s k) = t"
    if "k < length (aw_buffers s)" "t = B_free \<or> t = B_queued \<or> t = B_retry \<or> t = B_staging" for k t
    using bu [OF that(1)] that(2) b(2) ws by (auto simp: working_simps)
  have nb: "nonempty_buffers ?s k = nonempty_buffers s k" for k using sz by (auto simp: nonempty_buffers_def)
  have fl: "failing s k \<Longrightarrow> failing ?s k" for k
    using bu b(2) by (fastforce simp: failing_def nonempty_buffers_def doomed_def terminal_job_def terminal_result_locked_def)
  have "lists_ok ?s"
  proof -
    have "{k. k < length (aw_buffers s) \<and> bf_stage (buf_of ?s k) = t} = {k. k < length (aw_buffers s) \<and> bf_stage (buf_of s k) = t}"
      if "t = B_free \<or> t = B_queued \<or> t = B_retry" for t using stage that by blast
    then show ?thesis using inv_lists [OF inv] by (simp add: lists_ok_def)
  qed
  moreover have "apart ?s"
    using inv start sz stage unfolding writer_inv_def apart_def by simp blast
  moreover have "buf_ok c ?s k" if k: "k < length (aw_buffers s)" for k
  proof (cases "k = b")
    case False
    then show ?thesis
      using inv_buf [OF inv k] start [OF k] pe [OF k] bu [OF k] fl by (auto simp: buf_ok_def result_ok_def split: option.splits)
  next
    case True
    have "pending ?s b \<subseteq> pending s b" using pb by blast
    moreover have "result_ok ?s (buf_file s b) (buf_of ?s b)" using st bu [OF b(1)] sz [OF b(1)] by (auto simp: result_ok_def succeeded_def)
    ultimately show ?thesis
      using inv_buf [OF inv b(1)] start [OF b(1)] bu [OF b(1)] sz [OF b(1)] f b(2) ws True n
      by (auto simp: buf_ok_def moved_def working_simps)
  qed
  moreover have "file_ok c disk ?s k" if k: "k < length (aw_files s)" for k
  proof -
    have fo: "file_ok c disk s k" by (rule inv_file [OF inv k])
    have "disk k i = c k i \<or> failing ?s k \<or> (\<exists>x\<in>nonempty_buffers s k. i \<in> pending ?s x)" if i: "i < unat (wf_accepted_bytes (file_of s k))" for i
    proof -
      have "disk k i = c k i \<or> failing s k \<or> (\<exists>x\<in>nonempty_buffers s k. i \<in> pending s x)"
        using fo i unfolding file_ok_def Let_def by blast
      then consider "disk k i = c k i" | "failing s k" | x where "x \<in> nonempty_buffers s k" "i \<in> pending s x"
        by blast
      then show ?thesis
      proof cases
        case (3 x)
        show ?thesis
        proof (cases "x = b")
          case True
          then have k: "k = buf_file s b" using 3(1) f by (simp add: nonempty_buffers_def)
          have "i \<in> pending ?s b \<or> disk k i = c k i"
            using 3(2) True pb good [of "i - unat (start s b)"] k by fastforce
          then show ?thesis using 3(1) True by blast
        qed (use 3 pe in \<open>auto simp: nonempty_buffers_def\<close>)
      qed (use fl in auto)
    qed
    moreover have "producer_ok (c k) ?s (file_of s k) = producer_ok (c k) s (file_of s k)"
    proof -
      have "m < length (aw_buffers s)" if "wf_staging_buffer (file_of s k) = Some m" for m using fo that by (simp add: file_ok_def Let_def)
      then show ?thesis using sz by (auto simp: producer_ok_def split: producer_stage.splits)
    qed
    moreover have "open_ok s k \<Longrightarrow> open_ok ?s k" using fl by (auto simp: open_ok_def Let_def)
    ultimately show ?thesis
      using fo sz stage unfolding file_ok_def Let_def nb upd_sel by (auto split: option.splits)
  qed
  ultimately show ?thesis by (simp add: writer_inv_def)
qed

lemma upd_buf_cong: "g (buf_of s b) = h (buf_of s b) \<Longrightarrow> upd_buf b g s = upd_buf b h s"
  by (simp add: upd_buf_def)

text \<open>The record of confirmed bytes may be any set of bytes that are on disk and that no buffer still has to write.\<close>

lemma inv_ranges:
  assumes inv: "writer_inv c disk s" and f: "f < length (aw_files s)"
    and g: "g (file_of s f) = (file_of s f)\<lparr>wf_written_ranges := w, wf_path := p\<rparr>"
    and w: "ranges_inv w" "confirmed w \<subseteq> confirmed (previous_writes (file_of s f)) \<union> {..<unat (wf_next_write_offset (file_of s f))}"
      "\<And>i. i \<in> confirmed w \<Longrightarrow> disk f i = c f i"
      "\<And>b. b < length (aw_buffers s) \<Longrightarrow> bf_file (buf_of s b) = Some f \<Longrightarrow> pending s b \<inter> confirmed w = {}"
  shows "writer_inv c disk (upd_file f g s)"
proof -
  let ?s = "upd_file f g s" let ?x = "file_of s f" let ?y = "g ?x"
  have core: "wf_job ?y = wf_job ?x" "wf_accepted_bytes ?y = wf_accepted_bytes ?x" "wf_next_write_offset ?y = wf_next_write_offset ?x"
    "wf_staging_buffer ?y = wf_staging_buffer ?x" "wf_outstanding_data ?y = wf_outstanding_data ?x"
    "wf_close_requested ?y = wf_close_requested ?x" "wf_close_enqueued ?y = wf_close_enqueued ?x" "wf_closed ?y = wf_closed ?x"
    "wf_producer ?y = wf_producer ?x" "wf_closing ?y = wf_closing ?x" "wf_gated ?y = wf_gated ?x"
    "wf_open_attempted ?y = wf_open_attempted ?x" "wf_handle ?y = wf_handle ?x" "wf_failed ?y = wf_failed ?x"
    "wf_written_ranges ?y = w" "previous_writes ?y = previous_writes ?x" unfolding g by (simp_all add: previous_writes_def)
  have fu: "file_of ?s k = (if k = f then ?y else file_of s k)" if "k < length (aw_files s)" for k using file_upd [OF that] .
  have st: "start ?s b = start s b" if "b < length (aw_buffers s)" for b
    using inv_buf_file [OF inv that] fu core(3) by (auto simp: start_def buf_file_def split: buffer_stage.splits)
  have nb: "nonempty_buffers ?s k = nonempty_buffers s k" for k by (simp add: nonempty_buffers_def)
  have fl: "failing ?s k = failing s k" if "k < length (aw_files s)" for k
    using fu [OF that] core by (simp add: failing_def doomed_def nb)
  have pe: "pending ?s b = pending s b" if "b < length (aw_buffers s)" for b using st [OF that] by (simp add: pending_def)
  have "lists_ok ?s" using inv_lists [OF inv] fu core by (auto simp: lists_ok_def)
  moreover have "apart ?s" using inv st by (simp add: writer_inv_def apart_def) blast
  moreover have "buf_ok c ?s b" if b: "b < length (aw_buffers s)" for b
  proof (cases "bf_file (buf_of s b)")
    case None
    then show ?thesis using inv_buf [OF inv b] by (simp add: buf_ok_def)
  next
    case (Some k)
    then have k: "k < length (aw_files s)" using inv_buf [OF inv b] by (simp add: buf_ok_def)
    have "pending s b \<inter> (confirmed (wf_written_ranges (file_of ?s k)) \<union> confirmed (previous_writes (file_of ?s k))) = {}"
      using inv_buf [OF inv b] Some w(4) [OF b] fu [OF k] core by (auto simp: buf_ok_def)
    moreover have "wf_next_write_offset (file_of ?s k) = wf_next_write_offset (file_of s k)" "wf_staging_buffer (file_of ?s k) = wf_staging_buffer (file_of s k)"
      using fu [OF k] core by simp_all
    ultimately show ?thesis
      using inv_buf [OF inv b] Some st [OF b] pe [OF b] fl [OF k] k by (auto simp: buf_ok_def result_ok_def)
  qed
  moreover have "file_ok c disk ?s k" if k: "k < length (aw_files s)" for k
  proof -
    have pe': "(\<exists>b\<in>nonempty_buffers s k. i \<in> pending ?s b) = (\<exists>b\<in>nonempty_buffers s k. i \<in> pending s b)" for i
      using pe by (auto simp: nonempty_buffers_def)
    show ?thesis
    proof (cases "k = f")
      case False
      then have fk: "file_of ?s k = file_of s k" using fu [OF k] by simp
      show ?thesis
        using inv_file [OF inv k] unfolding file_ok_def open_ok_def Let_def fk nb producer_ok_def upd_sel terminal_upd fl [OF k] pe' .
    next
      case True
      have fk: "file_of ?s k = ?y" using True fu [OF k] by simp
      have "\<forall>i\<in>confirmed w \<union> confirmed (previous_writes ?x). disk f i = c f i"
        using inv_file [OF inv f] w(3) unfolding file_ok_def Let_def by blast
      then show ?thesis
        using inv_file [OF inv f] w(1,2) True
        unfolding file_ok_def open_ok_def Let_def fk nb producer_ok_def rest_ok_def upd_sel terminal_upd fl [OF k] pe' core by blast
    qed
  qed
  ultimately show ?thesis by (simp add: writer_inv_def)
qed

lemma unat_interval: "unat ` {off..<e} = {unat off..<unat (e :: u64)}"
proof (intro equalityI subsetI)
  fix i assume i: "i \<in> {unat off..<unat e}"
  moreover have "unat e < 2 ^ 64" using unsigned_less [of e, where ?'a = nat] by simp
  ultimately have "i < 2 ^ 64" by simp
  then have "unat (of_nat i :: u64) = i" by (simp add: unsigned_of_nat take_bit_nat_eq_self)
  then show "i \<in> unat ` {off..<e}" using i by (auto intro!: image_eqI [of _ _ "of_nat i"] simp: word_le_nat_alt word_less_nat_alt)
qed (auto simp: word_le_nat_alt word_less_nat_alt)

lemma inv_confirm:
  assumes inv: "writer_inv c disk s" and f: "f < length (aw_files s)"
    and r: "off \<le> e" "e \<le> wf_next_write_offset (file_of s f)"
    and good: "\<And>i. unat off \<le> i \<Longrightarrow> i < unat e \<Longrightarrow> disk f i = c f i"
    and free: "\<And>b. b < length (aw_buffers s) \<Longrightarrow> bf_file (buf_of s b) = Some f \<Longrightarrow> pending s b \<inter> {unat off..<unat e} = {}"
  shows "writer_inv c disk (upd_file f (\<lambda>x. x\<lparr>wf_written_ranges := ranges_add (wf_written_ranges x) off e\<rparr>) s)"
proof -
  let ?x = "file_of s f" let ?w = "ranges_add (wf_written_ranges ?x) off e"
  have fo: "ranges_inv (wf_written_ranges ?x)" "\<forall>i\<in>confirmed (wf_written_ranges ?x). disk f i = c f i"
    "confirmed (wf_written_ranges ?x) \<subseteq> confirmed (previous_writes ?x) \<union> {..<unat (wf_next_write_offset ?x)}"
    using inv_file [OF inv f] unfolding file_ok_def Let_def by blast+
  have cv: "confirmed ?w = confirmed (wf_written_ranges ?x) \<union> {unat off..<unat e}"
    using fo(1) r(1) unat_interval [of off e] by (simp add: confirmed_def image_Un)
  show ?thesis
  proof (rule inv_ranges [OF inv f, where p = "wf_path ?x"])
    show "pending s b \<inter> confirmed ?w = {}" if "b < length (aw_buffers s)" "bf_file (buf_of s b) = Some f" for b
      using inv_buf [OF inv that(1)] that free [OF that] unfolding cv by (auto simp: buf_ok_def)
    show "confirmed ?w \<subseteq> confirmed (previous_writes ?x) \<union> {..<unat (wf_next_write_offset ?x)}"
      using fo(3) r(2) unfolding cv by (auto simp: word_le_nat_alt)
    show "disk f i = c f i" if "i \<in> confirmed ?w" for i using that fo(2) good unfolding cv by auto
  qed (use fo(1) r(1) in simp_all)
qed

lemma buffer_range:
  assumes inv: "writer_inv c disk s" and b: "b < length (aw_buffers s)" "bf_stage (buf_of s b) \<noteq> B_free" "bf_stage (buf_of s b) \<noteq> B_staging"
  shows "unat (start s b) + bf_size (buf_of s b) \<le> unat (wf_next_write_offset (file_of s (buf_file s b)))"
    "bf_bytes (buf_of s b) = bytes_at (c (buf_file s b)) (unat (start s b)) (bf_size (buf_of s b))"
    "moved (buf_of s b) \<le> bf_size (buf_of s b)" "bf_size (buf_of s b) \<le> kBufferSize"
  using inv_buf [OF inv b(1)] inv_buf_file [OF inv b(1,2)] b(3) by (simp_all add: buf_ok_def)

lemma pending_apart:
  assumes inv: "writer_inv c disk s" and b: "b < length (aw_buffers s)" "bf_stage (buf_of s b) \<noteq> B_free" "bf_stage (buf_of s b) \<noteq> B_staging"
    and k: "k < length (aw_buffers s)" "k \<noteq> b" "bf_file (buf_of s k) = bf_file (buf_of s b)"
  shows "pending s k \<inter> {unat (start s b)..<unat (start s b) + bf_size (buf_of s b)} = {}"
proof -
  note f = inv_buf_file [OF inv b(1,2)]
  show ?thesis
  proof (cases "bf_stage (buf_of s k) = B_staging")
    case True
    moreover have "buf_file s k = buf_file s b" using k by (simp add: buf_file_def)
    ultimately have "start s k = wf_next_write_offset (file_of s (buf_file s b))" by (simp add: start_def)
    then show ?thesis using buffer_range(1) [OF inv b] by (auto simp: pending_def)
  next
    case False
    have "apart s" using inv by (simp add: writer_inv_def)
    moreover have "bf_file (buf_of s b) \<noteq> None" "b \<noteq> k" using f k by auto
    ultimately have "unat (start s b) + bf_size (buf_of s b) \<le> unat (start s k) \<or> unat (start s k) + bf_size (buf_of s k) \<le> unat (start s b)"
      using b(3) False k(3) by (intro apart_def [THEN iffD1, rule_format, OF _ b(1) k(1)]) simp_all
    then show ?thesis by (auto simp: pending_def)
  qed
qed

lemma add_written_split:
  obtains t where "worsens s t"
    "add_written_bytes no_memory f n off s = t \<or>
     add_written_bytes no_memory f n off s = upd_file f (\<lambda>x. x\<lparr>wf_written_ranges := ranges_add (wf_written_ranges x) off (off + ucast n)\<rparr>) t"
proof -
  let ?t = "upd_file f (\<lambda>x. x\<lparr>wf_written_bytes := wf_written_bytes x + ucast n\<rparr>) (meter (account_written (ucast n)) s)"
  have w: "worsens s ?t"
    by (rule worsens_trans [OF worsens_meter worsens_upd_file]) (auto simp: file_core_def previous_writes_def)
  show ?thesis
  proof (cases "wf_track_replay (file_of s f) \<and> no_memory")
    case True
    then show ?thesis by (intro that [OF worsens_trans [OF w worsens_set_job_error]] disjI1) (simp only: add_written_bytes_def Let_def, simp)
  next
    case False
    then show ?thesis by (intro that [OF w]) (auto simp only: add_written_bytes_def Let_def split: if_splits)
  qed
qed

text \<open>
  The completion of a request: whatever it did to its own range, and provided that the bytes it confirms
  are those of the buffer.
\<close>

lemma complete_data_write_inv:
  assumes inv: "writer_inv c disk s" and b: "b < length (aw_buffers s)" "bf_stage (buf_of s b) = B_submitted"
    and d: "\<And>k i. k \<noteq> buf_file s b \<or> i \<notin> pending s b \<Longrightarrow> disk' k i = disk k i"
    and good: "\<And>i. error = 0 \<Longrightarrow> unat bytes \<le> bf_size (buf_of s b) - bf_transferred (buf_of s b) \<Longrightarrow>
        bf_transferred (buf_of s b) \<le> i \<Longrightarrow> i < bf_transferred (buf_of s b) + unat bytes \<Longrightarrow>
        disk' (buf_file s b) (unat (bf_output_offset (buf_of s b)) + i) = bf_bytes (buf_of s b) ! i"
  shows "writer_inv c disk' (complete_data_write os no_memory bytes error b s)"
proof -
  let ?f = "buf_file s b" let ?x = "buf_of s b" let ?s1 = "end_data_write ?f s"
  have nf: "bf_stage ?x \<noteq> B_free" "bf_stage ?x \<noteq> B_staging" "working (bf_stage ?x)" "\<And>r. bf_stage ?x \<noteq> B_finish r" using b(2) by auto
  note f = inv_buf_file [OF inv b(1) nf(1)]
  have inv': "writer_inv c disk' s" by (rule inv_disk [OF inv b(1) nf(1,2) d])
  have w1: "worsens s ?s1" by simp
  have st: "start s b = bf_output_offset ?x" using b(2) by (simp add: start_def)
  note range = buffer_range [OF inv b(1) nf(1,2), unfolded st]
  consider "error \<noteq> 0" | "error = 0" "bytes = 0 \<or> unat bytes > bf_size ?x - bf_transferred ?x"
    | "error = 0" "bytes \<noteq> 0" "unat bytes \<le> bf_size ?x - bf_transferred ?x" by linarith
  then show ?thesis
  proof cases
    case 1
    obtain r s2 where c: "classify_data_failure os ?f error ?s1 = (r, s2)" by (metis prod.exhaust)
    have w2: "worsens s s2" using worsens_trans [OF w1 worsens_classify [of _ os ?f error]] c by simp
    have "ar_kind r = Space_failure \<or> (ar_kind r = Permanent_failure \<and> doomed s2 ?f)"
      using c record_failure_doomed [of ?f ?s1] f worsens_buf [OF w1]
      by (auto simp: classify_data_failure_def space_failed_def permanent_def split: if_splits)
    then have "writer_inv c disk' (upd_buf b (\<lambda>x. x\<lparr>bf_stage := B_finish r\<rparr>) s2)"
      by (intro inv_worse_stage [OF inv' w2 b(1) nf(3) _ _ nf(4)]) (auto simp: failing_def)
    then show ?thesis using 1 c by (simp add: complete_data_write_def Let_def)
  next
    case 2
    have "doomed (record_failure os ?f (hresult_from_win32 ERROR_WRITE_FAULT) ERROR_WRITE_FAULT 0 ?s1) ?f"
      using record_failure_doomed [of ?f ?s1] f worsens_buf [OF w1] by simp
    then have "writer_inv c disk' (upd_buf b (\<lambda>x. x\<lparr>bf_stage := B_finish (permanent ERROR_WRITE_FAULT)\<rparr>)
        (record_failure os ?f (hresult_from_win32 ERROR_WRITE_FAULT) ERROR_WRITE_FAULT 0 ?s1))"
      by (intro inv_worse_stage [OF inv' worsens_trans [OF w1 worsens_record_failure] b(1) nf(3) _ _ nf(4)])
        (auto simp: failing_def permanent_def)
    then show ?thesis using 2 by (simp add: complete_data_write_def Let_def)
  next
    case 3
    let ?n = "bf_transferred ?x + unat bytes" let ?off = "bf_output_offset ?x + of_nat (bf_transferred ?x)"
    let ?st = "if ?n < bf_size ?x then B_attempt else B_finish succeeded"
    obtain t where t: "worsens ?s1 t" "add_written_bytes no_memory ?f bytes ?off ?s1 = t \<or>
      add_written_bytes no_memory ?f bytes ?off ?s1 = upd_file ?f (\<lambda>x. x\<lparr>wf_written_ranges := ranges_add (wf_written_ranges x) ?off (?off + ucast bytes)\<rparr>) t"
      by (rule add_written_split)
    have w: "worsens s t" by (rule worsens_trans [OF w1 t(1)])
    note wb = worsens_buf [OF w]
    have invt: "writer_inv c disk' t" by (rule writer_inv_worsens [OF inv' w])
    have stt: "start t b = bf_output_offset ?x" using b(2) wb by (simp add: start_def)
    have mv: "bf_transferred ?x \<le> bf_size ?x" using range(3) b(2) by (simp add: moved_def)
    have n: "?n \<le> bf_size ?x" using 3(3) mv by simp
    have g: "disk' ?f (unat (bf_output_offset ?x) + i) = c ?f (unat (bf_output_offset ?x) + i)" if "bf_transferred ?x \<le> i" "i < ?n" for i
    proof -
      have "bf_bytes ?x ! i = c ?f (unat (bf_output_offset ?x) + i)" using range(2) nth_bytes_at [of i "bf_size ?x"] that n by simp
      then show ?thesis using good [OF 3(1,3)] that by simp
    qed
    let ?u = "upd_buf b (\<lambda>x. x\<lparr>bf_transferred := ?n, bf_stage := ?st\<rparr>) t"
    have u: "writer_inv c disk' ?u"
      by (rule inv_transfer [OF invt]) (use b wb n stt g in auto)
    have fu: "?f < length (aw_files ?u)" using f wb by simp
    have "unat (bf_output_offset ?x) + bf_size ?x < 2 ^ 64"
      using range(1) unsigned_less [of "wf_next_write_offset (file_of s ?f)", where ?'a = nat] by simp
    then have off: "unat ?off = unat (bf_output_offset ?x) + bf_transferred ?x" "unat (?off + ucast bytes) = unat (bf_output_offset ?x) + ?n"
      using n mv by (simp_all add: unat_word_ariths unsigned_of_nat take_bit_nat_eq_self unsigned_ucast_eq)
    have nx: "wf_next_write_offset (file_of ?u ?f) = wf_next_write_offset (file_of s ?f)" using worsens_core(3) [OF w f(2)] by simp
    have "writer_inv c disk' (upd_file ?f (\<lambda>x. x\<lparr>wf_written_ranges := ranges_add (wf_written_ranges x) ?off (?off + ucast bytes)\<rparr>) ?u)"
    proof (rule inv_confirm [OF u fu])
      show "?off \<le> ?off + ucast bytes" unfolding word_le_nat_alt off by simp
      show "?off + ucast bytes \<le> wf_next_write_offset (file_of ?u ?f)" unfolding word_le_nat_alt off nx using range(1) n by simp
      show "disk' ?f i = c ?f i" if "unat ?off \<le> i" "i < unat (?off + ucast bytes)" for i
        using g [of "i - unat (bf_output_offset ?x)"] that unfolding off by simp
      show "pending ?u k \<inter> {unat ?off..<unat (?off + ucast bytes)} = {}" if k: "k < length (aw_buffers ?u)" "bf_file (buf_of ?u k) = Some ?f" for k
      proof -
        have bu: "b < length (aw_buffers ?u)" "bf_stage (buf_of ?u b) \<noteq> B_free" "bf_stage (buf_of ?u b) \<noteq> B_staging"
          "start ?u b = bf_output_offset ?x" "bf_size (buf_of ?u b) = bf_size ?x" "bf_file (buf_of ?u b) = Some ?f" "moved (buf_of ?u b) = ?n"
          using b(1) wb f by (auto simp: buf_upd start_def bf_size_def moved_def)
        show ?thesis
        proof (cases "k = b")
          case True
          then show ?thesis unfolding off using bu by (auto simp: pending_def)
        next
          case False
          then have "pending ?u k \<inter> {unat (start ?u b)..<unat (start ?u b) + bf_size (buf_of ?u b)} = {}"
            using pending_apart [OF u bu(1,2,3) k(1) False] k(2) bu(6) by simp
          then show ?thesis unfolding off using bu n by fastforce
        qed
      qed
    qed
    moreover have "complete_data_write os no_memory bytes error b s =
      upd_buf b (\<lambda>x. x\<lparr>bf_transferred := ?n, bf_stage := ?st\<rparr>) (add_written_bytes no_memory ?f bytes ?off ?s1)"
    proof -
      have "aw_buffers (add_written_bytes no_memory ?f bytes ?off ?s1) = aw_buffers s" using t wb by auto
      then show ?thesis using 3 by (auto simp: complete_data_write_def Let_def bf_size_def intro!: upd_buf_cong)
    qed
    ultimately show ?thesis using t u by auto
  qed
qed

end
