(* ===== verification/Writer_Threads.thy ===== *)
theory Writer_Threads
  imports Writer_Invariant
begin

text \<open>
  The invariant of the asynchronous writer under the regions its own threads run: a buffer is freed after
  its attempt, a write that found the disk full is queued again, items leave the queues, and a file whose
  last buffer is done is queued for closing.
\<close>

section \<open>Buffers that are freed\<close>

lemma free_sel [simp]:
  "aw_jobs (free_buffer b s) = aw_jobs s" "aw_files (free_buffer b s) = aw_files s" "aw_stopping (free_buffer b s) = aw_stopping s"
  "aw_work_queue (free_buffer b s) = aw_work_queue s" "aw_retry_queue (free_buffer b s) = aw_retry_queue s"
  "length (aw_buffers (free_buffer b s)) = length (aw_buffers s)" "aw_free_buffers (free_buffer b s) = aw_free_buffers s @ [b]"
  by (simp_all add: free_buffer_def upd_buf_def)

lemma buf_free: "k < length (aw_buffers s) \<Longrightarrow>
  buf_of (free_buffer b s) k = (if k = b then buf_of s b\<lparr>bf_file := None, bf_bytes := [], bf_stage := B_free\<rparr> else buf_of s k)"
  by (simp add: free_buffer_def upd_buf_def nth_list_update)

lemma terminal_free [simp]: "terminal_job (free_buffer b s) j = terminal_job s j"
  by (rule terminal_same) simp_all

text \<open>
  A buffer that is in no queue is freed: nothing of it is left to write, or its file can no longer close
  without failure.
\<close>

lemma inv_free:
  assumes inv: "writer_inv c disk s" and b: "b < length (aw_buffers s)" "bf_stage (buf_of s b) \<noteq> B_free"
      "bf_stage (buf_of s b) \<noteq> B_queued" "bf_stage (buf_of s b) \<noteq> B_retry"
    and f: "f = buf_file s b"
    and core: "wf_job (g (file_of s f)) = wf_job (file_of s f)" "wf_accepted_bytes (g (file_of s f)) = wf_accepted_bytes (file_of s f)"
      "wf_next_write_offset (g (file_of s f)) = wf_next_write_offset (file_of s f)"
      "wf_close_requested (g (file_of s f)) = wf_close_requested (file_of s f)"
      "wf_close_enqueued (g (file_of s f)) = wf_close_enqueued (file_of s f)" "wf_closed (g (file_of s f)) = wf_closed (file_of s f)"
      "previous_writes (g (file_of s f)) = previous_writes (file_of s f)" "wf_written_ranges (g (file_of s f)) = wf_written_ranges (file_of s f)"
      "wf_producer (g (file_of s f)) = wf_producer (file_of s f)" "wf_closing (g (file_of s f)) = wf_closing (file_of s f)"
      "wf_gated (g (file_of s f)) = wf_gated (file_of s f)" "wf_open_attempted (g (file_of s f)) = wf_open_attempted (file_of s f)"
      "wf_handle (g (file_of s f)) = wf_handle (file_of s f)" "wf_failed (g (file_of s f)) = wf_failed (file_of s f)"
    and staging: "wf_staging_buffer (g (file_of s f)) = (if bf_stage (buf_of s b) = B_staging then None else wf_staging_buffer (file_of s f))"
    and out: "wf_outstanding_data (g (file_of s f)) = wf_outstanding_data (file_of s f) - (if bf_bytes (buf_of s b) = [] then 0 else 1)"
    and idle: "bf_stage (buf_of s b) = B_staging \<Longrightarrow> bf_bytes (buf_of s b) = [] \<or> terminal_job s (wf_job (file_of s f))"
      "\<And>d n p m w. bf_stage (buf_of s b) = B_staging \<Longrightarrow> wf_producer (file_of s f) \<noteq> P_copy d n p m w"
    and cov: "pending s b = {} \<or> failing (free_buffer b (upd_file f g s)) f"
    and fl: "\<And>k. k < length (aw_files s) \<Longrightarrow> failing s k \<Longrightarrow> failing (free_buffer b (upd_file f g s)) k"
  shows "writer_inv c disk (free_buffer b (upd_file f g s))"
proof -
  let ?s = "free_buffer b (upd_file f g s)"
  note bf = inv_buf_file [OF inv b(1,2), folded f]
  have fu: "file_of ?s k = (if k = f then g (file_of s f) else file_of s k)" if "k < length (aw_files s)" for k
    using file_upd [OF that] by simp
  have bu: "buf_of ?s k = (if k = b then buf_of s b\<lparr>bf_file := None, bf_bytes := [], bf_stage := B_free\<rparr> else buf_of s k)"
    if "k < length (aw_buffers s)" for k using buf_free [of k "upd_file f g s" b] that by simp
  have st: "start ?s k = start s k" if "k < length (aw_buffers s)" "k \<noteq> b" for k
    using inv_buf_file [OF inv that(1)] fu bu [OF that(1)] that(2) core(3) by (auto simp: start_def buf_file_def split: buffer_stage.splits)
  have pe: "pending ?s k = pending s k" if "k < length (aw_buffers s)" "k \<noteq> b" for k
    using st [OF that] bu [OF that(1)] that(2) by (simp add: pending_def)
  have nb: "nonempty_buffers ?s k = nonempty_buffers s k - {b}" for k
    using bu by (auto simp: nonempty_buffers_def split: if_splits)
  have nbf: "b \<in> nonempty_buffers s k \<longleftrightarrow> k = f \<and> bf_bytes (buf_of s b) \<noteq> []" for k
    using bf b(1) by (auto simp: nonempty_buffers_def)
  have tj: "terminal_job ?s j = terminal_job s j" for j by simp
  have "lists_ok ?s"
  proof -
    have l: "lists_ok s" by (rule inv_lists [OF inv])
    then have "b \<notin> set (aw_free_buffers s)" using b(2) by (auto simp: lists_ok_def)
    moreover have "{k. k < length (aw_buffers s) \<and> bf_stage (buf_of ?s k) = B_free} = insert b {k. k < length (aw_buffers s) \<and> bf_stage (buf_of s k) = B_free}"
      using bu b(1) by (auto split: if_splits)
    moreover have "{k. k < length (aw_buffers s) \<and> bf_stage (buf_of ?s k) = t} = {k. k < length (aw_buffers s) \<and> bf_stage (buf_of s k) = t}"
      if "t = B_queued \<or> t = B_retry" for t using bu b that by (auto split: if_splits)
    moreover have "k < length (aw_files s) \<Longrightarrow> wf_close_enqueued (file_of ?s k) = wf_close_enqueued (file_of s k) \<and>
        wf_closing (file_of ?s k) = wf_closing (file_of s k)" for k
      using fu [of k] core(5,10) by simp
    ultimately show ?thesis using l unfolding lists_ok_def by auto
  qed
  moreover have "apart ?s"
  proof -
    have "apart s" using inv by (simp add: writer_inv_def)
    then show ?thesis unfolding apart_def using st bu by (auto split: if_splits)
  qed
  moreover have "buf_ok c ?s k" if k: "k < length (aw_buffers s)" for k
  proof (cases "k = b")
    case True
    then show ?thesis using bu [OF k] by (simp add: buf_ok_def)
  next
    case False
    have bk: "buf_of ?s k = buf_of s k" using bu [OF k] False by simp
    show ?thesis
    proof (cases "bf_file (buf_of s k)")
      case None
      then show ?thesis using inv_buf [OF inv k] bk by (simp add: buf_ok_def)
    next
      case (Some m)
      have ok: "buf_ok c s k" by (rule inv_buf [OF inv k])
      then have m: "m < length (aw_files s)" using Some by (simp add: buf_ok_def)
      have "wf_staging_buffer (file_of s m) = Some k \<Longrightarrow> wf_staging_buffer (file_of ?s m) = Some k"
      proof -
        assume sk: "wf_staging_buffer (file_of s m) = Some k"
        have "bf_stage (buf_of s b) \<noteq> B_staging" if "m = f"
          using inv_buf [OF inv b(1)] bf sk False that by (auto simp: buf_ok_def)
        then show ?thesis using sk fu [OF m] staging by auto
      qed
      moreover have "wf_next_write_offset (file_of ?s m) = wf_next_write_offset (file_of s m)"
        "wf_written_ranges (file_of ?s m) = wf_written_ranges (file_of s m)" "previous_writes (file_of ?s m) = previous_writes (file_of s m)"
        using fu [OF m] core by auto
      moreover have "result_ok s m (buf_of s k) \<Longrightarrow> result_ok ?s m (buf_of s k)" using fl [OF m] by (auto simp: result_ok_def)
      ultimately show ?thesis using ok Some m st [OF k False] pe [OF k False] unfolding buf_ok_def bk by auto
    qed
  qed
  moreover have "file_ok c disk ?s k" if k: "k < length (aw_files s)" for k
  proof -
    have fo: "file_ok c disk s k" by (rule inv_file [OF inv k])
    have pe': "(\<exists>x\<in>nonempty_buffers s k - {b}. i \<in> pending ?s x) = (\<exists>x\<in>nonempty_buffers s k - {b}. i \<in> pending s x)" for i
      using pe by (auto simp: nonempty_buffers_def)
    have cv: "disk k i = c k i \<or> failing ?s k \<or> (\<exists>x\<in>nonempty_buffers s k - {b}. i \<in> pending s x)" if i: "i < unat (wf_accepted_bytes (file_of s k))" for i
    proof -
      have "disk k i = c k i \<or> failing s k \<or> (\<exists>x\<in>nonempty_buffers s k. i \<in> pending s x)"
        using fo i unfolding file_ok_def Let_def by blast
      then show ?thesis using fl [OF k] nbf [of k] cov by blast
    qed
    have sb: "x < length (aw_buffers s) \<and> bf_stage (buf_of s x) = B_staging \<and> bf_file (buf_of s x) = Some k"
      if "wf_staging_buffer (file_of s k) = Some x" for x using fo that by (simp add: file_ok_def Let_def)
    show ?thesis
    proof (cases "k = f")
      case False
      then have fk: "file_of ?s k = file_of s k" using fu [OF k] by simp
      have nk: "nonempty_buffers s k - {b} = nonempty_buffers s k" using nbf [of k] False by auto
      have same: "buf_of ?s x = buf_of s x" if "wf_staging_buffer (file_of s k) = Some x" for x
        using sb [OF that] bu [of x] bf False by auto
      have pr: "producer_ok (c k) ?s (file_of s k) = producer_ok (c k) s (file_of s k)"
        using same by (auto simp: producer_ok_def split: producer_stage.splits)
      have sg: "case wf_staging_buffer (file_of s k) of
            None \<Rightarrow> wf_next_write_offset (file_of s k) = wf_accepted_bytes (file_of s k) \<or> terminal_job s (wf_job (file_of s k))
          | Some x \<Rightarrow> x < length (aw_buffers s) \<and> bf_stage (buf_of ?s x) = B_staging \<and> bf_file (buf_of ?s x) = Some k \<and>
              unat (wf_next_write_offset (file_of s k)) + bf_size (buf_of ?s x) = unat (wf_accepted_bytes (file_of s k))"
        using fo same unfolding file_ok_def Let_def by (auto split: option.splits)
      have op: "open_ok s k \<Longrightarrow> open_ok ?s k" using fl [OF k] fk by (auto simp: open_ok_def Let_def)
      show ?thesis
        using fo cv op sg unfolding file_ok_def Let_def fk nb nk pe' [unfolded nk] pr tj free_sel(1,6) upd_sel by blast
    next
      case True
      have fk: "file_of ?s k = g (file_of s f)" using True fu [OF k] by simp
      let ?x = "file_of s f"
      have ca: "wf_outstanding_data (g ?x) = card (nonempty_buffers s f - {b})"
      proof -
        have "wf_outstanding_data ?x = card (nonempty_buffers s f)" using fo True by (simp add: file_ok_def Let_def)
        then show ?thesis using out nbf [of f] by (auto simp: card_Diff_singleton)
      qed
      have sg: "(case wf_staging_buffer (g ?x) of
            None \<Rightarrow> wf_next_write_offset ?x = wf_accepted_bytes ?x \<or> terminal_job s (wf_job ?x)
          | Some x \<Rightarrow> x < length (aw_buffers s) \<and> bf_stage (buf_of ?s x) = B_staging \<and> bf_file (buf_of ?s x) = Some f \<and>
              unat (wf_next_write_offset ?x) + bf_size (buf_of ?s x) = unat (wf_accepted_bytes ?x))"
      proof (cases "bf_stage (buf_of s b) = B_staging")
        case t: True
        then have "wf_staging_buffer ?x = Some b" using inv_buf [OF inv b(1)] bf by (simp add: buf_ok_def)
        then have "unat (wf_next_write_offset ?x) + bf_size (buf_of s b) = unat (wf_accepted_bytes ?x)"
          using fo True by (simp add: file_ok_def Let_def)
        then show ?thesis using staging t idle(1) by (auto simp: bf_size_def word_unat_eq_iff)
      next
        case t: False
        then have "x \<noteq> b" if "wf_staging_buffer ?x = Some x" for x using sb that True by auto
        then show ?thesis using staging t fo True bu sb unfolding file_ok_def Let_def by (auto split: option.splits)
      qed
      have ro: "rest_ok (c f) (g ?x) = rest_ok (c f) ?x" by (intro ext) (simp add: rest_ok_def core)
      have pr: "producer_ok (c f) ?s (g ?x)"
      proof (cases "wf_producer ?x")
        case (P_copy d n p m w)
        then have ns: "bf_stage (buf_of s b) \<noteq> B_staging" using idle(2) by blast
        have "producer_ok (c f) s ?x" using fo True by (simp add: file_ok_def Let_def)
        then obtain x where x: "rest_ok (c f) ?x d n \<and> 0 < m \<and> m \<le> length d - n \<and> p + m \<le> kBufferSize \<and> (w \<longrightarrow> p = 0)" "wf_staging_buffer ?x = Some x" "bf_size (buf_of s x) = p"
          using P_copy by (auto simp: producer_ok_def)
        then have "x \<noteq> b" using sb True ns by auto
        then have "buf_of ?s x = buf_of s x" using bu [of x] sb True x(2) by auto
        then show ?thesis using x P_copy staging ns core ro by (simp add: producer_ok_def)
      qed (use fo True core ro in \<open>simp_all add: producer_ok_def file_ok_def Let_def\<close>)
      have op: "open_ok ?s f" using fo fl [OF k] fk core True by (auto simp: open_ok_def Let_def file_ok_def)
      have z: "wf_close_enqueued ?x \<longrightarrow> wf_outstanding_data (g ?x) = 0"
        using fo True ca unfolding file_ok_def Let_def by (auto simp: out)
      show ?thesis
        using fo cv sg pr op ca z True unfolding file_ok_def Let_def fk core nb pe' tj free_sel(1,6) upd_sel by blast
    qed
  qed
  ultimately show ?thesis by (simp add: writer_inv_def)
qed

lemma upd_file_cong: "g (file_of s f) = h (file_of s f) \<Longrightarrow> upd_file f g s = upd_file f h s"
  by (simp add: upd_file_def)

section \<open>Stages of a close\<close>

lemma inv_closing:
  assumes inv: "writer_inv c disk s" and f: "f < length (aw_files s)"
    and ab: "f \<notin> set (close_items (aw_work_queue s)) \<union> set (close_items (aw_retry_queue s))"
    and rq: "wf_close_requested (file_of s f)" "wf_outstanding_data (file_of s f) = 0" "\<not> wf_closed (file_of s f)"
    and op: "open_ok (upd_file f (\<lambda>x. x\<lparr>wf_close_enqueued := True, wf_closing := cs\<rparr>) s) f"
    and past: "past_begin cs \<Longrightarrow> \<not> wf_failed (file_of s f) \<Longrightarrow> \<forall>i<unat (wf_accepted_bytes (file_of s f)). disk f i = c f i"
  shows "writer_inv c disk (upd_file f (\<lambda>x. x\<lparr>wf_close_enqueued := True, wf_closing := cs\<rparr>) s)"
proof -
  let ?g = "\<lambda>x. x\<lparr>wf_close_enqueued := True, wf_closing := cs\<rparr>" let ?s = "upd_file f ?g s" let ?x = "file_of s f"
  have fo: "file_ok c disk s f" by (rule inv_file [OF inv f])
  have fu: "file_of ?s f = ?g ?x" using f by (simp add: file_upd)
  have pv: "previous_writes (?g ?x) = previous_writes ?x" by (simp add: previous_writes_def)
  have core: "wf_job (?g ?x) = wf_job ?x" "wf_accepted_bytes (?g ?x) = wf_accepted_bytes ?x" "wf_next_write_offset (?g ?x) = wf_next_write_offset ?x"
    "wf_staging_buffer (?g ?x) = wf_staging_buffer ?x" "wf_outstanding_data (?g ?x) = wf_outstanding_data ?x"
    "wf_close_requested (?g ?x) = wf_close_requested ?x" "wf_close_enqueued (?g ?x) = True" "wf_closed (?g ?x) = wf_closed ?x"
    "wf_producer (?g ?x) = wf_producer ?x" "wf_closing (?g ?x) = cs" "wf_gated (?g ?x) = wf_gated ?x" "wf_failed (?g ?x) = wf_failed ?x"
    "wf_written_ranges (?g ?x) = wf_written_ranges ?x" by simp_all
  have nb: "nonempty_buffers ?s f = nonempty_buffers s f" by (simp add: nonempty_buffers_def)
  have none: "nonempty_buffers s f = {}" using fo rq(2) unfolding file_ok_def Let_def by simp
  have fl: "failing ?s f = failing s f"
    using core by (simp add: failing_def doomed_def nb fu)
  have pst: "past_begin cs \<or> wf_closed ?x \<longrightarrow> wf_failed ?x \<or> (\<forall>i<unat (wf_accepted_bytes ?x). disk f i = c f i)"
    using past fo unfolding file_ok_def Let_def by blast
  have "file_ok c disk ?s f"
    using fo op rq pst unfolding file_ok_def Let_def fu nb none fl producer_ok_def rest_ok_def upd_sel terminal_upd core pv by blast
  then show ?thesis using core pv ab by (intro inv_upd_file [OF inv f]) auto
qed

lemma close_absent:
  assumes "writer_inv c disk s" "wf_closing (file_of s f) \<noteq> C_queued" "wf_closing (file_of s f) \<noteq> C_retry"
  shows "f \<notin> set (close_items (aw_work_queue s)) \<union> set (close_items (aw_retry_queue s))"
  using inv_lists [OF assms(1)] assms(2,3) by (auto simp: lists_ok_def)

text \<open>As long as the close is not settled, its stage says nothing about the handle.\<close>

lemma settled_past: "settled cs \<Longrightarrow> past_begin cs"
  by (cases cs) simp_all

lemma open_ok_closing:
  assumes "open_ok s f" "f < length (aw_files s)" "\<not> settled (wf_closing (file_of s f))"
  shows "open_ok (upd_file f (\<lambda>x. x\<lparr>wf_close_enqueued := True, wf_closing := cs\<rparr>) s) f"
proof -
  have nb: "nonempty_buffers (upd_file f g s) f = nonempty_buffers s f" for g by (simp add: nonempty_buffers_def)
  show ?thesis using assms by (auto simp: open_ok_def Let_def file_upd failing_def doomed_def nb)
qed

lemma inv_queue_close:
  assumes inv: "writer_inv c disk s" and f: "f < length (aw_files s)" "wf_close_enqueued (file_of s f)"
    and ab: "f \<notin> set (close_items (aw_work_queue s)) \<union> set (close_items (aw_retry_queue s))"
  shows "wf_closing (file_of s f) = C_queued \<Longrightarrow>
      writer_inv c disk (s\<lparr>aw_work_queue := aw_work_queue s @ [Work_close f e], aw_queued_jobs := n\<rparr>)"
    "wf_closing (file_of s f) = C_retry \<Longrightarrow> writer_inv c disk (s\<lparr>aw_retry_queue := aw_retry_queue s @ [Work_close f e]\<rparr>)"
proof -
  let ?s = "s\<lparr>aw_work_queue := aw_work_queue s @ [Work_close f e], aw_queued_jobs := n\<rparr>"
  let ?t = "s\<lparr>aw_retry_queue := aw_retry_queue s @ [Work_close f e]\<rparr>"
  have st: "start ?s b = start s b" "start ?t b = start s b" for b by (simp_all add: start_def buf_file_def split: buffer_stage.splits)
  have r: "result_ok s k (buf_of s b)" if "b < length (aw_buffers s)" "bf_file (buf_of s b) = Some k" for b k
    using inv_buf [OF inv that(1)] that(2) by (simp add: buf_ok_def)
  have fl: "failing ?s k = failing s k" "failing ?t k = failing s k" for k
    by (simp_all add: failing_def doomed_def nonempty_buffers_def terminal_job_def terminal_result_locked_def)
  show "writer_inv c disk ?s" if "wf_closing (file_of s f) = C_queued"
    by (rule inv_relocate [OF inv]) (use that ab st r fl inv_lists [OF inv] f in \<open>auto simp: lists_ok_def\<close>)
  show "writer_inv c disk ?t" if "wf_closing (file_of s f) = C_retry"
    by (rule inv_relocate [OF inv]) (use that ab st r fl inv_lists [OF inv] f in \<open>auto simp: lists_ok_def\<close>)
qed

lemma enqueue_close_inv:
  assumes inv: "writer_inv c disk s" and f: "f < length (aw_files s)"
  shows "writer_inv c disk (snd (enqueue_close_locked ans f s))"
proof (cases "\<not> wf_close_requested (file_of s f) \<or> wf_close_enqueued (file_of s f) \<or> wf_closed (file_of s f) \<or> wf_outstanding_data (file_of s f) \<noteq> 0")
  case True
  then show ?thesis using inv by (auto simp: enqueue_close_locked_def Let_def)
next
  case False
  let ?enq = "\<lambda>x. x\<lparr>wf_close_enqueued := True\<rparr>"
  have fo: "open_ok t f \<and> \<not> past_begin (wf_closing (file_of t f))"
    if "writer_inv c disk t" "\<not> wf_close_enqueued (file_of t f)" "f < length (aw_files t)" for t
    using inv_file [OF that(1,3)] that(2) by (auto simp: file_ok_def Let_def)
  have "wf_closing (file_of s f) = C_none" using inv_file [OF inv f] False by (auto simp: file_ok_def Let_def)
  then have ab: "f \<notin> set (close_items (aw_work_queue s)) \<union> set (close_items (aw_retry_queue s))"
    by (intro close_absent [OF inv]) simp_all
  have cl: "writer_inv c disk (upd_file f (\<lambda>x. x\<lparr>wf_close_enqueued := True, wf_closing := cs\<rparr>) t)"
    if w: "worsens s t" and cs: "\<not> past_begin cs" for t cs
  proof -
    have i: "writer_inv c disk t" by (rule writer_inv_worsens [OF inv w])
    have ft: "f < length (aw_files t)" using f worsens_buf(3) [OF w] by simp
    have "open_ok t f \<and> \<not> past_begin (wf_closing (file_of t f))" by (rule fo [OF i _ ft]) (use False worsens_core [OF w f] in simp)
    then have "open_ok (upd_file f (\<lambda>x. x\<lparr>wf_close_enqueued := True, wf_closing := cs\<rparr>) t) f" using open_ok_closing [of t f cs] ft settled_past by blast
    moreover have "f \<notin> set (close_items (aw_work_queue t)) \<union> set (close_items (aw_retry_queue t))" using ab w by (simp add: worsens_def)
    ultimately show ?thesis using False worsens_core [OF w f] cs by (intro inv_closing [OF i ft]) auto
  qed
  have fail: "upd_file f (\<lambda>x. x\<lparr>wf_closing := cs\<rparr>) (fail_file f hr e (upd_file f ?enq s)) =
      upd_file f (\<lambda>x. x\<lparr>wf_close_enqueued := True, wf_closing := cs\<rparr>) (fail_file f hr e s)" for hr e cs
    by (subst fail_file_after) (use f in \<open>auto simp: upd_file_twice\<close>)
  have post: "writer_inv c disk (upd_file f (\<lambda>x. x\<lparr>wf_closing := C_queued\<rparr>)
      ((upd_file f ?enq s)\<lparr>aw_work_queue := aw_work_queue s @ [Work_close f 0], aw_queued_jobs := aw_queued_jobs (upd_file f ?enq s) + 1\<rparr>))"
  proof -
    have "upd_file f (\<lambda>x. x\<lparr>wf_closing := C_queued\<rparr>)
        ((upd_file f ?enq s)\<lparr>aw_work_queue := aw_work_queue s @ [Work_close f 0], aw_queued_jobs := aw_queued_jobs (upd_file f ?enq s) + 1\<rparr>) =
        (upd_file f (\<lambda>x. x\<lparr>wf_close_enqueued := True, wf_closing := C_queued\<rparr>) s)
          \<lparr>aw_work_queue := aw_work_queue s @ [Work_close f 0], aw_queued_jobs := aw_queued_jobs (upd_file f ?enq s) + 1\<rparr>"
      using f by (simp add: upd_file_def)
    moreover have "wf_close_enqueued (file_of (upd_file f (\<lambda>x. x\<lparr>wf_close_enqueued := True, wf_closing := C_queued\<rparr>) s) f)"
      "wf_closing (file_of (upd_file f (\<lambda>x. x\<lparr>wf_close_enqueued := True, wf_closing := C_queued\<rparr>) s) f) = C_queued" using f by (simp_all add: file_upd)
    ultimately show ?thesis using inv_queue_close(1) [OF cl [OF worsens_refl, of C_queued]] f ab by simp
  qed
  have fb: "writer_inv c disk (upd_file f (\<lambda>x. x\<lparr>wf_closing := C_begin empty_lease\<rparr>) (fail_file f hr e (upd_file f ?enq s)))" for hr e
    unfolding fail by (rule cl) simp_all
  show ?thesis using False post fb by (simp add: enqueue_close_locked_def Let_def split: post_answer.splits)
qed

section \<open>The end of an attempt\<close>

lemma upd_job_commute: "free_buffer b (upd_job j h s) = upd_job j h (free_buffer b s)"
  by (simp add: free_buffer_def upd_buf_def upd_job_def)

lemma release_buffer_inv:
  assumes inv: "writer_inv c disk s" and b: "b < length (aw_buffers s)" "bf_stage (buf_of s b) = B_finish r"
    and d: "ar_kind r = Space_failure \<Longrightarrow> doomed s (buf_file s b)"
  shows "writer_inv c disk (release_buffer ans b s)"
proof -
  let ?f = "buf_file s b" let ?x = "file_of s ?f" let ?n = "bf_size (buf_of s b)"
  let ?g = "\<lambda>x. x\<lparr>wf_inflight_bytes := wf_inflight_bytes x - ?n, wf_outstanding_data := wf_outstanding_data x - 1\<rparr>"
  let ?h = "\<lambda>x. x\<lparr>jb_inflight_bytes := jb_inflight_bytes x - ?n, jb_pending_jobs := jb_pending_jobs x - 1\<rparr>"
  let ?s = "free_buffer b (upd_file ?f ?g s)" let ?t = "free_buffer b (upd_job (wf_job ?x) ?h (upd_file ?f ?g s))"
  note f = inv_buf_file [OF inv b(1)]
  have f: "bf_file (buf_of s b) = Some ?f" "?f < length (aw_files s)" using f b(2) by simp_all
  have ok: "buf_ok c s b" by (rule inv_buf [OF inv b(1)])
  have ne: "bf_bytes (buf_of s b) \<noteq> []" using busy(1) [OF inv b(1)] b(2) by (simp add: nonempty_buffers_def)
  have bu: "k < length (aw_buffers s) \<Longrightarrow> k \<noteq> b \<Longrightarrow> buf_of ?s k = buf_of s k" for k using buf_free [of k "upd_file ?f ?g s" b] by simp
  have fl: "failing ?s k" if k: "k < length (aw_files s)" "failing s k" for k
  proof -
    have same: "wf_failed (file_of ?s k) = wf_failed (file_of s k)" "wf_job (file_of ?s k) = wf_job (file_of s k)" "wf_gated (file_of ?s k) = wf_gated (file_of s k)"
      using k by (simp_all add: file_upd)
    show ?thesis
    proof (cases "doomed s k")
      case True
      then show ?thesis using same by (simp add: failing_def doomed_def)
    next
      case False
      then obtain x q where x: "x \<in> nonempty_buffers s k" "bf_stage (buf_of s x) = B_finish q" "ar_kind q = Space_failure" "\<not> wf_gated (file_of s k)"
        using k(2) by (auto simp: failing_def)
      have "x \<noteq> b" using x d b(2) False f by (auto simp: nonempty_buffers_def)
      then show ?thesis using x bu [of x] same by (auto simp: failing_def nonempty_buffers_def)
    qed
  qed
  have "writer_inv c disk ?s"
  proof (rule inv_free [OF inv b(1) _ _ _ refl])
    show "pending s b = {} \<or> failing ?s ?f"
    proof (cases "ar_kind r = Succeeded")
      case True
      then show ?thesis using ok f b(2) by (simp add: buf_ok_def result_ok_def pending_def moved_def)
    next
      case False
      then have "failing s ?f" using ok f b(2) d by (auto simp: buf_ok_def result_ok_def failing_def)
      then show ?thesis using fl f by blast
    qed
  qed (use b(2) ne fl in \<open>auto simp: previous_writes_def\<close>)
  moreover have "worsens ?s ?t" unfolding upd_job_commute by (rule worsens_upd_job) auto
  ultimately have t: "writer_inv c disk ?t" by (rule writer_inv_worsens)
  have "?f < length (aw_files ?t)" using f(2) by simp
  then show ?thesis using t enqueue_close_inv [OF t, of ?f ans] by (simp add: release_buffer_def Let_def)
qed

lemma with_gate_frame [simp]:
  "aw_jobs (with_gate h s) = aw_jobs s" "aw_files (with_gate h s) = aw_files s" "aw_buffers (with_gate h s) = aw_buffers s"
  "aw_retry_queue (with_gate h s) = aw_retry_queue s" "aw_work_queue (with_gate h s) = aw_work_queue s"
  "with_gate h (upd_buf b g s) = upd_buf b g (with_gate h s)"
  by (auto simp: with_gate_def upd_buf_def split: option.splits prod.splits)

lemma failing_mono:
  assumes "failing s k" and eq: "aw_files s' = aw_files s" "aw_jobs s' = aw_jobs s" "aw_stopping s' = aw_stopping s"
      "length (aw_buffers s') = length (aw_buffers s)"
    and b: "\<And>x r. x < length (aw_buffers s) \<Longrightarrow> bf_file (buf_of s x) = Some k \<Longrightarrow> bf_bytes (buf_of s x) \<noteq> [] \<Longrightarrow>
      bf_stage (buf_of s x) = B_finish r \<Longrightarrow> \<not> wf_gated (file_of s k) \<Longrightarrow>
      bf_file (buf_of s' x) = Some k \<and> bf_bytes (buf_of s' x) \<noteq> [] \<and> bf_stage (buf_of s' x) = B_finish r"
  shows "failing s' k"
proof (cases "doomed s k")
  case True
  then show ?thesis using eq terminal_same [OF eq(2,3)] by (simp add: failing_def doomed_def)
next
  case False
  then obtain x r where x: "x < length (aw_buffers s)" "bf_file (buf_of s x) = Some k" "bf_bytes (buf_of s x) \<noteq> []"
    "bf_stage (buf_of s x) = B_finish r" "ar_kind r = Space_failure" "\<not> wf_gated (file_of s k)"
    using assms(1) by (auto simp: failing_def nonempty_buffers_def)
  then show ?thesis using b [OF x(1-4,6)] eq by (auto simp: failing_def nonempty_buffers_def)
qed

text \<open>A write that found the disk full waits in the retry queue.\<close>

lemma inv_retry:
  assumes inv: "writer_inv c disk s" and b: "b < length (aw_buffers s)" "bf_stage (buf_of s b) = B_finish r" "wf_gated (file_of s (buf_file s b))"
  shows "writer_inv c disk (upd_buf b (\<lambda>x. x\<lparr>bf_probe_lease := l, bf_stage := B_retry\<rparr>)
    (s\<lparr>aw_retry_queue := aw_retry_queue s @ [Work_data b off e]\<rparr>))" (is "writer_inv c disk ?s")
proof -
  have f: "bf_file (buf_of s b) = Some (buf_file s b)" using inv_buf_file(1) [OF inv b(1)] b(2) by simp
  have bu: "buf_of ?s k = (if k = b then buf_of s b\<lparr>bf_probe_lease := l, bf_stage := B_retry\<rparr> else buf_of s k)" if "k < length (aw_buffers s)" for k
    using buf_upd [of k "s\<lparr>aw_retry_queue := aw_retry_queue s @ [Work_data b off e]\<rparr>"] that by simp
  have st: "start ?s k = start s k" if "k < length (aw_buffers s)" for k
    using bu [OF that] b(2) by (cases "k = b") (auto simp: start_def buf_file_def split: buffer_stage.splits)
  have l: "lists_ok s" by (rule inv_lists [OF inv])
  show ?thesis
  proof (rule inv_relocate [OF inv])
    fix k assume k: "k < length (aw_buffers s)"
    show "bf_file (buf_of ?s k) = bf_file (buf_of s k) \<and> bf_bytes (buf_of ?s k) = bf_bytes (buf_of s k) \<and> start ?s k = start s k \<and>
        moved (buf_of ?s k) = moved (buf_of s k) \<and> (bf_stage (buf_of ?s k) = B_staging \<longleftrightarrow> bf_stage (buf_of s k) = B_staging) \<and>
        (bf_stage (buf_of ?s k) = B_free \<longleftrightarrow> bf_stage (buf_of s k) = B_free)"
      using bu [OF k] st [OF k] b(2) by (auto simp: moved_def)
    fix m assume m: "bf_file (buf_of s k) = Some m"
    have "result_ok s m (buf_of s k)" using inv_buf [OF inv k] m by (auto simp: buf_ok_def)
    then show "result_ok s m (buf_of ?s k)" using bu [OF k] by (auto simp: result_ok_def)
  next
    have "{k. k < length (aw_buffers s) \<and> bf_stage (buf_of ?s k) = t} = {k. k < length (aw_buffers s) \<and> bf_stage (buf_of s k) = t}"
      if "t = B_free \<or> t = B_queued" for t using bu b(2) that by (auto split: if_splits)
    moreover have "{k. k < length (aw_buffers s) \<and> bf_stage (buf_of ?s k) = B_retry} = insert b {k. k < length (aw_buffers s) \<and> bf_stage (buf_of s k) = B_retry}"
      using bu b by (auto split: if_splits)
    moreover have "b \<notin> fst ` set (data_items (aw_retry_queue s))" using l b(2) by (auto simp: lists_ok_def)
    ultimately show "lists_ok ?s" using l by (auto simp: lists_ok_def)
  next
    fix k assume k: "failing s k"
    show "failing ?s k" by (rule failing_mono [OF k]) (use bu b(3) f in \<open>auto split: if_splits\<close>)
  qed simp_all
qed

lemma inv_lease:
  assumes inv: "writer_inv c disk s" and b: "b < length (aw_buffers s)"
  shows "writer_inv c disk (upd_buf b (\<lambda>x. x\<lparr>bf_probe_lease := l\<rparr>) s)" (is "writer_inv c disk ?s")
proof -
  have bu: "buf_of ?s k = (if k = b then buf_of s b\<lparr>bf_probe_lease := l\<rparr> else buf_of s k)" if "k < length (aw_buffers s)" for k
    using buf_upd [OF that] .
  have st: "start ?s k = start s k" if "k < length (aw_buffers s)" for k
    using bu [OF that] by (cases "k = b") (auto simp: start_def buf_file_def split: buffer_stage.splits)
  have sg: "bf_stage (buf_of ?s k) = bf_stage (buf_of s k)" if "k < length (aw_buffers s)" for k using bu [OF that] by simp
  show ?thesis
  proof (rule inv_relocate [OF inv])
    fix k assume k: "k < length (aw_buffers s)"
    show "bf_file (buf_of ?s k) = bf_file (buf_of s k) \<and> bf_bytes (buf_of ?s k) = bf_bytes (buf_of s k) \<and> start ?s k = start s k \<and>
        moved (buf_of ?s k) = moved (buf_of s k) \<and> (bf_stage (buf_of ?s k) = B_staging \<longleftrightarrow> bf_stage (buf_of s k) = B_staging) \<and>
        (bf_stage (buf_of ?s k) = B_free \<longleftrightarrow> bf_stage (buf_of s k) = B_free)"
      using bu [OF k] st [OF k] by (auto simp: moved_def)
    fix m assume m: "bf_file (buf_of s k) = Some m"
    have "result_ok s m (buf_of s k)" using inv_buf [OF inv k] m by (auto simp: buf_ok_def)
    then show "result_ok s m (buf_of ?s k)" using bu [OF k] by (auto simp: result_ok_def bf_size_def)
  next
    have "{k. k < length (aw_buffers s) \<and> bf_stage (buf_of ?s k) = t} = {k. k < length (aw_buffers s) \<and> bf_stage (buf_of s k) = t}" for t
      using sg by auto
    then show "lists_ok ?s" using inv_lists [OF inv] by (simp add: lists_ok_def)
  next
    fix k assume k: "failing s k"
    show "failing ?s k" by (rule failing_mono [OF k]) (use bu in \<open>auto split: if_splits\<close>)
  qed simp_all
qed

lemma finish_data_attempt_inv:
  assumes inv: "writer_inv c disk s" and b: "b < length (aw_buffers s)" "bf_stage (buf_of s b) = B_finish r"
  shows "writer_inv c disk (finish_data_attempt os posted ans r b s)"
proof -
  let ?f = "buf_file s b" let ?l = "bf_probe_lease (buf_of s b)"
  have f: "bf_file (buf_of s b) = Some ?f" "?f < length (aw_files s)" using inv_buf_file [OF inv b(1)] b(2) by simp_all
  let ?t = "settle_lease os r (wf_path (file_of s ?f)) ?l s"
  have wt: "worsens s ?t" by simp
  let ?pl = "\<lambda>x. x\<lparr>bf_probe_lease := empty_lease\<rparr>"
  show ?thesis
  proof (cases "ar_kind r = Space_failure \<and> wf_gated (file_of s ?f)")
    case True
    let ?e = "if lease_valid ?l then 0 else ar_error r"
    let ?item = "Work_data b (bf_output_offset (buf_of s b)) ?e"
    define T where "T = (if ?e \<noteq> 0 then with_gate (\<lambda>g. case report_space_failure os ?e (wf_path (file_of s ?f)) g of (_, g', es) \<Rightarrow> (g', es)) ?t else ?t)"
    have w: "worsens s T" unfolding T_def by (auto intro: worsens_trans [OF wt])
    have fs: "aw_files ?t = aw_files s" by (simp add: settle_lease_def)
    have "finish_data_attempt os posted ans r b s =
      upd_buf b (\<lambda>x. x\<lparr>bf_stage := B_retry\<rparr>) (completion_wake posted ((upd_buf b ?pl T)\<lparr>aw_retry_queue := aw_retry_queue T @ [?item]\<rparr>))"
      using True fs by (simp add: finish_data_attempt_def defer_space_work_def Let_def T_def)
    also have "\<dots> = completion_wake posted (upd_buf b (\<lambda>x. x\<lparr>bf_probe_lease := empty_lease, bf_stage := B_retry\<rparr>) (T\<lparr>aw_retry_queue := aw_retry_queue T @ [?item]\<rparr>))"
      using b(1) worsens_buf(1) [OF w] by (simp add: completion_wake_def upd_buf_def)
    finally have eq: "finish_data_attempt os posted ans r b s =
      completion_wake posted (upd_buf b (\<lambda>x. x\<lparr>bf_probe_lease := empty_lease, bf_stage := B_retry\<rparr>) (T\<lparr>aw_retry_queue := aw_retry_queue T @ [?item]\<rparr>))" .
    have "writer_inv c disk (upd_buf b (\<lambda>x. x\<lparr>bf_probe_lease := empty_lease, bf_stage := B_retry\<rparr>) (T\<lparr>aw_retry_queue := aw_retry_queue T @ [?item]\<rparr>))"
      by (rule inv_retry [OF writer_inv_worsens [OF inv w]]) (use worsens_buf [OF w] worsens_core [OF w f(2)] b True in auto)
    then show ?thesis unfolding eq by (rule writer_inv_worsens) simp
  next
    case False
    let ?u = "upd_buf b ?pl ?t"
    let ?v = "if ar_kind r = Space_failure then record_failure os ?f (hresult_from_win32 (ar_error r)) (ar_error r) 0 ?u else ?u"
    let ?n = "bf_size (buf_of s b) - bf_transferred (buf_of s b)"
    let ?w = "if ar_kind r \<noteq> Succeeded \<and> ?n \<noteq> 0 then meter (account_discarded (of_nat ?n)) ?v else ?v"
    have bt: "b < length (aw_buffers ?t)" using b(1) worsens_buf(1) [OF wt] by simp
    have iu: "writer_inv c disk ?u" by (rule inv_lease [OF writer_inv_worsens [OF inv wt] bt])
    have wv: "worsens ?u ?v" by simp
    have ww: "worsens ?v ?w" by simp
    note w = worsens_trans [OF wv ww]
    note wb = worsens_buf [OF w]
    have bu: "buf_file ?u b = ?f" "bf_stage (buf_of ?u b) = B_finish r" "?f < length (aw_files ?u)"
      using buf_upd [OF bt, of b ?pl] worsens_buf [OF wt] b(2) f(2) by (simp_all add: buf_file_def)
    have "doomed ?w ?f" if sp: "ar_kind r = Space_failure"
    proof -
      have "doomed ?v ?f" using record_failure_doomed [OF bu(3)] sp by simp
      moreover have "?f < length (aw_files ?v)" using bu(3) worsens_buf(3) [OF wv] by simp
      moreover have "wf_job (file_of ?v ?f) < length (aw_jobs ?v)" by (rule inv_job [OF writer_inv_worsens [OF iu wv]]) fact
      ultimately show ?thesis by (intro worsens_doomed [OF ww])
    qed
    then have "writer_inv c disk (release_buffer ans b ?w)"
      using bu wb bt by (intro release_buffer_inv [OF writer_inv_worsens [OF iu w], of b r]) auto
    moreover have "finish_data_attempt os posted ans r b s = release_buffer ans b ?w"
      unfolding finish_data_attempt_def Let_def if_not_P [OF False] ..
    ultimately show ?thesis by simp
  qed
qed

section \<open>Items that leave a queue\<close>

lemma inv_drop_close:
  assumes inv: "writer_inv c disk s"
  shows "aw_work_queue s = Work_close f e # q \<Longrightarrow> writer_inv c disk (s\<lparr>aw_work_queue := q, aw_queued_jobs := n\<rparr>)"
    "aw_retry_queue s = p @ Work_close f e # q \<Longrightarrow> writer_inv c disk (s\<lparr>aw_retry_queue := p @ q\<rparr>)"
proof -
  have r: "result_ok s k (buf_of s b)" if "b < length (aw_buffers s)" "bf_file (buf_of s b) = Some k" for b k
    using inv_buf [OF inv that(1)] that(2) by (simp add: buf_ok_def)
  have l: "lists_ok s" by (rule inv_lists [OF inv])
  {
    assume q: "aw_work_queue s = Work_close f e # q"
    let ?s = "s\<lparr>aw_work_queue := q, aw_queued_jobs := n\<rparr>"
    have st: "start ?s b = start s b" for b by (simp add: start_def buf_file_def q split: buffer_stage.splits)
    have fl: "failing ?s k = failing s k" for k
      by (simp add: failing_def doomed_def nonempty_buffers_def terminal_job_def terminal_result_locked_def)
    show "writer_inv c disk ?s" by (rule inv_relocate [OF inv]) (use st r fl l q in \<open>auto simp: lists_ok_def\<close>)
  next
    assume q: "aw_retry_queue s = p @ Work_close f e # q"
    let ?s = "s\<lparr>aw_retry_queue := p @ q\<rparr>"
    have st: "start ?s b = start s b" for b by (simp add: start_def buf_file_def split: buffer_stage.splits)
    have fl: "failing ?s k = failing s k" for k
      by (simp add: failing_def doomed_def nonempty_buffers_def terminal_job_def terminal_result_locked_def)
    show "writer_inv c disk ?s" by (rule inv_relocate [OF inv]) (use st r fl l q in \<open>auto simp: lists_ok_def\<close>)
  }
qed

lemma inv_enqueued:
  assumes "writer_inv c disk s" "f < length (aw_files s)" "wf_close_enqueued (file_of s f)"
  shows "wf_close_requested (file_of s f)" "wf_outstanding_data (file_of s f) = 0" "nonempty_buffers s f = {}"
proof -
  show "wf_close_requested (file_of s f)" and o: "wf_outstanding_data (file_of s f) = 0"
    using inv_file [OF assms(1,2)] assms(3) unfolding file_ok_def Let_def by blast+
  have "wf_outstanding_data (file_of s f) = card (nonempty_buffers s f)"
    using inv_file [OF assms(1,2)] unfolding file_ok_def Let_def by blast
  then show "nonempty_buffers s f = {}" using o by simp
qed

text \<open>The close of a file that just left its queue begins.\<close>

lemma inv_begin_close:
  assumes inv: "writer_inv c disk s" and f: "f < length (aw_files s)" "wf_close_enqueued (file_of s f)" "\<not> past_begin (wf_closing (file_of s f))"
      "wf_closing (file_of s f) \<noteq> C_none"
    and ab: "f \<notin> set (close_items (aw_work_queue s)) \<union> set (close_items (aw_retry_queue s))"
  shows "writer_inv c disk (upd_file f (\<lambda>x. x\<lparr>wf_closing := C_begin l\<rparr>) s)"
proof -
  have fo: "file_ok c disk s f" by (rule inv_file [OF inv f(1)])
  have eq: "upd_file f (\<lambda>x. x\<lparr>wf_closing := C_begin l\<rparr>) s = upd_file f (\<lambda>x. x\<lparr>wf_close_enqueued := True, wf_closing := C_begin l\<rparr>) s"
    by (rule upd_file_cong) (use f(2) in simp)
  have "open_ok s f" using fo by (simp add: file_ok_def Let_def)
  then have "open_ok (upd_file f (\<lambda>x. x\<lparr>wf_close_enqueued := True, wf_closing := C_begin l\<rparr>) s) f" using open_ok_closing f settled_past by blast
  moreover have "\<not> wf_closed (file_of s f)" using fo f(4) unfolding file_ok_def Let_def by blast
  moreover note inv_enqueued [OF inv f(1,2)]
  ultimately show ?thesis unfolding eq by (intro inv_closing [OF inv f(1) ab]) auto
qed

lemma inv_resume_data:
  assumes inv: "writer_inv c disk s" and b: "b < length (aw_buffers s)"
    and g: "bf_file (g (buf_of s b)) = bf_file (buf_of s b)" "bf_bytes (g (buf_of s b)) = bf_bytes (buf_of s b)"
      "bf_stage (g (buf_of s b)) = B_attempt" "bf_output_offset (g (buf_of s b)) = start s b" "bf_transferred (g (buf_of s b)) = moved (buf_of s b)"
      "bf_stage (buf_of s b) = B_queued \<or> bf_stage (buf_of s b) = B_retry"
    and st: "\<And>k. k < length (aw_buffers s) \<Longrightarrow> bf_stage (buf_of s k) = B_queued \<Longrightarrow> k \<noteq> b \<Longrightarrow>
      map_of (data_items (aw_work_queue s')) k = map_of (data_items (aw_work_queue s)) k"
    and s': "aw_files s' = aw_files s" "aw_jobs s' = aw_jobs s" "aw_stopping s' = aw_stopping s" "aw_buffers s' = aw_buffers s"
    and l: "lists_ok (upd_buf b g s')"
  shows "writer_inv c disk (upd_buf b g s')" (is "writer_inv c disk ?s")
proof -
  have bu: "buf_of ?s k = (if k = b then g (buf_of s b) else buf_of s k)" if "k < length (aw_buffers s)" for k
    using buf_upd [of k s'] that s' by simp
  have start: "start ?s k = start s k" if k: "k < length (aw_buffers s)" for k
  proof (cases "k = b")
    case True
    then show ?thesis using bu [OF k] g by (simp add: start_def)
  next
    case False
    then show ?thesis using bu [OF k] st [OF k] s' by (auto simp: start_def buf_file_def split: buffer_stage.splits)
  qed
  show ?thesis
  proof (rule inv_relocate [OF inv _ _ _ _ _ _ _ l])
    fix k assume k: "k < length (aw_buffers s)"
    show "bf_file (buf_of ?s k) = bf_file (buf_of s k) \<and> bf_bytes (buf_of ?s k) = bf_bytes (buf_of s k) \<and> start ?s k = start s k \<and>
        moved (buf_of ?s k) = moved (buf_of s k) \<and> (bf_stage (buf_of ?s k) = B_staging \<longleftrightarrow> bf_stage (buf_of s k) = B_staging) \<and>
        (bf_stage (buf_of ?s k) = B_free \<longleftrightarrow> bf_stage (buf_of s k) = B_free)"
      using bu [OF k] start [OF k] g by (auto simp: moved_def)
    fix m assume m: "bf_file (buf_of s k) = Some m"
    have "result_ok s m (buf_of s k)" using inv_buf [OF inv k] m by (auto simp: buf_ok_def)
    then show "result_ok s m (buf_of ?s k)" using bu [OF k] g(3) by (auto simp: result_ok_def)
  next
    fix k assume k: "failing s k"
    show "failing ?s k" by (rule failing_mono [OF k]) (use bu g s' in \<open>auto split: if_splits\<close>)
  qed (use s' in simp_all)
qed

lemma dequeue_work_inv:
  assumes inv: "writer_inv c disk s"
  shows "writer_inv c disk (dequeue_work s)"
proof (cases "aw_work_queue s")
  case Nil
  then show ?thesis using inv by (simp add: dequeue_work_def)
next
  case (Cons item q)
  have l: "lists_ok s" by (rule inv_lists [OF inv])
  let ?s = "s\<lparr>aw_work_queue := q, aw_queued_jobs := aw_queued_jobs s - 1\<rparr>"
  show ?thesis
  proof (cases item)
    case (Work_data b off e)
    have b: "b < length (aw_buffers s)" "bf_stage (buf_of s b) = B_queued" using l Cons Work_data by (auto simp: lists_ok_def)
    let ?g = "\<lambda>x. x\<lparr>bf_output_offset := off, bf_transferred := 0, bf_stage := B_attempt\<rparr>"
    have bu: "buf_of (upd_buf b ?g ?s) k = (if k = b then ?g (buf_of s b) else buf_of s k)" if "k < length (aw_buffers s)" for k
      using buf_upd [of k ?s b ?g] that by simp
    have "lists_ok (upd_buf b ?g ?s)"
    proof -
      have "{k. k < length (aw_buffers s) \<and> bf_stage (buf_of (upd_buf b ?g ?s) k) = t} = {k. k < length (aw_buffers s) \<and> bf_stage (buf_of s k) = t}"
        if "t = B_free \<or> t = B_retry" for t using bu b(2) that by (auto split: if_splits)
      moreover have "{k. k < length (aw_buffers s) \<and> bf_stage (buf_of (upd_buf b ?g ?s) k) = B_queued} =
          {k. k < length (aw_buffers s) \<and> bf_stage (buf_of s k) = B_queued} - {b}" using bu by (auto split: if_splits)
      moreover have "b \<notin> fst ` set (data_items q)" using l Cons Work_data by (auto simp: lists_ok_def)
      ultimately show ?thesis using l Cons Work_data by (auto simp: lists_ok_def)
    qed
    then have "writer_inv c disk (upd_buf b ?g ?s)"
      using b Cons Work_data by (intro inv_resume_data [OF inv b(1)]) (auto simp: start_def moved_def)
    then show ?thesis using Cons Work_data by (simp add: dequeue_work_def)
  next
    case (Work_close f e)
    have f: "f < length (aw_files s)" "wf_close_enqueued (file_of s f)" "wf_closing (file_of s f) = C_queued" "f \<notin> set (close_items q)"
      "f \<notin> set (close_items (aw_retry_queue s))" using l Cons Work_close by (auto simp: lists_ok_def)
    have "writer_inv c disk ?s" by (rule inv_drop_close(1) [OF inv]) (use Cons Work_close in simp)
    then have "writer_inv c disk (upd_file f (\<lambda>x. x\<lparr>wf_closing := C_begin empty_lease\<rparr>) ?s)"
      by (rule inv_begin_close) (use f in auto)
    then show ?thesis using Cons Work_close by (simp add: dequeue_work_def)
  qed
qed

lemma pick_retry_split:
  assumes "pick_retry xs s = (found, s')"
  shows "worsens s s'" "found = Some (i, l, q) \<Longrightarrow> \<exists>p r. xs = p @ i # r \<and> q = p @ r"
proof -
  have "worsens s s' \<and> (\<forall>i l q. found = Some (i, l, q) \<longrightarrow> (\<exists>p r. xs = p @ i # r \<and> q = p @ r))"
    using assms
  proof (induction xs s arbitrary: found s' rule: pick_retry.induct)
    case (1 s)
    then show ?case by simp
  next
    case (2 item rest s)
    let ?j = "wf_job (file_of s (item_file s item))" let ?s1 = "synchronize_cancellation_locked ?j s"
    show ?case
    proof (cases "vs_gate (aw_volume ?s1)")
      case None
      then show ?thesis using 2(2) by (auto simp: Let_def)
    next
      case (Some g)
      obtain d g' where d: "try_wait True (terminal_predicate ?j ?s1) g = (d, g')" by (metis prod.exhaust)
      let ?s2 = "?s1\<lparr>aw_volume := (aw_volume ?s1)\<lparr>vs_gate := Some g'\<rparr>\<rparr>"
      have w: "worsens s ?s2" by (rule worsens_trans [OF worsens_sync worsens_frame]) auto
      show ?thesis
      proof (cases "d = Wait_Pending")
        case True
        obtain fd s3 where r: "pick_retry rest ?s2 = (fd, s3)" by (metis prod.exhaust)
        have ih: "worsens ?s2 s3 \<and> (\<forall>i l q. fd = Some (i, l, q) \<longrightarrow> (\<exists>p r. rest = p @ i # r \<and> q = p @ r))"
          using 2(1) [OF refl refl Some d [symmetric] refl True r] .
        have "s' = s3 \<and> found = map_option (\<lambda>(i, l, q). (i, l, item # q)) fd"
          using 2(2) Some d True r by (auto simp: Let_def split: option.splits)
        then show ?thesis using ih worsens_trans [OF w] by (auto intro: exI [of _ "item # p" for p]) (metis append_Cons)
      next
        case False
        then have "s' = ?s2 \<and> (\<exists>l. found = Some (item, l, rest))" using 2(2) Some d by (auto simp: Let_def split: wait_result.splits)
        then show ?thesis using w by (auto intro: exI [of _ "[]"])
      qed
    qed
  qed
  then show "worsens s s'" "found = Some (i, l, q) \<Longrightarrow> \<exists>p r. xs = p @ i # r \<and> q = p @ r" by blast+
qed

lemma resume_item_inv:
  assumes inv: "writer_inv c disk s" and q: "aw_retry_queue s = p @ item # r"
  shows "writer_inv c disk (resume_item os item l (s\<lparr>aw_retry_queue := p @ r\<rparr>))"
proof (cases item)
  case (Work_data b off e)
  have ls: "lists_ok s" by (rule inv_lists [OF inv])
  have b: "b < length (aw_buffers s)" "bf_stage (buf_of s b) = B_retry" using ls q Work_data by (auto simp: lists_ok_def)
  let ?g = "\<lambda>x. x\<lparr>bf_probe_lease := l, bf_stage := B_attempt\<rparr>"
  let ?s = "s\<lparr>aw_retry_queue := p @ r\<rparr>" let ?u = "upd_buf b ?g ?s"
  have bu: "buf_of ?u k = (if k = b then ?g (buf_of s b) else buf_of s k)" if "k < length (aw_buffers s)" for k
    using buf_upd [of k ?s b ?g] that by simp
  have "lists_ok ?u"
  proof -
    have "{k. k < length (aw_buffers s) \<and> bf_stage (buf_of ?u k) = t} = {k. k < length (aw_buffers s) \<and> bf_stage (buf_of s k) = t}"
      if "t = B_free \<or> t = B_queued" for t using bu b(2) that by (auto split: if_splits)
    moreover have "{k. k < length (aw_buffers s) \<and> bf_stage (buf_of ?u k) = B_retry} = {k. k < length (aw_buffers s) \<and> bf_stage (buf_of s k) = B_retry} - {b}"
      using bu by (auto split: if_splits)
    moreover have nb: "b \<notin> fst ` set (data_items p) \<union> fst ` set (data_items r)" using ls q Work_data by (auto simp: lists_ok_def)
    moreover have "fst ` set (data_items (p @ r)) = fst ` set (data_items (aw_retry_queue s)) - {b}" using nb q Work_data by (auto simp del: Un_iff)
    moreover have "distinct (map fst (data_items (p @ r)))" "close_items (p @ r) = close_items (aw_retry_queue s)"
      using ls q Work_data by (simp_all add: lists_ok_def)
    ultimately show ?thesis using ls unfolding lists_ok_def by simp
  qed
  then have "writer_inv c disk ?u"
    using b by (intro inv_resume_data [OF inv b(1)]) (auto simp: start_def moved_def)
  then have "writer_inv c disk (with_gate h ?u)" for h by (rule writer_inv_worsens) (rule worsens_with_gate)
  then have "writer_inv c disk (upd_buf b ?g (with_gate h ?s))" for h by simp
  then show ?thesis unfolding Work_data resume_item.simps .
next
  case (Work_close f e)
  have ls: "lists_ok s" by (rule inv_lists [OF inv])
  have f: "f < length (aw_files s)" "wf_close_enqueued (file_of s f)" "wf_closing (file_of s f) = C_retry" "f \<notin> set (close_items (p @ r))"
    "f \<notin> set (close_items (aw_work_queue s))" using ls q Work_close by (auto simp: lists_ok_def)
  have "writer_inv c disk (s\<lparr>aw_retry_queue := p @ r\<rparr>)" by (rule inv_drop_close(2) [OF inv]) (use q Work_close in simp)
  then have "writer_inv c disk (upd_file f (\<lambda>x. x\<lparr>wf_closing := C_begin l\<rparr>) (s\<lparr>aw_retry_queue := p @ r\<rparr>))"
    by (rule inv_begin_close) (use f in auto)
  then show ?thesis using Work_close by simp
qed

lemma dispatch_space_retry_inv:
  assumes inv: "writer_inv c disk s"
  shows "writer_inv c disk (dispatch_space_retry os s)"
proof -
  obtain found s1 where p: "pick_retry (aw_retry_queue s) s = (found, s1)" by (metis prod.exhaust)
  have w: "worsens s s1" by (rule pick_retry_split(1) [OF p])
  note i = writer_inv_worsens [OF inv w]
  show ?thesis
  proof (cases found)
    case None
    then show ?thesis using p i by (simp add: dispatch_space_retry_def)
  next
    case (Some a)
    then obtain item l q where a: "found = Some (item, l, q)" by (metis prod_cases3)
    obtain u v where q: "aw_retry_queue s = u @ item # v" "q = u @ v" using pick_retry_split(2) [OF p a] by blast
    have "aw_retry_queue s1 = u @ item # v" using w q by (simp add: worsens_def)
    then show ?thesis using resume_item_inv [OF i] p a q by (simp add: dispatch_space_retry_def)
  qed
qed

end
