(* ===== verification/Writer_Producers.thy ===== *)
theory Writer_Producers
  imports Writer_Threads
begin

text \<open>
  The invariant of the asynchronous writer under the regions a producer runs: writing, skipping bytes that an
  earlier attempt confirmed, and requesting the close of a file.
\<close>

section \<open>Changes of one file and one of its buffers\<close>

lemma inv_local:
  assumes inv: "writer_inv c disk s" and f: "f < length (aw_files s)"
    and b: "b < length (aw_buffers s) \<Longrightarrow> bf_file (buf_of s b) = Some f \<or> bf_file (buf_of s b) = None"
      "b < length (aw_buffers s) \<Longrightarrow> bf_file (buf_of s' b) = Some f \<or> bf_file (buf_of s' b) = None"
    and eq: "length (aw_files s') = length (aw_files s)" "length (aw_buffers s') = length (aw_buffers s)"
      "aw_jobs s' = aw_jobs s" "aw_stopping s' = aw_stopping s"
    and others: "\<And>k. k < length (aw_files s) \<Longrightarrow> k \<noteq> f \<Longrightarrow> file_of s' k = file_of s k"
      "\<And>k. k < length (aw_buffers s) \<Longrightarrow> k \<noteq> b \<Longrightarrow> buf_of s' k = buf_of s k \<and> start s' k = start s k"
    and same: "wf_job (file_of s' f) = wf_job (file_of s f)" "wf_failed (file_of s' f) = wf_failed (file_of s f)"
      "wf_gated (file_of s' f) = wf_gated (file_of s f)" "wf_written_ranges (file_of s' f) = wf_written_ranges (file_of s f)"
      "previous_writes (file_of s' f) = previous_writes (file_of s f)"
    and nx: "wf_next_write_offset (file_of s f) \<le> wf_next_write_offset (file_of s' f)"
    and sb: "\<And>k. wf_staging_buffer (file_of s f) = Some k \<Longrightarrow> k \<noteq> b \<Longrightarrow> wf_staging_buffer (file_of s' f) = Some k"
    and nf: "\<And>r. b < length (aw_buffers s) \<Longrightarrow> bf_stage (buf_of s b) \<noteq> B_finish r"
    and ap: "\<And>k. b < length (aw_buffers s) \<Longrightarrow> k < length (aw_buffers s) \<Longrightarrow> k \<noteq> b \<Longrightarrow> bf_file (buf_of s k) = Some f \<Longrightarrow> bf_stage (buf_of s k) \<noteq> B_staging \<Longrightarrow>
        bf_file (buf_of s' b) = Some f \<Longrightarrow> bf_stage (buf_of s' b) \<noteq> B_staging \<Longrightarrow>
        unat (start s k) + bf_size (buf_of s k) \<le> unat (start s' b)"
    and l: "lists_ok s'" and bo: "b < length (aw_buffers s) \<Longrightarrow> buf_ok c s' b" and fo: "file_ok c disk s' f"
  shows "writer_inv c disk s'"
proof -
  have tj: "terminal_job s' j = terminal_job s j" for j by (rule terminal_same [OF eq(3,4)])
  have pe: "pending s' k = pending s k" if "k < length (aw_buffers s)" "k \<noteq> b" for k
    using others(2) [OF that] by (simp add: pending_def)
  have fl: "failing s' k" if k: "k < length (aw_files s)" "failing s k" for k
  proof -
    have fk: "wf_job (file_of s' k) = wf_job (file_of s k)" "wf_failed (file_of s' k) = wf_failed (file_of s k)"
      "wf_gated (file_of s' k) = wf_gated (file_of s k)" using others(1) [OF k(1)] same by (cases "k = f"; simp)+
    have "x \<in> nonempty_buffers s' k \<and> bf_stage (buf_of s' x) = B_finish r" if "x \<in> nonempty_buffers s k" "bf_stage (buf_of s x) = B_finish r" for x r
      using that nf others(2) [of x] eq by (cases "x = b") (auto simp: nonempty_buffers_def)
    then show ?thesis using k(2) unfolding failing_def doomed_def fk tj by blast
  qed
  have "apart s'"
    unfolding apart_def
  proof (intro allI impI)
    fix x y assume xy: "x < length (aw_buffers s')" "y < length (aw_buffers s')" "x \<noteq> y" "bf_file (buf_of s' x) \<noteq> None"
      "bf_file (buf_of s' x) = bf_file (buf_of s' y)" "bf_stage (buf_of s' x) \<noteq> B_staging" "bf_stage (buf_of s' y) \<noteq> B_staging"
    have "apart s" using inv by (simp add: writer_inv_def)
    show "unat (start s' x) + bf_size (buf_of s' x) \<le> unat (start s' y) \<or> unat (start s' y) + bf_size (buf_of s' y) \<le> unat (start s' x)"
    proof (cases "x = b \<or> y = b")
      case True
      then show ?thesis using xy b(2) ap [of x] ap [of y] others(2) [of x] others(2) [of y] eq by auto
    next
      case False
      then have o: "buf_of s' x = buf_of s x \<and> start s' x = start s x" "buf_of s' y = buf_of s y \<and> start s' y = start s y"
        using others(2) xy(1,2) eq by simp_all
      then show ?thesis using \<open>apart s\<close> xy eq by (auto simp: apart_def)
    qed
  qed
  moreover have "buf_ok c s' k" if k: "k < length (aw_buffers s)" for k
  proof (cases "k = b")
    case False
    note o = others(2) [OF k False]
    have ok: "buf_ok c s k" by (rule inv_buf [OF inv k])
    show ?thesis
    proof (cases "bf_file (buf_of s k)")
      case None
      then show ?thesis using ok o by (simp add: buf_ok_def)
    next
      case (Some m)
      have m: "m < length (aw_files s)" using ok Some by (simp add: buf_ok_def)
      have "wf_written_ranges (file_of s' m) = wf_written_ranges (file_of s m)" "previous_writes (file_of s' m) = previous_writes (file_of s m)"
        "wf_next_write_offset (file_of s m) \<le> wf_next_write_offset (file_of s' m)"
        "wf_staging_buffer (file_of s m) = Some k \<Longrightarrow> wf_staging_buffer (file_of s' m) = Some k"
        using others(1) [OF m] same nx sb False by (cases "m = f"; simp)+
      moreover have "result_ok s m (buf_of s k) \<Longrightarrow> result_ok s' m (buf_of s k)" using fl [OF m] by (auto simp: result_ok_def)
      ultimately show ?thesis using ok o Some m eq pe [OF k False] unfolding buf_ok_def word_le_nat_alt by auto
    qed
  qed (use bo k in simp)
  moreover have "file_ok c disk s' k" if k: "k < length (aw_files s)" for k
  proof (cases "k = f")
    case False
    note fk = others(1) [OF k False]
    have ok: "file_ok c disk s k" by (rule inv_file [OF inv k])
    have nb: "x \<in> nonempty_buffers s' k \<longleftrightarrow> x \<in> nonempty_buffers s k" "x \<in> nonempty_buffers s k \<Longrightarrow> x \<noteq> b" for x
      using b False others(2) [of x] eq(2) by (cases "x = b"; auto simp: nonempty_buffers_def)+
    have nb': "nonempty_buffers s' k = nonempty_buffers s k" using nb(1) by blast
    have pe': "(\<exists>x\<in>nonempty_buffers s k. i \<in> pending s' x) = (\<exists>x\<in>nonempty_buffers s k. i \<in> pending s x)" for i
      using pe nb(2) by (auto simp: nonempty_buffers_def)
    have bx: "buf_of s' x = buf_of s x" if "wf_staging_buffer (file_of s k) = Some x" for x
    proof -
      have "x < length (aw_buffers s) \<and> bf_file (buf_of s x) = Some k" using ok that by (simp add: file_ok_def Let_def)
      moreover from this have "x \<noteq> b" using b(1) False by auto
      ultimately show ?thesis using others(2) by blast
    qed
    have pr: "producer_ok (c k) s' (file_of s k) = producer_ok (c k) s (file_of s k)"
      using bx by (auto simp: producer_ok_def split: producer_stage.splits)
    have sg: "case wf_staging_buffer (file_of s k) of
          None \<Rightarrow> wf_next_write_offset (file_of s k) = wf_accepted_bytes (file_of s k) \<or> terminal_job s (wf_job (file_of s k))
        | Some x \<Rightarrow> x < length (aw_buffers s) \<and> bf_stage (buf_of s' x) = B_staging \<and> bf_file (buf_of s' x) = Some k \<and>
            unat (wf_next_write_offset (file_of s k)) + bf_size (buf_of s' x) = unat (wf_accepted_bytes (file_of s k))"
      using ok bx unfolding file_ok_def Let_def by (auto split: option.splits)
    have op: "open_ok s k \<Longrightarrow> open_ok s' k" using fl [OF k] fk by (auto simp: open_ok_def Let_def)
    show ?thesis
      using ok op sg fl [OF k] unfolding file_ok_def Let_def fk nb' pe' pr tj eq by blast
  qed (use fo in simp)
  ultimately show ?thesis using l eq by (simp add: writer_inv_def)
qed

section \<open>The staging buffer\<close>

lemma staged:
  assumes "writer_inv c disk s" "f < length (aw_files s)" "wf_staging_buffer (file_of s f) = Some b"
  shows "b < length (aw_buffers s)" "bf_stage (buf_of s b) = B_staging" "bf_file (buf_of s b) = Some f" "buf_file s b = f"
    "unat (wf_next_write_offset (file_of s f)) + bf_size (buf_of s b) = unat (wf_accepted_bytes (file_of s f))"
    "start s b = wf_next_write_offset (file_of s f)"
  using inv_file [OF assms(1,2)] assms(3) by (auto simp: file_ok_def Let_def buf_file_def start_def)

lemma staging_unique:
  assumes "writer_inv c disk s" "k < length (aw_buffers s)" "bf_stage (buf_of s k) = B_staging" "bf_file (buf_of s k) = Some f"
  shows "wf_staging_buffer (file_of s f) = Some k"
  using inv_buf [OF assms(1,2)] assms(3,4) by (simp add: buf_ok_def)

lemma start_local:
  assumes "buf_of s' k = buf_of s k"
    and "bf_stage (buf_of s k) = B_queued \<Longrightarrow> map_of (data_items (aw_work_queue s')) k = map_of (data_items (aw_work_queue s)) k"
    and "bf_stage (buf_of s k) = B_staging \<Longrightarrow>
      wf_next_write_offset (file_of s' (buf_file s k)) = wf_next_write_offset (file_of s (buf_file s k))"
  shows "start s' k = start s k"
  using assms by (auto simp: start_def buf_file_def split: buffer_stage.splits)

lemma producer_idle: "wf_producer x = P_idle \<Longrightarrow> producer_ok c s x"
  by (simp add: producer_ok_def)

fun copying :: "producer_stage \<Rightarrow> bool" where
  "copying (P_copy data consumed previous chunk newly) = True"
| "copying p = False"

text \<open>What a producer that is not copying has to hand over is independent of the buffers.\<close>

lemma producer_same:
  assumes "producer_ok c s x" "wf_producer y = wf_producer x" "wf_accepted_bytes y = wf_accepted_bytes x" "previous_writes y = previous_writes x"
    and "\<not> copying (wf_producer x)"
  shows "producer_ok c s' y"
  using assms by (cases "wf_producer x") (simp_all add: producer_ok_def rest_ok_def)

text \<open>The staging buffer joins the queue; the next one continues after its bytes.\<close>

lemma inv_queue_staged:
  assumes inv: "writer_inv c disk s" and f: "f < length (aw_files s)" "wf_staging_buffer (file_of s f) = Some b"
    and ne: "bf_bytes (buf_of s b) \<noteq> []" and np: "\<not> copying (wf_producer (file_of s f))"
  shows "writer_inv c disk ((upd_file f (\<lambda>x. x\<lparr>wf_staging_buffer := None,
      wf_next_write_offset := wf_next_write_offset (file_of s f) + of_nat (bf_size (buf_of s b))\<rparr>)
    (upd_buf b (\<lambda>x. x\<lparr>bf_stage := B_queued\<rparr>)
      (s\<lparr>aw_work_queue := aw_work_queue s @ [Work_data b (wf_next_write_offset (file_of s f)) 0]\<rparr>)))\<lparr>aw_queued_jobs := q\<rparr>)"
    (is "writer_inv c disk ?s")
proof -
  let ?x = "file_of s f" let ?off = "wf_next_write_offset ?x" let ?n = "bf_size (buf_of s b)"
  note b = staged [OF inv f]
  have nx: "?off + of_nat ?n = wf_accepted_bytes ?x"
  proof -
    have "unat ?off + ?n < 2 ^ 64" using b(5) unsigned_less [of "wf_accepted_bytes ?x", where ?'a = nat] by simp
    then show ?thesis using b(5) by (simp add: word_unat_eq_iff unat_word_ariths unsigned_of_nat take_bit_nat_eq_self)
  qed
  have fu: "file_of ?s k = (if k = f then ?x\<lparr>wf_staging_buffer := None, wf_next_write_offset := wf_accepted_bytes ?x\<rparr> else file_of s k)"
    if "k < length (aw_files s)" for k using that nx by (simp add: upd_file_def nth_list_update)
  have bu: "buf_of ?s k = (if k = b then buf_of s b\<lparr>bf_stage := B_queued\<rparr> else buf_of s k)" if "k < length (aw_buffers s)" for k
    using that by (simp add: upd_file_def upd_buf_def nth_list_update)
  have len: "length (aw_files ?s) = length (aw_files s)" "length (aw_buffers ?s) = length (aw_buffers s)" "aw_jobs ?s = aw_jobs s"
    "aw_stopping ?s = aw_stopping s" "aw_work_queue ?s = aw_work_queue s @ [Work_data b ?off 0]" "aw_retry_queue ?s = aw_retry_queue s"
    "aw_free_buffers ?s = aw_free_buffers s" by simp_all
  have l: "lists_ok s" by (rule inv_lists [OF inv])
  have nq: "b \<notin> fst ` set (data_items (aw_work_queue s))" using l b(2) by (auto simp: lists_ok_def)
  have mo: "map_of (data_items (aw_work_queue ?s)) k = (if k = b then Some ?off else map_of (data_items (aw_work_queue s)) k)" for k
  proof -
    have "map_of (data_items (aw_work_queue s)) b = None" using nq by (simp add: map_of_eq_None_iff)
    then show ?thesis by (cases "map_of (data_items (aw_work_queue s)) k") (auto simp: map_add_def)
  qed
  have st: "start ?s k = start s k" if k: "k < length (aw_buffers s)" for k
  proof (cases "k = b")
    case True
    then show ?thesis using bu [OF k] mo [of k] b(6) by (simp add: start_def)
  next
    case False
    have "buf_file s k \<noteq> f \<and> buf_file s k < length (aw_files s)" if "bf_stage (buf_of s k) = B_staging"
      using staging_unique [OF inv k that, of f] inv_buf_file [OF inv k] that f(2) False by auto
    then show ?thesis using bu [OF k] mo [of k] fu False by (intro start_local) auto
  qed
  have pe: "pending ?s k = pending s k" if k: "k < length (aw_buffers s)" for k
    using st [OF k] bu [OF k] b(2) by (simp add: pending_def moved_def bf_size_def)
  have nb: "nonempty_buffers ?s f = nonempty_buffers s f" using bu by (auto simp: nonempty_buffers_def split: if_splits)
  have tj: "terminal_job ?s j = terminal_job s j" for j by (rule terminal_same [OF len(3,4)])
  have sg: "bf_stage (buf_of ?s k) = (if k = b then B_queued else bf_stage (buf_of s k))" if "k < length (aw_buffers s)" for k
    using bu [OF that] by simp
  have fl: "failing s f \<Longrightarrow> failing ?s f"
  proof -
    assume "failing s f"
    moreover have "x \<in> nonempty_buffers s f \<Longrightarrow> bf_stage (buf_of s x) = B_finish r \<Longrightarrow> bf_stage (buf_of ?s x) = B_finish r" for x r
      using sg [of x] b(2) by (auto simp: nonempty_buffers_def)
    ultimately show ?thesis using fu [OF f(1)] unfolding failing_def doomed_def tj nb by auto
  qed
  have pv: "previous_writes (?x\<lparr>wf_staging_buffer := None, wf_next_write_offset := w\<rparr>) = previous_writes ?x" for w by (simp add: previous_writes_def)
  show ?thesis
  proof (rule inv_local [OF inv f(1), of b])
    show "lists_ok ?s"
    proof -
      have "{k. k < length (aw_buffers s) \<and> bf_stage (buf_of ?s k) = t} = {k. k < length (aw_buffers s) \<and> bf_stage (buf_of s k) = t}"
        if "t = B_free \<or> t = B_retry" for t using sg b(2) that by (auto split: if_splits)
      moreover have "{k. k < length (aw_buffers s) \<and> bf_stage (buf_of ?s k) = B_queued} = insert b {k. k < length (aw_buffers s) \<and> bf_stage (buf_of s k) = B_queued}"
        using sg b(1) by (auto split: if_splits)
      moreover have "wf_close_enqueued (file_of ?s k) = wf_close_enqueued (file_of s k) \<and> wf_closing (file_of ?s k) = wf_closing (file_of s k)"
        if "k < length (aw_files s)" for k using fu [OF that] by simp
      ultimately show ?thesis using l nq unfolding lists_ok_def len by auto
    qed
    show "buf_ok c ?s b"
    proof -
      have "buf_ok c s b" by (rule inv_buf [OF inv b(1)])
      then show ?thesis
        using b f(1) ne nx bu [OF b(1)] fu [OF f(1)] st [OF b(1)] pe [OF b(1)] len(1)
        by (auto simp: buf_ok_def result_ok_def bf_size_def moved_def pv)
    qed
    show "file_ok c disk ?s f"
    proof -
      let ?y = "?x\<lparr>wf_staging_buffer := None, wf_next_write_offset := wf_accepted_bytes ?x\<rparr>"
      have fo: "file_ok c disk s f" by (rule inv_file [OF inv f(1)])
      have core: "wf_job ?y = wf_job ?x" "wf_accepted_bytes ?y = wf_accepted_bytes ?x" "wf_next_write_offset ?y = wf_accepted_bytes ?x"
        "wf_staging_buffer ?y = None" "wf_outstanding_data ?y = wf_outstanding_data ?x" "wf_close_requested ?y = wf_close_requested ?x"
        "wf_close_enqueued ?y = wf_close_enqueued ?x" "wf_closed ?y = wf_closed ?x" "wf_closing ?y = wf_closing ?x" "wf_gated ?y = wf_gated ?x"
        "wf_open_attempted ?y = wf_open_attempted ?x" "wf_handle ?y = wf_handle ?x" "wf_failed ?y = wf_failed ?x"
        "wf_written_ranges ?y = wf_written_ranges ?x" by simp_all
      have fk: "file_of ?s f = ?y" using fu [OF f(1)] by simp
      have pr: "producer_ok (c f) ?s ?y" by (rule producer_same [of _ s ?x]) (use fo np pv in \<open>auto simp: file_ok_def Let_def\<close>)
      have op: "open_ok ?s f" using fo fl fk by (auto simp: open_ok_def Let_def file_ok_def)
      have pe': "(\<exists>x\<in>nonempty_buffers s f. i \<in> pending ?s x) = (\<exists>x\<in>nonempty_buffers s f. i \<in> pending s x)" for i
        using pe by (auto simp: nonempty_buffers_def)
      have cf: "confirmed (wf_written_ranges ?x) \<subseteq> confirmed (previous_writes ?x) \<union> {..<unat (wf_accepted_bytes ?x)}"
      proof -
        have "confirmed (wf_written_ranges ?x) \<subseteq> confirmed (previous_writes ?x) \<union> {..<unat ?off}" using fo unfolding file_ok_def Let_def by blast
        then show ?thesis using b(5) by fastforce
      qed
      show ?thesis
        using fo pr op fl cf unfolding file_ok_def Let_def fk nb pe' tj pv core len option.case by blast
    qed
    show "unat (start s k) + bf_size (buf_of s k) \<le> unat (start ?s b)"
      if k: "k < length (aw_buffers s)" "k \<noteq> b" "bf_file (buf_of s k) = Some f" "bf_stage (buf_of s k) \<noteq> B_staging" for k
    proof -
      have "bf_stage (buf_of s k) \<noteq> B_free" using inv_buf [OF inv k(1)] k(3) by (auto simp: buf_ok_def)
      then have "unat (start s k) + bf_size (buf_of s k) \<le> unat (wf_next_write_offset (file_of s (buf_file s k)))" using buffer_range(1) [OF inv k(1)] k(4) by blast
      moreover have "buf_file s k = f" using k(3) by (simp add: buf_file_def)
      ultimately show ?thesis using st [OF b(1)] b(6) by simp
    qed
    show "wf_next_write_offset (file_of s f) \<le> wf_next_write_offset (file_of ?s f)" using fu [OF f(1)] b(5) by (simp add: word_le_nat_alt)
    show "buf_of ?s k = buf_of s k \<and> start ?s k = start s k" if "k < length (aw_buffers s)" "k \<noteq> b" for k
      using bu [OF that(1)] st [OF that(1)] that(2) by simp
    show "file_of ?s k = file_of s k" if "k < length (aw_files s)" "k \<noteq> f" for k using fu [OF that(1)] that(2) by simp
    show "previous_writes (file_of ?s f) = previous_writes (file_of s f)" using fu [OF f(1)] pv by simp
  qed (use b f bu [OF b(1)] fu [OF f(1)] len in auto)
qed

text \<open>A free buffer becomes the staging buffer of a file.\<close>

lemma inv_take:
  assumes inv: "writer_inv c disk s" and f: "f < length (aw_files s)" "wf_staging_buffer (file_of s f) = None"
    and live: "\<not> terminal_job s (wf_job (file_of s f))" and free: "aw_free_buffers s \<noteq> []" "b = last (aw_free_buffers s)"
  shows "writer_inv c disk (upd_file f (\<lambda>x. x\<lparr>wf_staging_buffer := Some b\<rparr>)
    (upd_buf b (\<lambda>x. x\<lparr>bf_allocated := True, bf_file := Some f, bf_bytes := [], bf_stage := B_staging\<rparr>)
      (s\<lparr>aw_free_buffers := butlast (aw_free_buffers s)\<rparr>)))" (is "writer_inv c disk ?s")
proof -
  let ?x = "file_of s f" let ?g = "\<lambda>x. x\<lparr>bf_allocated := True, bf_file := Some f, bf_bytes := [], bf_stage := B_staging\<rparr>"
  have l: "lists_ok s" by (rule inv_lists [OF inv])
  have mem: "b \<in> set (aw_free_buffers s)" using free by simp
  then have b: "b < length (aw_buffers s)" "bf_stage (buf_of s b) = B_free" using l by (auto simp: lists_ok_def)
  then have nofile: "bf_file (buf_of s b) = None" "bf_bytes (buf_of s b) = []"
    using inv_buf [OF inv b(1)] by (auto simp: buf_ok_def split: option.splits)
  have fo: "file_ok c disk s f" by (rule inv_file [OF inv f(1)])
  have nx: "wf_next_write_offset ?x = wf_accepted_bytes ?x" using fo f(2) live by (simp add: file_ok_def Let_def)
  have fu: "file_of ?s k = (if k = f then ?x\<lparr>wf_staging_buffer := Some b\<rparr> else file_of s k)" if "k < length (aw_files s)" for k
    using that by (simp add: upd_file_def nth_list_update)
  have bu: "buf_of ?s k = (if k = b then ?g (buf_of s b) else buf_of s k)" if "k < length (aw_buffers s)" for k
    using that by (simp add: upd_file_def upd_buf_def nth_list_update)
  have len: "length (aw_files ?s) = length (aw_files s)" "length (aw_buffers ?s) = length (aw_buffers s)" "aw_jobs ?s = aw_jobs s"
    "aw_stopping ?s = aw_stopping s" "aw_work_queue ?s = aw_work_queue s" "aw_retry_queue ?s = aw_retry_queue s"
    "aw_free_buffers ?s = butlast (aw_free_buffers s)" by simp_all
  have st: "start ?s k = start s k" if k: "k < length (aw_buffers s)" "k \<noteq> b" for k
    using bu [OF k(1)] k(2) fu inv_buf_file [OF inv k(1)] by (intro start_local) auto
  have pe: "pending ?s k = pending s k" if "k < length (aw_buffers s)" "k \<noteq> b" for k
    using st [OF that] bu [OF that(1)] that(2) by (simp add: pending_def)
  have nb: "nonempty_buffers ?s f = nonempty_buffers s f" "b \<notin> nonempty_buffers s f"
    using bu nofile by (auto simp: nonempty_buffers_def split: if_splits)
  have tj: "terminal_job ?s j = terminal_job s j" for j by (rule terminal_same [OF len(3,4)])
  have fl: "failing s f \<Longrightarrow> failing ?s f"
  proof -
    assume "failing s f"
    moreover have "x \<in> nonempty_buffers s f \<Longrightarrow> bf_stage (buf_of ?s x) = bf_stage (buf_of s x)" for x
      using bu [of x] nb(2) by (auto simp: nonempty_buffers_def)
    ultimately show ?thesis using fu [OF f(1)] unfolding failing_def doomed_def tj nb by auto
  qed
  have pv: "previous_writes (?x\<lparr>wf_staging_buffer := w\<rparr>) = previous_writes ?x" for w by (simp add: previous_writes_def)
  have size0: "bf_size (buf_of ?s b) = 0" "start ?s b = wf_next_write_offset ?x" "moved (buf_of ?s b) = 0"
    using bu [OF b(1)] fu [OF f(1)] by (simp_all add: bf_size_def start_def buf_file_def moved_def)
  show ?thesis
  proof (rule inv_local [OF inv f(1), of b])
    show "lists_ok ?s"
    proof -
      have "{k. k < length (aw_buffers s) \<and> bf_stage (buf_of ?s k) = t} = {k. k < length (aw_buffers s) \<and> bf_stage (buf_of s k) = t}"
        if "t = B_queued \<or> t = B_retry" for t using bu b(2) that by (auto split: if_splits)
      moreover have "{k. k < length (aw_buffers s) \<and> bf_stage (buf_of ?s k) = B_free} = {k. k < length (aw_buffers s) \<and> bf_stage (buf_of s k) = B_free} - {b}"
        using bu by (auto split: if_splits)
      moreover have "distinct (butlast (aw_free_buffers s)) \<and> set (butlast (aw_free_buffers s)) = set (aw_free_buffers s) - {b}"
      proof -
        have "aw_free_buffers s = butlast (aw_free_buffers s) @ [b]" using free by simp
        moreover have "distinct (aw_free_buffers s)" using l by (simp add: lists_ok_def)
        ultimately show ?thesis by (metis Diff_insert_absorb Un_insert_right distinct.simps(2) distinct_append empty_set insertCI list.simps(15) set_append sup_bot.right_neutral not_distinct_conv_prefix)
      qed
      moreover have "wf_close_enqueued (file_of ?s k) = wf_close_enqueued (file_of s k) \<and> wf_closing (file_of ?s k) = wf_closing (file_of s k)"
        if "k < length (aw_files s)" for k using fu [OF that] by simp
      ultimately show ?thesis using l unfolding lists_ok_def len by auto
    qed
    show "buf_ok c ?s b"
      using bu [OF b(1)] fu [OF f(1)] f(1) size0 by (auto simp: buf_ok_def result_ok_def pending_def bytes_at_def bf_size_def)
    show "file_ok c disk ?s f"
    proof -
      let ?y = "?x\<lparr>wf_staging_buffer := Some b\<rparr>"
      have core: "wf_job ?y = wf_job ?x" "wf_accepted_bytes ?y = wf_accepted_bytes ?x" "wf_next_write_offset ?y = wf_next_write_offset ?x"
        "wf_staging_buffer ?y = Some b" "wf_outstanding_data ?y = wf_outstanding_data ?x" "wf_close_requested ?y = wf_close_requested ?x"
        "wf_close_enqueued ?y = wf_close_enqueued ?x" "wf_closed ?y = wf_closed ?x" "wf_closing ?y = wf_closing ?x" "wf_gated ?y = wf_gated ?x"
        "wf_open_attempted ?y = wf_open_attempted ?x" "wf_handle ?y = wf_handle ?x" "wf_failed ?y = wf_failed ?x"
        "wf_written_ranges ?y = wf_written_ranges ?x" by simp_all
      have fk: "file_of ?s f = ?y" using fu [OF f(1)] by simp
      have np: "\<not> copying (wf_producer ?x)" using fo f(2) by (cases "wf_producer ?x") (auto simp: file_ok_def Let_def producer_ok_def)
      have pr: "producer_ok (c f) ?s ?y" by (rule producer_same [of _ s ?x]) (use fo np pv in \<open>auto simp: file_ok_def Let_def\<close>)
      have op: "open_ok ?s f" using fo fl fk by (auto simp: open_ok_def Let_def file_ok_def)
      have pe': "(\<exists>x\<in>nonempty_buffers s f. i \<in> pending ?s x) = (\<exists>x\<in>nonempty_buffers s f. i \<in> pending s x)" for i
        using pe nb(2) by (auto simp: nonempty_buffers_def)
      have sg: "b < length (aw_buffers s) \<and> bf_stage (buf_of ?s b) = B_staging \<and> bf_file (buf_of ?s b) = Some f \<and>
          unat (wf_next_write_offset ?x) + bf_size (buf_of ?s b) = unat (wf_accepted_bytes ?x)"
        using b(1) bu [OF b(1)] nx size0(1) by simp
      show ?thesis
        using fo pr op fl sg unfolding file_ok_def Let_def fk nb(1) pe' tj pv core len option.case by blast
    qed
    show "buf_of ?s k = buf_of s k \<and> start ?s k = start s k" if "k < length (aw_buffers s)" "k \<noteq> b" for k
      using bu [OF that(1)] st [OF that] that(2) by simp
    show "file_of ?s k = file_of s k" if "k < length (aw_files s)" "k \<noteq> f" for k using fu [OF that(1)] that(2) by simp
    show "previous_writes (file_of ?s f) = previous_writes (file_of s f)" using fu [OF f(1)] pv by simp
  qed (use b f bu [OF b(1)] fu [OF f(1)] len nofile in auto)
qed

text \<open>A chunk that was copied becomes part of the staging buffer and of the file.\<close>

lemma inv_commit:
  assumes inv: "writer_inv c disk s" and f: "f < length (aw_files s)" "wf_staging_buffer (file_of s f) = Some b"
    and p: "wf_producer (file_of s f) = P_copy data consumed previous chunk newly" and nocl: "\<not> wf_close_requested (file_of s f)"
    and g: "g (file_of s f) = (file_of s f)\<lparr>wf_outstanding_data := wf_outstanding_data (file_of s f) + (if previous = 0 then 1 else 0),
      wf_accepted_bytes := wf_accepted_bytes (file_of s f) + of_nat chunk, wf_new_writes := True, wf_producer := P_write data (consumed + chunk)\<rparr>"
  shows "writer_inv c disk (upd_file f g (upd_buf b (\<lambda>x. x\<lparr>bf_bytes := take previous (bf_bytes x) @ take chunk (drop consumed data)\<rparr>) s))"
    (is "writer_inv c disk ?s")
proof -
  let ?x = "file_of s f" let ?acc = "wf_accepted_bytes ?x" let ?y = "g ?x"
  note b = staged [OF inv f]
  have fo: "file_ok c disk s f" by (rule inv_file [OF inv f(1)])
  have po: "rest_ok (c f) ?x data consumed" "0 < chunk" "chunk \<le> length data - consumed" "previous + chunk \<le> kBufferSize" "bf_size (buf_of s b) = previous"
    using fo p f(2) by (auto simp: file_ok_def Let_def producer_ok_def)
  let ?d = "take chunk (drop consumed data)"
  have dl: "length ?d = chunk" using po(3) by simp
  have big: "unat ?acc + (length data - consumed) < 2 ^ 64" "{unat ?acc..<unat ?acc + (length data - consumed)} \<inter> confirmed (previous_writes ?x) = {}"
    "drop consumed data = bytes_at (c f) (unat ?acc) (length data - consumed)" "consumed \<le> length data" using po(1) by (auto simp: rest_ok_def Let_def)
  have dd: "?d = bytes_at (c f) (unat ?acc) chunk" unfolding big(3) by (rule take_bytes_at [OF po(3)])
  have acc: "unat (?acc + of_nat chunk) = unat ?acc + chunk"
    using big(1) po(3) by (simp add: unat_word_ariths unsigned_of_nat take_bit_nat_eq_self)
  have tk: "take previous (bf_bytes (buf_of s b)) = bf_bytes (buf_of s b)" using po(5) by (simp add: bf_size_def)
  have fu: "file_of ?s k = (if k = f then ?y else file_of s k)" if "k < length (aw_files s)" for k
    using that by (simp add: upd_file_def nth_list_update)
  have bu: "buf_of ?s k = (if k = b then buf_of s b\<lparr>bf_bytes := bf_bytes (buf_of s b) @ ?d\<rparr> else buf_of s k)" if "k < length (aw_buffers s)" for k
    using that tk by (simp add: upd_file_def upd_buf_def nth_list_update)
  have len: "length (aw_files ?s) = length (aw_files s)" "length (aw_buffers ?s) = length (aw_buffers s)" "aw_jobs ?s = aw_jobs s"
    "aw_stopping ?s = aw_stopping s" "aw_work_queue ?s = aw_work_queue s" "aw_retry_queue ?s = aw_retry_queue s"
    "aw_free_buffers ?s = aw_free_buffers s" by simp_all
  have core: "wf_job ?y = wf_job ?x" "wf_accepted_bytes ?y = ?acc + of_nat chunk" "wf_next_write_offset ?y = wf_next_write_offset ?x"
    "wf_staging_buffer ?y = Some b" "wf_close_requested ?y = wf_close_requested ?x"
    "wf_close_enqueued ?y = wf_close_enqueued ?x" "wf_closed ?y = wf_closed ?x" "wf_closing ?y = wf_closing ?x" "wf_gated ?y = wf_gated ?x"
    "wf_open_attempted ?y = wf_open_attempted ?x" "wf_handle ?y = wf_handle ?x" "wf_failed ?y = wf_failed ?x"
    "wf_written_ranges ?y = wf_written_ranges ?x" "previous_writes ?y = previous_writes ?x"
    unfolding g using f(2) by (simp_all add: previous_writes_def)
  have nx: "wf_next_write_offset (file_of ?s k) = wf_next_write_offset (file_of s k)" if "k < length (aw_files s)" for k
    using fu [OF that] core by simp
  have st: "start ?s k = start s k" if k: "k < length (aw_buffers s)" for k
  proof (cases "k = b")
    case True
    then show ?thesis using bu [OF k] nx [OF f(1)] b by (simp add: start_def buf_file_def)
  next
    case False
    then show ?thesis using bu [OF k] nx inv_buf_file(2) [OF inv k] by (intro start_local) auto
  qed
  have sz: "bf_size (buf_of ?s b) = previous + chunk" using bu [OF b(1)] po(5) dl by (simp add: bf_size_def)
  have pe: "pending ?s k = pending s k" if "k < length (aw_buffers s)" "k \<noteq> b" for k
    using st [OF that(1)] bu [OF that(1)] that(2) by (simp add: pending_def)
  have pb: "pending s b = {unat (wf_next_write_offset ?x)..<unat ?acc}" "pending ?s b = {unat (wf_next_write_offset ?x)..<unat ?acc + chunk}"
    using b(2,5,6) st [OF b(1)] sz po(5) bu [OF b(1)] by (auto simp: pending_def moved_def)
  have nb: "nonempty_buffers ?s f = insert b (nonempty_buffers s f)"
    using bu b po(2) dl by (auto simp: nonempty_buffers_def split: if_splits)
  have bin: "b \<in> nonempty_buffers s f \<longleftrightarrow> previous \<noteq> 0" using b po(5) by (auto simp: nonempty_buffers_def bf_size_def)
  have tj: "terminal_job ?s j = terminal_job s j" for j by (rule terminal_same [OF len(3,4)])
  have fl: "failing s f \<Longrightarrow> failing ?s f"
  proof -
    assume "failing s f"
    moreover have "x \<in> nonempty_buffers s f \<Longrightarrow> bf_stage (buf_of ?s x) = bf_stage (buf_of s x)" for x
      using bu [of x] by (auto simp: nonempty_buffers_def)
    ultimately show ?thesis using fu [OF f(1)] core unfolding failing_def doomed_def tj nb by auto
  qed
  show ?thesis
  proof (rule inv_local [OF inv f(1), of b])
    show "lists_ok ?s"
    proof -
      have "{k. k < length (aw_buffers s) \<and> bf_stage (buf_of ?s k) = t} = {k. k < length (aw_buffers s) \<and> bf_stage (buf_of s k) = t}" for t
        using bu by auto
      moreover have "wf_close_enqueued (file_of ?s k) = wf_close_enqueued (file_of s k) \<and> wf_closing (file_of ?s k) = wf_closing (file_of s k)"
        if "k < length (aw_files s)" for k using fu [OF that] core by simp
      ultimately show ?thesis using inv_lists [OF inv] unfolding lists_ok_def len by auto
    qed
    show "buf_ok c ?s b"
    proof -
      have bok: "buf_ok c s b" by (rule inv_buf [OF inv b(1)])
      have "bf_bytes (buf_of s b) = bytes_at (c f) (unat (wf_next_write_offset ?x)) previous"
        using bok b po(5) by (simp add: buf_ok_def)
      then have bts: "bf_bytes (buf_of ?s b) = bytes_at (c f) (unat (wf_next_write_offset ?x)) (previous + chunk)"
        using bu [OF b(1)] dd b(5) po(5) by (simp add: bytes_at_add)
      have "pending ?s b \<inter> (confirmed (wf_written_ranges ?x) \<union> confirmed (previous_writes ?x)) = {}"
      proof -
        have "pending s b \<inter> (confirmed (wf_written_ranges ?x) \<union> confirmed (previous_writes ?x)) = {}" using bok b by (simp add: buf_ok_def)
        moreover have "confirmed (wf_written_ranges ?x) \<subseteq> confirmed (previous_writes ?x) \<union> {..<unat (wf_next_write_offset ?x)}"
          using fo unfolding file_ok_def Let_def by blast
        moreover have "{unat ?acc..<unat ?acc + chunk} \<inter> confirmed (previous_writes ?x) = {}" using big(2) po(3) by fastforce
        moreover have "pending ?s b = pending s b \<union> {unat ?acc..<unat ?acc + chunk}" using b(5) unfolding pb by auto
        moreover have "{unat ?acc..<unat ?acc + chunk} \<inter> {..<unat (wf_next_write_offset ?x)} = {}" using b(5) by auto
        ultimately show ?thesis by blast
      qed
      then show ?thesis
        using bts sz po(4) st [OF b(1)] b bu [OF b(1)] fu [OF f(1)] core f(1) by (simp add: buf_ok_def result_ok_def moved_def)
    qed
    show "file_ok c disk ?s f"
    proof -
      have fk: "file_of ?s f = ?y" using fu [OF f(1)] by simp
      have pr: "producer_ok (c f) ?s ?y"
      proof -
        have "drop (consumed + chunk) data = bytes_at (c f) (unat ?acc + chunk) (length data - (consumed + chunk))"
          using big(3) drop_bytes_at [of chunk "c f" "unat ?acc" "length data - consumed"] by (metis add.commute diff_diff_left drop_drop)
        moreover have "{unat ?acc + chunk..<unat ?acc + chunk + (length data - (consumed + chunk))} \<inter> confirmed (previous_writes ?x) = {}"
        proof -
          have "{unat ?acc + chunk..<unat ?acc + chunk + (length data - (consumed + chunk))} \<subseteq> {unat ?acc..<unat ?acc + (length data - consumed)}"
            using po(3) by auto
          then show ?thesis using big(2) by blast
        qed
        moreover have "wf_producer ?y = P_write data (consumed + chunk)" unfolding g by simp
        ultimately show ?thesis using core acc big po(3) by (simp add: producer_ok_def rest_ok_def Let_def)
      qed
      have op: "open_ok ?s f" using fo fl fk core by (auto simp: open_ok_def Let_def file_ok_def)
      have sg: "b < length (aw_buffers s) \<and> bf_stage (buf_of ?s b) = B_staging \<and> bf_file (buf_of ?s b) = Some f \<and>
          unat (wf_next_write_offset ?x) + bf_size (buf_of ?s b) = unat (?acc + of_nat chunk)"
        using b bu [OF b(1)] sz acc po(5) by simp
      have ou: "wf_outstanding_data ?y = card (insert b (nonempty_buffers s f))"
      proof -
        have "wf_outstanding_data ?x = card (nonempty_buffers s f)" using fo unfolding file_ok_def Let_def by blast
        then show ?thesis unfolding g using bin by (auto simp: insert_absorb)
      qed
      have cov: "disk f i = c f i \<or> failing ?s f \<or> (\<exists>x\<in>insert b (nonempty_buffers s f). i \<in> pending ?s x)" if i: "i < unat (?acc + of_nat chunk)" for i
      proof (cases "i < unat ?acc")
        case True
        then have "disk f i = c f i \<or> failing s f \<or> (\<exists>x\<in>nonempty_buffers s f. i \<in> pending s x)"
          using fo unfolding file_ok_def Let_def by blast
        moreover have "i \<in> pending ?s x" if "x \<in> nonempty_buffers s f" "i \<in> pending s x" for x
          using that pe [of x] pb by (cases "x = b") (auto simp: nonempty_buffers_def)
        ultimately show ?thesis using fl by blast
      next
        case False
        then have "i \<in> pending ?s b" using i acc b(5) unfolding pb by simp
        then show ?thesis by blast
      qed
      have nc: "\<not> wf_close_enqueued ?x" "wf_closing ?x = C_none" "\<not> wf_closed ?x"
        using fo nocl unfolding file_ok_def Let_def by blast+
      show ?thesis
        using fo pr op sg ou cov nc unfolding file_ok_def Let_def fk nb tj core len option.case by simp
    qed
    show "buf_of ?s k = buf_of s k \<and> start ?s k = start s k" if "k < length (aw_buffers s)" "k \<noteq> b" for k
      using bu [OF that(1)] st [OF that(1)] that(2) by simp
    show "file_of ?s k = file_of s k" if "k < length (aw_files s)" "k \<noteq> f" for k using fu [OF that(1)] that(2) by simp
  qed (use b f bu [OF b(1)] fu [OF f(1)] len core in auto)
qed

section \<open>Regions of a write\<close>

lemma inv_producer:
  assumes inv: "writer_inv c disk s" and f: "f < length (aw_files s)"
    and g: "g (file_of s f) = (file_of s f)\<lparr>wf_inflight_bytes := n, wf_producer := p\<rparr>"
    and ok: "producer_ok (c f) s ((file_of s f)\<lparr>wf_producer := p\<rparr>)"
  shows "writer_inv c disk (upd_file f g s)"
proof -
  let ?x = "file_of s f" let ?y = "g ?x" let ?s = "upd_file f g s"
  have core: "wf_job ?y = wf_job ?x" "wf_accepted_bytes ?y = wf_accepted_bytes ?x" "wf_next_write_offset ?y = wf_next_write_offset ?x"
    "wf_staging_buffer ?y = wf_staging_buffer ?x" "wf_outstanding_data ?y = wf_outstanding_data ?x" "wf_close_requested ?y = wf_close_requested ?x"
    "wf_close_enqueued ?y = wf_close_enqueued ?x" "wf_closed ?y = wf_closed ?x" "wf_closing ?y = wf_closing ?x" "wf_gated ?y = wf_gated ?x"
    "wf_open_attempted ?y = wf_open_attempted ?x" "wf_handle ?y = wf_handle ?x" "wf_failed ?y = wf_failed ?x"
    "wf_written_ranges ?y = wf_written_ranges ?x" "previous_writes ?y = previous_writes ?x" "wf_producer ?y = p"
    unfolding g by (simp_all add: previous_writes_def)
  have fo: "file_ok c disk s f" by (rule inv_file [OF inv f])
  have fu: "file_of ?s f = ?y" using f by (simp add: file_upd)
  have nb: "nonempty_buffers ?s f = nonempty_buffers s f" by (simp add: nonempty_buffers_def)
  have fl: "failing ?s f = failing s f" using core by (simp add: failing_def doomed_def nb fu)
  have st: "start ?s k = start s k" if "k < length (aw_buffers s)" for k
    using inv_buf_file [OF inv that] file_upd [of "buf_file s k" s f g] core by (auto simp: start_def buf_file_def split: buffer_stage.splits)
  then have pe: "(\<exists>k\<in>nonempty_buffers s f. i \<in> pending ?s k) = (\<exists>k\<in>nonempty_buffers s f. i \<in> pending s k)" for i
    by (auto simp: nonempty_buffers_def pending_def)
  have pv: "previous_writes (?x\<lparr>wf_producer := q\<rparr>) = previous_writes ?x" for q by (simp add: previous_writes_def)
  have pr: "producer_ok (c f) ?s ?y" using ok core by (cases p) (simp_all add: producer_ok_def rest_ok_def pv)
  have op: "open_ok ?s f = open_ok s f" unfolding open_ok_def Let_def fu core fl ..
  have "file_ok c disk ?s f"
    using fo pr unfolding file_ok_def Let_def op fu nb pe fl upd_sel terminal_upd core by blast
  then show ?thesis using core by (intro inv_upd_file [OF inv f]) auto
qed

lemma write_return_inv:
  assumes inv: "writer_inv c disk s" and f: "f < length (aw_files s)"
  shows "writer_inv c disk (write_return f s)"
  unfolding write_return_def by (rule inv_producer [OF inv f, where n = "wf_inflight_bytes (file_of s f)" and p = P_idle]) (simp_all add: producer_idle)

text \<open>The staging buffer is given up when it is empty or its job is over.\<close>

lemma inv_free_staging:
  assumes inv: "writer_inv c disk s" and f: "f < length (aw_files s)" "wf_staging_buffer (file_of s f) = Some b"
    and np: "\<not> copying (wf_producer (file_of s f))"
    and ok: "bf_bytes (buf_of s b) = [] \<or> terminal_job s (wf_job (file_of s f))"
    and g: "g (file_of s f) = (file_of s f)\<lparr>wf_staging_buffer := None, wf_inflight_bytes := n,
      wf_outstanding_data := wf_outstanding_data (file_of s f) - (if bf_bytes (buf_of s b) = [] then 0 else 1)\<rparr>"
  shows "writer_inv c disk (free_buffer b (upd_file f g s))" (is "writer_inv c disk ?s")
proof -
  let ?x = "file_of s f"
  note b = staged [OF inv f]
  have fl: "failing ?s k" if k: "k < length (aw_files s)" "failing s k" for k
  proof -
    have same: "wf_failed (file_of ?s k) = wf_failed (file_of s k)" "wf_job (file_of ?s k) = wf_job (file_of s k)" "wf_gated (file_of ?s k) = wf_gated (file_of s k)"
      using k g by (auto simp: file_upd)
    have "x \<in> nonempty_buffers ?s k \<and> bf_stage (buf_of ?s x) = B_finish r" if "x \<in> nonempty_buffers s k" "bf_stage (buf_of s x) = B_finish r" for x r
      using that b(2) buf_free [of x "upd_file f g s" b] by (auto simp: nonempty_buffers_def)
    then show ?thesis using k(2) unfolding failing_def doomed_def same terminal_free terminal_upd by blast
  qed
  have cov: "pending s b = {} \<or> failing ?s f"
  proof (cases "bf_bytes (buf_of s b) = []")
    case True
    then show ?thesis by (simp add: pending_def bf_size_def)
  next
    case False
    then have "failing s f" using ok by (simp add: failing_def doomed_def)
    then show ?thesis using fl f(1) by blast
  qed
  have np': "wf_producer ?x \<noteq> P_copy d m p q w" for d m p q w using np by auto
  show ?thesis
    by (rule inv_free [OF inv b(1)]) (use b g ok np' cov fl in \<open>auto simp: previous_writes_def\<close>)
qed

lemma meter_commute:
  "meter m (upd_file f g s) = upd_file f g (meter m s)" "meter m (upd_job j h s) = upd_job j h (meter m s)"
  "free_buffer b (meter m s) = meter m (free_buffer b s)" "upd_job j h (upd_file f g s) = upd_file f g (upd_job j h s)"
  by (simp_all add: meter_def upd_file_def upd_job_def upd_buf_def free_buffer_def split: prod.splits)

lemma discard_full:
  assumes "wf_staging_buffer (file_of s f) = Some b" "n = bf_size (buf_of s b)" "n \<noteq> 0"
  shows "discard_staging_locked f s = meter (account_discarded (of_nat n))
    (upd_job (wf_job (file_of s f)) (\<lambda>x. x\<lparr>jb_inflight_bytes := jb_inflight_bytes x - n, jb_pending_jobs := jb_pending_jobs x - 1\<rparr>)
      (free_buffer b (upd_file f (\<lambda>x. x\<lparr>wf_staging_buffer := None, wf_inflight_bytes := wf_inflight_bytes x - n,
        wf_outstanding_data := wf_outstanding_data x - 1\<rparr>) s)))"
proof -
  let ?h = "\<lambda>x. x\<lparr>jb_inflight_bytes := jb_inflight_bytes x - n, jb_pending_jobs := jb_pending_jobs x - 1\<rparr>"
  let ?m = "meter (account_discarded (of_nat n))" let ?j = "wf_job (file_of s f)"
  have "discard_staging_locked f s = free_buffer b (upd_job ?j ?h (upd_file f (\<lambda>x. x\<lparr>wf_inflight_bytes := wf_inflight_bytes x - n,
      wf_outstanding_data := wf_outstanding_data x - 1\<rparr>) (?m (upd_file f (\<lambda>x. x\<lparr>wf_staging_buffer := None\<rparr>) s))))"
    using assms by (simp add: discard_staging_locked_def Let_def)
  then show ?thesis unfolding meter_commute(1) upd_file_twice by (simp add: meter_commute(2,3) upd_job_commute flip: meter_commute(1))
qed

lemma discard_staging_inv:
  assumes inv: "writer_inv c disk s" and f: "f < length (aw_files s)" and np: "\<not> copying (wf_producer (file_of s f))"
    and over: "terminal_job s (wf_job (file_of s f))"
  shows "writer_inv c disk (discard_staging_locked f s)"
proof (cases "wf_staging_buffer (file_of s f)")
  case None
  then show ?thesis using inv by (simp add: discard_staging_locked_def)
next
  case (Some b)
  let ?n = "bf_size (buf_of s b)" let ?j = "wf_job (file_of s f)" let ?none = "\<lambda>x. x\<lparr>wf_staging_buffer := None\<rparr>"
  show ?thesis
  proof (cases "?n = 0")
    case True
    then have "discard_staging_locked f s = free_buffer b (upd_file f ?none s)" using Some by (simp add: discard_staging_locked_def Let_def)
    moreover have "writer_inv c disk (free_buffer b (upd_file f ?none s))"
      by (rule inv_free_staging [OF inv f Some np, where n = "wf_inflight_bytes (file_of s f)"]) (use True over in \<open>auto simp: bf_size_def\<close>)
    ultimately show ?thesis by simp
  next
    case False
    let ?g = "\<lambda>x. x\<lparr>wf_staging_buffer := None, wf_inflight_bytes := wf_inflight_bytes x - ?n, wf_outstanding_data := wf_outstanding_data x - 1\<rparr>"
    let ?h = "\<lambda>x. x\<lparr>jb_inflight_bytes := jb_inflight_bytes x - ?n, jb_pending_jobs := jb_pending_jobs x - 1\<rparr>"
    let ?t = "free_buffer b (upd_file f ?g s)"
    have eq: "discard_staging_locked f s = meter (account_discarded (of_nat ?n)) (upd_job ?j ?h ?t)"
      by (rule discard_full) (use Some False in auto)
    have "writer_inv c disk ?t"
      by (rule inv_free_staging [OF inv f Some np, where n = "wf_inflight_bytes (file_of s f) - ?n"]) (use False over in \<open>auto simp: bf_size_def\<close>)
    moreover have "worsens ?t (upd_job ?j ?h ?t)" by (rule worsens_upd_job) auto
    ultimately show ?thesis unfolding eq by (blast intro: writer_inv_worsens worsens_trans worsens_meter)
  qed
qed

lemma upd_job_twice: "upd_job j h (upd_job j k s) = upd_job j (\<lambda>x. h (k x)) s"
  by (cases "j < length (aw_jobs s)") (simp_all add: upd_job_def list_update_beyond)

lemma free_upd_file: "free_buffer b (upd_file f g s) = upd_file f g (free_buffer b s)"
  by (simp add: free_buffer_def upd_file_def upd_buf_def)

lemma fail_discard:
  assumes f: "f < length (aw_files s)"
  shows "fail_file f hr e (discard_staging_locked f s) = discard_staging_locked f (fail_file f hr e s)"
proof (cases "wf_staging_buffer (file_of s f)")
  case None
  then show ?thesis using f by (simp add: discard_staging_locked_def fail_file_def mark_file_failure_locked_def set_job_error_locked_def file_upd)
next
  case (Some b)
  let ?j = "wf_job (file_of s f)" let ?n = "bf_size (buf_of s b)"
  let ?M = "\<lambda>x. if wf_failed x then x else x\<lparr>wf_failed := True, wf_hresult := hr, wf_win32_error := e\<rparr>"
  let ?E = "\<lambda>x. if jb_first_error x = s_ok then x\<lparr>jb_first_error := hr, jb_first_win32_error := e, jb_terminal_requested := True\<rparr> else x"
  have ff: "fail_file f hr e t = upd_job ?j ?E (upd_file f ?M t)" if "wf_job (file_of t f) = ?j" for t
    using that by (simp add: fail_file_def mark_file_failure_locked_def set_job_error_locked_def)
  let ?t = "fail_file f hr e s"
  have t: "wf_staging_buffer (file_of ?t f) = Some b" "buf_of ?t b = buf_of s b" "wf_job (file_of ?t f) = ?j"
    using f Some by (simp_all add: fail_file_def mark_file_failure_locked_def set_job_error_locked_def file_upd)
  show ?thesis
  proof (cases "?n = 0")
    case True
    have d: "discard_staging_locked f x = free_buffer b (upd_file f (\<lambda>x. x\<lparr>wf_staging_buffer := None\<rparr>) x)"
      if "wf_staging_buffer (file_of x f) = Some b" "buf_of x b = buf_of s b" for x
      using that True by (simp add: discard_staging_locked_def Let_def)
    have j: "wf_job (file_of (free_buffer b (upd_file f (\<lambda>x. x\<lparr>wf_staging_buffer := None\<rparr>) s)) f) = ?j" using f by (simp add: file_upd)
    show ?thesis
      unfolding d [OF t(1,2)] d [OF Some refl] unfolding ff [OF j] ff [OF refl]
      by (simp add: free_upd_file upd_file_twice meter_commute upd_job_commute) (rule upd_file_cong, simp)
  next
    case False
    let ?G = "\<lambda>x. x\<lparr>wf_staging_buffer := None, wf_inflight_bytes := wf_inflight_bytes x - ?n, wf_outstanding_data := wf_outstanding_data x - 1\<rparr>"
    let ?h = "\<lambda>x. x\<lparr>jb_inflight_bytes := jb_inflight_bytes x - ?n, jb_pending_jobs := jb_pending_jobs x - 1\<rparr>"
    let ?m = "meter (account_discarded (of_nat ?n))"
    have d: "discard_staging_locked f x = ?m (upd_job ?j ?h (free_buffer b (upd_file f ?G x)))"
      if "wf_staging_buffer (file_of x f) = Some b" "buf_of x b = buf_of s b" "wf_job (file_of x f) = ?j" for x
      using discard_full [OF that(1), of ?n] that False by simp
    have "aw_files (meter m y) = aw_files y" for m y by (auto simp: meter_def split: prod.splits)
    then have j: "wf_job (file_of (?m (upd_job ?j ?h (free_buffer b (upd_file f ?G s)))) f) = ?j" using f by (simp add: file_upd)
    have A: "upd_job ?j ?E (upd_file f ?M (?m (upd_job ?j ?h (free_buffer b (upd_file f ?G s))))) =
        ?m (upd_file f (\<lambda>x. ?M (?G x)) (upd_job ?j (\<lambda>x. ?E (?h x)) (free_buffer b s)))"
      by (simp add: free_upd_file upd_file_twice upd_job_twice meter_commute(4) del: One_nat_def flip: meter_commute(1,2))
    have B: "?m (upd_job ?j ?h (free_buffer b (upd_file f ?G (upd_job ?j ?E (upd_file f ?M s))))) =
        ?m (upd_file f (\<lambda>x. ?G (?M x)) (upd_job ?j (\<lambda>x. ?h (?E x)) (free_buffer b s)))"
      by (simp add: free_upd_file upd_job_commute upd_file_twice upd_job_twice meter_commute(4) del: One_nat_def)
    have CD: "(\<lambda>x. ?M (?G x)) = (\<lambda>x. ?G (?M x))" "(\<lambda>x. ?E (?h x)) = (\<lambda>x. ?h (?E x))" by (auto simp: fun_eq_iff)
    show ?thesis unfolding d [OF t] d [OF Some refl refl] unfolding ff [OF j] ff [OF refl] unfolding A B CD ..
  qed
qed

unbundle bit_operations_syntax

lemma hresult_failure: "e \<noteq> 0 \<Longrightarrow> hresult_from_win32 e \<noteq> 0"
proof -
  have "bit (a OR 0x80070000 :: u32) 31" for a :: u32 by (simp add: bit_or_iff)
  then have "a OR 0x80070000 \<noteq> (0 :: u32)" for a by (metis bit_0_eq bot_apply bot_bool_def)
  then show "e \<noteq> 0 \<Longrightarrow> hresult_from_win32 e \<noteq> 0" by (simp add: hresult_from_win32_def)
qed

text \<open>A packet that was not posted has an error code: \<^verbatim>\<open>post_work_locked\<close> returns it, and \<^verbatim>\<open>ERROR_SUCCESS\<close> counts as posted.\<close>

definition real_answer :: "post_answer \<Rightarrow> bool" where
  "real_answer ans \<longleftrightarrow> ans \<noteq> Post_failed 0"

lemma fail_file_over:
  assumes "hr \<noteq> s_ok" "f < length (aw_files s)" "wf_job (file_of s f) < length (aw_jobs s)"
  shows "terminal_job (fail_file f hr e s) (wf_job (file_of (fail_file f hr e s) f))"
  using assms by (auto simp: fail_file_def mark_file_failure_locked_def set_job_error_locked_def terminal_job_def terminal_result_locked_def file_upd job_upd)

lemma enqueue_staging_inv:
  assumes inv: "writer_inv c disk s" and f: "f < length (aw_files s)" and np: "\<not> copying (wf_producer (file_of s f))" and r: "real_answer ans"
  shows "writer_inv c disk (snd (enqueue_staging_locked ans f force s))"
proof (cases "wf_staging_buffer (file_of s f)")
  case None
  then show ?thesis using inv by (simp add: enqueue_staging_locked_def)
next
  case (Some b)
  have fd: "writer_inv c disk (fail_file f hr e (discard_staging_locked f s))" if "hr \<noteq> s_ok" for hr e
  proof -
    have w: "worsens s (fail_file f hr e s)" by simp
    have "writer_inv c disk (discard_staging_locked f (fail_file f hr e s))"
    proof (rule discard_staging_inv)
      show "writer_inv c disk (fail_file f hr e s)" by (rule writer_inv_worsens [OF inv w])
      show "terminal_job (fail_file f hr e s) (wf_job (file_of (fail_file f hr e s) f))" by (rule fail_file_over [OF that f inv_job [OF inv f]])
    qed (use f np worsens_buf(3) [OF w] worsens_core [OF w f] in auto)
    then show ?thesis by (simp add: fail_discard [OF f])
  qed
  have q: "writer_inv c disk ((upd_file f (\<lambda>x. x\<lparr>wf_staging_buffer := None,
      wf_next_write_offset := wf_next_write_offset (file_of s f) + of_nat (bf_size (buf_of s b))\<rparr>)
      (upd_buf b (\<lambda>x. x\<lparr>bf_stage := B_queued\<rparr>)
        (s\<lparr>aw_work_queue := aw_work_queue s @ [Work_data b (wf_next_write_offset (file_of s f)) 0]\<rparr>)))\<lparr>aw_queued_jobs := n\<rparr>)"
    if "bf_size (buf_of s b) \<noteq> 0" for n
    by (rule inv_queue_staged [OF inv f Some _ np]) (use that in \<open>auto simp: bf_size_def\<close>)
  show ?thesis
    using inv fd [of e_fail] fd [of e_outofmemory] fd [OF hresult_failure] q Some r
    by (auto simp: enqueue_staging_locked_def Let_def real_answer_def split: post_answer.splits)
qed

text \<open>What queueing leaves as it was.\<close>

definition kept :: "file_state \<Rightarrow> producer_stage \<times> bool \<times> u64 \<times> written_ranges \<times> nat" where
  "kept x = (wf_producer x, wf_close_requested x, wf_accepted_bytes x, previous_writes x, wf_job x)"

lemma kept_sel:
  assumes "kept x = kept y"
  shows "wf_producer x = wf_producer y" "wf_close_requested x = wf_close_requested y" "wf_accepted_bytes x = wf_accepted_bytes y"
    "previous_writes x = previous_writes y" "wf_job x = wf_job y"
  using assms by (simp_all add: kept_def)

lemma worsens_kept: "worsens s t \<Longrightarrow> k < length (aw_files s) \<Longrightarrow> kept (file_of t k) = kept (file_of s k)"
  by (simp add: kept_def worsens_core)

lemma meter_files [simp]: "aw_files (meter m s) = aw_files s"
  by (auto simp: meter_def split: prod.splits)

lemma fail_file_kept [simp]:
  "length (aw_files (fail_file f hr e s)) = length (aw_files s)"
  "k < length (aw_files s) \<Longrightarrow> kept (file_of (fail_file f hr e s) k) = kept (file_of s k)"
  by (rule worsens_buf(3) [OF worsens_fail_file], rule worsens_kept [OF worsens_fail_file])

lemma discard_kept [simp]:
  "length (aw_files (discard_staging_locked f s)) = length (aw_files s)"
  "k < length (aw_files s) \<Longrightarrow> kept (file_of (discard_staging_locked f s) k) = kept (file_of s k)"
  by (auto simp: discard_staging_locked_def Let_def file_upd kept_def previous_writes_def split: option.splits)

lemma enqueue_staging_kept [simp]:
  "length (aw_files (snd (enqueue_staging_locked ans f force s))) = length (aw_files s)"
  "k < length (aw_files s) \<Longrightarrow> kept (file_of (snd (enqueue_staging_locked ans f force s)) k) = kept (file_of s k)"
proof -
  have "kept (x\<lparr>wf_staging_buffer := u, wf_next_write_offset := v\<rparr>) = kept x" for x u v by (simp add: kept_def previous_writes_def)
  then show "length (aw_files (snd (enqueue_staging_locked ans f force s))) = length (aw_files s)"
    "k < length (aw_files s) \<Longrightarrow> kept (file_of (snd (enqueue_staging_locked ans f force s)) k) = kept (file_of s k)"
    by (auto simp: enqueue_staging_locked_def Let_def file_upd split: option.splits post_answer.splits)
qed

lemma enqueue_staging_live:
  assumes "enqueue_staging_locked ans f force s = (True, s')"
  shows "terminal_job s' j = terminal_job s j" "wf_staging_buffer (file_of s f) \<noteq> None"
  using assms by (auto simp: enqueue_staging_locked_def Let_def terminal_job_def terminal_result_locked_def
      split: option.splits post_answer.splits if_splits)

lemma enqueue_staging_result:
  assumes "enqueue_staging_locked ans f force s = (ok, s')"
  shows "length (aw_files s') = length (aw_files s)" "k < length (aw_files s) \<Longrightarrow> kept (file_of s' k) = kept (file_of s k)"
  using enqueue_staging_kept [where ans = ans and f = f and force = force and s = s] assms by simp_all

lemma take_buffer_inv:
  assumes inv: "writer_inv c disk s" and f: "f < length (aw_files s)" and live: "\<not> terminal_job s (wf_job (file_of s f))"
    and t: "take_buffer allocated f s = (r, s')"
  shows "writer_inv c disk s'" "length (aw_files s') = length (aw_files s)" "kept (file_of s' f) = kept (file_of s f)"
    "r = Some (b, newly) \<Longrightarrow> wf_staging_buffer (file_of s' f) = Some b \<and> (newly \<longrightarrow> bf_bytes (buf_of s' b) = [])"
proof -
  have k: "kept (x\<lparr>wf_staging_buffer := u\<rparr>) = kept x" for x u by (simp add: kept_def previous_writes_def)
  have ff: "writer_inv c disk (fail_file f hr e s)" for hr e by (rule writer_inv_worsens [OF inv worsens_fail_file])
  have tk: "writer_inv c disk (upd_file f (\<lambda>x. x\<lparr>wf_staging_buffer := Some (last (aw_free_buffers s))\<rparr>)
      (upd_buf (last (aw_free_buffers s)) (\<lambda>x. x\<lparr>bf_allocated := True, bf_file := Some f, bf_bytes := [], bf_stage := B_staging\<rparr>)
        (s\<lparr>aw_free_buffers := butlast (aw_free_buffers s)\<rparr>)))" if "wf_staging_buffer (file_of s f) = None" "aw_free_buffers s \<noteq> []"
    by (rule inv_take [OF inv f that(1) live that(2) refl])
  have in_range: "last (aw_free_buffers s) < length (aw_buffers s)" if "aw_free_buffers s \<noteq> []"
    using inv_lists [OF inv] last_in_set [OF that] by (auto simp: lists_ok_def)
  show "writer_inv c disk s'" using t inv ff tk by (auto simp: take_buffer_def Let_def split: option.splits if_splits)
  show "length (aw_files s') = length (aw_files s)" "kept (file_of s' f) = kept (file_of s f)"
    using t f k by (auto simp: take_buffer_def Let_def file_upd split: option.splits if_splits)
  show "r = Some (b, newly) \<Longrightarrow> wf_staging_buffer (file_of s' f) = Some b \<and> (newly \<longrightarrow> bf_bytes (buf_of s' b) = [])"
    using t f in_range by (auto simp: take_buffer_def Let_def file_upd upd_file_def upd_buf_def split: option.splits if_splits)
qed

lemma reserve_chunk_inv:
  assumes inv: "writer_inv c disk s" and f: "f < length (aw_files s)" "wf_staging_buffer (file_of s f) = Some b"
    and p: "wf_producer (file_of s f) = P_write data consumed" and newly: "newly \<Longrightarrow> bf_bytes (buf_of s b) = []"
  shows "writer_inv c disk (reserve_chunk f b newly data consumed s)"
proof -
  let ?x = "file_of s f" let ?j = "job_of s (wf_job ?x)" let ?prev = "bf_size (buf_of s b)"
  define chunk where "chunk = min (length data - consumed) (min (kBufferSize - ?prev)
    (min (jb_max_inflight_bytes ?j - min (jb_inflight_bytes ?j) (jb_max_inflight_bytes ?j))
      (kDefaultFileInFlightBytes - min (wf_inflight_bytes ?x) kDefaultFileInFlightBytes)))"
  have eq: "reserve_chunk f b newly data consumed s =
      (if chunk = 0 then (if newly then free_buffer b (upd_file f (\<lambda>x. x\<lparr>wf_staging_buffer := None\<rparr>) s) else s)
       else upd_job (wf_job ?x) (\<lambda>y. y\<lparr>jb_inflight_bytes := jb_inflight_bytes y + chunk\<rparr>)
         (upd_file f (\<lambda>y. y\<lparr>wf_inflight_bytes := wf_inflight_bytes y + chunk, wf_producer := P_copy data consumed ?prev chunk newly\<rparr>) s))"
    by (simp only: reserve_chunk_def Let_def chunk_def)
  have fr: "writer_inv c disk (free_buffer b (upd_file f (\<lambda>x. x\<lparr>wf_staging_buffer := None\<rparr>) s))" if newly
    by (rule inv_free_staging [OF inv f, where n = "wf_inflight_bytes ?x"]) (use newly that p in auto)
  have cp: "writer_inv c disk (upd_file f (\<lambda>y. y\<lparr>wf_inflight_bytes := wf_inflight_bytes y + chunk, wf_producer := P_copy data consumed ?prev chunk newly\<rparr>) s)"
    if "chunk \<noteq> 0"
  proof (rule inv_producer [OF inv f(1)])
    have pv: "previous_writes (?x\<lparr>wf_producer := q\<rparr>) = previous_writes ?x" for q by (simp add: previous_writes_def)
    have "producer_ok (c f) s ?x" using inv_file [OF inv f(1)] unfolding file_ok_def Let_def by blast
    then have "rest_ok (c f) ?x data consumed" using p by (simp add: producer_ok_def)
    moreover have "chunk \<le> length data - consumed" "chunk \<le> kBufferSize - ?prev"
      unfolding chunk_def by (rule min.cobounded1, rule min.coboundedI2 [OF min.cobounded1])
    moreover have "newly \<longrightarrow> ?prev = 0" using newly by (auto simp: bf_size_def)
    ultimately show "producer_ok (c f) s (?x\<lparr>wf_producer := P_copy data consumed ?prev chunk newly\<rparr>)"
      using that f(2) by (auto simp: producer_ok_def rest_ok_def pv)
  qed simp
  have "worsens t (upd_job j (\<lambda>y. y\<lparr>jb_inflight_bytes := jb_inflight_bytes y + chunk\<rparr>) t)" for t j by (rule worsens_upd_job) auto
  then show ?thesis using inv fr cp unfolding eq by (auto intro: writer_inv_worsens)
qed

text \<open>What every part of the first region keeps, the region keeps.\<close>

lemma write_setup_rule:
  assumes inv: "writer_inv c disk s" and f: "f < length (aw_files s)" and p: "wf_producer (file_of s f) = P_write data consumed"
    and r: "real_answer ans"
    and P: "P s" "\<And>ok t. enqueue_staging_locked ans f False s = (ok, t) \<Longrightarrow> P t"
    and take: "\<And>t u res. writer_inv c disk t \<Longrightarrow> f < length (aw_files t) \<Longrightarrow> \<not> terminal_job t (wf_job (file_of t f)) \<Longrightarrow> P t \<Longrightarrow>
      take_buffer allocated f t = (res, u) \<Longrightarrow> P u"
    and reserve: "\<And>t b newly. writer_inv c disk t \<Longrightarrow> f < length (aw_files t) \<Longrightarrow> wf_staging_buffer (file_of t f) = Some b \<Longrightarrow>
      wf_producer (file_of t f) = P_write data consumed \<Longrightarrow> (newly \<Longrightarrow> bf_bytes (buf_of t b) = []) \<Longrightarrow> P t \<Longrightarrow>
      P (reserve_chunk f b newly data consumed t)"
    and return: "\<And>t. writer_inv c disk t \<Longrightarrow> f < length (aw_files t) \<Longrightarrow> wf_producer (file_of t f) = P_write data consumed \<Longrightarrow> P t \<Longrightarrow>
      P (write_return f t)"
  shows "P (snd (write_setup ans allocated f data consumed s))"
proof -
  let ?j = "wf_job (file_of s f)"
  define q where "q = (case wf_staging_buffer (file_of s f) of
      Some b \<Rightarrow> if bf_size (buf_of s b) = kBufferSize then enqueue_staging_locked ans f False s else (True, s) | None \<Rightarrow> (True, s))"
  obtain ok s1 where q1: "q = (ok, s1)" by (metis prod.exhaust)
  have en: "writer_inv c disk (snd (enqueue_staging_locked ans f False s))"
    by (rule enqueue_staging_inv [OF inv f _ r]) (use p in simp)
  have i1: "writer_inv c disk s1" "length (aw_files s1) = length (aw_files s)" "kept (file_of s1 f) = kept (file_of s f)" "P s1"
    using q1 inv en enqueue_staging_result [of ans f False s ok s1] P f
    by (auto simp: q_def split: option.splits if_splits)
  have live: "ok \<Longrightarrow> terminal_job s1 ?j = terminal_job s ?j"
    using q1 enqueue_staging_live(1) [of ans f False s s1] by (auto simp: q_def split: option.splits if_splits)
  obtain t s2 where t: "take_buffer allocated f s1 = (t, s2)" by (metis prod.exhaust)
  have f1: "f < length (aw_files s1)" and j1: "wf_job (file_of s1 f) = ?j" and p1: "wf_producer (file_of s1 f) = P_write data consumed"
    using f i1 kept_sel [OF i1(3)] p by simp_all
  show ?thesis
  proof (cases "terminal_result_locked ?j s \<noteq> s_ok \<or> wf_close_requested (file_of s f)")
    case True
    then show ?thesis using return [OF inv f p P(1)] by (auto simp: write_setup_def Let_def)
  next
    case False
    have eq: "write_setup ans allocated f data consumed s =
       (if \<not> ok then (if terminal_result_locked ?j s1 \<noteq> s_ok then (Some (terminal_result_locked ?j s1, consumed), write_return f s1) else (None, s1))
        else case take_buffer allocated f s1 of
               (Some (b, newly), s2) \<Rightarrow> (None, reserve_chunk f b newly data consumed s2)
             | (None, s2) \<Rightarrow> if aw_free_buffers s1 = [] then (None, s2) else (Some (e_outofmemory, consumed), write_return f s2))"
      unfolding write_setup_def Let_def if_not_P [OF False] q_def [symmetric] q1 by simp
    show ?thesis
    proof (cases ok)
      case False
      then show ?thesis using eq i1(4) return [OF i1(1) f1 p1 i1(4)] by simp
    next
      case True
      have lv: "\<not> terminal_job s1 (wf_job (file_of s1 f))" using live [OF True] False j1 by (simp add: terminal_job_def)
      note tb = take_buffer_inv [OF i1(1) f1 lv t] and P2 = take [OF i1(1) f1 lv i1(4) t]
      have f2: "f < length (aw_files s2)" and p2: "wf_producer (file_of s2 f) = P_write data consumed" using f1 tb(2) kept_sel(1) [OF tb(3)] p1 by simp_all
      show ?thesis
      proof (cases t)
        case None
        then show ?thesis using eq True t P2 return [OF tb(1) f2 p2 P2] by simp
      next
        case (Some a)
        then obtain b newly where a: "t = Some (b, newly)" by (metis prod.exhaust)
        note st = tb(4) [OF a]
        have "P (reserve_chunk f b newly data consumed s2)"
          by (rule reserve [OF tb(1) f2]) (use st p2 P2 in auto)
        then show ?thesis using eq True t a by simp
      qed
    qed
  qed
qed

lemma write_setup_inv:
  assumes inv: "writer_inv c disk s" and f: "f < length (aw_files s)" and p: "wf_producer (file_of s f) = P_write data consumed"
    and r: "real_answer ans"
  shows "writer_inv c disk (snd (write_setup ans allocated f data consumed s))"
proof (rule write_setup_rule [OF inv f p r, where P = "writer_inv c disk"])
  show "writer_inv c disk t" if "enqueue_staging_locked ans f False s = (ok, t)" for ok t
    using enqueue_staging_inv [OF inv f _ r, of False] p that by simp
qed (auto intro: inv take_buffer_inv(1) reserve_chunk_inv write_return_inv)

text \<open>The state after the second region has taken the chunk, before a full buffer is queued.\<close>

definition committed :: "nat \<Rightarrow> nat \<Rightarrow> u8 list \<Rightarrow> nat \<Rightarrow> nat \<Rightarrow> nat \<Rightarrow> awriter \<Rightarrow> awriter" where
  "committed f b data consumed previous chunk s =
     (let j = wf_job (file_of s f);
          s1 = upd_buf b (\<lambda>x. x\<lparr>bf_bytes := take previous (bf_bytes x) @ take chunk (drop consumed data)\<rparr>) s;
          s2 = (if previous = 0
                then upd_job j (\<lambda>x. x\<lparr>jb_pending_jobs := jb_pending_jobs x + 1\<rparr>)
                       (upd_file f (\<lambda>x. x\<lparr>wf_outstanding_data := wf_outstanding_data x + 1\<rparr>) s1)
                else s1)
      in meter (account_accepted (of_nat chunk))
           (upd_file f (\<lambda>x. x\<lparr>wf_accepted_bytes := wf_accepted_bytes x + of_nat chunk, wf_new_writes := True,
                              wf_producer := P_write data (consumed + chunk)\<rparr>) s2))"

lemma commit_chunk_states:
  assumes "s3 = committed f b data consumed previous chunk s" "enqueue_staging_locked ans f False s3 = (ok, s4)"
  shows "snd (commit_chunk ans f b data consumed previous chunk s) \<in> {s3, s4, write_return f s3, write_return f s4}"
proof -
  note d = assms(1) [unfolded committed_def Let_def, symmetric]
  show ?thesis using assms(2) unfolding commit_chunk_def Let_def d by (auto split: bool.splits)
qed

lemma committed_file: "f < length (aw_files s) \<Longrightarrow> s3 = committed f b data consumed previous chunk s \<Longrightarrow>
  f < length (aw_files s3) \<and> wf_producer (file_of s3 f) = P_write data (consumed + chunk)"
  by (auto simp: committed_def Let_def file_upd)

lemma committed_inv:
  assumes inv: "writer_inv c disk s" and f: "f < length (aw_files s)" "wf_staging_buffer (file_of s f) = Some b"
    and p: "wf_producer (file_of s f) = P_copy data consumed previous chunk newly" and nocl: "\<not> wf_close_requested (file_of s f)"
  shows "writer_inv c disk (committed f b data consumed previous chunk s)"
proof -
  let ?x = "file_of s f" let ?j = "wf_job ?x"
  let ?B = "\<lambda>x. x\<lparr>bf_bytes := take previous (bf_bytes x) @ take chunk (drop consumed data)\<rparr>" let ?s1 = "upd_buf b ?B s"
  let ?A = "\<lambda>x. x\<lparr>wf_accepted_bytes := wf_accepted_bytes x + of_nat chunk, wf_new_writes := True, wf_producer := P_write data (consumed + chunk)\<rparr>"
  let ?O = "\<lambda>x. x\<lparr>wf_outstanding_data := wf_outstanding_data x + 1\<rparr>" let ?h = "\<lambda>x. x\<lparr>jb_pending_jobs := jb_pending_jobs x + 1\<rparr>"
  define s3 where "s3 = committed f b data consumed previous chunk s"
  have eq: "s3 = meter (account_accepted (of_nat chunk)) (upd_file f ?A (if previous = 0 then upd_job ?j ?h (upd_file f ?O ?s1) else ?s1))"
    by (simp only: s3_def committed_def Let_def)
  have "writer_inv c disk s3"
  proof (cases "previous = 0")
    case True
    have i: "writer_inv c disk (upd_file f (\<lambda>x. ?A (?O x)) ?s1)"
      by (rule inv_commit [OF inv f p nocl]) (use True in simp)
    have w: "worsens t (upd_job ?j ?h t)" for t by (rule worsens_upd_job) auto
    have "s3 = meter (account_accepted (of_nat chunk)) (upd_job ?j ?h (upd_file f (\<lambda>x. ?A (?O x)) ?s1))"
      unfolding eq meter_commute(4) if_P [OF True] upd_file_twice ..
    then show ?thesis using writer_inv_worsens [OF writer_inv_worsens [OF i w] worsens_meter] by (rule ssubst)
  next
    case False
    have "writer_inv c disk (upd_file f ?A ?s1)" by (rule inv_commit [OF inv f p nocl]) (use False in simp)
    then show ?thesis unfolding eq if_not_P [OF False] by (rule writer_inv_worsens) simp
  qed
  then show ?thesis by (simp only: s3_def)
qed

lemma commit_chunk_inv:
  assumes inv: "writer_inv c disk s" and f: "f < length (aw_files s)" "wf_staging_buffer (file_of s f) = Some b"
    and p: "wf_producer (file_of s f) = P_copy data consumed previous chunk newly" and nocl: "\<not> wf_close_requested (file_of s f)"
    and r: "real_answer ans"
  shows "writer_inv c disk (snd (commit_chunk ans f b data consumed previous chunk s))"
proof -
  define s3 where "s3 = committed f b data consumed previous chunk s"
  have i3: "writer_inv c disk s3" unfolding s3_def by (rule committed_inv [OF inv f p nocl])
  have f3: "f < length (aw_files s3)" "\<not> copying (wf_producer (file_of s3 f))"
    using committed_file [OF f(1) s3_def] by simp_all
  obtain ok s4 where e: "enqueue_staging_locked ans f False s3 = (ok, s4)" by (metis prod.exhaust)
  have i4: "writer_inv c disk s4" "f < length (aw_files s4)"
    using enqueue_staging_inv [OF i3 f3 r, of False] enqueue_staging_result(1) [OF e] e f3 by auto
  show ?thesis
    using commit_chunk_states [OF s3_def e] i3 i4 write_return_inv [OF i3 f3(1)] write_return_inv [OF i4] by auto
qed

lemma write_commit_inv:
  assumes inv: "writer_inv c disk s" and f: "f < length (aw_files s)"
    and p: "wf_producer (file_of s f) = P_copy data consumed previous chunk newly" and r: "real_answer ans"
  shows "writer_inv c disk (snd (write_commit ans f data consumed previous chunk newly s))"
proof -
  let ?x = "file_of s f" let ?j = "wf_job ?x"
  obtain b where b: "wf_staging_buffer ?x = Some b" "bf_size (buf_of s b) = previous" "newly \<Longrightarrow> previous = 0"
    using inv_file [OF inv f] p by (auto simp: file_ok_def Let_def producer_ok_def)
  let ?h = "\<lambda>y. y\<lparr>jb_inflight_bytes := jb_inflight_bytes y - chunk\<rparr>"
  let ?I = "\<lambda>y. y\<lparr>wf_inflight_bytes := wf_inflight_bytes y - chunk\<rparr>"
  let ?P = "\<lambda>y. y\<lparr>wf_producer := P_idle\<rparr>" let ?N = "\<lambda>y. y\<lparr>wf_staging_buffer := None\<rparr>"
  show ?thesis
  proof (cases "terminal_result_locked ?j s \<noteq> s_ok \<or> wf_close_requested ?x")
    case False
    then show ?thesis
      using commit_chunk_inv [OF inv f b(1) p _ r] b(1) by (simp add: write_commit_def Let_def)
  next
    case True
    have ret: "writer_inv c disk (upd_file f ?P s)" using write_return_inv [OF inv f] by (simp add: write_return_def)
    have w: "worsens t (upd_job ?j ?h t)" for t by (rule worsens_upd_job) auto
    have plain: "writer_inv c disk (write_return f (upd_job ?j ?h (upd_file f ?I s)))"
    proof -
      have "writer_inv c disk (upd_file f (\<lambda>y. ?P (?I y)) s)"
        by (rule inv_producer [OF inv f, where n = "wf_inflight_bytes ?x - chunk" and p = P_idle]) (simp_all add: producer_idle)
      then have "writer_inv c disk (upd_job ?j ?h (upd_file f (\<lambda>y. ?P (?I y)) s))" by (rule writer_inv_worsens [OF _ w])
      then show ?thesis by (simp add: write_return_def meter_commute(4) upd_file_twice)
    qed
    have freed: "writer_inv c disk (write_return f (free_buffer b (upd_file f ?N (upd_job ?j ?h (upd_file f ?I s)))))" if newly
    proof -
      have e: "bf_bytes (buf_of s b) = []" using b that by (simp add: bf_size_def)
      have "writer_inv c disk (free_buffer b (upd_file f (\<lambda>y. ?N (?I y)) (upd_file f ?P s)))"
        by (rule inv_free_staging [OF ret, where n = "wf_inflight_bytes ?x - chunk"]) (use f b e in \<open>auto simp: file_upd\<close>)
      then have "writer_inv c disk (upd_job ?j ?h (free_buffer b (upd_file f (\<lambda>y. ?N (?I y)) (upd_file f ?P s))))" by (rule writer_inv_worsens [OF _ w])
      moreover have "upd_file f (\<lambda>y. ?P (?N (?I y))) t = upd_file f (\<lambda>y. ?N (?I (?P y))) t" for t by (rule upd_file_cong) simp
      ultimately show ?thesis
        unfolding write_return_def free_upd_file upd_job_commute meter_commute(4) upd_file_twice by simp
    qed
    show ?thesis using True b plain freed by (simp add: write_commit_def Let_def)
  qed
qed

section \<open>Skipping and closing\<close>

lemma inv_skip:
  assumes inv: "writer_inv c disk s" and f: "f < length (aw_files s)" and p: "wf_producer (file_of s f) = P_idle"
    and e: "\<And>b. wf_staging_buffer (file_of s f) = Some b \<Longrightarrow> bf_bytes (buf_of s b) = []"
    and live: "\<not> terminal_job s (wf_job (file_of s f))"
    and n: "unat (wf_accepted_bytes (file_of s f)) + unat n < 2 ^ 64"
    and good: "\<And>i. unat (wf_accepted_bytes (file_of s f)) \<le> i \<Longrightarrow> i < unat (wf_accepted_bytes (file_of s f)) + unat n \<Longrightarrow> disk f i = c f i"
  shows "writer_inv c disk (upd_file f (\<lambda>x. x\<lparr>wf_next_write_offset := wf_next_write_offset x + n, wf_accepted_bytes := wf_accepted_bytes x + n\<rparr>) s)"
    (is "writer_inv c disk ?s")
proof -
  let ?x = "file_of s f" let ?y = "?x\<lparr>wf_next_write_offset := wf_next_write_offset ?x + n, wf_accepted_bytes := wf_accepted_bytes ?x + n\<rparr>"
  define b where "b = (case wf_staging_buffer ?x of None \<Rightarrow> length (aw_buffers s) | Some b \<Rightarrow> b)"
  have fo: "file_ok c disk s f" by (rule inv_file [OF inv f])
  have sb: "b < length (aw_buffers s) \<Longrightarrow> wf_staging_buffer ?x = Some b" by (simp add: b_def split: option.splits)
  have bs: "wf_staging_buffer ?x = Some k \<Longrightarrow> k = b" for k by (simp add: b_def)
  note stg = staged [OF inv f sb]
  have nx: "wf_next_write_offset ?x = wf_accepted_bytes ?x"
  proof (cases "wf_staging_buffer ?x")
    case None
    then show ?thesis using fo live by (simp add: file_ok_def Let_def)
  next
    case (Some k)
    then show ?thesis using staged(5) [OF inv f Some] e [OF Some] by (simp add: bf_size_def word_unat_eq_iff)
  qed
  have ua: "unat (wf_accepted_bytes ?x + n) = unat (wf_accepted_bytes ?x) + unat n" using n by (simp add: unat_word_ariths)
  have fu: "file_of ?s k = (if k = f then ?y else file_of s k)" if "k < length (aw_files s)" for k using file_upd [OF that] .
  have st: "start ?s k = start s k" if k: "k < length (aw_buffers s)" "k \<noteq> b" for k
  proof -
    have "buf_file s k \<noteq> f \<and> buf_file s k < length (aw_files s)" if "bf_stage (buf_of s k) = B_staging"
      using staging_unique [OF inv k(1) that, of f] inv_buf_file [OF inv k(1)] that bs k(2) by auto
    then show ?thesis using fu by (intro start_local) auto
  qed
  have nb: "nonempty_buffers ?s f = nonempty_buffers s f" by (simp add: nonempty_buffers_def)
  have bn: "b \<notin> nonempty_buffers s f" using e sb by (auto simp: nonempty_buffers_def)
  have fl: "failing ?s f = failing s f" using fu [OF f] by (simp add: failing_def doomed_def nb)
  have core: "wf_job ?y = wf_job ?x" "wf_accepted_bytes ?y = wf_accepted_bytes ?x + n" "wf_next_write_offset ?y = wf_accepted_bytes ?x + n"
    "wf_staging_buffer ?y = wf_staging_buffer ?x" "wf_outstanding_data ?y = wf_outstanding_data ?x" "wf_close_requested ?y = wf_close_requested ?x"
    "wf_close_enqueued ?y = wf_close_enqueued ?x" "wf_closed ?y = wf_closed ?x" "wf_closing ?y = wf_closing ?x" "wf_gated ?y = wf_gated ?x"
    "wf_open_attempted ?y = wf_open_attempted ?x" "wf_handle ?y = wf_handle ?x" "wf_failed ?y = wf_failed ?x"
    "wf_written_ranges ?y = wf_written_ranges ?x" "previous_writes ?y = previous_writes ?x"
    using nx by (simp_all add: previous_writes_def)
  have fk: "file_of ?s f = ?y" using fu [OF f] by simp
  show ?thesis
  proof (rule inv_local [OF inv f, of b])
    show "lists_ok ?s" using inv_lists [OF inv] fu by (auto simp: lists_ok_def)
    show "buf_ok c ?s b" if b: "b < length (aw_buffers s)"
    proof -
      have "bf_bytes (buf_of s b) = []" using e sb [OF b] by blast
      then show ?thesis
        using stg [OF b] fk core f sb [OF b] by (auto simp: buf_ok_def result_ok_def pending_def bf_size_def bytes_at_def moved_def)
    qed
    show "file_ok c disk ?s f"
    proof -
      have pr: "producer_ok (c f) ?s ?y" by (rule producer_idle) (use p in simp)
      have op: "open_ok ?s f = open_ok s f" unfolding open_ok_def Let_def fk core fl ..
      have pe: "(\<exists>k\<in>nonempty_buffers s f. i \<in> pending ?s k) = (\<exists>k\<in>nonempty_buffers s f. i \<in> pending s k)" for i
      proof -
        have "pending ?s k = pending s k" if "k \<in> nonempty_buffers s f" for k
          using that st [of k] bn by (cases "k = b") (auto simp: nonempty_buffers_def pending_def)
        then show ?thesis by simp
      qed
      have sg: "case wf_staging_buffer ?x of
            None \<Rightarrow> wf_accepted_bytes ?x + n = wf_accepted_bytes ?x + n \<or> terminal_job s (wf_job ?x)
          | Some b \<Rightarrow> b < length (aw_buffers s) \<and> bf_stage (buf_of s b) = B_staging \<and> bf_file (buf_of s b) = Some f \<and>
              unat (wf_accepted_bytes ?x + n) + bf_size (buf_of s b) = unat (wf_accepted_bytes ?x + n)"
        using fo e unfolding file_ok_def Let_def by (auto simp: bf_size_def split: option.splits)
      have cf: "confirmed (wf_written_ranges ?x) \<subseteq> confirmed (previous_writes ?x) \<union> {..<unat (wf_accepted_bytes ?x + n)}"
      proof -
        have "confirmed (wf_written_ranges ?x) \<subseteq> confirmed (previous_writes ?x) \<union> {..<unat (wf_accepted_bytes ?x)}"
          using fo nx unfolding file_ok_def Let_def by auto
        then show ?thesis unfolding ua by fastforce
      qed
      have cov: "\<forall>i<unat (wf_accepted_bytes ?x + n). disk f i = c f i \<or> failing s f \<or> (\<exists>k\<in>nonempty_buffers s f. i \<in> pending s k)"
        using fo good unfolding file_ok_def Let_def ua by (meson not_le_imp_less)
      have past: "past_begin (wf_closing ?x) \<or> wf_closed ?x \<longrightarrow> wf_failed ?x \<or> (\<forall>i<unat (wf_accepted_bytes ?x + n). disk f i = c f i)"
        using fo good unfolding file_ok_def Let_def ua by (meson not_le_imp_less)
      show ?thesis
        using fo pr sg cf cov past unfolding file_ok_def Let_def op fk nb pe fl upd_sel terminal_upd core by blast
    qed
    show "buf_of ?s k = buf_of s k \<and> start ?s k = start s k" if "k < length (aw_buffers s)" "k \<noteq> b" for k
      using st [OF that] by simp
    show "file_of ?s k = file_of s k" if "k < length (aw_files s)" "k \<noteq> f" for k using fu [OF that(1)] that(2) by simp
    show "wf_next_write_offset (file_of s f) \<le> wf_next_write_offset (file_of ?s f)" using ua nx by (simp add: fk word_le_nat_alt)
    show "previous_writes (file_of ?s f) = previous_writes (file_of s f)" unfolding fk core ..
    show "bf_file (buf_of s b) = Some f \<or> bf_file (buf_of s b) = None" "bf_file (buf_of ?s b) = Some f \<or> bf_file (buf_of ?s b) = None"
      "bf_stage (buf_of s b) \<noteq> B_finish r" if "b < length (aw_buffers s)" for r
      using stg(2,3) [OF that] by simp_all
    show "unat (start s k) + bf_size (buf_of s k) \<le> unat (start ?s b)" if "b < length (aw_buffers s)" "bf_stage (buf_of ?s b) \<noteq> B_staging" for k
      using stg(2) [OF that(1)] that(2) by simp
    show "wf_staging_buffer (file_of ?s f) = Some k" if "wf_staging_buffer (file_of s f) = Some k" "k \<noteq> b" for k
      using bs that by blast
  qed (simp_all add: fk)
qed

lemma skip_written_inv:
  assumes inv: "writer_inv c disk s" and f: "f < length (aw_files s)" and p: "wf_producer (file_of s f) = P_idle" and r: "real_answer ans"
    and n: "unat (wf_accepted_bytes (file_of s f)) + unat n < 2 ^ 64"
    and prev: "{unat (wf_accepted_bytes (file_of s f))..<unat (wf_accepted_bytes (file_of s f)) + unat n} \<subseteq> confirmed (previous_writes (file_of s f))"
  shows "writer_inv c disk (snd (skip_written ans f n s))"
proof -
  let ?x = "file_of s f" let ?j = "wf_job ?x"
  define q where "q = (case wf_staging_buffer ?x of
      Some b \<Rightarrow> if bf_size (buf_of s b) \<noteq> 0 then enqueue_staging_locked ans f True s else (True, s) | None \<Rightarrow> (True, s))"
  obtain ok s1 where q1: "q = (ok, s1)" by (metis prod.exhaust)
  have en: "writer_inv c disk (snd (enqueue_staging_locked ans f True s))" by (rule enqueue_staging_inv [OF inv f _ r]) (use p in simp)
  have gone: "wf_staging_buffer (file_of s' f) = None" if "enqueue_staging_locked ans f True s = (True, s')" for s'
    using that f by (auto simp: enqueue_staging_locked_def Let_def file_upd split: option.splits post_answer.splits if_splits)
  have i1: "writer_inv c disk s1" "length (aw_files s1) = length (aw_files s)" "kept (file_of s1 f) = kept ?x"
    using q1 inv en enqueue_staging_result [of ans f True s ok s1] f by (auto simp: q_def split: option.splits if_splits)
  note k = kept_sel [OF i1(3)]
  show ?thesis
  proof (cases "terminal_result_locked ?j s \<noteq> s_ok \<or> \<not> ok")
    case True
    then show ?thesis using inv i1(1) q1 by (auto simp: skip_written_def Let_def q_def [symmetric] split: bool.splits)
  next
    case False
    have live: "terminal_job s1 ?j = terminal_job s ?j"
      using q1 False enqueue_staging_live(1) [of ans f True s s1] by (auto simp: q_def split: option.splits if_splits)
    have e: "bf_bytes (buf_of s1 b) = []" if "wf_staging_buffer (file_of s1 f) = Some b" for b
      using that q1 False gone [of s1] by (auto simp: q_def bf_size_def split: option.splits if_splits)
    have un: "unat (ucast n :: u64) = unat n"
      using unsigned_less [of n, where ?'a = nat] by (simp add: unsigned_ucast_eq take_bit_nat_eq_self)
    have "writer_inv c disk (upd_file f (\<lambda>x. x\<lparr>wf_next_write_offset := wf_next_write_offset x + ucast n, wf_accepted_bytes := wf_accepted_bytes x + ucast n\<rparr>) s1)"
    proof (rule inv_skip [OF i1(1)])
      show "\<not> terminal_job s1 (wf_job (file_of s1 f))" using live False k by (simp add: terminal_job_def)
      fix i assume "unat (wf_accepted_bytes (file_of s1 f)) \<le> i" "i < unat (wf_accepted_bytes (file_of s1 f)) + unat (ucast n :: u64)"
      then have "i \<in> confirmed (previous_writes ?x)" using prev k un by auto
      then show "disk f i = c f i" using inv_file [OF inv f] unfolding file_ok_def Let_def by blast
    qed (use f i1 k p n e un in simp_all)
    then show ?thesis using False q1 by (simp add: skip_written_def Let_def q_def [symmetric])
  qed
qed

text \<open>A request to close changes nothing else of the file.\<close>

lemma inv_request:
  assumes inv: "writer_inv c disk s" and f: "f < length (aw_files s)"
  shows "writer_inv c disk (upd_file f (\<lambda>x. x\<lparr>wf_close_requested := True, wf_magic := m\<rparr>) s)" (is "writer_inv c disk ?s")
proof -
  let ?x = "file_of s f" let ?y = "?x\<lparr>wf_close_requested := True, wf_magic := m\<rparr>"
  have fo: "file_ok c disk s f" by (rule inv_file [OF inv f])
  have fu: "file_of ?s f = ?y" using f by (simp add: file_upd)
  have core: "wf_job ?y = wf_job ?x" "wf_accepted_bytes ?y = wf_accepted_bytes ?x" "wf_next_write_offset ?y = wf_next_write_offset ?x"
    "wf_staging_buffer ?y = wf_staging_buffer ?x" "wf_outstanding_data ?y = wf_outstanding_data ?x" "wf_close_requested ?y = True"
    "wf_close_enqueued ?y = wf_close_enqueued ?x" "wf_closed ?y = wf_closed ?x" "wf_closing ?y = wf_closing ?x" "wf_gated ?y = wf_gated ?x"
    "wf_open_attempted ?y = wf_open_attempted ?x" "wf_handle ?y = wf_handle ?x" "wf_failed ?y = wf_failed ?x" "wf_producer ?y = wf_producer ?x"
    "wf_written_ranges ?y = wf_written_ranges ?x" "previous_writes ?y = previous_writes ?x" by (simp_all add: previous_writes_def)
  have nb: "nonempty_buffers ?s f = nonempty_buffers s f" by (simp add: nonempty_buffers_def)
  have fl: "failing ?s f = failing s f" using core by (simp add: failing_def doomed_def nb fu)
  have op: "open_ok ?s f = open_ok s f" unfolding open_ok_def Let_def fu core fl ..
  have st: "start ?s k = start s k" if "k < length (aw_buffers s)" for k
    using inv_buf_file [OF inv that] file_upd [of "buf_file s k" s f] by (auto simp: start_def buf_file_def split: buffer_stage.splits)
  then have pe: "(\<exists>k\<in>nonempty_buffers s f. i \<in> pending ?s k) = (\<exists>k\<in>nonempty_buffers s f. i \<in> pending s k)" for i
    by (auto simp: nonempty_buffers_def pending_def)
  have pr: "producer_ok (c f) ?s ?y = producer_ok (c f) s ?x" unfolding producer_ok_def rest_ok_def core upd_sel ..
  have "file_ok c disk ?s f"
    using fo unfolding file_ok_def Let_def op fu nb pe fl pr upd_sel terminal_upd core by blast
  then show ?thesis using core by (intro inv_upd_file [OF inv f]) auto
qed

lemma close_file_inv:
  assumes inv: "writer_inv c disk s" and f: "f < length (aw_files s)" and p: "wf_producer (file_of s f) = P_idle"
    and r: "real_answer ans"
  shows "writer_inv c disk (close_file ans ans' f magic s)"
proof (cases "wf_close_requested (file_of s f)")
  case True
  then show ?thesis using inv by (simp add: close_file_def)
next
  case False
  let ?j = "wf_job (file_of s f)" let ?s1 = "synchronize_cancellation_locked ?j s"
  let ?u = "upd_file f (\<lambda>x. x\<lparr>wf_close_requested := True, wf_magic := magic\<rparr>) ?s1"
  let ?s2 = "upd_job ?j (\<lambda>x. x\<lparr>jb_pending_jobs := jb_pending_jobs x + 1\<rparr>) ?u"
  let ?s3 = "if terminal_result_locked ?j ?s2 \<noteq> s_ok then discard_staging_locked f ?s2
    else case wf_staging_buffer (file_of ?s2 f) of None \<Rightarrow> ?s2 | Some b \<Rightarrow> snd (enqueue_staging_locked ans f True ?s2)"
  have w1: "worsens s ?s1" by simp
  have f1: "f < length (aw_files ?s1)" using f worsens_buf(3) [OF w1] by simp
  have i2: "writer_inv c disk ?s2"
    by (rule writer_inv_worsens [OF inv_request [OF writer_inv_worsens [OF inv w1] f1] worsens_upd_job]) auto
  have f2: "f < length (aw_files ?s2)" "wf_producer (file_of ?s2 f) = P_idle" "wf_job (file_of ?s2 f) = ?j"
    using f1 p worsens_core [OF w1 f] by (simp_all add: file_upd)
  have i3: "writer_inv c disk ?s3" and f3: "f < length (aw_files ?s3)"
    using i2 f2 discard_staging_inv [OF i2 f2(1)] enqueue_staging_inv [OF i2 f2(1) _ r, of True]
    by (auto simp: terminal_job_def split: option.splits)
  have "close_file ans ans' f magic s = (if wf_outstanding_data (file_of ?s3 f) = 0 then snd (enqueue_close_locked ans' f ?s3) else ?s3)"
    unfolding close_file_def Let_def if_not_P [OF False] ..
  then show ?thesis using i3 enqueue_close_inv [OF i3 f3] by simp
qed

end
