(* ===== verification/Writer_Closing.thy ===== *)
theory Writer_Closing
  imports Writer_Producers
begin

text \<open>The invariant of the asynchronous writer under the regions of a close.\<close>

section \<open>The regions of a close\<close>

text \<open>A file that is being closed and whose job is alive is complete, unless it failed.\<close>

lemma closing_complete:
  assumes inv: "writer_inv c disk s" and f: "f < length (aw_files s)" "wf_close_enqueued (file_of s f)"
    and live: "\<not> wf_failed (file_of s f)" "\<not> terminal_job s (wf_job (file_of s f))"
  shows "\<forall>i<unat (wf_accepted_bytes (file_of s f)). disk f i = c f i"
proof -
  note e = inv_enqueued(3) [OF inv f]
  then have "\<not> failing s f" using live by (simp add: failing_def doomed_def)
  then show ?thesis using inv_file [OF inv f(1)] e unfolding file_ok_def Let_def by simp
qed

lemma inv_stage_close:
  assumes inv: "writer_inv c disk s" and f: "f < length (aw_files s)" "wf_close_enqueued (file_of s f)"
    and cl: "wf_closing (file_of s f) \<noteq> C_queued" "wf_closing (file_of s f) \<noteq> C_retry" "wf_closing (file_of s f) \<noteq> C_none"
    and op: "open_ok (upd_file f (\<lambda>x. x\<lparr>wf_close_enqueued := True, wf_closing := cs\<rparr>) s) f"
    and past: "past_begin cs \<Longrightarrow> \<not> wf_failed (file_of s f) \<Longrightarrow> \<forall>i<unat (wf_accepted_bytes (file_of s f)). disk f i = c f i"
  shows "writer_inv c disk (upd_file f (\<lambda>x. x\<lparr>wf_closing := cs\<rparr>) s)"
proof -
  have eq: "upd_file f (\<lambda>x. x\<lparr>wf_closing := cs\<rparr>) s = upd_file f (\<lambda>x. x\<lparr>wf_close_enqueued := True, wf_closing := cs\<rparr>) s"
    by (rule upd_file_cong) (use f(2) in simp)
  have "\<not> wf_closed (file_of s f)" using inv_file [OF inv f(1)] cl(3) unfolding file_ok_def Let_def by blast
  then show ?thesis
    unfolding eq by (rule inv_closing [OF inv f(1) close_absent [OF inv cl(1,2)] inv_enqueued(1,2) [OF inv f] _ op past])
qed

lemma record_failure_fails:
  assumes "f < length (aw_files s)"
  shows "wf_failed (file_of (record_failure os f hr e n s) f)"
proof -
  let ?t = "fail_file f hr e (meter (account_discarded n) s)"
  have "wf_failed (file_of ?t f)" by (rule fail_file_doomed) (use assms in simp)
  then show ?thesis by (simp add: record_failure_def Let_def)
qed

lemma current_error_ok: "current_error j s = (s_ok, s') \<Longrightarrow> \<not> terminal_job s' j"
  by (auto simp: current_error_def Let_def terminal_job_def)

lemma close_begin_inv:
  assumes inv: "writer_inv c disk s" and f: "f < length (aw_files s)" "wf_closing (file_of s f) = C_begin l"
  shows "writer_inv c disk (close_begin os f l s)"
proof -
  let ?j = "wf_job (file_of s f)"
  obtain error s1 where e: "current_error ?j s = (error, s1)" by (metis prod.exhaust)
  obtain x s1' where x: "current_win32_error ?j s1 = (x, s1')" by (metis prod.exhaust)
  let ?s2 = "if error \<noteq> s_ok then record_failure os f error x 0 s1' else s1"
  have w1: "worsens s s1" using worsens_current_error(1) [of s ?j] e by simp
  have w1': "worsens s s1'" using worsens_trans [OF w1] worsens_current_error(2) [of s1 ?j] x by simp
  have w: "worsens s ?s2" using w1 worsens_trans [OF w1' worsens_record_failure] by simp
  have i2: "writer_inv c disk ?s2" by (rule writer_inv_worsens [OF inv w])
  note core = worsens_core [OF w f(1)]
  have f2: "f < length (aw_files ?s2)" using f(1) worsens_buf(3) [OF w] by argo
  have enq: "wf_close_enqueued (file_of s f)" using inv_file [OF inv f(1)] f(2) by (auto simp: file_ok_def Let_def)
  have cl: "wf_closing (file_of ?s2 f) = C_begin l" using core(12) f(2) by argo
  have alive: "\<not> terminal_job ?s2 (wf_job (file_of ?s2 f))" if nf: "\<not> wf_failed (file_of ?s2 f)"
  proof -
    have "error = s_ok"
    proof (rule ccontr)
      assume er: "error \<noteq> s_ok"
      have "f < length (aw_files s1')" using f(1) worsens_buf(3) [OF w1'] by simp
      then show False using record_failure_fails [of f s1'] nf er by simp
    qed
    then show ?thesis using current_error_ok [of ?j s s1] e core(1) by simp
  qed
  have inv': "writer_inv c disk (upd_file f (\<lambda>x. x\<lparr>wf_closing := cs\<rparr>) ?s2)" for cs
  proof (rule inv_stage_close [OF i2 f2])
    show enq2: "wf_close_enqueued (file_of ?s2 f)" using core(7) enq by argo
    have "open_ok ?s2 f" using inv_file [OF i2 f2] by (simp add: file_ok_def Let_def)
    then show "open_ok (upd_file f (\<lambda>x. x\<lparr>wf_close_enqueued := True, wf_closing := cs\<rparr>) ?s2) f"
      by (rule open_ok_closing [OF _ f2]) (simp only: cl settled.simps not_False_eq_True)
    show "\<forall>i<unat (wf_accepted_bytes (file_of ?s2 f)). disk f i = c f i" if "\<not> wf_failed (file_of ?s2 f)"
      by (rule closing_complete [OF i2 f2 enq2 that alive [OF that]])
  qed (simp_all only: cl, simp_all)
  have "\<exists>cs. close_begin os f l s = upd_file f (\<lambda>x. x\<lparr>wf_closing := cs\<rparr>) ?s2"
    using e x by (auto simp: close_begin_def Let_def)
  then show ?thesis using inv' by auto
qed

text \<open>After an attempt to open, a file without a handle has a result that says so.\<close>

lemma try_open_result:
  assumes "try_open_file ans f s = (result, s')" "f < length (aw_files s)" "wf_open_attempted (file_of s' f)" "\<not> wf_handle (file_of s' f)"
  shows "ar_kind result = Permanent_failure \<or> (ar_kind result = Space_failure \<and> \<not> wf_gated (file_of s' f))"
proof -
  have k: "wf_handle (file_of (fail_file f hr e (upd_file f g s)) f) = wf_handle (g (file_of s f))" for hr e g
    using assms(2) by (simp add: fail_file_def mark_file_failure_locked_def set_job_error_locked_def file_upd)
  show ?thesis
    using assms k unfolding try_open_file_def Let_def
    by (auto simp: permanent_def succeeded_def space_failed_def file_upd split: if_splits open_answer.splits)
qed

lemma try_open_core:
  assumes "try_open_file ans f s = (result, s')" "f < length (aw_files s)"
  shows "wf_closing (file_of s' f) = wf_closing (file_of s f)" "wf_close_enqueued (file_of s' f) = wf_close_enqueued (file_of s f)"
    "wf_gated (file_of s' f) = wf_gated (file_of s f)"
  using assms unfolding try_open_file_def Let_def
  by (auto simp: fail_file_def mark_file_failure_locked_def set_job_error_locked_def file_upd split: if_splits open_answer.splits)

lemma close_open_inv:
  assumes inv: "writer_inv c disk s" and f: "f < length (aw_files s)" "wf_closing (file_of s f) = C_open l"
  shows "writer_inv c disk (close_open ans f l s)"
proof -
  obtain result s' where o: "try_open_file ans f s = (result, s')" by (metis prod.exhaust)
  note core = try_open_core [OF o f(1)]
  have f': "f < length (aw_files s')" using try_open_frame(2) [of ans f s] o f(1) by simp
  have enq: "wf_close_enqueued (file_of s f)" using inv_file [OF inv f(1)] f(2) by (auto simp: file_ok_def Let_def)
  let ?cl = "\<lambda>x. x\<lparr>wf_closing := C_settle result l\<rparr>" let ?eq = "\<lambda>x. x\<lparr>wf_close_enqueued := True, wf_closing := C_settle result l\<rparr>"
  have past: "\<forall>i<unat (wf_accepted_bytes (file_of t f)). disk f i = c f i"
    if "writer_inv c disk t" "f < length (aw_files t)" "wf_closing (file_of t f) = C_open l" "\<not> wf_failed (file_of t f)" for t
    using inv_file [OF that(1,2)] that(3,4) unfolding file_ok_def Let_def by simp
  have nc: "\<not> wf_closed (file_of s f)" using inv_file [OF inv f(1)] f(2) by (auto simp: file_ok_def Let_def)
  have "\<not> settled (wf_closing (file_of s f))" using f(2) by simp
  from try_open_inv(1) [OF inv f(1) nc o this] have "writer_inv c disk (upd_file f ?cl s')"
  proof (elim disjE)
    assume i: "writer_inv c disk s' \<and> (ar_kind result = Permanent_failure \<longrightarrow> failing s' f)"
    then have i': "writer_inv c disk s'" by simp
    have "open_ok (upd_file f ?eq s') f" using try_open_result [OF o f(1)] f' by (auto simp: open_ok_def Let_def file_upd)
    then show ?thesis using enq core f(2) past [OF i' f'] by (intro inv_stage_close [OF i' f']) auto
  next
    assume "\<exists>e. result = space_failed e \<and> \<not> wf_gated (file_of s f) \<and> s' = upd_file f (\<lambda>x. x\<lparr>wf_open_attempted := True\<rparr>) s"
    then obtain e where e: "result = space_failed e" "\<not> wf_gated (file_of s f)" "s' = upd_file f (\<lambda>x. x\<lparr>wf_open_attempted := True\<rparr>) s" by blast
    have "open_ok (upd_file f ?eq s) f" using e f(1) by (auto simp: open_ok_def Let_def file_upd space_failed_def)
    then have i: "writer_inv c disk (upd_file f ?cl s)" using enq f(2) past [OF inv f(1)] by (intro inv_stage_close [OF inv f(1)]) auto
    have "writer_inv c disk (upd_file f (\<lambda>x. x\<lparr>wf_open_attempted := True\<rparr>) (upd_file f ?cl s))"
      using e f(1) by (intro inv_upd_open [OF i, of f True True])
        (auto simp: file_core_def previous_writes_def open_ok_def Let_def file_upd upd_file_twice space_failed_def)
    moreover have "upd_file f (\<lambda>x. x\<lparr>wf_open_attempted := True\<rparr>) (upd_file f ?cl s) = upd_file f ?cl s'"
      unfolding e(3) upd_file_twice by (rule upd_file_cong) simp
    ultimately show ?thesis by simp
  qed
  then show ?thesis using o by (simp add: close_open_def)
qed

lemma with_gate_upd_file: "with_gate h (upd_file f g s) = upd_file f g (with_gate h s)"
  by (auto simp: with_gate_def upd_file_def split: option.splits prod.splits)

lemma close_settle_inv:
  assumes inv: "writer_inv c disk s" and f: "f < length (aw_files s)" "wf_closing (file_of s f) = C_settle result0 l"
  shows "writer_inv c disk (close_settle os posted flush f result0 l s)"
proof -
  let ?x = "file_of s f" let ?j = "wf_job ?x"
  obtain error s1 where e: "current_error ?j s = (error, s1)" by (metis prod.exhaust)
  define result where "result = (if error \<noteq> s_ok then terminal_attempt else flush_result flush f result0 s)"
  let ?s2 = "settle_lease os result (wf_path ?x) l s1"
  have w1: "worsens s s1" using worsens_current_error(1) [of s ?j] e by simp
  have w2: "worsens s ?s2" by (rule worsens_trans [OF w1 worsens_settle])
  have enq: "wf_close_enqueued ?x" using inv_file [OF inv f(1)] f(2) by (auto simp: file_ok_def Let_def)
  have complete: "\<forall>i<unat (wf_accepted_bytes ?x). disk f i = c f i" if "\<not> wf_failed ?x"
    using inv_file [OF inv f(1)] f(2) that unfolding file_ok_def Let_def by simp
  show ?thesis
  proof (cases "ar_kind result = Space_failure \<and> wf_gated ?x")
    case True
    let ?e = "if lease_valid l then 0 else ar_error result"
    define T where "T = (if ?e \<noteq> 0 then with_gate (\<lambda>g. case report_space_failure os ?e (wf_path (file_of ?s2 f)) g of (_, g', es) \<Rightarrow> (g', es)) ?s2 else ?s2)"
    have w: "worsens s T" unfolding T_def by (auto intro: worsens_trans [OF w2])
    note core = worsens_core [OF w f(1)]
    have fT: "f < length (aw_files T)" using f(1) worsens_buf(3) [OF w] by simp
    have iT: "writer_inv c disk T" by (rule writer_inv_worsens [OF inv w])
    have "failing T f" if "wf_open_attempted ?x" "\<not> wf_handle ?x" "\<not> wf_closed ?x"
    proof -
      have "result = result0" using True that by (auto simp: result_def flush_result_def terminal_attempt_def split: if_splits)
      moreover have "open_ok s f" using inv_file [OF inv f(1)] by (simp add: file_ok_def Let_def)
      ultimately have "failing s f" using True that f(2) by (auto simp: open_ok_def Let_def)
      then show ?thesis using worsens_failing [OF w f(1) inv_job [OF inv f(1)]] by blast
    qed
    then have "open_ok (upd_file f (\<lambda>x. x\<lparr>wf_close_enqueued := True, wf_closing := C_retry\<rparr>) T) f"
      using fT core by (auto simp: open_ok_def Let_def file_upd failing_def doomed_def nonempty_buffers_def)
    then have i: "writer_inv c disk (upd_file f (\<lambda>x. x\<lparr>wf_closing := C_retry\<rparr>) T)"
      using core f(2) enq by (intro inv_stage_close [OF iT fT]) auto
    have "writer_inv c disk ((upd_file f (\<lambda>x. x\<lparr>wf_closing := C_retry\<rparr>) T)\<lparr>aw_retry_queue := aw_retry_queue (upd_file f (\<lambda>x. x\<lparr>wf_closing := C_retry\<rparr>) T) @ [Work_close f ?e]\<rparr>)"
      by (rule inv_queue_close(2) [OF i]) (use fT core enq close_absent [OF iT, of f] f(2) in \<open>auto simp: file_upd\<close>)
    moreover have "close_settle os posted flush f result0 l s =
        completion_wake posted ((upd_file f (\<lambda>x. x\<lparr>wf_closing := C_retry\<rparr>) T)\<lparr>aw_retry_queue := aw_retry_queue T @ [Work_close f ?e]\<rparr>)"
    proof -
      have "close_settle os posted flush f result0 l s =
          upd_file f (\<lambda>x. x\<lparr>wf_closing := C_retry\<rparr>) (completion_wake posted (T\<lparr>aw_retry_queue := aw_retry_queue T @ [Work_close f ?e]\<rparr>))"
        using e True by (auto simp: close_settle_def Let_def result_def [symmetric] defer_space_work_def T_def)
      then show ?thesis by (simp add: completion_wake_def upd_file_def)
    qed
    ultimately show ?thesis by (simp add: writer_inv_worsens [OF _ worsens_wake])
  next
    case False
    define s3 where "s3 = (if ar_kind result = Space_failure \<or> ar_kind result = Permanent_failure
      then record_failure os f (hresult_from_win32 (ar_error result)) (ar_error result) 0 ?s2 else ?s2)"
    have w: "worsens s s3" using w2 worsens_trans [OF w2 worsens_record_failure] by (simp add: s3_def)
    note core = worsens_core [OF w f(1)]
    have f3: "f < length (aw_files s3)" using f(1) worsens_buf(3) [OF w] by argo
    have i3: "writer_inv c disk s3" by (rule writer_inv_worsens [OF inv w])
    have nf: "wf_failed ?x \<Longrightarrow> wf_failed (file_of s3 f)" using w f(1) unfolding worsens_def by blast
    have fin: "writer_inv c disk (upd_file f (\<lambda>x. x\<lparr>wf_closing := C_finish t\<rparr>) s3)" for t
    proof (rule inv_stage_close [OF i3 f3])
      show "wf_close_enqueued (file_of s3 f)" using core(7) enq by argo
      have "file_of (upd_file f (\<lambda>x. x\<lparr>wf_close_enqueued := True, wf_closing := C_finish t\<rparr>) s3) f =
          (file_of s3 f)\<lparr>wf_close_enqueued := True, wf_closing := C_finish t\<rparr>" using f3 by (simp add: file_upd)
      then show "open_ok (upd_file f (\<lambda>x. x\<lparr>wf_close_enqueued := True, wf_closing := C_finish t\<rparr>) s3) f"
        unfolding open_ok_def Let_def by simp
      show "\<forall>i<unat (wf_accepted_bytes (file_of s3 f)). disk f i = c f i" if "\<not> wf_failed (file_of s3 f)"
        using complete nf that unfolding core(2) by blast
    qed (use f(2) in \<open>simp_all only: core(12)\<close>, simp_all)
    have "close_settle os posted flush f result0 l s =
        upd_file f (\<lambda>x. x\<lparr>wf_closing := C_finish (\<not> wf_failed x \<and> ar_kind result = Succeeded)\<rparr>) s3"
      unfolding close_settle_def Let_def e prod.case result_def [symmetric] if_not_P [OF False] s3_def ..
    also have "\<dots> = upd_file f (\<lambda>x. x\<lparr>wf_closing := C_finish (\<not> wf_failed (file_of s3 f) \<and> ar_kind result = Succeeded)\<rparr>) s3"
      by (rule upd_file_cong) (rule refl)
    finally show ?thesis using fin by simp
  qed
qed

lemma close_finish_inv:
  assumes inv: "writer_inv c disk s" and f: "f < length (aw_files s)" "wf_closing (file_of s f) = C_finish t"
  shows "writer_inv c disk (close_finish os ans f t s)"
proof -
  let ?s1 = "upd_file f (\<lambda>x. x\<lparr>wf_handle := False\<rparr>) s"
  define s2 where "s2 = (if wf_handle (file_of s f) then close_handle os ans f ?s1 else ?s1)"
  have i1: "writer_inv c disk ?s1"
    by (rule inv_upd_open [OF inv f(1), of True True])
      (use f in \<open>auto simp: file_core_def previous_writes_def open_ok_def Let_def file_upd\<close>)
  have w2: "worsens ?s1 s2" by (simp add: s2_def)
  have f1: "f < length (aw_files ?s1)" using f(1) by simp
  have f2: "f < length (aw_files s2)" using f(1) worsens_buf(3) [OF w2] by simp
  have i2: "writer_inv c disk s2" by (rule writer_inv_worsens [OF i1 w2])
  have cl: "wf_closing (file_of s2 f) = C_finish t" using worsens_core(12) [OF w2 f1] f by (simp add: file_upd)
  let ?g = "\<lambda>x. x\<lparr>wf_metadata_errors := m, wf_closed := True, wf_closing := C_none\<rparr>"
  have i3: "writer_inv c disk (upd_file f (\<lambda>x. x\<lparr>wf_metadata_errors := m, wf_closed := True, wf_closing := C_none\<rparr>) s2)" for m
  proof -
    let ?x = "file_of s2 f" let ?y = "?x\<lparr>wf_metadata_errors := m, wf_closed := True, wf_closing := C_none\<rparr>"
    let ?s = "upd_file f (\<lambda>x. x\<lparr>wf_metadata_errors := m, wf_closed := True, wf_closing := C_none\<rparr>) s2"
    have fo: "file_ok c disk s2 f" by (rule inv_file [OF i2 f2])
    have fu: "file_of ?s f = ?y" using f2 by (simp add: file_upd)
    have core: "wf_job ?y = wf_job ?x" "wf_accepted_bytes ?y = wf_accepted_bytes ?x" "wf_next_write_offset ?y = wf_next_write_offset ?x"
      "wf_staging_buffer ?y = wf_staging_buffer ?x" "wf_outstanding_data ?y = wf_outstanding_data ?x" "wf_close_requested ?y = wf_close_requested ?x"
      "wf_close_enqueued ?y = wf_close_enqueued ?x" "wf_closed ?y = True" "wf_closing ?y = C_none" "wf_gated ?y = wf_gated ?x"
      "wf_open_attempted ?y = wf_open_attempted ?x" "wf_handle ?y = wf_handle ?x" "wf_failed ?y = wf_failed ?x" "wf_producer ?y = wf_producer ?x"
      "wf_written_ranges ?y = wf_written_ranges ?x" "previous_writes ?y = previous_writes ?x" by (simp_all add: previous_writes_def)
    have nb: "nonempty_buffers ?s f = nonempty_buffers s2 f" by (simp add: nonempty_buffers_def)
    have fl: "failing ?s f = failing s2 f" using core by (simp add: failing_def doomed_def nb fu)
    have op: "open_ok ?s f" using fu by (simp add: open_ok_def Let_def)
    have st: "start ?s k = start s2 k" if "k < length (aw_buffers s2)" for k
      using inv_buf_file [OF i2 that] file_upd [of "buf_file s2 k" s2 f] by (auto simp: start_def buf_file_def split: buffer_stage.splits)
    then have pe: "(\<exists>k\<in>nonempty_buffers s2 f. i \<in> pending ?s k) = (\<exists>k\<in>nonempty_buffers s2 f. i \<in> pending s2 k)" for i
      by (auto simp: nonempty_buffers_def pending_def)
    have pr: "producer_ok (c f) ?s ?y = producer_ok (c f) s2 ?x" unfolding producer_ok_def rest_ok_def core upd_sel ..
    have cl': "wf_closing ?x \<noteq> C_none" "past_begin (wf_closing ?x)" using cl by simp_all
    have "file_ok c disk ?s f"
      using fo op cl' unfolding file_ok_def Let_def fu nb pe fl pr upd_sel terminal_upd core by blast
    then show ?thesis using core close_absent [OF i2, of f] cl by (intro inv_upd_file [OF i2 f2]) auto
  qed
  have w3: "worsens t (upd_job j (\<lambda>x. x\<lparr>jb_pending_jobs := jb_pending_jobs x - 1\<rparr>) t)" for t j by (rule worsens_upd_job) auto
  show ?thesis
    unfolding close_finish_def Let_def s2_def [symmetric]
    using writer_inv_worsens [OF writer_inv_worsens [OF i3 w3] worsens_unregister_file] writer_inv_worsens [OF _ worsens_meter] by simp
qed

end
