(* ===== verification/Writer_Safety.thy ===== *)
theory Writer_Safety
  imports Writer_Closing
begin

text \<open>
  What the asynchronous writer guarantees under every interleaving of its producers, its threads and the
  completions of the system: a file that closes without failure holds the bytes that were written to it, and
  the bytes recorded as confirmed are on disk.
\<close>

section \<open>Jobs and files\<close>

definition new_buffer :: io_buffer where
  "new_buffer = \<lparr>bf_bytes = [], bf_allocated = False, bf_output_offset = 0, bf_transferred = 0, bf_probe_lease = empty_lease,
     bf_file = None, bf_stage = B_free\<rparr>"

text \<open>The writer a volume starts with: at least four buffers and a queue of at least one item.\<close>

definition new_writer :: "nat \<Rightarrow> nat \<Rightarrow> bool \<Rightarrow> writer_counters \<Rightarrow> volume_state \<Rightarrow> awriter" where
  "new_writer buffers limit through meters volume =
     \<lparr>aw_jobs = [], aw_files = [], aw_buffers = replicate (max 4 buffers) new_buffer, aw_free_buffers = [0..<max 4 buffers],
      aw_work_queue = [], aw_retry_queue = [], aw_active_jobs = [], aw_active_files = [], aw_queued_jobs = 0,
      aw_queue_limit = max 1 limit, aw_stopping = False, aw_write_through = through, aw_meters = meters, aw_volume = volume,
      aw_wake_posted = False, aw_effects = []\<rparr>"

lemma new_writer_inv: "writer_inv c disk (new_writer buffers limit through meters volume)"
  by (auto simp: writer_inv_def new_writer_def new_buffer_def lists_ok_def apart_def buf_ok_def)

text \<open>The job list only grows.\<close>

lemma inv_add_job:
  assumes inv: "writer_inv c disk s"
  shows "writer_inv c disk (s\<lparr>aw_jobs := aw_jobs s @ [j]\<rparr>)" (is "writer_inv c disk ?s")
proof -
  have tj: "terminal_job ?s (wf_job (file_of s f)) = terminal_job s (wf_job (file_of s f))" if "f < length (aw_files s)" for f
    using inv_job [OF inv that] by (simp add: terminal_job_def terminal_result_locked_def nth_append)
  have st: "start ?s b = start s b" for b by (simp add: start_def buf_file_def split: buffer_stage.splits)
  have pe: "pending ?s b = pending s b" for b by (simp add: pending_def st)
  have nb: "nonempty_buffers ?s f = nonempty_buffers s f" for f by (simp add: nonempty_buffers_def)
  have fl: "failing ?s f = failing s f" if "f < length (aw_files s)" for f
    using tj [OF that] by (simp add: failing_def doomed_def nb)
  have "lists_ok ?s" using inv_lists [OF inv] by (simp add: lists_ok_def)
  moreover have "apart ?s" using inv unfolding writer_inv_def apart_def by (simp add: st) blast
  moreover have "buf_ok c ?s b" if "b < length (aw_buffers s)" for b
    using inv_buf [OF inv that] fl by (auto simp: buf_ok_def result_ok_def st pe split: option.splits)
  moreover have "file_ok c disk ?s f" if f: "f < length (aw_files s)" for f
  proof -
    have op: "open_ok ?s f = open_ok s f" using fl [OF f] by (simp add: open_ok_def)
    have pr: "producer_ok (c f) ?s x = producer_ok (c f) s x" for x by (simp add: producer_ok_def split: producer_stage.splits)
    have "wf_job (file_of s f) < length (aw_jobs s) \<longrightarrow> wf_job (file_of s f) < length (aw_jobs s @ [j])" by simp
    moreover have sel: "aw_files ?s = aw_files s" "aw_buffers ?s = aw_buffers s" "aw_jobs ?s = aw_jobs s @ [j]" by simp_all
    ultimately show ?thesis
      using inv_file [OF inv f] unfolding file_ok_def Let_def sel fl [OF f] op tj [OF f] pe nb pr by blast
  qed
  ultimately show ?thesis by (simp add: writer_inv_def)
qed

lemma make_job_inv:
  assumes inv: "writer_inv c disk s"
  shows "writer_inv c disk (snd (make_job n token s))"
proof -
  let ?j = "\<lparr>jb_terminal_requested = False, jb_first_error = s_ok, jb_first_win32_error = 0, jb_inflight_bytes = 0, jb_pending_jobs = 0,
    jb_cancelled = False, jb_max_inflight_bytes = (if n = 0 then kDefaultJobInFlightBytes else n), jb_cancel_token = token\<rparr>"
  let ?t = "synchronize_cancellation_locked (length (aw_jobs s)) (s\<lparr>aw_jobs := aw_jobs s @ [?j]\<rparr>)"
  have "writer_inv c disk ?t" by (rule writer_inv_worsens [OF inv_add_job [OF inv] worsens_sync])
  moreover have "worsens ?t (?t\<lparr>aw_active_jobs := xs\<rparr>)" for xs by (rule worsens_frame) simp_all
  ultimately show ?thesis unfolding make_job_def Let_def snd_conv by (rule writer_inv_worsens)
qed

lemma make_file_inv:
  assumes inv: "writer_inv c disk s" and j: "j < length (aw_jobs s)"
    and replay: "\<And>r. replay = Some r \<Longrightarrow> ranges_inv (written r) \<and> (\<forall>i\<in>confirmed (written r). disk (length (aw_files s)) i = c (length (aw_files s)) i)"
  shows "writer_inv c disk (snd (make_file j path index replay tracked s))"
proof -
  let ?f = "length (aw_files s)" let ?y = "new_file_state j path index (vs_gate (aw_volume s) \<noteq> None) replay tracked (length (aw_active_files s))"
  let ?s = "snd (make_file j path index replay tracked s)"
  have sel: "aw_files ?s = aw_files s @ [?y]" "aw_buffers ?s = aw_buffers s" "aw_jobs ?s = aw_jobs s" "aw_stopping ?s = aw_stopping s"
    "aw_work_queue ?s = aw_work_queue s" "aw_retry_queue ?s = aw_retry_queue s" "aw_free_buffers ?s = aw_free_buffers s"
    by (simp_all add: make_file_def Let_def)
  have fo: "file_of ?s f = file_of s f" if "f < ?f" for f using that sel(1) by (simp add: nth_append)
  have fn: "file_of ?s ?f = ?y" and len: "length (aw_files ?s) = Suc ?f" using sel(1) by simp_all
  have tj: "terminal_job ?s i = terminal_job s i" for i by (rule terminal_same [OF sel(3,4)])
  have own: "m < ?f" if "b < length (aw_buffers s)" "bf_file (buf_of s b) = Some m" for b m
    using inv_buf [OF inv that(1)] that(2) by (simp add: buf_ok_def)
  have st: "start ?s b = start s b" if "b < length (aw_buffers s)" for b
    using inv_buf_file(2) [OF inv that] fo sel by (auto simp: start_def buf_file_def split: buffer_stage.splits)
  have pe: "pending ?s b = pending s b" if "b < length (aw_buffers s)" for b using st [OF that] sel by (simp add: pending_def)
  have nb: "nonempty_buffers ?s f = nonempty_buffers s f" for f by (simp add: nonempty_buffers_def sel)
  have fl: "failing ?s f = failing s f" if "f < ?f" for f using fo [OF that] by (simp add: failing_def doomed_def nb tj sel)
  have "lists_ok ?s" using inv_lists [OF inv] fo unfolding lists_ok_def sel by auto
  moreover have "apart ?s" using inv st unfolding writer_inv_def apart_def sel by (simp, blast)
  moreover have "buf_ok c ?s b" if b: "b < length (aw_buffers s)" for b
  proof (cases "bf_file (buf_of s b)")
    case None
    then show ?thesis using inv_buf [OF inv b] by (simp add: buf_ok_def sel)
  next
    case (Some m)
    note m = own [OF b Some]
    then show ?thesis
      using inv_buf [OF inv b] Some st [OF b] pe [OF b] fl [OF m]
      unfolding buf_ok_def result_ok_def sel(2) Some option.case fo [OF m] len by auto
  qed
  moreover have "file_ok c disk ?s f" if f: "f < ?f" for f
  proof -
    have pe': "(\<exists>b\<in>nonempty_buffers s f. i \<in> pending ?s b) = (\<exists>b\<in>nonempty_buffers s f. i \<in> pending s b)" for i
      using pe by (auto simp: nonempty_buffers_def)
    have op: "open_ok ?s f = open_ok s f" unfolding open_ok_def fo [OF f] fl [OF f] ..
    have pr: "producer_ok (c f) ?s x = producer_ok (c f) s x" for x unfolding producer_ok_def sel ..
    show ?thesis
      using inv_file [OF inv f] unfolding file_ok_def Let_def fo [OF f] nb pe' op pr tj fl [OF f] sel(2,3) .
  qed
  moreover have "file_ok c disk ?s ?f"
  proof -
    have none: "nonempty_buffers s ?f = {}" using own by (auto simp: nonempty_buffers_def)
    have y: "wf_job ?y = j" "wf_accepted_bytes ?y = 0" "wf_next_write_offset ?y = 0" "wf_staging_buffer ?y = None" "wf_outstanding_data ?y = 0"
      "wf_close_enqueued ?y = False" "wf_closed ?y = False" "wf_closing ?y = C_none" "wf_producer ?y = P_idle" "wf_open_attempted ?y = False"
      "wf_written_ranges ?y = previous_writes ?y" by (simp_all add: new_file_state_def previous_writes_def split: option.splits)
    have pv: "ranges_inv (previous_writes ?y)" "\<forall>i\<in>confirmed (previous_writes ?y). disk ?f i = c ?f i"
      using replay by (auto simp: new_file_state_def previous_writes_def confirmed_def split: option.splits)
    have pr: "producer_ok (c ?f) ?s ?y" by (rule producer_idle [OF y(9)])
    show ?thesis using pv pr j unfolding file_ok_def Let_def open_ok_def fn nb none y by (simp add: sel)
  qed
  ultimately show ?thesis unfolding writer_inv_def sel by (auto simp: less_Suc_eq)
qed

lemma capture_replay_inv:
  assumes inv: "writer_inv c disk s" and f: "f < length (aw_files s)"
  shows "writer_inv c disk (snd (capture_replay f receipt s))"
proof -
  let ?x = "file_of s f" let ?w = "(wf_written_ranges ?x)\<lparr>ranges := []\<rparr>"
  have sub: "confirmed ?w \<subseteq> confirmed (wf_written_ranges ?x)" by (auto simp: confirmed_def covered_def)
  have fo: "ranges_inv (wf_written_ranges ?x)" "\<forall>i\<in>confirmed (wf_written_ranges ?x). disk f i = c f i"
    "confirmed (wf_written_ranges ?x) \<subseteq> confirmed (previous_writes ?x) \<union> {..<unat (wf_next_write_offset ?x)}"
    using inv_file [OF inv f] unfolding file_ok_def Let_def by blast+
  have "writer_inv c disk (upd_file f (\<lambda>x. x\<lparr>wf_written_ranges := (wf_written_ranges x)\<lparr>ranges := []\<rparr>,
      wf_path := (if rf_path receipt = [] then [] else wf_path x)\<rparr>) s)"
  proof (rule inv_ranges [OF inv f, where w = ?w and p = "if rf_path receipt = [] then [] else wf_path ?x"])
    show "pending s b \<inter> confirmed ?w = {}" if "b < length (aw_buffers s)" "bf_file (buf_of s b) = Some f" for b
      using inv_buf [OF inv that(1)] that(2) sub by (auto simp: buf_ok_def)
  qed (use fo sub in \<open>auto simp: ranges_inv_def\<close>)
  then show ?thesis by (simp add: capture_replay_def Let_def)
qed

section \<open>Every interleaving\<close>

text \<open>
  One rule per region that runs under \<^verbatim>\<open>mutex_\<close>, for whatever the system answers. \<open>c f i\<close> is the byte the
  callers hand over for offset \<open>i\<close> of file \<open>f\<close>: a write continues the file with bytes that no earlier attempt
  confirmed, a skip covers bytes that it did confirm, and what a replay says is confirmed is on disk.
\<close>

datatype writer_event =
    Ev_make_job nat "bool option"
  | Ev_make_file nat wstring u32 "replay_file option" bool
  | Ev_write nat "u8 list"
  | Ev_setup nat post_answer bool
  | Ev_commit nat post_answer
  | Ev_skip nat u32 post_answer
  | Ev_close nat "u8 list" post_answer post_answer
  | Ev_dequeue
  | Ev_check nat
  | Ev_open nat open_answer
  | Ev_submit nat "u32 option"
  | Ev_complete nat bool u32 u32
  | Ev_finish nat bool post_answer
  | Ev_retry
  | Ev_drain bool
  | Ev_close_begin nat
  | Ev_close_open nat open_answer
  | Ev_close_settle nat bool "u32 option"
  | Ev_close_finish nat close_answer
  | Ev_result nat op_result
  | Ev_cancel nat
  | Ev_synchronize nat
  | Ev_job_result nat
  | Ev_stop
  | Ev_capture nat replay_file
  | Ev_volume volume_state
  | Ev_token nat "bool option"

inductive writer_step :: "os \<Rightarrow> (nat \<Rightarrow> nat \<Rightarrow> u8) \<Rightarrow> writer_sys \<Rightarrow> writer_event \<Rightarrow> writer_sys \<Rightarrow> bool" for os c where
  st_make_job: "writer_step os c t (Ev_make_job n token) (t\<lparr>ws_w := snd (make_job n token (ws_w t))\<rparr>)"
| st_make_file: "j < length (aw_jobs (ws_w t)) \<Longrightarrow> f = length (aw_files (ws_w t)) \<Longrightarrow>
    (\<forall>r. replay = Some r \<longrightarrow> ranges_inv (written r) \<and> (\<forall>i\<in>confirmed (written r). ws_disk t f i = c f i)) \<Longrightarrow>
    writer_step os c t (Ev_make_file j path index replay tracked) (t\<lparr>ws_w := snd (make_file j path index replay tracked (ws_w t))\<rparr>)"
| st_write: "f < length (aw_files (ws_w t)) \<Longrightarrow> wf_producer (file_of (ws_w t) f) = P_idle \<Longrightarrow>
    rest_ok (c f) (file_of (ws_w t) f) data 0 \<Longrightarrow>
    writer_step os c t (Ev_write f data) (t\<lparr>ws_w := upd_file f (\<lambda>x. x\<lparr>wf_producer := P_write data 0\<rparr>) (ws_w t)\<rparr>)"
| st_setup: "f < length (aw_files (ws_w t)) \<Longrightarrow> wf_producer (file_of (ws_w t) f) = P_write data consumed \<Longrightarrow> real_answer ans \<Longrightarrow>
    writer_step os c t (Ev_setup f ans allocated) (t\<lparr>ws_w := snd (write_setup ans allocated f data consumed (ws_w t))\<rparr>)"
| st_commit: "f < length (aw_files (ws_w t)) \<Longrightarrow> wf_producer (file_of (ws_w t) f) = P_copy data consumed previous chunk newly \<Longrightarrow> real_answer ans \<Longrightarrow>
    writer_step os c t (Ev_commit f ans) (t\<lparr>ws_w := snd (write_commit ans f data consumed previous chunk newly (ws_w t))\<rparr>)"
| st_skip: "f < length (aw_files (ws_w t)) \<Longrightarrow> wf_producer (file_of (ws_w t) f) = P_idle \<Longrightarrow> real_answer ans \<Longrightarrow>
    unat (wf_accepted_bytes (file_of (ws_w t) f)) + unat n < 2 ^ 64 \<Longrightarrow>
    {unat (wf_accepted_bytes (file_of (ws_w t) f))..<unat (wf_accepted_bytes (file_of (ws_w t) f)) + unat n} \<subseteq>
      confirmed (previous_writes (file_of (ws_w t) f)) \<Longrightarrow>
    writer_step os c t (Ev_skip f n ans) (t\<lparr>ws_w := snd (skip_written ans f n (ws_w t))\<rparr>)"
| st_close: "f < length (aw_files (ws_w t)) \<Longrightarrow> wf_producer (file_of (ws_w t) f) = P_idle \<Longrightarrow> real_answer ans \<Longrightarrow>
    writer_step os c t (Ev_close f magic ans ans') (t\<lparr>ws_w := close_file ans ans' f magic (ws_w t)\<rparr>)"
| st_dequeue: "writer_step os c t Ev_dequeue (t\<lparr>ws_w := dequeue_work (ws_w t)\<rparr>)"
| st_check: "b < length (aw_buffers (ws_w t)) \<Longrightarrow> bf_stage (buf_of (ws_w t) b) = B_attempt \<Longrightarrow>
    writer_step os c t (Ev_check b) (t\<lparr>ws_w := attempt_check os b (ws_w t)\<rparr>)"
| st_open: "b < length (aw_buffers (ws_w t)) \<Longrightarrow> bf_stage (buf_of (ws_w t) b) = B_open \<Longrightarrow>
    writer_step os c t (Ev_open b oa) (t\<lparr>ws_w := attempt_open oa b (ws_w t)\<rparr>)"
| st_submit: "b < length (aw_buffers (ws_w t)) \<Longrightarrow> bf_stage (buf_of (ws_w t) b) = B_begin \<Longrightarrow>
    writer_step os c t (Ev_submit b error) (t\<lparr>ws_w := submit_data_write os error b (ws_w t)\<rparr>)"
| st_complete: "b < length (aw_buffers (ws_w t)) \<Longrightarrow> bf_stage (buf_of (ws_w t) b) = B_submitted \<Longrightarrow> x = buf_of (ws_w t) b \<Longrightarrow>
    f = buf_file (ws_w t) b \<Longrightarrow>
    (\<forall>k i. k \<noteq> f \<or> i < unat (bf_output_offset x) + bf_transferred x \<or> unat (bf_output_offset x) + bf_size x \<le> i \<longrightarrow> disk k i = ws_disk t k i) \<Longrightarrow>
    (error = 0 \<longrightarrow> (\<forall>i. bf_transferred x \<le> i \<and> i < bf_transferred x + unat bytes \<and> i < bf_size x \<longrightarrow>
       disk f (unat (bf_output_offset x) + i) = bf_bytes x ! i)) \<Longrightarrow>
    writer_step os c t (Ev_complete b no_memory bytes error)
      \<lparr>ws_w = complete_data_write os no_memory bytes error b (ws_w t), ws_disk = disk\<rparr>"
| st_finish: "b < length (aw_buffers (ws_w t)) \<Longrightarrow> bf_stage (buf_of (ws_w t) b) = B_finish r \<Longrightarrow>
    writer_step os c t (Ev_finish b posted ans) (t\<lparr>ws_w := finish_data_attempt os posted ans r b (ws_w t)\<rparr>)"
| st_retry: "writer_step os c t Ev_retry (t\<lparr>ws_w := dispatch_space_retry os (acknowledge_wake (ws_w t))\<rparr>)"
| st_drain: "writer_step os c t (Ev_drain posted) (t\<lparr>ws_w := drain_cancelled_retries posted (ws_w t)\<rparr>)"
| st_close_begin: "f < length (aw_files (ws_w t)) \<Longrightarrow> wf_closing (file_of (ws_w t) f) = C_begin l \<Longrightarrow>
    writer_step os c t (Ev_close_begin f) (t\<lparr>ws_w := close_begin os f l (ws_w t)\<rparr>)"
| st_close_open: "f < length (aw_files (ws_w t)) \<Longrightarrow> wf_closing (file_of (ws_w t) f) = C_open l \<Longrightarrow>
    writer_step os c t (Ev_close_open f oa) (t\<lparr>ws_w := close_open oa f l (ws_w t)\<rparr>)"
| st_close_settle: "f < length (aw_files (ws_w t)) \<Longrightarrow> wf_closing (file_of (ws_w t) f) = C_settle r l \<Longrightarrow>
    writer_step os c t (Ev_close_settle f posted flush) (t\<lparr>ws_w := close_settle os posted flush f r l (ws_w t)\<rparr>)"
| st_close_finish: "f < length (aw_files (ws_w t)) \<Longrightarrow> wf_closing (file_of (ws_w t) f) = C_finish restore \<Longrightarrow>
    writer_step os c t (Ev_close_finish f ca) (t\<lparr>ws_w := close_finish os ca f restore (ws_w t)\<rparr>)"
| st_result: "writer_step os c t (Ev_result f r) (t\<lparr>ws_w := record_operation_result f r (ws_w t)\<rparr>)"
| st_cancel: "writer_step os c t (Ev_cancel j) (t\<lparr>ws_w := cancel_job os j (ws_w t)\<rparr>)"
| st_synchronize: "writer_step os c t (Ev_synchronize j) (t\<lparr>ws_w := synchronize_cancellation_locked j (ws_w t)\<rparr>)"
| st_job_result: "writer_step os c t (Ev_job_result j) (t\<lparr>ws_w := snd (finish_job_result j (ws_w t))\<rparr>)"
| st_stop: "writer_step os c t Ev_stop (t\<lparr>ws_w := stop_writer (ws_w t)\<rparr>)"
| st_capture: "f < length (aw_files (ws_w t)) \<Longrightarrow>
    writer_step os c t (Ev_capture f receipt) (t\<lparr>ws_w := snd (capture_replay f receipt (ws_w t))\<rparr>)"
| st_volume: "writer_step os c t (Ev_volume v) (t\<lparr>ws_w := (ws_w t)\<lparr>aw_volume := v\<rparr>\<rparr>)"
| st_token: "writer_step os c t (Ev_token j token) (t\<lparr>ws_w := upd_job j (\<lambda>x. x\<lparr>jb_cancel_token := token\<rparr>) (ws_w t)\<rparr>)"

inductive_cases writer_stepE: "writer_step os c t e u"

definition writer_initial :: "writer_sys \<Rightarrow> bool" where
  "writer_initial t \<longleftrightarrow> (\<exists>buffers limit through meters volume. ws_w t = new_writer buffers limit through meters volume)"

definition sys_inv :: "(nat \<Rightarrow> nat \<Rightarrow> u8) \<Rightarrow> writer_sys \<Rightarrow> bool" where
  "sys_inv c t \<longleftrightarrow> writer_inv c (ws_disk t) (ws_w t)"

abbreviation writer_reach :: "os \<Rightarrow> (nat \<Rightarrow> nat \<Rightarrow> u8) \<Rightarrow> writer_sys \<Rightarrow> bool" where
  "writer_reach os c \<equiv> reach writer_initial (writer_step os c)"

lemma worsens_fold: "(\<And>j s. worsens s (h j s)) \<Longrightarrow> worsens s (fold h js s)"
proof (induction js arbitrary: s)
  case (Cons j js)
  show ?case using worsens_trans [OF Cons(2) Cons(1) [OF Cons(2)]] by simp
qed simp

lemma worsens_rest:
  "worsens s (record_operation_result f r s)" "worsens s (cancel_job os j s)" "worsens s (snd (finish_job_result j s))"
  "worsens s (stop_writer s)" "worsens s (drain_cancelled_retries posted s)" "worsens s (acknowledge_wake s)"
  "worsens s (s\<lparr>aw_volume := v\<rparr>)" "worsens s (upd_job j (\<lambda>x. x\<lparr>jb_cancel_token := token\<rparr>) s)"
proof -
  show "worsens s (record_operation_result f r s)"
    unfolding record_operation_result_def by (rule worsens_upd_file) (auto simp: file_core_def previous_writes_def)
  show "worsens s (cancel_job os j s)" unfolding cancel_job_def by (rule worsens_trans [OF worsens_cancel worsens_with_gate])
  have "worsens s (writer_unregister_job j s)" by (rule worsens_frame) (simp_all add: writer_unregister_job_def)
  then show "worsens s (snd (finish_job_result j s))"
    unfolding finish_job_result_def Let_def by (auto intro: worsens_trans [OF _ worsens_meter])
  have "worsens s (s\<lparr>aw_stopping := True\<rparr>)" by (rule worsens_frame) simp_all
  then show "worsens s (stop_writer s)" unfolding stop_writer_def by (rule worsens_trans) (rule worsens_fold, simp)
  show "worsens s (drain_cancelled_retries posted s)" by (simp add: drain_cancelled_retries_def)
  show "worsens s (acknowledge_wake s)" unfolding acknowledge_wake_def by (rule worsens_frame) simp_all
  show "worsens s (s\<lparr>aw_volume := v\<rparr>)" by (rule worsens_frame) simp_all
  show "worsens s (upd_job j (\<lambda>x. x\<lparr>jb_cancel_token := token\<rparr>) s)" by (rule worsens_upd_job) auto
qed

lemma write_call_inv:
  assumes inv: "writer_inv c disk s" and f: "f < length (aw_files s)" and ok: "rest_ok (c f) (file_of s f) data 0"
  shows "writer_inv c disk (upd_file f (\<lambda>x. x\<lparr>wf_producer := P_write data 0\<rparr>) s)"
proof (rule inv_producer [OF inv f, where n = "wf_inflight_bytes (file_of s f)" and p = "P_write data 0"])
  show "producer_ok (c f) s (file_of s f\<lparr>wf_producer := P_write data 0\<rparr>)"
    using ok by (simp add: producer_ok_def rest_ok_def previous_writes_def)
qed simp

lemma writer_step_inv:
  assumes "writer_step os c t e u" "sys_inv c t"
  shows "sys_inv c u"
  using assms
proof (cases rule: writer_step.cases)
  case (st_complete b x f disk error bytes no_memory)
  note inv = assms(2) [unfolded sys_inv_def]
  have o: "start (ws_w t) b = bf_output_offset (buf_of (ws_w t) b)" "moved (buf_of (ws_w t) b) = bf_transferred (buf_of (ws_w t) b)"
    using st_complete(4) by (simp_all add: start_def moved_def)
  have "bf_transferred (buf_of (ws_w t) b) \<le> bf_size (buf_of (ws_w t) b)"
    using buffer_range(3) [OF inv st_complete(3)] st_complete(4) o by simp
  then have "writer_inv c disk (complete_data_write os no_memory bytes error b (ws_w t))"
    using st_complete o by (intro complete_data_write_inv [OF inv]) (auto simp: pending_def)
  then show ?thesis using st_complete by (simp add: sys_inv_def)
qed (auto simp: sys_inv_def intro: make_job_inv make_file_inv write_call_inv write_setup_inv write_commit_inv skip_written_inv close_file_inv
    dequeue_work_inv attempt_check_inv attempt_open_inv submit_inv finish_data_attempt_inv dispatch_space_retry_inv close_begin_inv close_open_inv
    close_settle_inv close_finish_inv capture_replay_inv writer_inv_worsens [OF _ worsens_rest(1)] writer_inv_worsens [OF _ worsens_rest(2)]
    writer_inv_worsens [OF _ worsens_rest(3)] writer_inv_worsens [OF _ worsens_rest(4)] writer_inv_worsens [OF _ worsens_rest(5)]
    writer_inv_worsens [OF _ worsens_rest(6)] writer_inv_worsens [OF _ worsens_rest(7)] writer_inv_worsens [OF _ worsens_rest(8)]
    writer_inv_worsens [OF _ worsens_sync])

interpretation writer: invariant_system writer_initial "writer_step os c" "sys_inv c" for os c
proof unfold_locales
  show "writer_initial s \<Longrightarrow> sys_inv c s" for s by (auto simp: writer_initial_def sys_inv_def new_writer_inv)
  show "sys_inv c s \<Longrightarrow> writer_step os c s l t \<Longrightarrow> sys_inv c t" for s l t by (rule writer_step_inv)
qed

section \<open>What holds in every state\<close>

text \<open>The bytes a submitted request still has to write, and those of the other requests of its file.\<close>

definition request_range :: "awriter \<Rightarrow> nat \<Rightarrow> nat set" where
  "request_range s b = {unat (bf_output_offset (buf_of s b)) + bf_transferred (buf_of s b)..<
     unat (bf_output_offset (buf_of s b)) + bf_size (buf_of s b)}"

definition other_requests :: "awriter \<Rightarrow> nat \<Rightarrow> nat set" where
  "other_requests s b = (\<Union>k\<in>{k. k < length (aw_buffers s) \<and> k \<noteq> b \<and> bf_stage (buf_of s k) = B_submitted \<and> buf_file s k = buf_file s b}.
     request_range s k)"

lemma request_pending:
  assumes "bf_stage (buf_of s b) = B_submitted"
  shows "request_range s b = pending s b" "start s b = bf_output_offset (buf_of s b)"
  using assms by (simp_all add: request_range_def pending_def start_def moved_def)

lemma requests_apart:
  assumes inv: "writer_inv c disk s" and b: "b < length (aw_buffers s)" "bf_stage (buf_of s b) = B_submitted"
  shows "request_range s b \<inter> other_requests s b = {}"
proof -
  have "request_range s k \<inter> request_range s b = {}"
    if k: "k < length (aw_buffers s)" "k \<noteq> b" "bf_stage (buf_of s k) = B_submitted" "buf_file s k = buf_file s b" for k
  proof -
    have "bf_file (buf_of s k) = bf_file (buf_of s b)" using inv_buf_file(1) [OF inv k(1)] inv_buf_file(1) [OF inv b(1)] k b by simp
    then have "pending s k \<inter> {unat (start s b)..<unat (start s b) + bf_size (buf_of s b)} = {}"
      using pending_apart [OF inv b(1) _ _ k(1,2)] b(2) by simp
    moreover have "pending s b \<subseteq> {unat (start s b)..<unat (start s b) + bf_size (buf_of s b)}" by (auto simp: pending_def)
    ultimately show ?thesis using request_pending [OF k(3)] request_pending [OF b(2)] by auto
  qed
  then show ?thesis unfolding other_requests_def by blast
qed

section \<open>A run\<close>

text \<open>One byte is written to a file whose confirmed bytes are recorded, and the file is closed.\<close>

definition run_os :: os where
  "run_os = \<lparr>os_now = 0, os_volume_path = (\<lambda>_. None), os_disk_free = (\<lambda>_. Inr (1, 1)), os_alive = (\<lambda>_. True)\<rparr>"

definition run_start :: awriter where
  "run_start = new_writer 4 4 False zero_counters (make_volume_state ''C'' False)"

definition run_job :: awriter where "run_job = snd (make_job 0 None run_start)"
definition run_file :: awriter where "run_file = snd (make_file 0 [] 0 None True run_job)"
definition run_write :: awriter where "run_write = upd_file 0 (\<lambda>x. x\<lparr>wf_producer := P_write [5] 0\<rparr>) run_file"
definition run_setup :: awriter where "run_setup = snd (write_setup Posted True 0 [5] 0 run_write)"
definition run_commit :: awriter where "run_commit = snd (write_commit Posted 0 [5] 0 0 1 True run_setup)"
definition run_close :: awriter where "run_close = close_file Posted Posted 0 [] run_commit"
definition run_dequeue :: awriter where "run_dequeue = dequeue_work run_close"
definition run_check :: awriter where "run_check = attempt_check run_os 3 run_dequeue"
definition run_open :: awriter where "run_open = attempt_open Opened 3 run_check"
definition run_submit :: awriter where "run_submit = submit_data_write run_os None 3 run_open"
definition run_complete :: awriter where "run_complete = complete_data_write run_os False 1 0 3 run_submit"
definition run_finish :: awriter where "run_finish = finish_data_attempt run_os True Posted succeeded 3 run_complete"
definition run_dequeue_close :: awriter where "run_dequeue_close = dequeue_work run_finish"
definition run_close_begin :: awriter where "run_close_begin = close_begin run_os 0 empty_lease run_dequeue_close"
definition run_close_settle :: awriter where "run_close_settle = close_settle run_os True None 0 succeeded empty_lease run_close_begin"
definition run_answer :: close_answer where
  "run_answer = \<lparr>ca_times = 0, ca_attributes = 0, ca_last_write = None, ca_close_error = None\<rparr>"
definition run_closed :: awriter where "run_closed = close_finish run_os run_answer 0 True run_close_settle"

definition disk_before :: "nat \<Rightarrow> nat \<Rightarrow> u8" where "disk_before = (\<lambda>f i. 0)"
definition disk_after :: "nat \<Rightarrow> nat \<Rightarrow> u8" where "disk_after = (\<lambda>f i. if f = 0 \<and> i = 0 then 5 else 0)"
definition contents :: "nat \<Rightarrow> nat \<Rightarrow> u8" where "contents = (\<lambda>f i. 5)"

lemma four_buffers: "replicate (max 4 4) x = [x, x, x, x]" "[0..<max 4 4] = [0, 1, 2, 3]" "[p, q, r, s][3 := y] = [p, q, r, y]"
  by (simp_all add: numeral_eq_Suc upt_rec)

lemmas region_defs = upd_file_def upd_job_def upd_buf_def bf_size_def with_gate_def meter_def completion_wake_def set_job_error_locked_def
  cancel_job_locked_def synchronize_cancellation_locked_def terminal_result_locked_def current_win32_error_locked_def current_error_def
  current_win32_error_def mark_file_failure_locked_def fail_file_def record_failure_def make_job_def new_file_state_def make_file_def
  unregister_file_locked_def free_buffer_def discard_staging_locked_def enqueue_staging_locked_def enqueue_close_locked_def write_return_def
  take_buffer_def reserve_chunk_def write_setup_def commit_chunk_def write_commit_def close_file_def dequeue_work_def try_open_file_def
  buf_file_def attempt_check_def attempt_open_def begin_data_write_def end_data_write_def submit_data_write_def add_written_bytes_def
  complete_data_write_def release_buffer_def settle_lease_def finish_data_attempt_def close_begin_def flush_result_def close_settle_def
  close_handle_def close_finish_def count_file_def succeeded_def account_accepted_def account_written_def add_accepted_def add_written_def
  account_pending_release_def release_pending_def release_value_def run_answer_def Let_def four_buffers

declare region_defs [simp]

lemmas run_start_eq [simp] = run_start_def [unfolded new_writer_def new_buffer_def four_buffers make_volume_state_def zero_counters_def]
lemmas run_job_eq [simp] = run_job_def [simplified]
lemmas run_file_eq [simp] = run_file_def [simplified]
lemmas run_write_eq [simp] = run_write_def [simplified]
lemmas run_setup_eq [simp] = run_setup_def [simplified]
lemmas run_commit_eq [simp] = run_commit_def [simplified]
lemmas run_close_eq [simp] = run_close_def [simplified]
lemmas run_dequeue_eq [simp] = run_dequeue_def [simplified]
lemmas run_check_eq [simp] = run_check_def [simplified]
lemmas run_open_eq [simp] = run_open_def [simplified]
lemmas run_submit_eq [simp] = run_submit_def [simplified]
lemmas run_complete_eq [simp] = run_complete_def [simplified]
lemmas run_finish_eq [simp] = run_finish_def [simplified]
lemmas run_dequeue_close_eq [simp] = run_dequeue_close_def [simplified]
lemmas run_close_begin_eq [simp] = run_close_begin_def [simplified]
lemmas run_close_settle_eq [simp] = run_close_settle_def [simplified]
lemmas run_closed_eq [simp] = run_closed_def [simplified]

lemmas run_eqs = run_start_eq run_job_eq run_file_eq run_write_eq run_setup_eq run_commit_eq run_close_eq run_dequeue_eq run_check_eq run_open_eq run_submit_eq run_complete_eq run_finish_eq run_dequeue_close_eq run_close_begin_eq run_close_settle_eq run_closed_eq

declare region_defs [simp del]
declare run_eqs [simp del]

lemma run_reaches_submit: "writer_reach run_os contents \<lparr>ws_w = run_submit, ws_disk = disk_before\<rparr>"
proof -
  let ?D = "\<lambda>w. \<lparr>ws_w = w, ws_disk = disk_before\<rparr>"
  note step = reach_step [where initial = writer_initial and step = "writer_step run_os contents"]
  have "writer_reach run_os contents (?D run_start)" by (rule reach_initial) (auto simp: writer_initial_def run_start_def intro!: exI)
  from step [OF this st_make_job [where n = 0 and token = None]] have "writer_reach run_os contents (?D run_job)" by (simp add: run_job_def)
  from step [OF this st_make_file [where j = 0 and f = 0 and replay = None and path = "[]" and index = 0 and tracked = True]] have "writer_reach run_os contents (?D run_file)"
    by (simp add: run_file_def run_job_eq)
  from step [OF this st_write [where f = 0 and data = "[5]"]] have "writer_reach run_os contents (?D run_write)"
    by (simp add: run_write_def run_file_eq rest_ok_def contents_def bytes_at_def previous_writes_def confirmed_def)
  from step [OF this st_setup [where f = 0 and data = "[5]" and consumed = 0 and ans = Posted and allocated = True]] have "writer_reach run_os contents (?D run_setup)"
    by (simp add: run_setup_def run_write_eq real_answer_def)
  from step [OF this st_commit [where f = 0 and data = "[5]" and consumed = 0 and previous = 0 and chunk = 1 and newly = True and ans = Posted]] have "writer_reach run_os contents (?D run_commit)"
    by (simp add: run_commit_def run_setup_eq real_answer_def)
  from step [OF this st_close [where f = 0 and magic = "[]" and ans = Posted and ans' = Posted]] have "writer_reach run_os contents (?D run_close)"
    by (simp add: run_close_def run_commit_eq real_answer_def)
  from step [OF this st_dequeue] have "writer_reach run_os contents (?D run_dequeue)" by (simp add: run_dequeue_def)
  from step [OF this st_check [where b = 3]] have "writer_reach run_os contents (?D run_check)" by (simp add: run_check_def run_dequeue_eq)
  from step [OF this st_open [where b = 3 and oa = Opened]] have "writer_reach run_os contents (?D run_open)" by (simp add: run_open_def run_check_eq)
  from step [OF this st_submit [where b = 3 and error = None]] show ?thesis by (simp add: run_submit_def run_open_eq)
qed

lemma run_reaches_closed: "writer_reach run_os contents \<lparr>ws_w = run_closed, ws_disk = disk_after\<rparr>"
proof -
  let ?D = "\<lambda>w. \<lparr>ws_w = w, ws_disk = disk_after\<rparr>"
  note step = reach_step [where initial = writer_initial and step = "writer_step run_os contents"]
  from step [OF run_reaches_submit st_complete [where b = 3 and x = "buf_of run_submit 3" and f = "buf_file run_submit 3" and disk = disk_after and error = 0 and bytes = 1 and no_memory = False]]
  have "writer_reach run_os contents (?D run_complete)"
    by (simp add: run_complete_def run_submit_eq buf_file_def bf_size_def disk_before_def disk_after_def)
  from step [OF this st_finish [where b = 3 and r = succeeded and posted = True and ans = Posted]] have "writer_reach run_os contents (?D run_finish)"
    by (simp add: run_finish_def run_complete_eq succeeded_def)
  from step [OF this st_dequeue] have "writer_reach run_os contents (?D run_dequeue_close)" by (simp add: run_dequeue_close_def)
  from step [OF this st_close_begin [where f = 0 and l = empty_lease]] have "writer_reach run_os contents (?D run_close_begin)"
    by (simp add: run_close_begin_def run_dequeue_close_eq)
  from step [OF this st_close_settle [where f = 0 and r = succeeded and l = empty_lease and posted = True and flush = None]] have "writer_reach run_os contents (?D run_close_settle)"
    by (simp add: run_close_settle_def run_close_begin_eq succeeded_def)
  from step [OF this st_close_finish [where f = 0 and restore = True and ca = run_answer]] show ?thesis by (simp add: run_closed_def run_close_settle_eq)
qed

text \<open>
  C1. A file that is closed without failure holds, at every offset below the number of accepted bytes, the byte
  its callers handed over, whatever the order in which producers, writer threads, completions, retries after a
  full disk, cancellation and the shutdown of the writer were interleaved.
\<close>

theorem closed_file_complete:
  assumes "writer_reach os c t" "f < length (aw_files (ws_w t))" "wf_closed (file_of (ws_w t) f)" "\<not> wf_failed (file_of (ws_w t) f)"
    and "i < unat (wf_accepted_bytes (file_of (ws_w t) f))"
  shows "ws_disk t f i = c f i"
proof -
  have "file_ok c (ws_disk t) (ws_w t) f"
    using writer.invar_reach [OF assms(1)] assms(2) unfolding sys_inv_def by (rule inv_file)
  then show ?thesis using assms(3-5) unfolding file_ok_def Let_def by blast
qed

theorem closed_file_complete_witness: "disk_after 0 0 = contents 0 0 \<and> wf_closed (file_of run_closed 0)"
  using closed_file_complete [OF run_reaches_closed, of 0 0] by (simp add: run_closed_eq)

text \<open>
  C5. What is kept of a file for a later attempt can be trusted: every byte that the receipt records as written
  is on disk with the value its callers handed over, in every state, also when the file failed or is half written.
\<close>

theorem replay_receipt_on_disk:
  assumes "writer_reach os c t" "f < length (aw_files (ws_w t))" "capture_replay f receipt (ws_w t) = (saved, s')" "i \<in> covered (written saved)"
  shows "ws_disk t f (unat i) = c f (unat i)"
proof -
  have "file_ok c (ws_disk t) (ws_w t) f"
    using writer.invar_reach [OF assms(1)] assms(2) unfolding sys_inv_def by (rule inv_file)
  then have "\<forall>i\<in>confirmed (wf_written_ranges (file_of (ws_w t) f)). ws_disk t f i = c f i" unfolding file_ok_def Let_def by blast
  moreover have "written saved = wf_written_ranges (file_of (ws_w t) f)" using assms(3) by (auto simp: capture_replay_def Let_def)
  ultimately show ?thesis using assms(4) by (auto simp: confirmed_def)
qed

definition run_receipt :: replay_file where
  "run_receipt = \<lparr>rf_path = [], written = empty_ranges, created = False, complete = False, has_mtime = False, mtime = 0\<rparr>"

theorem replay_receipt_on_disk_witness:
  "disk_after 0 0 = contents 0 0 \<and> 0 \<in> covered (written (fst (capture_replay 0 run_receipt run_closed)))"
proof -
  have c: "0 \<in> covered (written (fst (capture_replay 0 run_receipt run_closed)))"
    by (simp add: capture_replay_def Let_def run_closed_eq)
  then show ?thesis
    using replay_receipt_on_disk [OF run_reaches_closed, of 0 run_receipt "fst (capture_replay 0 run_receipt run_closed)"
        "snd (capture_replay 0 run_receipt run_closed)" 0] by (simp add: run_closed_eq)
qed

text \<open>
  C14. A request that is at the system carries the bytes its callers handed over for its range; it touches no byte
  that is confirmed, by this attempt or by an earlier one, and no byte of another request for the same file.
\<close>

theorem requests_never_overlap:
  assumes "writer_reach os c t" "s = ws_w t" "b < length (aw_buffers s)" "bf_stage (buf_of s b) = B_submitted" "f = buf_file s b"
  shows "bf_bytes (buf_of s b) = bytes_at (c f) (unat (bf_output_offset (buf_of s b))) (bf_size (buf_of s b)) \<and>
    request_range s b \<inter> (confirmed (wf_written_ranges (file_of s f)) \<union> confirmed (previous_writes (file_of s f)) \<union> other_requests s b) = {}"
proof -
  have inv: "writer_inv c (ws_disk t) s" using writer.invar_reach [OF assms(1)] assms(2) by (simp add: sys_inv_def)
  have f: "bf_file (buf_of s b) = Some f" using inv_buf_file(1) [OF inv assms(3)] assms(4,5) by simp
  have ok: "bf_bytes (buf_of s b) = bytes_at (c f) (unat (start s b)) (bf_size (buf_of s b))"
    "pending s b \<inter> (confirmed (wf_written_ranges (file_of s f)) \<union> confirmed (previous_writes (file_of s f))) = {}"
    using inv_buf [OF inv assms(3)] f by (simp_all add: buf_ok_def)
  then show ?thesis using requests_apart [OF inv assms(3,4)] request_pending [OF assms(4)] by (simp add: Int_Un_distrib)
qed

theorem requests_never_overlap_witness:
  "request_range run_submit 3 = {0} \<and> request_range run_submit 3 \<inter> (confirmed (wf_written_ranges (file_of run_submit 0)) \<union>
     confirmed (previous_writes (file_of run_submit 0)) \<union> other_requests run_submit 3) = {}"
proof -
  have "request_range run_submit 3 = {0}" by (auto simp: request_range_def bf_size_def run_submit_eq)
  then show ?thesis
    using requests_never_overlap [OF run_reaches_submit refl, of 3 0] by (simp add: run_submit_eq buf_file_def)
qed

text \<open>
  C17. A write that fills its buffer while the work queue is at its limit ends with \<^verbatim>\<open>E_FAIL\<close> although nothing is
  wrong with the job: the bytes are accepted and the buffer stays where it is. Closes are queued without a limit,
  so many small files are enough to fill the queue.
\<close>

theorem full_queue_fails_write:
  assumes f: "f < length (aw_files s)" "wf_staging_buffer (file_of s f) = Some b" "b < length (aw_buffers s)"
    and live: "terminal_result_locked (wf_job (file_of s f)) s = s_ok" "\<not> wf_close_requested (file_of s f)"
    and size: "bf_size (buf_of s b) = previous" "previous + chunk = kBufferSize" "chunk \<le> length data - consumed"
    and full: "aw_queue_limit s \<le> aw_queued_jobs s"
    and w: "write_commit ans f data consumed previous chunk newly s = (r, s')"
  shows "r = Some (e_fail, consumed + chunk) \<and> terminal_result_locked (wf_job (file_of s f)) s' = s_ok \<and>
    wf_accepted_bytes (file_of s' f) = wf_accepted_bytes (file_of s f) + of_nat chunk \<and> wf_staging_buffer (file_of s' f) = Some b"
proof -
  let ?j = "wf_job (file_of s f)"
  let ?s1 = "upd_buf b (\<lambda>x. x\<lparr>bf_bytes := take previous (bf_bytes x) @ take chunk (drop consumed data)\<rparr>) s"
  let ?s2 = "if previous = 0 then upd_job ?j (\<lambda>x. x\<lparr>jb_pending_jobs := jb_pending_jobs x + 1\<rparr>)
    (upd_file f (\<lambda>x. x\<lparr>wf_outstanding_data := wf_outstanding_data x + 1\<rparr>) ?s1) else ?s1"
  define s3 where "s3 = meter (account_accepted (of_nat chunk)) (upd_file f (\<lambda>x. x\<lparr>wf_accepted_bytes := wf_accepted_bytes x + of_nat chunk,
    wf_new_writes := True, wf_producer := P_write data (consumed + chunk)\<rparr>) ?s2)"
  have m: "aw_buffers (meter h t) = aw_buffers t" "aw_queue_limit (meter h t) = aw_queue_limit t" "aw_queued_jobs (meter h t) = aw_queued_jobs t"
    "terminal_result_locked j (meter h t) = terminal_result_locked j t" for h t j
    by (auto simp: meter_def terminal_result_locked_def split: prod.splits)
  have b3: "bf_size (buf_of s3 b) = kBufferSize"
    using size f(3) by (simp add: s3_def m bf_size_def buf_upd)
  have f3: "wf_staging_buffer (file_of s3 f) = Some b" "wf_accepted_bytes (file_of s3 f) = wf_accepted_bytes (file_of s f) + of_nat chunk"
    using f(1,2) by (simp_all add: s3_def file_upd)
  have q3: "aw_queue_limit s3 \<le> aw_queued_jobs s3" using full by (simp add: s3_def m upd_file_def upd_job_def upd_buf_def)
  have t3: "terminal_result_locked ?j s3 = s_ok"
  proof -
    have "terminal_result_locked ?j (upd_job ?j (\<lambda>x. x\<lparr>jb_pending_jobs := jb_pending_jobs x + 1\<rparr>) t) = terminal_result_locked ?j t" for t
      by (cases "?j < length (aw_jobs t)") (simp_all add: terminal_result_locked_def upd_job_def list_update_beyond)
    moreover have "terminal_result_locked ?j (upd_file f g t) = terminal_result_locked ?j t" "terminal_result_locked ?j (upd_buf b h t) = terminal_result_locked ?j t" for g h t
      by (simp_all add: terminal_result_locked_def)
    ultimately show ?thesis using live(1) by (simp add: s3_def m)
  qed
  have e: "enqueue_staging_locked ans f False s3 = (False, s3)" using f3(1) q3 b3 by (simp add: enqueue_staging_locked_def)
  have "write_commit ans f data consumed previous chunk newly s = (Some (e_fail, consumed + chunk), write_return f s3)"
    using f(2) live b3 e t3 by (simp add: write_commit_def commit_chunk_def Let_def s3_def [symmetric])
  moreover have "terminal_result_locked ?j (upd_file f g t) = terminal_result_locked ?j t" for g t
    by (simp add: terminal_result_locked_def)
  then have "terminal_result_locked ?j (write_return f s3) = s_ok" using t3 by (simp add: write_return_def)
  moreover have "f < length (aw_files s3)" using f(1) by (simp add: s3_def)
  ultimately show ?thesis using w f3 by (auto simp: write_return_def file_upd)
qed

theorem full_queue_fails_write_witness:
  "fst (write_commit Posted 0 (replicate (2 ^ 20) 5) 0 0 (2 ^ 20) True (run_setup\<lparr>aw_queued_jobs := 4\<rparr>)) = Some (e_fail, 2 ^ 20)"
  using full_queue_fails_write [where s = "run_setup\<lparr>aw_queued_jobs := 4\<rparr>" and f = 0 and b = 3 and previous = 0 and chunk = "2 ^ 20" and
      data = "replicate (2 ^ 20) 5" and consumed = 0 and ans = Posted and newly = True,
      OF _ _ _ _ _ _ _ _ _ prod.collapse [symmetric]]
  by (simp add: run_setup_eq terminal_result_locked_def bf_size_def)

text \<open>
  C15. Every buffer is in one place: the free list holds each free buffer once, the work queue each queued buffer
  once and the retry queue each waiting buffer once, and nothing else.
\<close>

theorem buffers_have_one_owner:
  assumes "writer_reach os c t" "s = ws_w t"
  shows "distinct (aw_free_buffers s) \<and> set (aw_free_buffers s) = {b. b < length (aw_buffers s) \<and> bf_stage (buf_of s b) = B_free} \<and>
    distinct (map fst (data_items (aw_work_queue s))) \<and>
    fst ` set (data_items (aw_work_queue s)) = {b. b < length (aw_buffers s) \<and> bf_stage (buf_of s b) = B_queued} \<and>
    distinct (map fst (data_items (aw_retry_queue s))) \<and>
    fst ` set (data_items (aw_retry_queue s)) = {b. b < length (aw_buffers s) \<and> bf_stage (buf_of s b) = B_retry}"
proof -
  have "lists_ok s" using writer.invar_reach [OF assms(1)] inv_lists [of c "ws_disk t" s] by (simp add: sys_inv_def assms(2))
  then show ?thesis unfolding lists_ok_def by (elim conjE) (intro conjI; assumption)
qed

theorem buffers_have_one_owner_witness:
  "distinct (aw_free_buffers run_closed) \<and>
   set (aw_free_buffers run_closed) = {b. b < length (aw_buffers run_closed) \<and> bf_stage (buf_of run_closed b) = B_free}"
  using buffers_have_one_owner [OF run_reaches_closed refl] unfolding writer_sys.simps by (elim conjE) (intro conjI; assumption)

text \<open>
  C16. A file is handed to its close only after its last byte left the buffers: \<^verbatim>\<open>outstanding_data\<close> counts the buffers
  that hold bytes of the file, and once the close is queued there is none.
\<close>

theorem close_waits_for_writes:
  assumes "writer_reach os c t" "s = ws_w t" "f < length (aw_files s)" "wf_close_enqueued (file_of s f)"
  shows "wf_outstanding_data (file_of s f) = 0 \<and> wf_close_requested (file_of s f) \<and>
    {b. b < length (aw_buffers s) \<and> bf_file (buf_of s b) = Some f \<and> bf_bytes (buf_of s b) \<noteq> []} = {}"
  using inv_enqueued [of c "ws_disk t" s f] writer.invar_reach [OF assms(1)] assms(2-4) by (simp add: sys_inv_def nonempty_buffers_def)

theorem close_waits_for_writes_witness: "wf_outstanding_data (file_of run_closed 0) = 0 \<and> wf_close_enqueued (file_of run_closed 0)"
  using close_waits_for_writes [OF run_reaches_closed refl, of 0] by (simp add: run_closed_eq)

end
