(* ===== verification/Writer_Accounting.thy ===== *)
theory Writer_Accounting
  imports Writer_Safety
begin

text \<open>
  The counters of the asynchronous writer: bytes in flight of files and jobs, buffers and closes a job waits for. An
  abstract ledger says how amounts may move; every region of the writer is a run of its steps, so the books
  balance in every reachable state, the limits of flow control hold and the wait of \<^verbatim>\<open>finish_job\<close> is right.
\<close>

section \<open>The ledger of a writer\<close>

text \<open>
  What the counters speak of: which file each buffer belongs to and how many bytes it holds; of a file its job,
  the bytes in flight, the bytes its producer has reserved and the answers it still owes to its job (its buffers and
  its close); of a job the bytes in flight, the answers it waits for and the limit.
\<close>

record file_acct =
  fa_job :: nat
  fa_inflight :: nat
  fa_reserved :: nat
  fa_owed :: nat

record job_acct =
  ja_inflight :: nat
  ja_pending :: nat
  ja_limit :: nat

record writer_ledger =
  lg_buffers :: "(nat option \<times> nat) list"
  lg_files :: "file_acct list"
  lg_jobs :: "job_acct list"

fun reserved :: "producer_stage \<Rightarrow> nat" where
  "reserved (P_copy data consumed previous chunk newly) = chunk"
| "reserved p = 0"

definition buffer_account :: "io_buffer \<Rightarrow> nat option \<times> nat" where
  "buffer_account x = (bf_file x, bf_size x)"

definition file_account :: "file_state \<Rightarrow> file_acct" where
  "file_account x = \<lparr>fa_job = wf_job x, fa_inflight = wf_inflight_bytes x, fa_reserved = reserved (wf_producer x),
     fa_owed = wf_outstanding_data x + (if wf_close_requested x \<and> \<not> wf_closed x then 1 else 0)\<rparr>"

definition job_account :: "writer_job \<Rightarrow> job_acct" where
  "job_account x = \<lparr>ja_inflight = jb_inflight_bytes x, ja_pending = jb_pending_jobs x, ja_limit = jb_max_inflight_bytes x\<rparr>"

definition ledger_of :: "awriter \<Rightarrow> writer_ledger" where
  "ledger_of s = \<lparr>lg_buffers = map buffer_account (aw_buffers s), lg_files = map file_account (aw_files s),
     lg_jobs = map job_account (aw_jobs s)\<rparr>"

definition move_account :: "nat \<Rightarrow> (nat \<Rightarrow> nat) \<Rightarrow> (nat \<Rightarrow> nat) \<Rightarrow> (nat \<Rightarrow> nat) \<Rightarrow> writer_ledger \<Rightarrow> writer_ledger" where
  "move_account f inflight res owed l =
     (let x = lg_files l ! f; j = fa_job x; y = lg_jobs l ! j
      in l\<lparr>lg_files := (lg_files l)[f := x\<lparr>fa_inflight := inflight (fa_inflight x), fa_reserved := res (fa_reserved x), fa_owed := owed (fa_owed x)\<rparr>],
           lg_jobs := (lg_jobs l)[j := y\<lparr>ja_inflight := inflight (ja_inflight y), ja_pending := owed (ja_pending y)\<rparr>]\<rparr>)"

text \<open>
  The specification of the accounting: what a step of the writer may do to the ledger. Bytes are reserved within both
  limits, move from the reservation into a buffer, and are given back with the buffer; the first bytes of a
  buffer and the request to close owe an answer, the release of the buffer and the end of the close give it.
\<close>

inductive ledger_step :: "writer_ledger \<Rightarrow> writer_ledger \<Rightarrow> bool" where
  lg_job: "ledger_step l (l\<lparr>lg_jobs := lg_jobs l @ [\<lparr>ja_inflight = 0, ja_pending = 0, ja_limit = n\<rparr>]\<rparr>)"
| lg_file: "j < length (lg_jobs l) \<Longrightarrow> Some (length (lg_files l)) \<notin> fst ` set (lg_buffers l) \<Longrightarrow>
    ledger_step l (l\<lparr>lg_files := lg_files l @ [\<lparr>fa_job = j, fa_inflight = 0, fa_reserved = 0, fa_owed = 0\<rparr>]\<rparr>)"
| lg_take: "b < length (lg_buffers l) \<Longrightarrow> lg_buffers l ! b = (None, 0) \<Longrightarrow> f < length (lg_files l) \<Longrightarrow>
    ledger_step l (l\<lparr>lg_buffers := (lg_buffers l)[b := (Some f, 0)]\<rparr>)"
| lg_drop: "b < length (lg_buffers l) \<Longrightarrow> lg_buffers l ! b = (Some f, 0) \<Longrightarrow>
    ledger_step l (l\<lparr>lg_buffers := (lg_buffers l)[b := (None, 0)]\<rparr>)"
| lg_reserve: "f < length (lg_files l) \<Longrightarrow> fa_reserved (lg_files l ! f) = 0 \<Longrightarrow> fa_inflight (lg_files l ! f) + n \<le> kDefaultFileInFlightBytes \<Longrightarrow>
    ja_inflight (lg_jobs l ! fa_job (lg_files l ! f)) + n \<le> ja_limit (lg_jobs l ! fa_job (lg_files l ! f)) \<Longrightarrow>
    ledger_step l (move_account f (\<lambda>k. k + n) (\<lambda>r. n) (\<lambda>k. k) l)"
| lg_unreserve: "f < length (lg_files l) \<Longrightarrow> fa_reserved (lg_files l ! f) = n \<Longrightarrow>
    ledger_step l (move_account f (\<lambda>k. k - n) (\<lambda>r. 0) (\<lambda>k. k) l)"
| lg_commit: "f < length (lg_files l) \<Longrightarrow> b < length (lg_buffers l) \<Longrightarrow> lg_buffers l ! b = (Some f, n) \<Longrightarrow> fa_reserved (lg_files l ! f) = r \<Longrightarrow>
    ledger_step l (move_account f (\<lambda>k. k) (\<lambda>r. 0) (\<lambda>k. if n = 0 then k + 1 else k) (l\<lparr>lg_buffers := (lg_buffers l)[b := (Some f, n + r)]\<rparr>))"
| lg_release: "f < length (lg_files l) \<Longrightarrow> b < length (lg_buffers l) \<Longrightarrow> lg_buffers l ! b = (Some f, n) \<Longrightarrow> 0 < fa_owed (lg_files l ! f) \<Longrightarrow>
    ledger_step l (move_account f (\<lambda>k. k - n) (\<lambda>r. r) (\<lambda>k. k - 1) (l\<lparr>lg_buffers := (lg_buffers l)[b := (None, 0)]\<rparr>))"
| lg_request: "f < length (lg_files l) \<Longrightarrow> ledger_step l (move_account f (\<lambda>k. k) (\<lambda>r. r) (\<lambda>k. k + 1) l)"
| lg_close: "f < length (lg_files l) \<Longrightarrow> 0 < fa_owed (lg_files l ! f) \<Longrightarrow> ledger_step l (move_account f (\<lambda>k. k) (\<lambda>r. r) (\<lambda>k. k - 1) l)"

abbreviation ledger_run :: "writer_ledger \<Rightarrow> writer_ledger \<Rightarrow> bool" where
  "ledger_run \<equiv> ledger_step\<^sup>*\<^sup>*"

definition held :: "writer_ledger \<Rightarrow> nat \<Rightarrow> nat" where
  "held l f = (\<Sum>x\<leftarrow>lg_buffers l. if fst x = Some f then snd x else 0)"

definition of_job :: "(file_acct \<Rightarrow> nat) \<Rightarrow> writer_ledger \<Rightarrow> nat \<Rightarrow> nat" where
  "of_job v l j = (\<Sum>x\<leftarrow>lg_files l. if fa_job x = j then v x else 0)"

definition ledger_balanced :: "writer_ledger \<Rightarrow> bool" where
  "ledger_balanced l \<longleftrightarrow>
     (\<forall>f<length (lg_files l). fa_job (lg_files l ! f) < length (lg_jobs l) \<and>
        fa_inflight (lg_files l ! f) = held l f + fa_reserved (lg_files l ! f) \<and>
        fa_inflight (lg_files l ! f) \<le> kDefaultFileInFlightBytes) \<and>
     (\<forall>j<length (lg_jobs l). ja_inflight (lg_jobs l ! j) = of_job fa_inflight l j \<and> ja_pending (lg_jobs l ! j) = of_job fa_owed l j \<and>
        ja_inflight (lg_jobs l ! j) \<le> ja_limit (lg_jobs l ! j)) \<and>
     (\<forall>x\<in>set (lg_buffers l). \<forall>f. fst x = Some f \<longrightarrow> f < length (lg_files l))"

lemma sum_list_change:
  fixes h :: "'a \<Rightarrow> nat"
  assumes "i < length xs"
  shows "sum_list (map h (xs[i := y])) + h (xs ! i) = sum_list (map h xs) + h y"
  using assms by (induction xs arbitrary: i) (auto split: nat.splits simp: less_Suc_eq_0_disj)

lemma sum_list_member: "i < length xs \<Longrightarrow> h (xs ! i) \<le> sum_list (map h xs)" for h :: "'a \<Rightarrow> nat"
  by (induction xs arbitrary: i) (auto simp: less_Suc_eq_0_disj trans_le_add2)

lemma move_account_sel [simp]:
  "lg_buffers (move_account f p r w l) = lg_buffers l"
  "length (lg_files (move_account f p r w l)) = length (lg_files l)" "length (lg_jobs (move_account f p r w l)) = length (lg_jobs l)"
  by (simp_all add: move_account_def Let_def)

text \<open>A file and its job move by the same amount.\<close>

lemma balanced_move:
  assumes bal: "ledger_balanced l" and f: "f < length (lg_files l)"
    and x: "x = lg_files l ! f" and y: "y = lg_jobs l ! fa_job x" and m: "m = l\<lparr>lg_buffers := bs\<rparr>"
    and own: "p (fa_inflight x) = held m f + r (fa_reserved x)" "p (fa_inflight x) \<le> kDefaultFileInFlightBytes"
    and other: "\<And>g. g \<noteq> f \<Longrightarrow> held m g = held l g"
    and job: "p (ja_inflight y) + fa_inflight x = ja_inflight y + p (fa_inflight x)" "w (ja_pending y) + fa_owed x = ja_pending y + w (fa_owed x)"
      "p (ja_inflight y) \<le> ja_limit y"
    and bs: "\<And>z g. z \<in> set bs \<Longrightarrow> fst z = Some g \<Longrightarrow> g < length (lg_files l)"
  shows "ledger_balanced (move_account f p r w m)" (is "ledger_balanced ?l")
proof -
  let ?x = "x\<lparr>fa_inflight := p (fa_inflight x), fa_reserved := r (fa_reserved x), fa_owed := w (fa_owed x)\<rparr>"
  let ?y = "y\<lparr>ja_inflight := p (ja_inflight y), ja_pending := w (ja_pending y)\<rparr>"
  have files: "lg_files ?l = (lg_files l)[f := ?x]" and jobs: "lg_jobs ?l = (lg_jobs l)[fa_job x := ?y]"
    by (simp_all add: move_account_def Let_def m x y)
  have held: "held ?l = held m" by (rule ext) (simp add: held_def)
  have jx: "fa_job x < length (lg_jobs l)" using bal f x by (simp add: ledger_balanced_def)
  have change: "of_job v ?l j + (if fa_job x = j then v x else 0) = of_job v l j + (if fa_job x = j then v ?x else 0)" for v j
    using sum_list_change [OF f, of "\<lambda>x. if fa_job x = j then v x else 0" ?x] unfolding x [symmetric] of_job_def files by (simp split: if_splits)
  have "of_job fa_inflight ?l (fa_job x) = p (ja_inflight y)" "of_job fa_owed ?l (fa_job x) = w (ja_pending y)"
    using change [of fa_inflight "fa_job x"] change [of fa_owed "fa_job x"] job bal jx by (auto simp: ledger_balanced_def y)
  moreover have "of_job v ?l j = of_job v l j" if "j \<noteq> fa_job x" for v j using change [of v j] that by simp
  ultimately have "\<forall>j<length (lg_jobs ?l). ja_inflight (lg_jobs ?l ! j) = of_job fa_inflight ?l j \<and> ja_pending (lg_jobs ?l ! j) = of_job fa_owed ?l j \<and>
      ja_inflight (lg_jobs ?l ! j) \<le> ja_limit (lg_jobs ?l ! j)"
    using bal job(3) jx unfolding ledger_balanced_def jobs by (auto simp: nth_list_update)
  moreover have "\<forall>g<length (lg_files ?l). fa_job (lg_files ?l ! g) < length (lg_jobs ?l) \<and>
      fa_inflight (lg_files ?l ! g) = held ?l g + fa_reserved (lg_files ?l ! g) \<and> fa_inflight (lg_files ?l ! g) \<le> kDefaultFileInFlightBytes"
    using bal own other jx f unfolding ledger_balanced_def files jobs held by (auto simp: nth_list_update)
  moreover have "\<forall>z\<in>set (lg_buffers ?l). \<forall>g. fst z = Some g \<longrightarrow> g < length (lg_files ?l)" using bs by (simp add: m)
  ultimately show ?thesis unfolding ledger_balanced_def by blast
qed

lemma balanced_owns: "ledger_balanced l \<Longrightarrow> z \<in> set ((lg_buffers l)[b := (g, n)]) \<Longrightarrow> fst z = Some f \<Longrightarrow> g = None \<or> g = Some h \<and> h < length (lg_files l) \<Longrightarrow> f < length (lg_files l)"
  using set_update_subset_insert [of "lg_buffers l" b "(g, n)"] by (auto simp: ledger_balanced_def)

lemma held_change:
  assumes "b < length (lg_buffers l)" "lg_buffers l ! b = (g, n)"
  shows "held (l\<lparr>lg_buffers := (lg_buffers l)[b := (h, k)]\<rparr>) f + (if g = Some f then n else 0) = held l f + (if h = Some f then k else 0)"
  using sum_list_change [OF assms(1), of "\<lambda>x. if fst x = Some f then snd x else 0" "(h, k)"] assms(2) by (auto simp: held_def split: if_splits)

lemma held_member: "b < length (lg_buffers l) \<Longrightarrow> lg_buffers l ! b = (Some f, n) \<Longrightarrow> n \<le> held l f"
  using sum_list_member [of b "lg_buffers l" "\<lambda>x. if fst x = Some f then snd x else 0"] by (simp add: held_def)

lemma balanced_file:
  assumes "ledger_balanced l" "f < length (lg_files l)" "x = lg_files l ! f" "y = lg_jobs l ! fa_job x"
  shows "fa_job x < length (lg_jobs l)" "fa_inflight x = held l f + fa_reserved x" "fa_inflight x \<le> kDefaultFileInFlightBytes"
    "fa_inflight x \<le> ja_inflight y" "fa_owed x \<le> ja_pending y" "ja_inflight y \<le> ja_limit y"
proof -
  show j: "fa_job x < length (lg_jobs l)" "fa_inflight x = held l f + fa_reserved x" "fa_inflight x \<le> kDefaultFileInFlightBytes"
    using assms(1,2) unfolding ledger_balanced_def assms(3) by blast+
  have "v x \<le> of_job v l (fa_job x)" for v
    using sum_list_member [OF assms(2), of "\<lambda>z. if fa_job z = fa_job x then v z else 0"] assms(3) by (simp add: of_job_def)
  then show "fa_inflight x \<le> ja_inflight y" "fa_owed x \<le> ja_pending y" "ja_inflight y \<le> ja_limit y"
    using assms(1,4) j(1) by (auto simp: ledger_balanced_def)
qed

lemma balanced_same:
  assumes "ledger_balanced l" "\<And>f. held (l\<lparr>lg_buffers := bs\<rparr>) f = held l f" "\<And>z f. z \<in> set bs \<Longrightarrow> fst z = Some f \<Longrightarrow> f < length (lg_files l)"
  shows "ledger_balanced (l\<lparr>lg_buffers := bs\<rparr>)"
  using assms by (auto simp: ledger_balanced_def of_job_def)

lemma ledger_step_balanced: "ledger_step l m \<Longrightarrow> ledger_balanced l \<Longrightarrow> ledger_balanced m"
proof (induction rule: ledger_step.induct)
  case (lg_job l n)
  have "of_job v l (length (lg_jobs l)) = 0" for v
    using lg_job by (force simp: of_job_def ledger_balanced_def in_set_conv_nth sum_list_eq_0_iff)
  moreover have "of_job v (l\<lparr>lg_jobs := js\<rparr>) = of_job v l" "held (l\<lparr>lg_jobs := js\<rparr>) = held l" for v js
    by (auto simp: of_job_def held_def)
  ultimately show ?case using lg_job by (auto simp: ledger_balanced_def nth_append less_Suc_eq)
next
  case (lg_file j l)
  have "held l (length (lg_files l)) = 0" using lg_file(2) by (force simp: held_def sum_list_eq_0_iff)
  moreover have "held (l\<lparr>lg_files := fs\<rparr>) = held l" for fs by (auto simp: held_def)
  moreover have "of_job fa_inflight (l\<lparr>lg_files := lg_files l @ [\<lparr>fa_job = j, fa_inflight = 0, fa_reserved = 0, fa_owed = 0\<rparr>]\<rparr>) = of_job fa_inflight l"
    "of_job fa_owed (l\<lparr>lg_files := lg_files l @ [\<lparr>fa_job = j, fa_inflight = 0, fa_reserved = 0, fa_owed = 0\<rparr>]\<rparr>) = of_job fa_owed l"
    by (auto simp: of_job_def)
  ultimately show ?case using lg_file by (auto simp: ledger_balanced_def nth_append less_Suc_eq)
next
  case (lg_take b l f)
  show ?case
    using held_change [OF lg_take(1,2), of "Some f" 0] balanced_owns [OF lg_take(4), of _ b "Some f" 0 _ f] lg_take(3)
    by (intro balanced_same [OF lg_take(4)]) auto
next
  case (lg_drop b l f)
  show ?case
    using held_change [OF lg_drop(1,2), of None 0] balanced_owns [OF lg_drop(3), of _ b None 0]
    by (intro balanced_same [OF lg_drop(3)]) auto
next
  case (lg_reserve f l n)
  show ?case
    using balanced_file [OF lg_reserve(5,1) refl refl] lg_reserve
    by (intro balanced_move [where l = l and bs = "lg_buffers l"]) (auto simp: ledger_balanced_def)
next
  case (lg_unreserve f l n)
  show ?case
    using balanced_file [OF lg_unreserve(3,1) refl refl] lg_unreserve
    by (intro balanced_move [where l = l and bs = "lg_buffers l"]) (auto simp: ledger_balanced_def)
next
  case (lg_commit f l b n r)
  note h = held_change [OF lg_commit(2,3), of "Some f" "n + r"]
  have o: "held (l\<lparr>lg_buffers := (lg_buffers l)[b := (Some f, n + r)]\<rparr>) g = held l g" if "g \<noteq> f" for g using h [of g] that by simp
  show ?case
    using balanced_file [OF lg_commit(5,1) refl refl] lg_commit h [of f] o balanced_owns [OF lg_commit(5), of _ b "Some f" "n + r" _ f]
    by (intro balanced_move [where l = l and bs = "(lg_buffers l)[b := (Some f, n + r)]"]) auto
next
  case (lg_release f l b n)
  note h = held_change [OF lg_release(2,3), of None 0]
  have o: "held (l\<lparr>lg_buffers := (lg_buffers l)[b := (None, 0)]\<rparr>) g = held l g" if "g \<noteq> f" for g using h [of g] that by simp
  show ?case
    using balanced_file [OF lg_release(5,1) refl refl] lg_release held_member [OF lg_release(2,3)] h [of f] o balanced_owns [OF lg_release(5), of _ b None 0]
    by (intro balanced_move [where l = l and bs = "(lg_buffers l)[b := (None, 0)]"]) auto
next
  case (lg_request f l)
  show ?case
    using balanced_file [OF lg_request(2,1) refl refl] lg_request
    by (intro balanced_move [where l = l and bs = "lg_buffers l"]) (auto simp: ledger_balanced_def)
next
  case (lg_close f l)
  show ?case
    using balanced_file [OF lg_close(3,1) refl refl] lg_close
    by (intro balanced_move [where l = l and bs = "lg_buffers l"]) (auto simp: ledger_balanced_def)
qed

lemma ledger_run_balanced: "ledger_run l m \<Longrightarrow> ledger_balanced l \<Longrightarrow> ledger_balanced m"
  by (induction rule: rtranclp_induct) (auto intro: ledger_step_balanced)

section \<open>Regions that leave the ledger alone\<close>

lemma ledger_upd_file: "ledger_of (upd_file f g s) = (ledger_of s)\<lparr>lg_files := (lg_files (ledger_of s))[f := file_account (g (file_of s f))]\<rparr>"
  by (simp add: ledger_of_def upd_file_def map_update)

lemma ledger_upd_job: "ledger_of (upd_job j g s) = (ledger_of s)\<lparr>lg_jobs := (lg_jobs (ledger_of s))[j := job_account (g (job_of s j))]\<rparr>"
  by (simp add: ledger_of_def upd_job_def map_update)

lemma ledger_upd_buf: "ledger_of (upd_buf b g s) = (ledger_of s)\<lparr>lg_buffers := (lg_buffers (ledger_of s))[b := buffer_account (g (buf_of s b))]\<rparr>"
  by (simp add: ledger_of_def upd_buf_def map_update)

lemma update_same: "v (g (xs ! i)) = v (xs ! i) \<Longrightarrow> map v (xs[i := g (xs ! i)]) = map v xs"
  by (cases "i < length xs") (auto simp: map_update list_update_same_conv list_update_beyond)

lemma ledger_file_same: "file_account (g (file_of s f)) = file_account (file_of s f) \<Longrightarrow> ledger_of (upd_file f g s) = ledger_of s"
  by (simp add: ledger_of_def upd_file_def update_same)

lemma ledger_job_same: "job_account (g (job_of s j)) = job_account (job_of s j) \<Longrightarrow> ledger_of (upd_job j g s) = ledger_of s"
  by (simp add: ledger_of_def upd_job_def update_same)

lemma ledger_buf_same: "buffer_account (g (buf_of s b)) = buffer_account (buf_of s b) \<Longrightarrow> ledger_of (upd_buf b g s) = ledger_of s"
  by (simp add: ledger_of_def upd_buf_def update_same)

lemmas ledger_same = ledger_file_same ledger_job_same ledger_buf_same file_account_def job_account_def buffer_account_def bf_size_def

lemma ledger_frame [simp]:
  "ledger_of (s\<lparr>aw_free_buffers := xs\<rparr>) = ledger_of s" "ledger_of (s\<lparr>aw_work_queue := q\<rparr>) = ledger_of s" "ledger_of (s\<lparr>aw_retry_queue := q\<rparr>) = ledger_of s"
  "ledger_of (s\<lparr>aw_active_jobs := js\<rparr>) = ledger_of s" "ledger_of (s\<lparr>aw_active_files := fs\<rparr>) = ledger_of s" "ledger_of (s\<lparr>aw_queued_jobs := n\<rparr>) = ledger_of s"
  "ledger_of (s\<lparr>aw_stopping := p\<rparr>) = ledger_of s" "ledger_of (s\<lparr>aw_volume := v\<rparr>) = ledger_of s" "ledger_of (s\<lparr>aw_meters := m\<rparr>) = ledger_of s"
  "ledger_of (s\<lparr>aw_wake_posted := p\<rparr>) = ledger_of s" "ledger_of (s\<lparr>aw_effects := es\<rparr>) = ledger_of s"
  by (simp_all add: ledger_of_def)

lemma ledger_quiet [simp]:
  "ledger_of (with_gate h s) = ledger_of s" "ledger_of (meter k s) = ledger_of s" "ledger_of (completion_wake posted s) = ledger_of s"
  "ledger_of (set_job_error_locked j hr e s) = ledger_of s" "ledger_of (mark_file_failure_locked f hr e s) = ledger_of s"
  "ledger_of (snd (begin_data_write f s)) = ledger_of s" "ledger_of (end_data_write f s) = ledger_of s"
  "ledger_of (record_operation_result f r s) = ledger_of s"
  by (auto simp: with_gate_def meter_def completion_wake_def set_job_error_locked_def mark_file_failure_locked_def begin_data_write_def
      end_data_write_def record_operation_result_def ledger_same split: option.splits prod.splits)

lemma ledger_errors [simp]:
  "ledger_of (cancel_job_locked j s) = ledger_of s" "ledger_of (synchronize_cancellation_locked j s) = ledger_of s"
  "ledger_of (snd (current_error j s)) = ledger_of s" "ledger_of (snd (current_win32_error j s)) = ledger_of s"
  "ledger_of (fail_file f hr e s) = ledger_of s" "ledger_of (record_failure os f hr e n s) = ledger_of s"
  "ledger_of (snd (classify_data_failure os f e s)) = ledger_of s" "ledger_of (settle_lease os r p l s) = ledger_of s"
  by (simp_all add: cancel_job_locked_def synchronize_cancellation_locked_def current_error_def current_win32_error_def fail_file_def
      record_failure_def classify_data_failure_def settle_lease_def Let_def ledger_same)


lemma ledger_files [simp]:
  "ledger_of (unregister_file_locked f s) = ledger_of s" "ledger_of (close_handle os ca f s) = ledger_of s"
  by (auto simp: unregister_file_locked_def close_handle_def Let_def ledger_same split: option.splits)

lemma ledger_open [simp]: "ledger_of (snd (try_open_file oa f s)) = ledger_of s"
  by (auto simp: try_open_file_def Let_def ledger_same split: open_answer.splits)

lemma ledger_attempts [simp]:
  "ledger_of (attempt_check os b s) = ledger_of s" "ledger_of (attempt_open oa b s) = ledger_of s" "ledger_of (submit_data_write os error b s) = ledger_of s"
  "ledger_of (add_written_bytes no_memory f n off s) = ledger_of s" "ledger_of (complete_data_write os no_memory bytes code b s) = ledger_of s"
proof -
  have o: "ledger_of s' = ledger_of s" if "try_open_file oa f s = (r, s')" for f r s' s using ledger_open [of oa f s] that by simp
  show "ledger_of (attempt_open oa b s) = ledger_of s" by (auto simp: attempt_open_def ledger_same o split: prod.splits)
  have e: "ledger_of s' = ledger_of s" if "current_error j s = (e, s')" for j e s' s using ledger_errors(3) [of j s] that by simp
  have w: "ledger_of s' = ledger_of s" if "current_win32_error j s = (e, s')" for j e s' s using ledger_errors(4) [of j s] that by simp
  show "ledger_of (attempt_check os b s) = ledger_of s"
    by (auto simp: attempt_check_def Let_def ledger_same e w split: prod.splits)
  have c: "ledger_of s' = ledger_of s" if "classify_data_failure os f e s = (r, s')" for f e r s' s using ledger_errors(7) [of os f e s] that by simp
  have b: "ledger_of s' = ledger_of s" if "begin_data_write f s = (r, s')" for f r s' s using ledger_quiet(6) [of f s] that by simp
  show "ledger_of (submit_data_write os error b s) = ledger_of s"
    by (auto simp: submit_data_write_def Let_def ledger_same c b split: prod.splits bool.splits option.splits)
  show a: "ledger_of (add_written_bytes no_memory f n off s) = ledger_of s" for no_memory f n off s
    by (simp add: add_written_bytes_def Let_def ledger_same)
  show "ledger_of (complete_data_write os no_memory bytes code b s) = ledger_of s"
    by (auto simp: complete_data_write_def Let_def ledger_same a c split: prod.splits)
qed

lemma ledger_queues [simp]:
  "ledger_of (start_item item s) = ledger_of s" "ledger_of (dequeue_work s) = ledger_of s" "ledger_of (defer_space_work os posted f item s) = ledger_of s"
  "ledger_of (snd (enqueue_close_locked ans f s)) = ledger_of s" "ledger_of (resume_item os item l s) = ledger_of s" "ledger_of (drain_cancelled_retries posted s) = ledger_of s"
  "ledger_of (acknowledge_wake s) = ledger_of s"
proof -
  show i: "ledger_of (start_item item s) = ledger_of s" for item s by (cases item) (simp_all add: ledger_same)
  show "ledger_of (dequeue_work s) = ledger_of s" by (simp add: dequeue_work_def i split: list.splits)
  show "ledger_of (defer_space_work os posted f item s) = ledger_of s" by (simp add: defer_space_work_def Let_def)
  show "ledger_of (snd (enqueue_close_locked ans f s)) = ledger_of s"
    by (auto simp: enqueue_close_locked_def Let_def ledger_same split: post_answer.splits)
  show "ledger_of (resume_item os item l s) = ledger_of s" by (cases item) (simp_all add: ledger_same)
  show "ledger_of (drain_cancelled_retries posted s) = ledger_of s" by (simp add: drain_cancelled_retries_def)
  show "ledger_of (acknowledge_wake s) = ledger_of s" by (simp add: acknowledge_wake_def)
qed

lemma ledger_pick: "pick_retry q s = (r, s') \<Longrightarrow> ledger_of s' = ledger_of s"
proof (induction q arbitrary: s r s')
  case (Cons item q)
  from Cons.prems show ?case
    by (auto simp: Let_def split: option.splits prod.splits wait_result.splits dest!: Cons.IH)
qed simp

lemma ledger_fold: "(\<And>j s. ledger_of (h j s) = ledger_of s) \<Longrightarrow> ledger_of (fold h js s) = ledger_of s"
  by (induction js arbitrary: s) simp_all

lemma ledger_threads [simp]:
  "ledger_of (dispatch_space_retry os s) = ledger_of s" "ledger_of (close_begin os f l s) = ledger_of s" "ledger_of (close_open oa f l s) = ledger_of s"
  "ledger_of (close_settle os posted flush f r l s) = ledger_of s" "ledger_of (cancel_job os j s) = ledger_of s" "ledger_of (stop_writer s) = ledger_of s"
  "ledger_of (snd (finish_job_result j s)) = ledger_of s" "ledger_of (snd (capture_replay f receipt s)) = ledger_of s"
proof -
  have e: "ledger_of s' = ledger_of s" if "current_error j s = (e, s')" for j e s' s using ledger_errors(3) [of j s] that by simp
  have w: "ledger_of s' = ledger_of s" if "current_win32_error j s = (e, s')" for j e s' s using ledger_errors(4) [of j s] that by simp
  have o: "ledger_of s' = ledger_of s" if "try_open_file oa f s = (r, s')" for f r s' s using ledger_open [of oa f s] that by simp
  show "ledger_of (dispatch_space_retry os s) = ledger_of s"
    by (auto simp: dispatch_space_retry_def ledger_pick split: prod.splits option.splits)
  show "ledger_of (close_begin os f l s) = ledger_of s" by (auto simp: close_begin_def Let_def ledger_same e w split: prod.splits)
  show "ledger_of (close_open oa f l s) = ledger_of s" by (auto simp: close_open_def ledger_same o split: prod.splits)
  show "ledger_of (close_settle os posted flush f r l s) = ledger_of s" by (auto simp: close_settle_def Let_def ledger_same e split: prod.splits)
  show "ledger_of (cancel_job os j s) = ledger_of s" by (simp add: cancel_job_def)
  show "ledger_of (stop_writer s) = ledger_of s" by (simp add: stop_writer_def ledger_fold)
  show "ledger_of (snd (finish_job_result j s)) = ledger_of s" by (simp add: finish_job_result_def writer_unregister_job_def Let_def)
  show "ledger_of (snd (capture_replay f receipt s)) = ledger_of s" by (simp add: capture_replay_def Let_def ledger_same)
qed

section \<open>Regions that move amounts\<close>

lemma ledger_sel [simp]:
  "length (lg_files (ledger_of s)) = length (aw_files s)" "length (lg_jobs (ledger_of s)) = length (aw_jobs s)"
  "length (lg_buffers (ledger_of s)) = length (aw_buffers s)"
  "f < length (aw_files s) \<Longrightarrow> lg_files (ledger_of s) ! f = file_account (file_of s f)"
  "j < length (aw_jobs s) \<Longrightarrow> lg_jobs (ledger_of s) ! j = job_account (job_of s j)"
  "b < length (aw_buffers s) \<Longrightarrow> lg_buffers (ledger_of s) ! b = buffer_account (buf_of s b)"
  by (simp_all add: ledger_of_def)

lemma ledger_free: "ledger_of (free_buffer b s) = (ledger_of s)\<lparr>lg_buffers := (lg_buffers (ledger_of s))[b := (None, 0)]\<rparr>"
  by (simp add: free_buffer_def ledger_upd_buf buffer_account_def bf_size_def)

lemma ledger_move:
  assumes "f < length (aw_files s)" "j = wf_job (file_of s f)" "j < length (aw_jobs s)"
    and "file_account (g (file_of s f)) = (file_account (file_of s f))\<lparr>fa_inflight := p (wf_inflight_bytes (file_of s f)),
      fa_reserved := r (reserved (wf_producer (file_of s f))), fa_owed := w (fa_owed (file_account (file_of s f)))\<rparr>"
    and "job_account (h (job_of s j)) = (job_account (job_of s j))\<lparr>ja_inflight := p (jb_inflight_bytes (job_of s j)), ja_pending := w (jb_pending_jobs (job_of s j))\<rparr>"
  shows "ledger_of (upd_job j h (upd_file f g s)) = move_account f p r w (ledger_of s)"
  using assms by (simp add: move_account_def Let_def ledger_upd_file ledger_upd_job) (simp add: file_account_def job_account_def)

lemma move_account_buffers: "(move_account f p r w l)\<lparr>lg_buffers := bs\<rparr> = move_account f p r w (l\<lparr>lg_buffers := bs\<rparr>)"
  by (simp add: move_account_def Let_def)

lemma owes:
  assumes "writer_inv c disk s" "b < length (aw_buffers s)" "bf_file (buf_of s b) = Some f" "bf_bytes (buf_of s b) \<noteq> []"
  shows "f < length (aw_files s)" "0 < wf_outstanding_data (file_of s f)"
proof -
  show f: "f < length (aw_files s)" using inv_buf [OF assms(1,2)] assms(3) by (simp add: buf_ok_def)
  have "b \<in> nonempty_buffers s f" using assms by (simp add: nonempty_buffers_def)
  moreover have "finite (nonempty_buffers s f)" by (simp add: nonempty_buffers_def)
  ultimately have "0 < card (nonempty_buffers s f)" by (auto simp: card_gt_0_iff)
  then show "0 < wf_outstanding_data (file_of s f)" using inv_file [OF assms(1) f] by (simp add: file_ok_def Let_def)
qed

text \<open>A buffer with bytes is given back.\<close>

lemma ledger_give_back:
  assumes inv: "writer_inv c disk s" and b: "b < length (aw_buffers s)" "bf_file (buf_of s b) = Some f" "bf_bytes (buf_of s b) \<noteq> []"
    and n: "n = bf_size (buf_of s b)" and j: "j = wf_job (file_of s f)"
    and t: "ledger_of t = ledger_of (free_buffer b (upd_job j (\<lambda>x. x\<lparr>jb_inflight_bytes := jb_inflight_bytes x - n, jb_pending_jobs := jb_pending_jobs x - 1\<rparr>)
      (upd_file f (\<lambda>x. x\<lparr>wf_inflight_bytes := wf_inflight_bytes x - n, wf_outstanding_data := wf_outstanding_data x - 1\<rparr>) s)))"
  shows "ledger_run (ledger_of s) (ledger_of t)"
proof -
  note f = owes [OF inv b]
  let ?l = "move_account f (\<lambda>k. k - n) (\<lambda>r. r) (\<lambda>k. k - 1) ((ledger_of s)\<lparr>lg_buffers := (lg_buffers (ledger_of s))[b := (None, 0)]\<rparr>)"
  have "ledger_step (ledger_of s) ?l"
    using f b n by (intro lg_release) (simp_all add: buffer_account_def file_account_def)
  moreover have "ledger_of (upd_job j (\<lambda>x. x\<lparr>jb_inflight_bytes := jb_inflight_bytes x - n, jb_pending_jobs := jb_pending_jobs x - 1\<rparr>)
      (upd_file f (\<lambda>x. x\<lparr>wf_inflight_bytes := wf_inflight_bytes x - n, wf_outstanding_data := wf_outstanding_data x - 1\<rparr>) s)) =
      move_account f (\<lambda>k. k - n) (\<lambda>r. r) (\<lambda>k. k - 1) (ledger_of s)"
    using f inv_job [OF inv f(1)] j by (intro ledger_move) (auto simp: file_account_def job_account_def)
  then have "ledger_of t = ?l" unfolding t ledger_free by (simp add: move_account_buffers)
  ultimately show ?thesis by auto
qed

lemma ledger_drop:
  assumes "b < length (aw_buffers s)" "bf_file (buf_of s b) = Some f" "bf_size (buf_of s b) = 0" "ledger_of t = ledger_of (free_buffer b s)"
  shows "ledger_run (ledger_of s) (ledger_of t)"
  using assms lg_drop [of b "ledger_of s" f] by (auto simp: ledger_free buffer_account_def)

lemma staged_buffer:
  assumes "writer_inv c disk s" "f < length (aw_files s)" "wf_staging_buffer (file_of s f) = Some b"
  shows "b < length (aw_buffers s)" "bf_file (buf_of s b) = Some f"
  using inv_file [OF assms(1,2)] assms(3) by (simp_all add: file_ok_def Let_def)

lemma discard_staging_ledger:
  assumes inv: "writer_inv c disk s" and f: "f < length (aw_files s)"
  shows "ledger_run (ledger_of s) (ledger_of (discard_staging_locked f s))"
proof (cases "wf_staging_buffer (file_of s f)")
  case (Some b)
  note b = staged_buffer [OF inv f Some]
  show ?thesis
  proof (cases "bf_size (buf_of s b) = 0")
    case True
    have "ledger_of (discard_staging_locked f s) = ledger_of (free_buffer b s)"
      using Some True by (simp add: discard_staging_locked_def Let_def ledger_free ledger_same)
    then show ?thesis by (rule ledger_drop [OF b True])
  next
    case False
    show ?thesis
      using ledger_give_back [OF inv b _ refl refl, of "discard_staging_locked f s"] discard_full [OF Some refl False] False
      by (simp add: bf_size_def upd_job_commute ledger_free ledger_upd_job ledger_upd_file file_account_def)
  qed
qed (simp add: discard_staging_locked_def)

lemma enqueue_staging_ledger:
  assumes inv: "writer_inv c disk s" and f: "f < length (aw_files s)" and e: "enqueue_staging_locked ans f force s = (ok, s')"
  shows "ledger_run (ledger_of s) (ledger_of s')" "ok \<Longrightarrow> ledger_of s' = ledger_of s"
proof -
  note d = discard_staging_ledger [OF inv f]
  show "ledger_run (ledger_of s) (ledger_of s')" "ok \<Longrightarrow> ledger_of s' = ledger_of s"
    using e d by (auto simp: enqueue_staging_locked_def Let_def ledger_same split: option.splits if_splits post_answer.splits)
qed

lemma take_buffer_ledger:
  assumes inv: "writer_inv c disk s" and f: "f < length (aw_files s)" and t: "take_buffer allocated f s = (r, s')"
  shows "ledger_run (ledger_of s) (ledger_of s')"
proof -
  let ?b = "last (aw_free_buffers s)"
  have b: "?b < length (aw_buffers s)" "bf_stage (buf_of s ?b) = B_free" if "aw_free_buffers s \<noteq> []"
    using inv_lists [OF inv] last_in_set [OF that] by (auto simp: lists_ok_def)
  have v: "buffer_account (buf_of s ?b) = (None, 0)" if "aw_free_buffers s \<noteq> []"
    using inv_buf [OF inv b(1) [OF that]] b(2) [OF that] by (auto simp: buf_ok_def buffer_account_def bf_size_def split: option.splits)
  have "ledger_run (ledger_of s) ((ledger_of s)\<lparr>lg_buffers := (lg_buffers (ledger_of s))[?b := (Some f, 0)]\<rparr>)" if "aw_free_buffers s \<noteq> []"
    using lg_take [of ?b "ledger_of s" f] b v f that by auto
  then show ?thesis
    using t by (auto simp: take_buffer_def Let_def ledger_same ledger_upd_buf split: option.splits if_splits)
qed

lemma reserve_chunk_ledger:
  assumes inv: "writer_inv c disk s" and f: "f < length (aw_files s)" "wf_staging_buffer (file_of s f) = Some b"
    and p: "wf_producer (file_of s f) = P_write data consumed" and newly: "newly \<Longrightarrow> bf_bytes (buf_of s b) = []"
  shows "ledger_run (ledger_of s) (ledger_of (reserve_chunk f b newly data consumed s))"
proof -
  let ?x = "file_of s f" let ?k = "wf_job ?x" let ?j = "job_of s ?k" let ?prev = "bf_size (buf_of s b)"
  define chunk where "chunk = min (length data - consumed) (min (kBufferSize - ?prev)
    (min (jb_max_inflight_bytes ?j - min (jb_inflight_bytes ?j) (jb_max_inflight_bytes ?j))
      (kDefaultFileInFlightBytes - min (wf_inflight_bytes ?x) kDefaultFileInFlightBytes)))"
  have eq: "reserve_chunk f b newly data consumed s =
      (if chunk = 0 then (if newly then free_buffer b (upd_file f (\<lambda>x. x\<lparr>wf_staging_buffer := None\<rparr>) s) else s)
       else upd_job ?k (\<lambda>y. y\<lparr>jb_inflight_bytes := jb_inflight_bytes y + chunk\<rparr>)
         (upd_file f (\<lambda>y. y\<lparr>wf_inflight_bytes := wf_inflight_bytes y + chunk, wf_producer := P_copy data consumed ?prev chunk newly\<rparr>) s))"
    by (simp only: reserve_chunk_def Let_def chunk_def)
  note j = inv_job [OF inv f(1)]
  show ?thesis
  proof (cases "chunk = 0")
    case True
    then show ?thesis
      using ledger_drop [OF staged_buffer [OF inv f], of "free_buffer b (upd_file f (\<lambda>x. x\<lparr>wf_staging_buffer := None\<rparr>) s)"] newly
      by (auto simp: eq ledger_free ledger_same)
  next
    case False
    have "chunk \<le> jb_max_inflight_bytes ?j - min (jb_inflight_bytes ?j) (jb_max_inflight_bytes ?j)"
      "chunk \<le> kDefaultFileInFlightBytes - min (wf_inflight_bytes ?x) kDefaultFileInFlightBytes"
      unfolding chunk_def by (meson min.cobounded1 min.coboundedI2 min.cobounded2)+
    then have lim: "jb_inflight_bytes ?j + chunk \<le> jb_max_inflight_bytes ?j" "wf_inflight_bytes ?x + chunk \<le> kDefaultFileInFlightBytes"
      using False by linarith+
    have "ledger_of (reserve_chunk f b newly data consumed s) = move_account f (\<lambda>k. k + chunk) (\<lambda>r. chunk) (\<lambda>k. k) (ledger_of s)"
      unfolding eq if_not_P [OF False] using f(1) j by (intro ledger_move) (simp_all add: file_account_def job_account_def)
    then show ?thesis
      using lg_reserve [of f "ledger_of s" chunk] f(1) j lim p by (auto simp: file_account_def job_account_def)
  qed
qed

lemma write_return_ledger: "reserved (wf_producer (file_of s f)) = 0 \<Longrightarrow> ledger_of (write_return f s) = ledger_of s"
  by (simp add: write_return_def ledger_same)

lemma write_setup_ledger:
  assumes inv: "writer_inv c disk s" and f: "f < length (aw_files s)" and p: "wf_producer (file_of s f) = P_write data consumed"
    and r: "real_answer ans"
  shows "ledger_run (ledger_of s) (ledger_of (snd (write_setup ans allocated f data consumed s)))"
proof (rule write_setup_rule [OF inv f p r, where P = "\<lambda>t. ledger_run (ledger_of s) (ledger_of t)"])
  show "ledger_run (ledger_of s) (ledger_of t)" if "enqueue_staging_locked ans f False s = (ok, t)" for ok t
    by (rule enqueue_staging_ledger(1) [OF inv f that])
qed (auto intro: rtranclp_trans take_buffer_ledger reserve_chunk_ledger simp: write_return_ledger)

lemma committed_ledger:
  assumes inv: "writer_inv c disk s" and f: "f < length (aw_files s)" "wf_staging_buffer (file_of s f) = Some b"
    and p: "wf_producer (file_of s f) = P_copy data consumed previous chunk newly"
  shows "ledger_run (ledger_of s) (ledger_of (committed f b data consumed previous chunk s))"
proof -
  let ?x = "file_of s f" let ?j = "wf_job ?x"
  let ?B = "\<lambda>x. x\<lparr>bf_bytes := take previous (bf_bytes x) @ take chunk (drop consumed data)\<rparr>"
  let ?w = "\<lambda>k::nat. if previous = 0 then k + 1 else k"
  let ?g = "\<lambda>x. x\<lparr>wf_outstanding_data := ?w (wf_outstanding_data x), wf_producer := P_write data (consumed + chunk)\<rparr>"
  let ?h = "\<lambda>x. x\<lparr>jb_pending_jobs := ?w (jb_pending_jobs x)\<rparr>"
  note b = staged_buffer [OF inv f] and j = inv_job [OF inv f(1)]
  have po: "bf_size (buf_of s b) = previous" "chunk \<le> length data - consumed"
    using inv_file [OF inv f(1)] f(2) p by (simp_all add: file_ok_def Let_def producer_ok_def)
  have "ledger_of (committed f b data consumed previous chunk s) = ledger_of (upd_buf b ?B (upd_job ?j ?h (upd_file f ?g s)))"
  proof (cases "previous = 0")
    case True
    then show ?thesis using f(1) j
      by (simp add: committed_def Let_def ledger_upd_file ledger_upd_job ledger_upd_buf file_upd file_account_def job_account_def)
  next
    case False
    then have "ledger_of (upd_job ?j ?h t) = ledger_of t" for t by (simp add: ledger_job_same)
    then show ?thesis using f(1) False by (simp add: committed_def Let_def ledger_upd_file ledger_upd_buf file_upd file_account_def)
  qed
  also have "\<dots> = (move_account f (\<lambda>k. k) (\<lambda>r. 0) ?w (ledger_of s))\<lparr>lg_buffers := (lg_buffers (ledger_of s))[b := (Some f, previous + chunk)]\<rparr>"
  proof -
    have "ledger_of (upd_job ?j ?h (upd_file f ?g s)) = move_account f (\<lambda>k. k) (\<lambda>r. 0) ?w (ledger_of s)"
      using f(1) j by (intro ledger_move) (simp_all add: file_account_def job_account_def)
    then show ?thesis using b po by (simp add: ledger_upd_buf buffer_account_def bf_size_def)
  qed
  finally show ?thesis
    using lg_commit [of f "ledger_of s" b previous chunk] f(1) b po p
    by (auto simp: move_account_buffers buffer_account_def file_account_def)
qed

lemma commit_chunk_ledger:
  assumes inv: "writer_inv c disk s" and f: "f < length (aw_files s)" "wf_staging_buffer (file_of s f) = Some b"
    and p: "wf_producer (file_of s f) = P_copy data consumed previous chunk newly" and nocl: "\<not> wf_close_requested (file_of s f)"
  shows "ledger_run (ledger_of s) (ledger_of (snd (commit_chunk ans f b data consumed previous chunk s)))"
proof -
  define s3 where "s3 = committed f b data consumed previous chunk s"
  obtain ok s4 where e: "enqueue_staging_locked ans f False s3 = (ok, s4)" by (metis prod.exhaust)
  have i3: "writer_inv c disk s3" unfolding s3_def by (rule committed_inv [OF inv f p nocl])
  note f3 = committed_file [OF f(1) s3_def]
  have l3: "ledger_run (ledger_of s) (ledger_of s3)" unfolding s3_def by (rule committed_ledger [OF inv f p])
  then have l4: "ledger_run (ledger_of s) (ledger_of s4)" using enqueue_staging_ledger(1) [OF i3 _ e] f3 by (blast intro: rtranclp_trans)
  have "wf_producer (file_of s4 f) = wf_producer (file_of s3 f)"
    using enqueue_staging_result(2) [OF e, of f] f3 by (intro kept_sel(1)) simp
  then have "ledger_of (write_return f s3) = ledger_of s3" "ledger_of (write_return f s4) = ledger_of s4" using f3 by (simp_all add: write_return_ledger)
  then show ?thesis using commit_chunk_states [OF s3_def e] l3 l4 by auto
qed

lemma write_commit_ledger:
  assumes inv: "writer_inv c disk s" and f: "f < length (aw_files s)"
    and p: "wf_producer (file_of s f) = P_copy data consumed previous chunk newly"
  shows "ledger_run (ledger_of s) (ledger_of (snd (write_commit ans f data consumed previous chunk newly s)))"
proof -
  let ?x = "file_of s f" let ?j = "wf_job ?x"
  obtain b where b: "wf_staging_buffer ?x = Some b" "bf_size (buf_of s b) = previous" "newly \<Longrightarrow> previous = 0"
    using inv_file [OF inv f] p by (auto simp: file_ok_def Let_def producer_ok_def)
  note o = staged_buffer [OF inv f b(1)] and j = inv_job [OF inv f]
  let ?h = "\<lambda>y. y\<lparr>jb_inflight_bytes := jb_inflight_bytes y - chunk\<rparr>"
  let ?I = "\<lambda>y. y\<lparr>wf_inflight_bytes := wf_inflight_bytes y - chunk\<rparr>"
  let ?P = "\<lambda>y. y\<lparr>wf_producer := P_idle\<rparr>" let ?N = "\<lambda>y. y\<lparr>wf_staging_buffer := None\<rparr>"
  show ?thesis
  proof (cases "terminal_result_locked ?j s \<noteq> s_ok \<or> wf_close_requested ?x")
    case False
    then show ?thesis using commit_chunk_ledger [OF inv f b(1) p] b(1) by (simp add: write_commit_def Let_def)
  next
    case True
    let ?t = "upd_job ?j ?h (upd_file f (\<lambda>y. y\<lparr>wf_inflight_bytes := wf_inflight_bytes y - chunk, wf_producer := P_idle\<rparr>) s)"
    have "ledger_of ?t = move_account f (\<lambda>k. k - chunk) (\<lambda>r. 0) (\<lambda>k. k) (ledger_of s)"
      using f j by (intro ledger_move) (simp_all add: file_account_def job_account_def)
    then have run: "ledger_run (ledger_of s) (ledger_of ?t)"
      using lg_unreserve [of f "ledger_of s" chunk] f p by (auto simp: file_account_def)
    have "ledger_of (write_return f (upd_job ?j ?h (upd_file f ?I s))) = ledger_of ?t"
      using f by (simp add: write_return_def ledger_upd_file ledger_upd_job file_upd file_account_def)
    moreover have fr: "ledger_of (write_return f (free_buffer b (upd_file f ?N (upd_job ?j ?h (upd_file f ?I s))))) = ledger_of (free_buffer b ?t)"
      using f by (simp add: write_return_def ledger_free ledger_upd_file ledger_upd_job file_upd file_account_def)
    moreover have "ledger_run (ledger_of s) (ledger_of (free_buffer b ?t))" if newly
      using rtranclp_trans [OF run ledger_drop [OF _ _ _ refl]] o b that by simp
    ultimately show ?thesis using True b run by (auto simp: write_commit_def Let_def)
  qed
qed

lemma skip_written_ledger:
  assumes inv: "writer_inv c disk s" and f: "f < length (aw_files s)"
  shows "ledger_run (ledger_of s) (ledger_of (snd (skip_written ans f n s)))"
proof -
  have e: "ledger_run (ledger_of s) (ledger_of t)" if "enqueue_staging_locked ans f True s = (ok, t)" for ok t
    by (rule enqueue_staging_ledger(1) [OF inv f that])
  show ?thesis by (auto simp: skip_written_def Let_def ledger_same e split: option.splits prod.splits bool.splits)
qed

lemma close_file_ledger:
  assumes inv: "writer_inv c disk s" and f: "f < length (aw_files s)"
  shows "ledger_run (ledger_of s) (ledger_of (close_file ans ans' f magic s))"
proof (cases "wf_close_requested (file_of s f)")
  case True
  then show ?thesis by (simp add: close_file_def)
next
  case False
  let ?j = "wf_job (file_of s f)" let ?s1 = "synchronize_cancellation_locked ?j s"
  let ?u = "upd_file f (\<lambda>x. x\<lparr>wf_close_requested := True, wf_magic := magic\<rparr>) ?s1"
  let ?s2 = "upd_job ?j (\<lambda>x. x\<lparr>jb_pending_jobs := jb_pending_jobs x + 1\<rparr>) ?u"
  let ?s3 = "if terminal_result_locked ?j ?s2 \<noteq> s_ok then discard_staging_locked f ?s2
    else case wf_staging_buffer (file_of ?s2 f) of None \<Rightarrow> ?s2 | Some b \<Rightarrow> snd (enqueue_staging_locked ans f True ?s2)"
  have w1: "worsens s ?s1" by simp
  have f1: "f < length (aw_files ?s1)" "?j < length (aw_jobs ?s1)" using f worsens_buf(3,4) [OF w1] inv_job [OF inv f] by simp_all
  have i2: "writer_inv c disk ?s2"
    by (rule writer_inv_worsens [OF inv_request [OF writer_inv_worsens [OF inv w1] f1(1)] worsens_upd_job]) auto
  have f2: "f < length (aw_files ?s2)" using f1 by simp
  have x: "wf_job (file_of ?s1 f) = ?j" "wf_close_requested (file_of ?s1 f) = False" "wf_closed (file_of ?s1 f) = False"
    using worsens_core [OF w1 f] False inv_file [OF inv f] by (auto simp: file_ok_def Let_def)
  have "ledger_of ?s2 = move_account f (\<lambda>k. k) (\<lambda>r. r) (\<lambda>k. k + 1) (ledger_of ?s1)"
    using f1 x by (intro ledger_move) (simp_all add: file_account_def job_account_def)
  then have l2: "ledger_run (ledger_of s) (ledger_of ?s2)" using lg_request [of f "ledger_of s"] f by auto
  have en: "ledger_run (ledger_of ?s2) (ledger_of (snd (enqueue_staging_locked ans f True ?s2)))"
    by (rule enqueue_staging_ledger(1) [OF i2 f2 prod.collapse [symmetric]])
  have "ledger_run (ledger_of ?s2) (ledger_of ?s3)"
    using discard_staging_ledger [OF i2 f2] en by (auto split: option.splits)
  moreover have "ledger_of (close_file ans ans' f magic s) = ledger_of ?s3"
    unfolding close_file_def Let_def if_not_P [OF False] by simp
  ultimately show ?thesis using rtranclp_trans [OF l2] by simp
qed

lemma release_buffer_ledger:
  assumes inv: "writer_inv c disk s" and b: "b < length (aw_buffers s)" "bf_stage (buf_of s b) = B_finish r"
  shows "ledger_run (ledger_of s) (ledger_of (release_buffer ans b s))"
proof -
  have f: "bf_file (buf_of s b) = Some (buf_file s b)" "bf_bytes (buf_of s b) \<noteq> []"
    using inv_buf [OF inv b(1)] b(2) by (auto simp: buf_ok_def buf_file_def split: option.splits)
  show ?thesis
    by (rule ledger_give_back [OF inv b(1) f refl refl]) (simp add: release_buffer_def Let_def)
qed

lemma finish_data_attempt_ledger:
  assumes inv: "writer_inv c disk s" and b: "b < length (aw_buffers s)" "bf_stage (buf_of s b) = B_finish r"
  shows "ledger_run (ledger_of s) (ledger_of (finish_data_attempt os posted ans r b s))"
proof (cases "ar_kind r = Space_failure \<and> wf_gated (file_of s (buf_file s b))")
  case True
  then show ?thesis by (simp add: finish_data_attempt_def Let_def ledger_same)
next
  case False
  let ?f = "buf_file s b"
  let ?t = "settle_lease os r (wf_path (file_of s ?f)) (bf_probe_lease (buf_of s b)) s" let ?pl = "\<lambda>x. x\<lparr>bf_probe_lease := empty_lease\<rparr>"
  let ?u = "upd_buf b ?pl ?t"
  let ?v = "if ar_kind r = Space_failure then record_failure os ?f (hresult_from_win32 (ar_error r)) (ar_error r) 0 ?u else ?u"
  let ?n = "bf_size (buf_of s b) - bf_transferred (buf_of s b)"
  let ?w = "if ar_kind r \<noteq> Succeeded \<and> ?n \<noteq> 0 then meter (account_discarded (of_nat ?n)) ?v else ?v"
  have wt: "worsens s ?t" by simp
  have bt: "b < length (aw_buffers ?t)" using b(1) worsens_buf(1) [OF wt] by simp
  have iu: "writer_inv c disk ?u" by (rule inv_lease [OF writer_inv_worsens [OF inv wt] bt])
  have w: "worsens ?u ?w" by (auto intro: worsens_trans [OF worsens_record_failure worsens_meter])
  have "bf_stage (buf_of ?w b) = B_finish r" "b < length (aw_buffers ?w)"
    using buf_upd [OF bt, of b ?pl] worsens_buf [OF wt] worsens_buf [OF w] b bt by simp_all
  then have "ledger_run (ledger_of ?w) (ledger_of (release_buffer ans b ?w))"
    by (intro release_buffer_ledger [OF writer_inv_worsens [OF iu w]])
  moreover have "ledger_of ?w = ledger_of s" by (simp add: ledger_same)
  moreover have "finish_data_attempt os posted ans r b s = release_buffer ans b ?w"
    unfolding finish_data_attempt_def Let_def if_not_P [OF False] ..
  ultimately show ?thesis by simp
qed

lemma close_finish_ledger:
  assumes inv: "writer_inv c disk s" and f: "f < length (aw_files s)" "wf_closing (file_of s f) = C_finish t"
  shows "ledger_run (ledger_of s) (ledger_of (close_finish os ans f restore s))"
proof -
  let ?s1 = "upd_file f (\<lambda>x. x\<lparr>wf_handle := False\<rparr>) s" let ?j = "wf_job (file_of s f)"
  define s2 where "s2 = (if wf_handle (file_of s f) then close_handle os ans f ?s1 else ?s1)"
  have w2: "worsens ?s1 s2" by (simp add: s2_def)
  have f1: "f < length (aw_files ?s1)" using f(1) by simp
  have l2: "ledger_of s2 = ledger_of s" by (simp add: s2_def ledger_same)
  have f2: "f < length (aw_files s2)" "?j < length (aw_jobs s2)"
    using f(1) worsens_buf(3,4) [OF w2] inv_job [OF inv f(1)] by simp_all
  have x: "wf_close_requested (file_of s f)" "\<not> wf_closed (file_of s f)"
    using inv_file [OF inv f(1)] f(2) by (auto simp: file_ok_def Let_def)
  have x2: "wf_close_requested (file_of s2 f)" "\<not> wf_closed (file_of s2 f)" "wf_job (file_of s2 f) = ?j"
    using worsens_core [OF w2 f1] x f(1) by (simp_all add: file_upd)
  let ?s3 = "\<lambda>m. upd_file f (\<lambda>x. x\<lparr>wf_metadata_errors := m, wf_closed := True, wf_closing := C_none\<rparr>) s2"
  let ?p = "upd_job ?j (\<lambda>x. x\<lparr>jb_pending_jobs := jb_pending_jobs x - 1\<rparr>)"
  have "ledger_of (?p (?s3 m)) = move_account f (\<lambda>k. k) (\<lambda>r. r) (\<lambda>k. k - 1) (ledger_of s2)" for m
    using f2 x2 by (intro ledger_move) (simp_all add: file_account_def job_account_def)
  then have "ledger_run (ledger_of s) (ledger_of (?p (?s3 m)))" for m
    using lg_close [of f "ledger_of s"] f(1) x l2 by (auto simp: file_account_def)
  then show ?thesis unfolding close_finish_def Let_def s2_def [symmetric] by simp
qed

lemma make_ledger:
  "ledger_run (ledger_of s) (ledger_of (snd (make_job n token s)))"
  "writer_inv c disk s \<Longrightarrow> j < length (aw_jobs s) \<Longrightarrow> ledger_run (ledger_of s) (ledger_of (snd (make_file j path index replay tracked s)))"
proof -
  have app: "ledger_of (s\<lparr>aw_jobs := aw_jobs s @ [y]\<rparr>) = (ledger_of s)\<lparr>lg_jobs := lg_jobs (ledger_of s) @ [job_account y]\<rparr>" for y
    by (simp add: ledger_of_def)
  show "ledger_run (ledger_of s) (ledger_of (snd (make_job n token s)))"
    using lg_job [of "ledger_of s" "if n = 0 then kDefaultJobInFlightBytes else n"] by (auto simp: make_job_def Let_def app job_account_def)
next
  assume inv: "writer_inv c disk s" and j: "j < length (aw_jobs s)"
  have "Some (length (aw_files s)) \<notin> fst ` set (lg_buffers (ledger_of s))"
  proof
    assume "Some (length (aw_files s)) \<in> fst ` set (lg_buffers (ledger_of s))"
    then obtain b where "b < length (aw_buffers s)" "bf_file (buf_of s b) = Some (length (aw_files s))"
      by (auto simp: ledger_of_def buffer_account_def in_set_conv_nth)
    then show False using inv_buf [OF inv, of b] by (simp add: buf_ok_def)
  qed
  then have "ledger_step (ledger_of s) ((ledger_of s)\<lparr>lg_files := lg_files (ledger_of s) @ [\<lparr>fa_job = j, fa_inflight = 0, fa_reserved = 0, fa_owed = 0\<rparr>]\<rparr>)"
    using j by (intro lg_file) simp_all
  moreover have "ledger_of (snd (make_file j path index replay tracked s)) =
      (ledger_of s)\<lparr>lg_files := lg_files (ledger_of s) @ [\<lparr>fa_job = j, fa_inflight = 0, fa_reserved = 0, fa_owed = 0\<rparr>]\<rparr>"
    by (simp add: make_file_def Let_def ledger_of_def file_account_def new_file_state_def)
  ultimately show "ledger_run (ledger_of s) (ledger_of (snd (make_file j path index replay tracked s)))" by auto
qed

lemma writer_step_ledger:
  assumes "writer_step os c t e u" "sys_inv c t"
  shows "ledger_run (ledger_of (ws_w t)) (ledger_of (ws_w u))"
  using assms(1)
proof (cases rule: writer_step.cases)
  case (st_make_file j f replay path index tracked)
  then show ?thesis using make_ledger(2) [OF assms(2) [unfolded sys_inv_def]] by simp
qed (use assms(2) in \<open>auto simp: sys_inv_def ledger_same intro: make_ledger(1) write_setup_ledger write_commit_ledger skip_written_ledger
    close_file_ledger finish_data_attempt_ledger close_finish_ledger\<close>)

interpretation accounts: invariant_system writer_initial "writer_step os c" "\<lambda>t. sys_inv c t \<and> ledger_balanced (ledger_of (ws_w t))" for os c
proof unfold_locales
  show "sys_inv c t \<and> ledger_balanced (ledger_of (ws_w t))" if "writer_initial t" for t
  proof -
    have "held (ledger_of (new_writer buffers limit through meters volume)) f = 0" for buffers limit through meters volume f
      by (simp add: held_def ledger_of_def new_writer_def new_buffer_def buffer_account_def sum_list_replicate)
    then have "ledger_balanced (ledger_of (ws_w t))"
      using that by (auto simp: writer_initial_def ledger_balanced_def ledger_of_def new_writer_def new_buffer_def buffer_account_def)
    then show ?thesis using that by (auto simp: writer_initial_def sys_inv_def new_writer_inv)
  qed
  show "sys_inv c u \<and> ledger_balanced (ledger_of (ws_w u))" if "sys_inv c t \<and> ledger_balanced (ledger_of (ws_w t))" "writer_step os c t e u" for t e u
    using that writer_step_inv [of os c t e u] ledger_run_balanced [OF writer_step_ledger [of os c t e u]] by blast
qed

section \<open>Limits and answers\<close>

text \<open>
  C1. Flow control. The bytes in flight of a file are those in its buffers and the chunk its producer has reserved; they
  stay within the limit of a file and, together with the other files of the job, within the limit of the job. So
  the unsigned counters never wrap when a buffer is released or a chunk is given up.
\<close>

theorem inflight_within_limits:
  assumes "writer_reach os c t" "s = ws_w t" "f < length (aw_files s)"
  shows "wf_inflight_bytes (file_of s f) = (\<Sum>x\<leftarrow>aw_buffers s. if bf_file x = Some f then bf_size x else 0) + reserved (wf_producer (file_of s f)) \<and>
    wf_inflight_bytes (file_of s f) \<le> kDefaultFileInFlightBytes \<and>
    wf_inflight_bytes (file_of s f) \<le> jb_inflight_bytes (job_of s (wf_job (file_of s f))) \<and>
    jb_inflight_bytes (job_of s (wf_job (file_of s f))) \<le> jb_max_inflight_bytes (job_of s (wf_job (file_of s f)))"
proof -
  have inv: "writer_inv c (ws_disk t) s" and bal: "ledger_balanced (ledger_of s)"
    using accounts.invar_reach [OF assms(1)] assms(2) by (simp_all add: sys_inv_def)
  note b = balanced_file [OF bal _ refl refl, of f]
  have "held (ledger_of s) f = (\<Sum>x\<leftarrow>aw_buffers s. if bf_file x = Some f then bf_size x else 0)"
    by (simp add: held_def ledger_of_def buffer_account_def comp_def cong: if_cong)
  then show ?thesis using b assms(3) inv_job [OF inv assms(3)] by (simp add: file_account_def job_account_def)
qed

theorem inflight_within_limits_witness: "wf_inflight_bytes (file_of run_submit 0) = 1 \<and> (1::nat) \<le> kDefaultFileInFlightBytes"
  using inflight_within_limits [OF run_reaches_submit refl, of 0] by (simp add: run_submit_eq bf_size_def)

text \<open>
  C1. What \<^verbatim>\<open>finish_job\<close> waits for. When no answer is pending for a job, every file of it whose stream was closed
  is closed on disk, none of its buffers holds bytes, and a file that did not fail is complete.
\<close>

theorem finish_job_settles_files:
  assumes "writer_reach os c t" "s = ws_w t" "jb_pending_jobs (job_of s (wf_job (file_of s f))) = 0"
    and "f < length (aw_files s)" "wf_close_requested (file_of s f)"
  shows "wf_closed (file_of s f) \<and> (\<forall>b<length (aw_buffers s). bf_file (buf_of s b) = Some f \<longrightarrow> bf_bytes (buf_of s b) = []) \<and>
    (wf_failed (file_of s f) \<or> (\<forall>i<unat (wf_accepted_bytes (file_of s f)). ws_disk t f i = c f i))"
proof -
  have inv: "writer_inv c (ws_disk t) s" and bal: "ledger_balanced (ledger_of s)"
    using accounts.invar_reach [OF assms(1)] assms(2) by (simp_all add: sys_inv_def)
  have "fa_owed (file_account (file_of s f)) \<le> ja_pending (job_account (job_of s (wf_job (file_of s f))))"
    using balanced_file(5) [OF bal _ refl refl, of f] assms(4) inv_job [OF inv assms(4)] by (simp add: file_account_def)
  then have o: "wf_outstanding_data (file_of s f) = 0" "wf_closed (file_of s f)"
    using assms(3,5) by (auto simp: file_account_def job_account_def split: if_splits)
  have "bf_bytes (buf_of s b) = []" if "b < length (aw_buffers s)" "bf_file (buf_of s b) = Some f" for b
    using owes(2) [OF inv that] o(1) by auto
  then show ?thesis using o inv_file [OF inv assms(4)] by (auto simp: file_ok_def Let_def)
qed

theorem finish_job_settles_files_witness:
  "jb_pending_jobs (job_of run_closed 0) = 0 \<and> wf_closed (file_of run_closed 0) \<and> (\<forall>i<unat (wf_accepted_bytes (file_of run_closed 0)). disk_after 0 i = contents 0 i)"
  using finish_job_settles_files [OF run_reaches_closed refl, of 0] by (simp add: run_closed_eq)

text \<open>
  C1. The counters follow the ledger: whatever a step of the writer does to the buffers and the counters of files and jobs is a
  run of ledger steps, in which amounts move between reservation, buffer and job, and the books stay balanced.
\<close>

theorem writer_refines_ledger:
  assumes "writer_reach os c t" "writer_step os c t e u"
  shows "ledger_run (ledger_of (ws_w t)) (ledger_of (ws_w u)) \<and> ledger_balanced (ledger_of (ws_w u))"
  using writer_step_ledger [OF assms(2)] accounts.invar_reach [OF reach_step [OF assms]] accounts.invar_reach [OF assms(1)] by blast

theorem writer_refines_ledger_witness:
  "ledger_run (ledger_of run_closed) (ledger_of (snd (make_job 7 None run_closed))) \<and> ledger_balanced (ledger_of (snd (make_job 7 None run_closed)))"
  using writer_refines_ledger [OF run_reaches_closed st_make_job] by simp

end
