(* ===== verification/Output_Stream.thy ===== *)
theory Output_Stream
  imports Writer_Safety
begin

text \<open>
  The output stream 7-Zip writes an item to (\<^verbatim>\<open>AsyncFileOutStream\<close> of \<^verbatim>\<open>sevenzip_callbacks.hpp\<close>) over the asynchronous
  writer: \<^verbatim>\<open>Write\<close> splits its bytes into runs an earlier attempt confirmed, which are skipped, and runs that are
  written. The streams of all files and the writer are one system; it is shown that the streams only make
  calls the writer allows, and where a stream is between two calls.
\<close>

section \<open>The stream of a file\<close>

text \<open>
  A stream is idle, inside its loop with a number of bytes handed over, or waiting for a write of some amount.
\<close>

datatype stream_stage =
    S_idle
  | S_loop "u8 list" nat
  | S_write "u8 list" nat nat

record out_stream =
  so_magic :: "u8 list"
  so_position :: u64
  so_call :: stream_stage

definition new_stream :: out_stream where
  "new_stream = \<lparr>so_magic = [], so_position = 0, so_call = S_idle\<rparr>"

text \<open>The calls of \<^verbatim>\<open>Write\<close> into the writer: bytes an earlier attempt confirmed are skipped, the others written.\<close>

datatype stream_call = Call_skip u32 | Call_write "u8 list"

fun call_amount :: "stream_call \<Rightarrow> nat" where
  "call_amount (Call_skip n) = unat n"
| "call_amount (Call_write d) = length d"

definition next_call :: "written_ranges \<Rightarrow> u64 \<Rightarrow> u8 list \<Rightarrow> nat \<Rightarrow> stream_call" where
  "next_call previous position data consumed =
     (case ranges_next previous position (of_nat (length data - consumed)) of
        (confirmed_run, n) \<Rightarrow>
          let amount = ucast n :: u32
          in if confirmed_run then Call_skip amount else Call_write (take (unat amount) (drop consumed data)))"

text \<open>The bytes kept for the signature of the file: its first 512.\<close>

definition keep_magic :: "u8 list \<Rightarrow> u8 list \<Rightarrow> nat \<Rightarrow> u8 list" where
  "keep_magic magic data consumed =
     (if consumed \<noteq> 0 \<and> length magic < 512 then magic @ take (min (512 - length magic) consumed) data else magic)"

definition stream_begin :: "u8 list \<Rightarrow> out_stream \<Rightarrow> out_stream" where
  "stream_begin data st = (if data = [] then st else st\<lparr>so_call := S_loop data 0\<rparr>)"

text \<open>After a call that took \<open>done\<close> of \<open>amount\<close> bytes the loop goes on or \<^verbatim>\<open>Write\<close> returns.\<close>

definition stream_advance :: "hresult \<Rightarrow> nat \<Rightarrow> nat \<Rightarrow> u8 list \<Rightarrow> nat \<Rightarrow> out_stream \<Rightarrow> out_stream" where
  "stream_advance hr taken amount data consumed st =
     (let st1 = st\<lparr>so_position := so_position st + of_nat taken\<rparr>
      in if hr = s_ok \<and> taken = amount \<and> consumed + taken < length data
         then st1\<lparr>so_call := S_loop data (consumed + taken)\<rparr>
         else st1\<lparr>so_call := S_idle, so_magic := keep_magic (so_magic st) data (consumed + taken)\<rparr>)"

definition stream_next :: "post_answer \<Rightarrow> nat \<Rightarrow> u8 list \<Rightarrow> nat \<Rightarrow> out_stream \<Rightarrow> awriter \<Rightarrow> out_stream \<times> awriter" where
  "stream_next ans f data consumed st s =
     (case next_call (previous_writes (file_of s f)) (so_position st) data consumed of
        Call_skip n \<Rightarrow>
          (case skip_written ans f n s of
             (hr, s') \<Rightarrow> (stream_advance hr (if hr = s_ok then unat n else 0) (unat n) data consumed st, s'))
      | Call_write d \<Rightarrow>
          (st\<lparr>so_call := S_write data consumed (length d)\<rparr>, upd_file f (\<lambda>x. x\<lparr>wf_producer := P_write d 0\<rparr>) s))"

text \<open>\<^verbatim>\<open>AsyncFileWriter::write\<close> returns to the stream.\<close>

definition stream_return :: "(hresult \<times> nat) option \<Rightarrow> out_stream \<Rightarrow> out_stream" where
  "stream_return r st =
     (case r of
        None \<Rightarrow> st
      | Some (hr, taken) \<Rightarrow>
          (case so_call st of S_write data consumed amount \<Rightarrow> stream_advance hr taken amount data consumed st | _ \<Rightarrow> st))"

section \<open>The calls\<close>

lemma unat_small: "n < 2 ^ 64 \<Longrightarrow> unat (of_nat n :: u64) = n"
  by (simp add: unsigned_of_nat take_bit_nat_eq_self)

lemma next_call_amount:
  assumes "ranges_inv previous" "consumed < length data" "length data < 2 ^ 32"
    and "ranges_next previous position (of_nat (length data - consumed)) = (run, n)"
  shows "0 < unat n" "unat n \<le> length data - consumed" "unat (ucast n :: u32) = unat n"
    "call_amount (next_call previous position data consumed) = unat n"
proof -
  let ?m = "of_nat (length data - consumed) :: u64"
  have m: "unat ?m = length data - consumed" by (rule unat_small) (use assms(2,3) in simp)
  have "0 < ?m" using m assms(2) unfolding word_less_nat_alt by simp
  then have n: "0 < n" "n \<le> ?m" using ranges_next_correct [OF assms(1) _ assms(4)] by simp_all
  then show n': "0 < unat n" "unat n \<le> length data - consumed" using m unfolding word_less_nat_alt word_le_nat_alt by simp_all
  show u: "unat (ucast n :: u32) = unat n" using n' assms(3) by (simp add: unsigned_ucast_eq take_bit_nat_eq_self)
  show "call_amount (next_call previous position data consumed) = unat n"
    using assms(4) u n' by (simp add: next_call_def Let_def)
qed

lemma legal_call:
  assumes inv: "ranges_inv (previous_writes x)" and pos: "position = wf_accepted_bytes x" and data: "consumed < length data" "length data < 2 ^ 32"
    and rest: "drop consumed data = bytes_at c (unat position) (length data - consumed)" "unat position + (length data - consumed) < 2 ^ 64"
  shows "case next_call (previous_writes x) position data consumed of
      Call_skip n \<Rightarrow> 0 < n \<and> unat (wf_accepted_bytes x) + unat n < 2 ^ 64 \<and>
        {unat (wf_accepted_bytes x)..<unat (wf_accepted_bytes x) + unat n} \<subseteq> confirmed (previous_writes x)
    | Call_write d \<Rightarrow> d \<noteq> [] \<and> rest_ok c x d 0"
proof -
  obtain run n where r: "ranges_next (previous_writes x) position (of_nat (length data - consumed)) = (run, n)" by (metis prod.exhaust)
  note a = next_call_amount [OF inv data r]
  have "unat (of_nat (length data - consumed) :: u64) = length data - consumed" by (rule unat_small) (use data in simp)
  then have pos0: "0 < (of_nat (length data - consumed) :: u64)" using data(1) unfolding word_less_nat_alt by simp
  have hom: "(i \<in> confirmed (previous_writes x)) = run" if "unat position \<le> i" "i < unat position + unat n" for i
  proof -
    have i: "unat (of_nat i :: u64) = i" by (rule unat_small) (use that a(2) rest(2) in linarith)
    have "((of_nat i :: u64) \<in> covered (previous_writes x)) = run"
      using ranges_next_correct [OF inv pos0 r] that i by (auto simp: word_le_nat_alt)
    then show ?thesis using i by (auto simp: confirmed_def image_iff intro!: bexI [of _ "of_nat i"])
  qed
  show ?thesis
  proof (cases run)
    case True
    then show ?thesis using r a hom rest(2) pos by (auto simp: next_call_def Let_def word_less_nat_alt)
  next
    case False
    let ?d = "take (unat n) (drop consumed data)"
    have l: "length ?d = unat n" using a(2) by simp
    have "?d = bytes_at c (unat position) (unat n)" using rest(1) a(2) by (simp add: take_bytes_at)
    then have "rest_ok c x ?d 0" using l hom False rest(2) a(2) pos by (auto simp: rest_ok_def Let_def)
    moreover have "?d \<noteq> []" using l a(1) by auto
    ultimately show ?thesis using False r a(3) by (simp add: next_call_def)
  qed
qed

section \<open>What a file has accepted\<close>

text \<open>The producer of a file, the bytes it accepted and the ranges of an earlier attempt: only calls of its stream change them.\<close>

definition tail :: "file_state \<Rightarrow> producer_stage \<times> u64 \<times> written_ranges" where
  "tail x = (wf_producer x, wf_accepted_bytes x, previous_writes x)"

definition tails :: "awriter \<Rightarrow> (producer_stage \<times> u64 \<times> written_ranges) list" where
  "tails s = map tail (aw_files s)"

lemma worsens_tails: "worsens s s' \<Longrightarrow> tails s' = tails s"
  by (rule nth_equalityI) (auto simp: tails_def tail_def worsens_core worsens_buf)

lemma tails_upd [simp]: "tails (upd_job j h s) = tails s" "tails (upd_buf b k s) = tails s" "tails (free_buffer b s) = tails s"
  by (simp_all add: tails_def)

lemma tails_file: "tail (g (file_of s f)) = tail (file_of s f) \<Longrightarrow> tails (upd_file f g s) = tails s"
  by (cases "f < length (aw_files s)") (auto simp: tails_def upd_file_def map_update list_update_same_conv list_update_beyond)

lemma tails_frame [simp]:
  "tails (s\<lparr>aw_jobs := js\<rparr>) = tails s" "tails (s\<lparr>aw_work_queue := q\<rparr>) = tails s" "tails (s\<lparr>aw_retry_queue := q\<rparr>) = tails s"
  "tails (s\<lparr>aw_active_jobs := ks\<rparr>) = tails s" "tails (s\<lparr>aw_queued_jobs := n\<rparr>) = tails s" "tails (s\<lparr>aw_free_buffers := bs\<rparr>) = tails s"
  "tails (s\<lparr>aw_volume := v\<rparr>) = tails s"
  by (simp_all add: tails_def)

lemmas tails_worse [simp] = worsens_tails [OF worsens_with_gate] worsens_tails [OF worsens_meter] worsens_tails [OF worsens_wake]
  worsens_tails [OF worsens_sync] worsens_tails [OF worsens_fail_file] worsens_tails [OF worsens_record_failure] worsens_tails [OF worsens_end]
  worsens_tails [OF worsens_settle] worsens_tails [OF worsens_close_handle] worsens_tails [OF worsens_unregister_file]
  worsens_tails [OF worsens_set_job_error]
  worsens_tails [OF worsens_rest(1)] worsens_tails [OF worsens_rest(2)] worsens_tails [OF worsens_rest(3)] worsens_tails [OF worsens_rest(4)]
  worsens_tails [OF worsens_rest(5)] worsens_tails [OF worsens_rest(6)]

lemma tails_pairs:
  "current_error j s = (e, s') \<Longrightarrow> tails s' = tails s" "current_win32_error j s = (w, s') \<Longrightarrow> tails s' = tails s"
  "classify_data_failure os f w s = (r, s') \<Longrightarrow> tails s' = tails s" "begin_data_write f s = (ok, s') \<Longrightarrow> tails s' = tails s"
  "try_open_file oa f s = (r, s') \<Longrightarrow> tails s' = tails s" "enqueue_staging_locked ans f force s = (ok, s') \<Longrightarrow> tails s' = tails s"
  "enqueue_close_locked ans f s = (ok, s') \<Longrightarrow> tails s' = tails s"
proof -
  note w = worsens_tails [of s s']
  show "current_error j s = (e, s') \<Longrightarrow> tails s' = tails s" using w worsens_current_error(1) [of s j] by auto
  show "current_win32_error j s = (w, s') \<Longrightarrow> tails s' = tails s" using w worsens_current_error(2) [of s j] by auto
  show "classify_data_failure os f w s = (r, s') \<Longrightarrow> tails s' = tails s" using w worsens_classify [of s os f] by (metis snd_conv)
  show "begin_data_write f s = (ok, s') \<Longrightarrow> tails s' = tails s" using w worsens_begin [of s f] by auto
  show "try_open_file oa f s = (r, s') \<Longrightarrow> tails s' = tails s"
    by (auto simp: try_open_file_def Let_def tails_file tail_def previous_writes_def split: if_splits open_answer.splits option.splits)
  have d: "tails (discard_staging_locked f s) = tails s"
    by (auto simp: discard_staging_locked_def Let_def tails_file tail_def previous_writes_def split: option.splits)
  show "enqueue_staging_locked ans f force s = (ok, s') \<Longrightarrow> tails s' = tails s"
    by (auto simp: enqueue_staging_locked_def Let_def d tails_file tail_def previous_writes_def split: option.splits if_splits post_answer.splits)
  show "enqueue_close_locked ans f s = (ok, s') \<Longrightarrow> tails s' = tails s"
    by (auto simp: enqueue_close_locked_def Let_def tails_file tail_def previous_writes_def split: if_splits post_answer.splits)
qed

lemma tails_discard: "tails (discard_staging_locked f s) = tails s"
  by (auto simp: discard_staging_locked_def Let_def tails_file tail_def previous_writes_def split: option.splits)

lemma tails_enqueue [simp]: "tails (snd (enqueue_staging_locked ans f force s)) = tails s" "tails (snd (enqueue_close_locked ans f s)) = tails s"
  using tails_pairs(6,7) by (metis prod.collapse)+

lemma tails_pick: "pick_retry q s = (r, s') \<Longrightarrow> tails s' = tails s"
proof (induction q arbitrary: s r s')
  case (Cons item q)
  from Cons.prems show ?case
    by (auto simp: Let_def split: option.splits prod.splits wait_result.splits dest!: Cons.IH)
qed simp

lemma tails_item: "tails (start_item item s) = tails s" "tails (resume_item os item l s) = tails s"
  by (cases item; simp add: tails_file tail_def previous_writes_def)+

lemma tails_defer: "tails (defer_space_work os posted f item s) = tails s"
  by (simp add: defer_space_work_def Let_def)

lemma tails_release: "tails (release_buffer ans b s) = tails s"
  by (simp add: release_buffer_def Let_def tails_file tail_def previous_writes_def)

lemmas tails_regions = tails_pairs tails_discard tails_pick tails_item tails_defer tails_release tails_file tail_def previous_writes_def

lemma tails_threads [simp]:
  "tails (dequeue_work s) = tails s" "tails (attempt_check os b s) = tails s" "tails (attempt_open oa b s) = tails s"
  "tails (submit_data_write os error b s) = tails s" "tails (complete_data_write os no_memory bytes code b s) = tails s"
  "tails (finish_data_attempt os posted ans r b s) = tails s" "tails (dispatch_space_retry os s) = tails s"
  by (auto simp: dequeue_work_def attempt_check_def attempt_open_def submit_data_write_def complete_data_write_def add_written_bytes_def
      finish_data_attempt_def dispatch_space_retry_def Let_def tails_regions split: list.splits prod.splits option.splits bool.splits)

lemma tails_closes [simp]:
  "tails (close_begin os f l s) = tails s" "tails (close_open oa f l s) = tails s" "tails (close_settle os posted flush f r l s) = tails s"
  "tails (close_finish os ca f restore s) = tails s" "tails (close_file ans ans' f magic s) = tails s"
  "tails (snd (capture_replay f receipt s)) = tails s" "tails (snd (make_job n token s)) = tails s"
  by (auto simp: close_begin_def close_open_def close_settle_def close_finish_def close_file_def capture_replay_def make_job_def Let_def tails_regions
      split: prod.splits option.splits)

text \<open>The events of the writer that are not calls of a stream.\<close>

fun outside :: "writer_event \<Rightarrow> bool" where
  "outside (Ev_write f data) = False"
| "outside (Ev_setup f ans allocated) = False"
| "outside (Ev_commit f ans) = False"
| "outside (Ev_skip f n ans) = False"
| "outside e = True"

lemma outside_step:
  assumes "writer_step os c t e u" "outside e"
  shows "tails (ws_w u) = tails (ws_w t) \<or>
    (\<exists>y. aw_files (ws_w u) = aw_files (ws_w t) @ [y] \<and> wf_producer y = P_idle \<and> wf_accepted_bytes y = 0)"
  using assms(1)
proof (cases rule: writer_step.cases)
  case st_make_file
  then show ?thesis by (simp add: make_file_def Let_def new_file_state_def)
qed (use assms(2) in \<open>simp_all add: tails_file tail_def previous_writes_def\<close>)

lemma tails_same:
  assumes "tails s' = tails s"
  shows "length (aw_files s') = length (aw_files s)" "f < length (aw_files s) \<Longrightarrow> tail (file_of s' f) = tail (file_of s f)"
proof -
  show l: "length (aw_files s') = length (aw_files s)" using map_eq_imp_length_eq assms unfolding tails_def by blast
  show "f < length (aw_files s) \<Longrightarrow> tail (file_of s' f) = tail (file_of s f)"
    using assms l unfolding tails_def by (metis nth_map)
qed

lemma outside_tail:
  assumes "writer_step os c t e u" "outside e" "f < length (aw_files (ws_w u))"
  shows "if f < length (aw_files (ws_w t)) then tail (file_of (ws_w u) f) = tail (file_of (ws_w t) f)
    else wf_producer (file_of (ws_w u) f) = P_idle \<and> wf_accepted_bytes (file_of (ws_w u) f) = 0"
  using outside_step [OF assms(1,2)]
proof
  assume "tails (ws_w u) = tails (ws_w t)"
  then show ?thesis using assms(3) tails_same [of "ws_w u" "ws_w t"] by simp
next
  assume "\<exists>y. aw_files (ws_w u) = aw_files (ws_w t) @ [y] \<and> wf_producer y = P_idle \<and> wf_accepted_bytes y = 0"
  then show ?thesis using assms(3) by (auto simp: nth_append less_Suc_eq)
qed

lemma outside_grows:
  assumes "writer_step os c t e u" "outside e"
  shows "length (aw_files (ws_w t)) \<le> length (aw_files (ws_w u))"
  using outside_step [OF assms] tails_same(1) [of "ws_w u" "ws_w t"] by fastforce

section \<open>What a write reports\<close>

abbreviation tails_to :: "nat \<Rightarrow> producer_stage \<Rightarrow> nat \<Rightarrow> awriter \<Rightarrow> (producer_stage \<times> u64 \<times> written_ranges) list" where
  "tails_to f p n s \<equiv> (tails s)[f := (p, wf_accepted_bytes (file_of s f) + of_nat n, previous_writes (file_of s f))]"

lemma tails_upd_file: "tails (upd_file f g s) = (tails s)[f := tail (g (file_of s f))]"
  by (simp add: tails_def upd_file_def map_update)

lemma tails_same_to: "f < length (aw_files s) \<Longrightarrow> tails_to f (wf_producer (file_of s f)) 0 s = tails s"
  by (simp add: tails_def list_update_same_conv tail_def)

lemma tails_to_cong:
  assumes "tails s' = tails s" "f < length (aw_files s)"
  shows "tails_to f p n s' = tails_to f p n s" "wf_producer (file_of s' f) = wf_producer (file_of s f)"
  using tails_same(2) [OF assms] assms(1) by (simp_all add: tail_def)

lemma write_return_tails: "tails (write_return f s) = tails_to f P_idle 0 s"
  by (simp add: write_return_def tails_upd_file tail_def previous_writes_def)

lemma take_tails: "take_buffer allocated f s = (r, s') \<Longrightarrow> tails s' = tails s"
  by (auto simp: take_buffer_def Let_def tails_file tail_def previous_writes_def split: option.splits if_splits)

text \<open>The answer of \<^verbatim>\<open>write\<close> is the number of bytes the file accepted since the call, also when it fails.\<close>

lemma write_setup_tails:
  assumes f: "f < length (aw_files s)" and p: "wf_producer (file_of s f) = P_write data consumed"
    and w: "write_setup ans allocated f data consumed s = (r, s')"
  shows "(case r of None \<Rightarrow> \<exists>q. q \<in> insert (P_write data consumed) {P_copy data consumed k n newly |k n newly. True} \<and> tails s' = tails_to f q 0 s
    | Some (hr, n) \<Rightarrow> n = consumed \<and> tails s' = tails_to f P_idle 0 s)"
proof -
  define q where "q = (case wf_staging_buffer (file_of s f) of
      Some b \<Rightarrow> if bf_size (buf_of s b) = kBufferSize then enqueue_staging_locked ans f False s else (True, s) | None \<Rightarrow> (True, s))"
  obtain ok s1 where q1: "q = (ok, s1)" by (metis prod.exhaust)
  have t1: "tails s1 = tails s" using q1 by (auto simp: q_def tails_pairs split: option.splits if_splits)
  obtain t s2 where t: "take_buffer allocated f s1 = (t, s2)" by (metis prod.exhaust)
  have t2: "tails s2 = tails s" using take_tails [OF t] t1 by simp
  have stay: "tails s = tails_to f (P_write data consumed) 0 s" using tails_same_to [OF f] p by simp
  have ret: "tails (write_return f s1) = tails_to f P_idle 0 s" "tails (write_return f s2) = tails_to f P_idle 0 s"
    unfolding write_return_tails using tails_to_cong(1) [OF t1 f, of P_idle 0] tails_to_cong(1) [OF t2 f, of P_idle 0] by simp_all
  have res: "\<exists>q. q \<in> insert (P_write data consumed) {P_copy data consumed k n newly |k n newly. True} \<and>
      tails (reserve_chunk f b newly data consumed s2) = tails_to f q 0 s" for b newly
  proof -
    define chunk where "chunk = min (length data - consumed) (min (kBufferSize - bf_size (buf_of s2 b))
      (min (jb_max_inflight_bytes (job_of s2 (wf_job (file_of s2 f))) - min (jb_inflight_bytes (job_of s2 (wf_job (file_of s2 f)))) (jb_max_inflight_bytes (job_of s2 (wf_job (file_of s2 f)))))
        (kDefaultFileInFlightBytes - min (wf_inflight_bytes (file_of s2 f)) kDefaultFileInFlightBytes)))"
    have "tails (reserve_chunk f b newly data consumed s2) =
        (if chunk = 0 then tails s2 else tails_to f (P_copy data consumed (bf_size (buf_of s2 b)) chunk newly) 0 s2)"
    proof (cases "chunk = 0")
      case True
      then show ?thesis unfolding reserve_chunk_def Let_def chunk_def [symmetric] by (simp add: tails_file tail_def previous_writes_def)
    next
      case False
      then show ?thesis unfolding reserve_chunk_def Let_def chunk_def [symmetric] by (simp add: tails_upd_file tail_def previous_writes_def)
    qed
    then show ?thesis using t2 stay tails_to_cong(1) [OF t2 f, of "P_copy data consumed (bf_size (buf_of s2 b)) chunk newly" 0]
      by (cases "chunk = 0") auto
  qed
  show ?thesis
  proof (cases "terminal_result_locked (wf_job (file_of s f)) s \<noteq> s_ok \<or> wf_close_requested (file_of s f)")
    case True
    then show ?thesis using w write_return_tails [of f s] by (auto simp: write_setup_def Let_def)
  next
    case False
    have "(r, s') = (if \<not> ok then (if terminal_result_locked (wf_job (file_of s f)) s1 \<noteq> s_ok
            then (Some (terminal_result_locked (wf_job (file_of s f)) s1, consumed), write_return f s1) else (None, s1))
        else case take_buffer allocated f s1 of
               (Some (b, newly), s2) \<Rightarrow> (None, reserve_chunk f b newly data consumed s2)
             | (None, s2) \<Rightarrow> if aw_free_buffers s1 = [] then (None, s2) else (Some (e_outofmemory, consumed), write_return f s2))"
      unfolding w [symmetric] write_setup_def Let_def if_not_P [OF False] q_def [symmetric] q1 by simp
    then show ?thesis using t t1 t2 stay ret res by (auto split: if_splits option.splits)
  qed
qed

lemma committed_tails:
  assumes "f < length (aw_files s)"
  shows "tails (committed f b data consumed previous chunk s) = tails_to f (P_write data (consumed + chunk)) chunk s"
  using assms by (auto simp: committed_def Let_def tails_upd_file file_upd tail_def previous_writes_def)

lemma write_commit_tails:
  assumes f: "f < length (aw_files s)" and p: "wf_producer (file_of s f) = P_copy data consumed previous chunk newly"
    and w: "write_commit ans f data consumed previous chunk newly s = (r, s')"
  shows "(case r of None \<Rightarrow> tails s' = tails_to f (P_write data (consumed + chunk)) chunk s
    | Some (hr, n) \<Rightarrow> \<exists>k\<in>{0, chunk}. n = consumed + k \<and> tails s' = tails_to f P_idle k s)"
proof -
  let ?j = "wf_job (file_of s f)"
  have ret: "tails (write_return f t) = tails_to f P_idle k s" if "tails t = tails_to f q k s" for t q k
  proof -
    have "length (tails t) = length (tails s)" using that by simp
    then have l: "f < length (aw_files t)" using f by (simp add: tails_def)
    have "tail (file_of t f) = (q, wf_accepted_bytes (file_of s f) + of_nat k, previous_writes (file_of s f))"
      using that l f nth_map [of f "aw_files t" tail] by (simp add: tails_def)
    then show ?thesis using that by (simp add: write_return_tails tail_def)
  qed
  show ?thesis
  proof (cases "\<exists>b. wf_staging_buffer (file_of s f) = Some b \<and> \<not> (terminal_result_locked ?j s \<noteq> s_ok \<or> wf_close_requested (file_of s f))")
    case True
    then obtain b where b: "write_commit ans f data consumed previous chunk newly s = commit_chunk ans f b data consumed previous chunk s"
      by (auto simp: write_commit_def Let_def)
    define s3 where "s3 = committed f b data consumed previous chunk s"
    obtain ok s4 where e: "enqueue_staging_locked ans f False s3 = (ok, s4)" by (metis prod.exhaust)
    have t3: "tails s3 = tails_to f (P_write data (consumed + chunk)) chunk s" unfolding s3_def by (rule committed_tails [OF f])
    have t4: "tails s4 = tails_to f (P_write data (consumed + chunk)) chunk s" using tails_pairs(6) [OF e] t3 by simp
    note d = s3_def [unfolded committed_def Let_def, symmetric]
    have "(r, s') \<in> {(None, s3), (None, s4)} \<union> {(Some (hr, consumed + chunk), write_return f t) |hr t. t \<in> {s3, s4}}"
      using w e unfolding b commit_chunk_def Let_def d by (auto split: bool.splits if_splits)
    then show ?thesis using t3 t4 ret [OF t3] ret [OF t4] by auto
  next
    case False
    have q: "tails s = tails_to f (wf_producer (file_of s f)) 0 s" by (rule tails_same_to [OF f, symmetric])
    let ?u = "upd_job ?j (\<lambda>y. y\<lparr>jb_inflight_bytes := jb_inflight_bytes y - chunk\<rparr>) (upd_file f (\<lambda>y. y\<lparr>wf_inflight_bytes := wf_inflight_bytes y - chunk\<rparr>) s)"
    have u: "tails ?u = tails s" by (simp add: tails_file tail_def previous_writes_def)
    have v: "tails (free_buffer b (upd_file f (\<lambda>y. y\<lparr>wf_staging_buffer := None\<rparr>) ?u)) = tails s" for b
      using u by (simp add: tails_file tail_def previous_writes_def)
    have "tails (write_return f ?u) = tails_to f P_idle 0 s" by (rule ret [OF trans [OF u q]])
    moreover have "tails (write_return f (free_buffer b (upd_file f (\<lambda>y. y\<lparr>wf_staging_buffer := None\<rparr>) ?u))) = tails_to f P_idle 0 s" for b
      by (rule ret [OF trans [OF v q]])
    ultimately show ?thesis using w False by (auto simp: write_commit_def Let_def split: option.splits if_splits)
  qed
qed

lemma discard_jobs: "length (aw_jobs (discard_staging_locked f s)) = length (aw_jobs s)"
  by (auto simp: discard_staging_locked_def Let_def meter_def split: option.splits prod.splits)

text \<open>A forced queueing that fails has told the job.\<close>

lemma forced_enqueue_fails:
  assumes "enqueue_staging_locked ans f True s = (False, s')" "wf_staging_buffer (file_of s f) = Some b" "bf_size (buf_of s b) \<noteq> 0"
    and "real_answer ans" "f < length (aw_files s)" "wf_job (file_of s f) < length (aw_jobs s)"
  shows "terminal_result_locked (wf_job (file_of s f)) s' \<noteq> s_ok"
proof -
  have "terminal_result_locked (wf_job (file_of s f)) (fail_file f hr e (discard_staging_locked f s)) \<noteq> s_ok" if "hr \<noteq> s_ok" for hr e
    using fail_file_over [OF that, of f "discard_staging_locked f s" e] assms(5,6) discard_kept(2) [of f s f]
      kept_sel(5) [OF fail_file_kept(2) [of f "discard_staging_locked f s" f hr e]] kept_sel(5) [OF discard_kept(2) [of f s f]]
    by (simp add: terminal_job_def discard_jobs)
  then show ?thesis
    using assms hresult_failure by (auto simp: enqueue_staging_locked_def Let_def real_answer_def split: if_splits post_answer.splits)
qed

lemma skip_written_tails:
  assumes f: "f < length (aw_files s)" "wf_job (file_of s f) < length (aw_jobs s)" and r: "real_answer ans" and w: "skip_written ans f n s = (hr, s')"
  shows "tails s' = tails_to f (wf_producer (file_of s f)) (if hr = s_ok then unat n else 0) s"
proof -
  have q: "tails s = tails_to f (wf_producer (file_of s f)) 0 s" by (rule tails_same_to [OF f(1), symmetric])
  have ok: "tails (upd_file f (\<lambda>x. x\<lparr>wf_next_write_offset := wf_next_write_offset x + ucast n, wf_accepted_bytes := wf_accepted_bytes x + ucast n\<rparr>) t) =
      tails_to f (wf_producer (file_of s f)) (unat n) s" if "tails t = tails s" for t
    using tails_same(2) [OF that f(1)] that by (simp add: tails_upd_file tail_def previous_writes_def)
  show ?thesis
    using w ok q forced_enqueue_fails [OF _ _ _ r f]
    by (auto simp: skip_written_def Let_def tails_pairs split: option.splits prod.splits bool.splits if_splits)
qed

section \<open>Streams over the writer\<close>

text \<open>
  The streams of all files over their writer. 7-Zip calls \<^verbatim>\<open>Write\<close> of an idle stream with the next bytes of the file,
  at most \<open>2^32 - 1\<close> of them; \<open>c f\<close> is what 7-Zip writes to file \<open>f\<close> from its start on. Inside \<^verbatim>\<open>Write\<close> the calls into
  the writer interleave with everything else that happens there.
\<close>

record stream_sys =
  ss_writer :: writer_sys
  ss_streams :: "nat \<Rightarrow> out_stream"

datatype stream_event =
    Str_write nat "u8 list"
  | Str_call nat post_answer
  | Str_setup nat post_answer bool
  | Str_commit nat post_answer
  | Str_close nat post_answer post_answer
  | Str_other writer_event

abbreviation stream_file :: "stream_sys \<Rightarrow> nat \<Rightarrow> file_state" where
  "stream_file t f \<equiv> file_of (ws_w (ss_writer t)) f"

abbreviation with_writer :: "awriter \<Rightarrow> stream_sys \<Rightarrow> stream_sys" where
  "with_writer s t \<equiv> t\<lparr>ss_writer := (ss_writer t)\<lparr>ws_w := s\<rparr>\<rparr>"

abbreviation with_stream :: "nat \<Rightarrow> out_stream \<Rightarrow> stream_sys \<Rightarrow> stream_sys" where
  "with_stream f st t \<equiv> t\<lparr>ss_streams := (ss_streams t)(f := st)\<rparr>"

inductive stream_step :: "os \<Rightarrow> (nat \<Rightarrow> nat \<Rightarrow> u8) \<Rightarrow> stream_sys \<Rightarrow> stream_event \<Rightarrow> stream_sys \<Rightarrow> bool" for os c where
  ss_write: "f < length (aw_files (ws_w (ss_writer t))) \<Longrightarrow> st = ss_streams t f \<Longrightarrow> so_call st = S_idle \<Longrightarrow> length data < 2 ^ 32 \<Longrightarrow>
    unat (so_position st) + length data < 2 ^ 64 \<Longrightarrow> data = bytes_at (c f) (unat (so_position st)) (length data) \<Longrightarrow>
    stream_step os c t (Str_write f data) (with_stream f (stream_begin data st) t)"
| ss_call: "f < length (aw_files (ws_w (ss_writer t))) \<Longrightarrow> st = ss_streams t f \<Longrightarrow> so_call st = S_loop data consumed \<Longrightarrow>
    wf_producer (stream_file t f) = P_idle \<Longrightarrow> real_answer ans \<Longrightarrow> stream_next ans f data consumed st (ws_w (ss_writer t)) = (st', s') \<Longrightarrow>
    stream_step os c t (Str_call f ans) (with_stream f st' (with_writer s' t))"
| ss_setup: "f < length (aw_files (ws_w (ss_writer t))) \<Longrightarrow> wf_producer (stream_file t f) = P_write d k \<Longrightarrow> real_answer ans \<Longrightarrow>
    write_setup ans allocated f d k (ws_w (ss_writer t)) = (r, s') \<Longrightarrow>
    stream_step os c t (Str_setup f ans allocated) (with_stream f (stream_return r (ss_streams t f)) (with_writer s' t))"
| ss_commit: "f < length (aw_files (ws_w (ss_writer t))) \<Longrightarrow> wf_producer (stream_file t f) = P_copy d k previous chunk newly \<Longrightarrow> real_answer ans \<Longrightarrow>
    write_commit ans f d k previous chunk newly (ws_w (ss_writer t)) = (r, s') \<Longrightarrow>
    stream_step os c t (Str_commit f ans) (with_stream f (stream_return r (ss_streams t f)) (with_writer s' t))"
| ss_close: "f < length (aw_files (ws_w (ss_writer t))) \<Longrightarrow> so_call (ss_streams t f) = S_idle \<Longrightarrow> real_answer ans \<Longrightarrow>
    stream_step os c t (Str_close f ans ans') (with_writer (close_file ans ans' f (so_magic (ss_streams t f)) (ws_w (ss_writer t))) t)"
| ss_other: "writer_step os c (ss_writer t) e u \<Longrightarrow> outside e \<Longrightarrow> stream_step os c t (Str_other e) (t\<lparr>ss_writer := u\<rparr>)"

definition stream_initial :: "stream_sys \<Rightarrow> bool" where
  "stream_initial t \<longleftrightarrow> writer_initial (ss_writer t) \<and> ss_streams t = (\<lambda>f. new_stream)"

abbreviation stream_reach :: "os \<Rightarrow> (nat \<Rightarrow> nat \<Rightarrow> u8) \<Rightarrow> stream_sys \<Rightarrow> bool" where
  "stream_reach os c \<equiv> reach stream_initial (stream_step os c)"

text \<open>Inside \<^verbatim>\<open>Write\<close>: where the data belongs, and the signature before the call.\<close>

definition started :: "(nat \<Rightarrow> u8) \<Rightarrow> out_stream \<Rightarrow> u8 list \<Rightarrow> nat \<Rightarrow> bool" where
  "started c st data consumed \<longleftrightarrow>
     (let p = unat (so_position st) - consumed
      in consumed \<le> unat (so_position st) \<and> consumed \<le> length data \<and> length data < 2 ^ 32 \<and> p + length data < 2 ^ 64 \<and>
         data = bytes_at c p (length data) \<and> so_magic st = bytes_at c 0 (min 512 p))"

definition writing :: "file_state \<Rightarrow> u8 list \<Rightarrow> nat \<Rightarrow> bool" where
  "writing x d k \<longleftrightarrow> wf_producer x = P_write d k \<or> (\<exists>previous chunk newly. wf_producer x = P_copy d k previous chunk newly)"

definition stream_ok :: "(nat \<Rightarrow> u8) \<Rightarrow> out_stream \<Rightarrow> file_state \<Rightarrow> bool" where
  "stream_ok c st x \<longleftrightarrow>
     (case so_call st of
        S_idle \<Rightarrow> wf_producer x = P_idle \<and> so_position st = wf_accepted_bytes x \<and> so_magic st = bytes_at c 0 (min 512 (unat (so_position st)))
      | S_loop data consumed \<Rightarrow> wf_producer x = P_idle \<and> so_position st = wf_accepted_bytes x \<and> consumed < length data \<and> started c st data consumed
      | S_write data consumed amount \<Rightarrow>
          started c st data consumed \<and> amount \<le> length data - consumed \<and>
          (\<exists>d k. writing x d k \<and> length d = amount \<and> wf_accepted_bytes x = so_position st + of_nat k))"

lemma magic_grows:
  assumes "started c st data consumed"
  shows "keep_magic (so_magic st) data consumed = bytes_at c 0 (min 512 (unat (so_position st)))"
proof -
  let ?p = "unat (so_position st) - consumed" and ?l = "length (so_magic st)"
  have a: "consumed \<le> unat (so_position st)" "consumed \<le> length data" "data = bytes_at c ?p (length data)" "so_magic st = bytes_at c 0 (min 512 ?p)"
    using assms by (simp_all add: started_def Let_def)
  show ?thesis
  proof (cases "consumed \<noteq> 0 \<and> ?l < 512")
    case True
    then have p: "?p < 512" using a(4) by (simp add: min_less_iff_disj)
    have "take (min (512 - ?l) consumed) data = bytes_at c ?p (min (512 - ?p) consumed)"
      using take_bytes_at [of "min (512 - ?p) consumed" "length data" c ?p] a(2,4) p by (simp add: a(3) [symmetric] min.coboundedI2)
    then have "keep_magic (so_magic st) data consumed = bytes_at c 0 (?p + min (512 - ?p) consumed)"
      using True a(4) p bytes_at_add [of c 0 ?p "min (512 - ?p) consumed"] by (simp add: keep_magic_def)
    also have "?p + min (512 - ?p) consumed = min 512 (unat (so_position st))" using a(1) p by simp
    finally show ?thesis .
  next
    case False
    then show ?thesis using a by (auto simp: keep_magic_def)
  qed
qed

lemma stream_advance_ok:
  assumes st: "started c st data consumed" and taken: "taken \<le> length data - consumed" and x: "wf_producer x = P_idle" "wf_accepted_bytes x = so_position st + of_nat taken"
  shows "stream_ok c (stream_advance hr taken amount data consumed st) x"
proof -
  let ?st = "st\<lparr>so_position := so_position st + of_nat taken\<rparr>"
  have a: "consumed \<le> unat (so_position st)" "consumed \<le> length data" "length data < 2 ^ 32" "unat (so_position st) - consumed + length data < 2 ^ 64"
    using st unfolding started_def Let_def by blast+
  then have "unat (so_position st) + taken < 2 ^ 64" using taken by linarith
  then have u: "unat (so_position st + of_nat taken) = unat (so_position st) + taken"
    using unat_small [of taken] by (simp add: unat_word_ariths)
  have s: "started c ?st data (consumed + taken)"   proof -
    have "unat (so_position st) + taken - (consumed + taken) = unat (so_position st) - consumed" by simp
    then show ?thesis using st taken a(1) unfolding started_def Let_def by (simp add: u) linarith
  qed
  show ?thesis
  proof (cases "hr = s_ok \<and> taken = amount \<and> consumed + taken < length data")
    case True
    have "started c (st\<lparr>so_position := so_position st + of_nat taken, so_call := S_loop data (consumed + taken)\<rparr>) data (consumed + taken)"
      using s by (simp add: started_def)
    then show ?thesis using True x by (simp add: stream_advance_def Let_def stream_ok_def)
  next
    case False
    then show ?thesis using magic_grows [OF s] x by (auto simp: stream_advance_def Let_def stream_ok_def)
  qed
qed

section \<open>The streams keep the contract of the writer\<close>

definition stream_inv :: "(nat \<Rightarrow> nat \<Rightarrow> u8) \<Rightarrow> stream_sys \<Rightarrow> bool" where
  "stream_inv c t \<longleftrightarrow> (\<forall>f. if f < length (aw_files (ws_w (ss_writer t))) then stream_ok (c f) (ss_streams t f) (stream_file t f)
                            else ss_streams t f = new_stream)"

lemma stream_ok_tail: "tail x = tail y \<Longrightarrow> stream_ok c st x = stream_ok c st y"
  by (auto simp: tail_def stream_ok_def writing_def split: stream_stage.splits)

lemma stream_ok_new: "wf_producer x = P_idle \<Longrightarrow> wf_accepted_bytes x = 0 \<Longrightarrow> stream_ok c new_stream x"
  by (simp add: stream_ok_def new_stream_def bytes_at_def)

lemma tails_to_read:
  assumes "tails s' = tails_to f p n s" "f < length (aw_files s)"
  shows "length (aw_files s') = length (aw_files s)" "g < length (aw_files s) \<Longrightarrow> g \<noteq> f \<Longrightarrow> tail (file_of s' g) = tail (file_of s g)"
    "wf_producer (file_of s' f) = p" "wf_accepted_bytes (file_of s' f) = wf_accepted_bytes (file_of s f) + of_nat n"
proof -
  have "length (tails s') = length (tails s)" using assms(1) by simp
  then show l: "length (aw_files s') = length (aw_files s)" by (simp add: tails_def)
  have n: "tail (file_of s' g) = tails_to f p n s ! g" if "g < length (aw_files s)" for g
    using that l nth_map [of g "aw_files s'" tail] unfolding assms(1) [symmetric] by (simp add: tails_def)
  show "g < length (aw_files s) \<Longrightarrow> g \<noteq> f \<Longrightarrow> tail (file_of s' g) = tail (file_of s g)" using n by (simp add: tails_def)
  show "wf_producer (file_of s' f) = p" "wf_accepted_bytes (file_of s' f) = wf_accepted_bytes (file_of s f) + of_nat n"
    using n [OF assms(2)] assms(2) by (simp_all add: tail_def tails_def)
qed

lemma stream_inv_file:
  assumes inv: "stream_inv c t" and f: "f < length (aw_files (ws_w (ss_writer t)))" and s: "tails s' = tails_to f p n (ws_w (ss_writer t))"
    and ok: "\<And>x. wf_producer x = p \<Longrightarrow> wf_accepted_bytes x = wf_accepted_bytes (stream_file t f) + of_nat n \<Longrightarrow> stream_ok (c f) st x"
  shows "stream_inv c (with_stream f st (with_writer s' t))"
  using inv tails_to_read [OF s f] stream_ok_tail [of "file_of s' g" "stream_file t g" for g] ok f by (auto simp: stream_inv_def split: if_splits)

lemma returned_ok:
  assumes st: "stream_ok c (ss_streams t f) x" and w: "writing x d k" and n: "k + m \<le> length d"
    and x: "wf_producer y = P_idle" "wf_accepted_bytes y = wf_accepted_bytes x + of_nat m"
  shows "stream_ok c (stream_return (Some (hr, k + m)) (ss_streams t f)) y"
proof -
  obtain data consumed amount where s: "so_call (ss_streams t f) = S_write data consumed amount" "started c (ss_streams t f) data consumed"
      "amount \<le> length data - consumed" "length d = amount" "wf_accepted_bytes x = so_position (ss_streams t f) + of_nat k"
    using st w by (auto simp: stream_ok_def writing_def split: stream_stage.splits)
  show ?thesis using stream_advance_ok [OF s(2), of "k + m" y hr amount] s n x by (simp add: stream_return_def)
qed

lemma continued_ok:
  assumes "stream_ok c st x" "writing x d k" "writing y d (k + m)" "wf_accepted_bytes y = wf_accepted_bytes x + of_nat m"
  shows "stream_ok c (stream_return None st) y"
  using assms by (auto simp: stream_ok_def writing_def stream_return_def split: stream_stage.splits)

lemma stream_begin_ok:
  assumes "stream_ok c st x" "so_call st = S_idle" "length data < 2 ^ 32" "unat (so_position st) + length data < 2 ^ 64"
    "data = bytes_at c (unat (so_position st)) (length data)"
  shows "stream_ok c (stream_begin data st) x"
  using assms by (auto simp: stream_begin_def stream_ok_def started_def)

lemma stream_next_ok:
  assumes inv: "writer_inv c disk s" and f: "f < length (aw_files s)" and st: "stream_ok (c f) st (file_of s f)" "so_call st = S_loop data consumed"
    and p: "wf_producer (file_of s f) = P_idle" and r: "real_answer ans" and call: "stream_next ans f data consumed st s = (st', s')"
  shows "(\<exists>n. s' = snd (skip_written ans f n s) \<and> unat (wf_accepted_bytes (file_of s f)) + unat n < 2 ^ 64 \<and>
      {unat (wf_accepted_bytes (file_of s f))..<unat (wf_accepted_bytes (file_of s f)) + unat n} \<subseteq> confirmed (previous_writes (file_of s f))) \<or>
    (\<exists>d. s' = upd_file f (\<lambda>x. x\<lparr>wf_producer := P_write d 0\<rparr>) s \<and> rest_ok (c f) (file_of s f) d 0)"
    "\<exists>q n. tails s' = tails_to f q n s \<and>
      (\<forall>y. wf_producer y = q \<longrightarrow> wf_accepted_bytes y = wf_accepted_bytes (file_of s f) + of_nat n \<longrightarrow> stream_ok (c f) st' y)"
proof -
  let ?x = "file_of s f"
  have o: "so_position st = wf_accepted_bytes ?x" "consumed < length data" "started (c f) st data consumed"
    using st by (simp_all add: stream_ok_def)
  have ri: "ranges_inv (previous_writes ?x)" using inv_file [OF inv f] by (simp add: file_ok_def Let_def)
  let ?p = "unat (so_position st)"
  have d: "consumed \<le> ?p" "length data < 2 ^ 32" "?p - consumed + length data < 2 ^ 64" "data = bytes_at (c f) (?p - consumed) (length data)"
    using o(3) unfolding started_def Let_def by blast+
  have rest: "drop consumed data = bytes_at (c f) ?p (length data - consumed)" "?p + (length data - consumed) < 2 ^ 64"
    using drop_bytes_at [of consumed "c f" "?p - consumed" "length data"] d o(2) by (simp_all add: d(4) [symmetric])
  note legal = legal_call [OF ri o(1,2) d(2) rest]
  obtain run n where rn: "ranges_next (previous_writes ?x) (so_position st) (of_nat (length data - consumed)) = (run, n)" by (metis prod.exhaust)
  note amount = next_call_amount [OF ri o(2) d(2) rn]
  show "(\<exists>n. s' = snd (skip_written ans f n s) \<and> unat (wf_accepted_bytes ?x) + unat n < 2 ^ 64 \<and>
      {unat (wf_accepted_bytes ?x)..<unat (wf_accepted_bytes ?x) + unat n} \<subseteq> confirmed (previous_writes ?x)) \<or>
    (\<exists>d. s' = upd_file f (\<lambda>x. x\<lparr>wf_producer := P_write d 0\<rparr>) s \<and> rest_ok (c f) ?x d 0)"
    using call legal by (auto simp: stream_next_def split: stream_call.splits prod.splits)
  show "\<exists>q n. tails s' = tails_to f q n s \<and>
      (\<forall>y. wf_producer y = q \<longrightarrow> wf_accepted_bytes y = wf_accepted_bytes ?x + of_nat n \<longrightarrow> stream_ok (c f) st' y)"
  proof (cases "next_call (previous_writes ?x) (so_position st) data consumed")
    case (Call_skip k)
    obtain hr s1 where w: "skip_written ans f k s = (hr, s1)" by (metis prod.exhaust)
    let ?k = "if hr = s_ok then unat k else 0"
    have k: "?k \<le> length data - consumed" using amount Call_skip by auto
    have e: "s' = s1" "st' = stream_advance hr ?k (unat k) data consumed st" using call Call_skip w by (auto simp: stream_next_def)
    have "tails s' = tails_to f P_idle ?k s" using skip_written_tails [OF f inv_job [OF inv f] r w] p e(1) by simp
    moreover have "stream_ok (c f) st' y" if "wf_producer y = P_idle" "wf_accepted_bytes y = wf_accepted_bytes ?x + of_nat ?k" for y
      unfolding e(2) using stream_advance_ok [OF o(3) k, of y hr "unat k"] that o(1) by simp
    ultimately show ?thesis by blast
  next
    case (Call_write b)
    have e: "s' = upd_file f (\<lambda>x. x\<lparr>wf_producer := P_write b 0\<rparr>) s" "st' = st\<lparr>so_call := S_write data consumed (length b)\<rparr>"
      using call Call_write by (auto simp: stream_next_def)
    have "tails s' = tails_to f (P_write b 0) 0 s" unfolding e(1) by (simp add: tails_upd_file tail_def previous_writes_def)
    moreover have "stream_ok (c f) st' y" if "wf_producer y = P_write b 0" "wf_accepted_bytes y = wf_accepted_bytes ?x + of_nat 0" for y
      using that o amount Call_write unfolding e(2) by (simp add: stream_ok_def writing_def started_def)
    ultimately show ?thesis by blast
  qed
qed

lemma stream_inv_other:
  assumes inv: "stream_inv c t" and st: "writer_step os c (ss_writer t) e u" "outside e"
  shows "stream_inv c (t\<lparr>ss_writer := u\<rparr>)"
  unfolding stream_inv_def
proof
  fix f
  let ?n = "length (aw_files (ws_w (ss_writer t)))"
  have i: "if f < ?n then stream_ok (c f) (ss_streams t f) (stream_file t f) else ss_streams t f = new_stream"
    using inv unfolding stream_inv_def by (rule spec)
  note tl = outside_tail [OF st, of f] and gr = outside_grows [OF st]
  have "stream_ok (c f) (ss_streams t f) (file_of (ws_w u) f)" if f: "f < length (aw_files (ws_w u))"
  proof (cases "f < ?n")
    case True
    then show ?thesis using i tl [OF f] stream_ok_tail [of "file_of (ws_w u) f" "stream_file t f"] by simp
  next
    case False
    then show ?thesis using i tl [OF f] stream_ok_new by simp
  qed
  then show "if f < length (aw_files (ws_w (ss_writer (t\<lparr>ss_writer := u\<rparr>)))) then stream_ok (c f) (ss_streams (t\<lparr>ss_writer := u\<rparr>) f) (stream_file (t\<lparr>ss_writer := u\<rparr>) f)
      else ss_streams (t\<lparr>ss_writer := u\<rparr>) f = new_stream"
    using i gr by auto
qed

lemma stream_step_sound:
  assumes step: "stream_step os c t e u" and inv: "stream_inv c t" "sys_inv c (ss_writer t)"
  shows "stream_inv c u" "ss_writer u = ss_writer t \<or> (\<exists>e'. writer_step os c (ss_writer t) e' (ss_writer u))"
proof -
  let ?s = "ws_w (ss_writer t)"
  note wi = inv(2) [unfolded sys_inv_def]
  have ok: "stream_ok (c f) (ss_streams t f) (file_of ?s f)" if "f < length (aw_files ?s)" for f
    using inv(1) that by (simp add: stream_inv_def split: if_splits)
  have "stream_inv c u \<and> (ss_writer u = ss_writer t \<or> (\<exists>e'. writer_step os c (ss_writer t) e' (ss_writer u)))"
    using step
  proof (cases rule: stream_step.cases)
    case (ss_write f st data)
    have "stream_inv c (with_stream f (stream_begin data st) t)"
      using inv(1) stream_begin_ok [OF ok [OF ss_write(3)], of data] ss_write by (auto simp: stream_inv_def split: if_splits)
    then show ?thesis using ss_write by simp
  next
    case (ss_call f st data consumed ans st' s')
    note cl = stream_next_ok [OF wi ss_call(3) ok [OF ss_call(3), folded ss_call(4)] ss_call(5,6,7,8)]
    obtain q n where qn: "tails s' = tails_to f q n ?s"
      "\<And>y. wf_producer y = q \<Longrightarrow> wf_accepted_bytes y = wf_accepted_bytes (file_of ?s f) + of_nat n \<Longrightarrow> stream_ok (c f) st' y"
      using cl(2) by blast
    have "stream_inv c u" unfolding ss_call(2) by (rule stream_inv_file [OF inv(1) ss_call(3) qn])
    moreover have "\<exists>e'. writer_step os c (ss_writer t) e' (ss_writer u)"
      using cl(1) st_skip [of f "ss_writer t" ans _ os c] st_write [of f "ss_writer t" c _ os] ss_call(2,3,6,7) by auto
    ultimately show ?thesis by blast
  next
    case (ss_setup f d k ans allocated r s')
    note ts = write_setup_tails [OF ss_setup(3,4,6)]
    have w: "writing (file_of ?s f) d k" using ss_setup(4) by (simp add: writing_def)
    have "producer_ok (c f) ?s (file_of ?s f)" using inv_file [OF wi ss_setup(3)] unfolding file_ok_def Let_def by blast
    then have kd: "k \<le> length d" using ss_setup(4) by (simp add: producer_ok_def rest_ok_def Let_def)
    have "stream_inv c u"
    proof (cases r)
      case None
      then obtain q where q: "q \<in> insert (P_write d k) {P_copy d k p n newly |p n newly. True}" "tails s' = tails_to f q 0 ?s" using ts by auto
      have "stream_ok (c f) (stream_return r (ss_streams t f)) y" if "wf_producer y = q" "wf_accepted_bytes y = wf_accepted_bytes (file_of ?s f) + of_nat 0" for y
        unfolding None by (rule continued_ok [OF ok [OF ss_setup(3)] w, of _ 0]) (use q that in \<open>auto simp: writing_def\<close>)
      then show ?thesis unfolding ss_setup(2) by (rule stream_inv_file [OF inv(1) ss_setup(3) q(2)])
    next
      case (Some a)
      then obtain hr where a: "r = Some (hr, k + 0)" "tails s' = tails_to f P_idle 0 ?s" using ts by (cases a) auto
      show ?thesis unfolding ss_setup(2)
        by (rule stream_inv_file [OF inv(1) ss_setup(3) a(2)]) (use returned_ok [OF ok [OF ss_setup(3)] w, of 0 _ hr] kd a(1) in auto)
    qed
    moreover have "writer_step os c (ss_writer t) (Ev_setup f ans allocated) (ss_writer u)"
      using st_setup [OF ss_setup(3,4,5), of os c allocated] ss_setup(2,6) by simp
    ultimately show ?thesis by blast
  next
    case (ss_commit f d k previous chunk newly ans r s')
    note ts = write_commit_tails [OF ss_commit(3,4,6)]
    have w: "writing (file_of ?s f) d k" using ss_commit(4) by (auto simp: writing_def)
    have "producer_ok (c f) ?s (file_of ?s f)" using inv_file [OF wi ss_commit(3)] unfolding file_ok_def Let_def by blast
    then have kd: "k + chunk \<le> length d" using ss_commit(4) by (auto simp: producer_ok_def rest_ok_def Let_def)
    have "stream_inv c u"
    proof (cases r)
      case None
      then have q: "tails s' = tails_to f (P_write d (k + chunk)) chunk ?s" using ts by simp
      show ?thesis unfolding ss_commit(2)
        by (rule stream_inv_file [OF inv(1) ss_commit(3) q])
          (use None continued_ok [OF ok [OF ss_commit(3)] w, of _ chunk] in \<open>auto simp: writing_def\<close>)
    next
      case (Some a)
      then obtain hr m where a: "m \<in> {0, chunk}" "r = Some (hr, k + m)" "tails s' = tails_to f P_idle m ?s" using ts by (cases a) auto
      show ?thesis unfolding ss_commit(2)
        by (rule stream_inv_file [OF inv(1) ss_commit(3) a(3)])
          (use returned_ok [OF ok [OF ss_commit(3)] w, of m _ hr] kd a(1,2) in auto)
    qed
    moreover have "writer_step os c (ss_writer t) (Ev_commit f ans) (ss_writer u)"
      using st_commit [OF ss_commit(3,4,5), of os c] ss_commit(2,6) by simp
    ultimately show ?thesis by blast
  next
    case (ss_close f ans ans')
    have p: "wf_producer (file_of ?s f) = P_idle" using ok [OF ss_close(3)] ss_close(4) by (simp add: stream_ok_def)
    have st: "writer_step os c (ss_writer t) (Ev_close f (so_magic (ss_streams t f)) ans ans') (ss_writer u)"
      using st_close [OF ss_close(3) p ss_close(5), of os c "so_magic (ss_streams t f)" ans'] ss_close(2) by simp
    have "stream_inv c (t\<lparr>ss_writer := ss_writer u\<rparr>)" by (rule stream_inv_other [OF inv(1) st]) simp
    then have "stream_inv c u" using ss_close(2) by simp
    then show ?thesis using st by blast
  next
    case (ss_other e u')
    then show ?thesis using stream_inv_other [OF inv(1) ss_other(3,4)] by auto
  qed
  then show "stream_inv c u" "ss_writer u = ss_writer t \<or> (\<exists>e'. writer_step os c (ss_writer t) e' (ss_writer u))" by blast+
qed


interpretation streams: invariant_system stream_initial "stream_step os c" "\<lambda>t. writer_reach os c (ss_writer t) \<and> stream_inv c t" for os c
proof unfold_locales
  show "writer_reach os c (ss_writer t) \<and> stream_inv c t" if "stream_initial t" for t
    using that reach_initial [of writer_initial "ss_writer t"] by (auto simp: stream_initial_def writer_initial_def stream_inv_def new_writer_def)
  show "writer_reach os c (ss_writer u) \<and> stream_inv c u" if "writer_reach os c (ss_writer t) \<and> stream_inv c t" "stream_step os c t e u" for t e u
    using stream_step_sound [OF that(2)] that(1) writer.invar_reach [of os c "ss_writer t"] reach_step [of writer_initial "writer_step os c" "ss_writer t"]
    by metis
qed

section \<open>What a stream guarantees\<close>

definition streamed :: "awriter \<Rightarrow> out_stream \<Rightarrow> stream_sys" where
  "streamed w st = \<lparr>ss_writer = \<lparr>ws_w = w, ws_disk = disk_before\<rparr>, ss_streams = (\<lambda>f. new_stream)(0 := st)\<rparr>"

definition streamed_byte :: out_stream where
  "streamed_byte = \<lparr>so_magic = [5], so_position = 1, so_call = S_idle\<rparr>"

lemma streamed_sel: "ss_streams (streamed w st) 0 = st" "ws_w (ss_writer (streamed w st)) = w"
  "with_stream 0 st' (streamed w st) = streamed w st'" "with_writer w' (streamed w st) = streamed w' st"
  by (simp_all add: streamed_def)

lemma run_answers:
  "write_setup Posted True 0 [5] 0 run_write = (None, run_setup)"
  "write_commit Posted 0 [5] 0 0 1 True run_setup = (Some (s_ok, 1), run_commit)"
proof -
  have "fst (write_setup Posted True 0 [5] 0 run_write) = None" by (simp add: region_defs run_write_eq)
  then show "write_setup Posted True 0 [5] 0 run_write = (None, run_setup)" by (simp add: run_setup_def prod_eq_iff)
  have "fst (write_commit Posted 0 [5] 0 0 1 True run_setup) = Some (s_ok, 1)" by (simp add: region_defs run_setup_eq)
  then show "write_commit Posted 0 [5] 0 0 1 True run_setup = (Some (s_ok, 1), run_commit)" by (simp add: run_commit_def prod_eq_iff)
qed

lemma streamed_reach: "stream_reach run_os contents (streamed run_commit streamed_byte)"
proof -
  note step = reach_step [where initial = stream_initial and step = "stream_step run_os contents"]
  have "stream_reach run_os contents (streamed run_start new_stream)"
    by (rule reach_initial) (auto simp: stream_initial_def streamed_def writer_initial_def run_start_def intro!: exI)
  from step [OF this ss_other [OF st_make_job [where n = 0 and token = None]]] have "stream_reach run_os contents (streamed run_job new_stream)"
    by (simp add: streamed_def run_job_def)
  from step [OF this ss_other [OF st_make_file [where j = 0 and f = 0 and replay = None and path = "[]" and index = 0 and tracked = True]]]
  have "stream_reach run_os contents (streamed run_file new_stream)" by (simp add: streamed_def run_file_def run_job_eq)
  from step [OF this ss_write [where f = 0 and data = "[5]", OF _ refl]]
  have "stream_reach run_os contents (streamed run_file (new_stream\<lparr>so_call := S_loop [5] 0\<rparr>))"
    by (simp add: streamed_def run_file_eq new_stream_def stream_begin_def contents_def bytes_at_def)
  from step [OF this ss_call [where f = 0 and data = "[5]" and consumed = 0 and ans = Posted and s' = run_write and
      st' = "new_stream\<lparr>so_call := S_write [5] 0 1\<rparr>", OF _ refl]]
  have "stream_reach run_os contents (streamed run_write (new_stream\<lparr>so_call := S_write [5] 0 1\<rparr>))"
    by (simp add: streamed_def run_write_def run_file_eq new_stream_def stream_next_def next_call_def ranges_next_def previous_writes_def empty_ranges_def
        real_answer_def)
  from step [OF this ss_setup [where f = 0 and d = "[5]" and k = 0 and t = "streamed run_write (new_stream\<lparr>so_call := S_write [5] 0 1\<rparr>)", unfolded streamed_sel,
      OF _ _ _ run_answers(1)]]
  have "stream_reach run_os contents (streamed run_setup (new_stream\<lparr>so_call := S_write [5] 0 1\<rparr>))"
    by (simp add: run_write_eq real_answer_def stream_return_def streamed_sel)
  from step [OF this ss_commit [where f = 0 and d = "[5]" and k = 0 and previous = 0 and chunk = 1 and newly = True and
      t = "streamed run_setup (new_stream\<lparr>so_call := S_write [5] 0 1\<rparr>)", unfolded streamed_sel, OF _ _ _ run_answers(2)]]
  show ?thesis
    by (simp add: run_setup_eq real_answer_def stream_return_def streamed_sel streamed_byte_def stream_advance_def keep_magic_def new_stream_def)
qed

text \<open>
  C1. The output stream of an item keeps the contract of the writer: whatever 7-Zip writes, in pieces of any size, every call the
  stream makes is one the writer allows, so all that is proved of the writer holds below 7-Zip. A stream that is not
  inside \<^verbatim>\<open>Write\<close> is where its file is: its position is the number of accepted bytes, after failed calls too, and
  the signature it kept is the beginning of the file.
\<close>

theorem streams_keep_contract:
  assumes "stream_reach os c t" "f < length (aw_files (ws_w (ss_writer t)))" "st = ss_streams t f"
  shows "writer_reach os c (ss_writer t) \<and>
    (so_call st = S_idle \<longrightarrow> so_position st = wf_accepted_bytes (stream_file t f) \<and> so_magic st = map (c f) [0..<min 512 (unat (so_position st))])"
proof -
  have "writer_reach os c (ss_writer t)" "stream_ok (c f) st (stream_file t f)"
    using streams.invar_reach [OF assms(1)] assms(2,3) by (auto simp: stream_inv_def split: if_splits)
  then show ?thesis by (auto simp: stream_ok_def bytes_at_def)
qed

theorem streams_keep_contract_witness:
  "so_position streamed_byte = wf_accepted_bytes (file_of run_commit 0) \<and> so_magic streamed_byte = map (contents 0) [0..<1]"
  using streams_keep_contract [OF streamed_reach _ refl, of 0] by (simp add: streamed_def streamed_byte_def run_commit_eq)

end
