(* ===== verification/Spec2Isabelle.thy ===== *)
theory Spec2Isabelle
  imports Written_Ranges Space_Gate_Safety Space_Retry Cpu_Budget Writer_Meters Volume_Registry Space_Monitor
    Native_Memory Lz4_Codec Item_Paths Password_Soundness Writer_Accounting Output_Stream
begin

text \<open>
  SunPack's native extraction worker, a verification development.

  SunPack is an archive extractor for Windows. Its native part, the worker under
  \<^verbatim>\<open>src/native/sevenzip_bridge/src\<close>, embeds 7-Zip: it opens archives from one or more volumes, searches for
  passwords, and extracts through asynchronous writers that share memory, processor and disk space with
  each other. This development models the worker's own logic. 7-Zip, the LZ4 library, Windows and the locale
  are arguments of the definitions, with what the code relies on as named hypotheses of the theorems.

  \<^bold>\<open>Reading archives.\<close> \<open>Archive_Paths\<close> (\<^verbatim>\<open>sevenzip_paths.cpp\<close>, \<^verbatim>\<open>sevenzip_sdk.cpp\<close>) recognises the names of volumes
  and orders them; \<open>Archive_Formats\<close> (\<^verbatim>\<open>sevenzip_formats.cpp\<close>, \<^verbatim>\<open>sevenzip_status.cpp\<close>, \<^verbatim>\<open>sevenzip_properties.cpp\<close>,
  \<^verbatim>\<open>archive_open_plan.cpp\<close>, \<^verbatim>\<open>password_probe_policy.hpp\<close>) holds the tables of handlers, the classification of
  results and the plan for opening. \<open>Input_Prefetch\<close> and \<open>Input_Streams\<close> (\<^verbatim>\<open>sevenzip_streams.hpp\<close>,
  \<^verbatim>\<open>sevenzip_streams.cpp\<close>) are the read-ahead with its two overlapped slots and the streams over one file, over
  volumes and over ranges. \<open>Stream_Contents\<close> states the contract of a stream as the locale \<open>reader\<close>, interpreted
  on both stream classes, and \<open>Archive_Input\<close> proves that 7-Zip reads exactly the volumes in their order and
  that the read-ahead is invisible. Files answer through the record \<open>file_os\<close>; \<open>honest_os\<close> and \<open>honest_sizes\<close>
  say that reads return what the files hold, \<open>reliable\<close> that they do not fail.

  \<^bold>\<open>Finding passwords.\<close> \<open>Open_Callbacks\<close> (the first half of \<^verbatim>\<open>sevenzip_callbacks.hpp\<close>) are the objects 7-Zip calls
  back; \<open>Password_Testing\<close> (\<^verbatim>\<open>password_testing.cpp\<close>) is the search, with 7-Zip as the record \<open>engine\<close>;
  \<open>Password_Soundness\<close> shows which item is tested and that a batch reports only good candidates, its counters
  included, also when the handler of an earlier candidate is reused. The hypothesis \<open>engine_sound\<close> says that
  7-Zip tests an item without error only under a good password.

  \<^bold>\<open>Writing files.\<close> \<open>Item_Paths\<close> proves that the path of an item stays below the output directory.
  \<open>Written_Ranges\<close> (\<^verbatim>\<open>extraction_replay.hpp\<close>) is the record of bytes that reached the disk, refined to sets of
  offsets. \<open>Writer_Meters\<close> (\<^verbatim>\<open>sevenzip_writer_meters.cpp\<close>, the accounting of \<^verbatim>\<open>sevenzip_async_output.hpp\<close>) has the
  ledger of accepted, written and discarded bytes; \<open>Volume_Registry\<close> (\<^verbatim>\<open>sevenzip_volume_registry.cpp\<close>) shares one
  writer per disk volume between jobs by leases and reaps idle ones.

  \<^bold>\<open>The asynchronous writer.\<close> \<open>Async_Writer\<close> (\<^verbatim>\<open>sevenzip_async_output.hpp\<close>) models the writer of a volume: producers
  copy into staging buffers, full buffers are queued, the threads of the completion port open files and submit
  overlapped writes, completions may be partial and come in any order, failures for lack of space wait in the
  retry queue for the gate, and a file is closed by the last of its buffers. Every region under the writer's
  lock is one definition; jobs, files and buffers live in stores, and a thread between two regions is a stage of
  the object it owns. \<open>Writer_Safety\<close> puts the regions together as the step relation \<open>writer_step\<close>, with the answers
  of the system and the contents of the disk left open, and interprets the locale \<open>invariant_system\<close> on it. The
  invariant is \<open>writer_inv\<close> of \<open>Writer_Invariant\<close>; it is kept by the attempts and completions (\<open>Writer_Invariant\<close>), by
  the queues, releases and retries (\<open>Writer_Threads\<close>), by the producers (\<open>Writer_Producers\<close>) and by the close
  (\<open>Writer_Closing\<close>). It gives, for every interleaving: a file closed without failure holds exactly the bytes handed
  over, a receipt for a later attempt records only bytes that are on disk, requests in flight never overlap, a
  buffer has one owner, and a close waits for the writes. \<open>full_queue_fails_write\<close> shows a write that fails although
  nothing is wrong, because the queue is at its limit.

  \<^bold>\<open>Running out of space.\<close> \<open>Space_Gate\<close> and \<open>Space_Gate_Safety\<close> (\<^verbatim>\<open>sevenzip_space_gate.hpp\<close>) model the gate of a
  volume as critical sections over its state and prove its automaton, the uniqueness of the probe, the log of
  discontinuities and that the gate can always be reopened, by rule induction over reachable states.
  \<open>Space_Retry\<close> (\<^verbatim>\<open>sevenzip_space_retry.hpp\<close>, \<^verbatim>\<open>sevenzip_space_directory.hpp\<close>) is the loop of a client and
  \<open>Space_Monitor\<close> (\<^verbatim>\<open>sevenzip_space_monitor.hpp\<close>) the sampling that wakes it.

  \<^bold>\<open>Shared resources.\<close> \<open>Cpu_Budget\<close> (\<^verbatim>\<open>native_cpu_budget.cpp\<close>) hands out processor credits and \<open>Native_Memory\<close>
  (\<^verbatim>\<open>native_memory.cpp\<close>) commits memory to decoders and parks those that have to wait; both are shown to conserve
  what they hand out. \<open>Lz4_Stream\<close> (\<^verbatim>\<open>lz4_stream/stream.c\<close>) and \<open>Lz4_Codec\<close> (\<^verbatim>\<open>lz4_codec.cpp\<close>) read LZ4 frames: they
  terminate, account for their input and keep their limits.

  \<^bold>\<open>Conventions.\<close> Integers keep their width: \<open>u8\<close> to \<open>u64\<close> are words, and where a computation cannot wrap
  this is proved. State passing is explicit; \<open>'w\<close> is the outside world, threaded through every call that asks it
  something, so answers may differ from call to call. Locked regions are single steps; a compare-exchange loop
  takes the list of values it observes and is total on it, and a loop that waits takes the list of what happens
  in its rounds. Loops over files, slots and frames are recursive functions with proofs of termination; the
  frame reader takes fuel, and \<open>lz4_decode_terminates\<close> gives an amount that is enough for every finite input.

  \<^bold>\<open>Not modelled.\<close> The callbacks of the extraction to disk (7-Zip calls them; they mix the allocation of output
  names, metadata and links with the writer modelled here), the extraction driver, the JSON protocol of the
  worker, the launcher, the deflate decoder around zlib-ng, the archive handlers (COM glue), the desktop
  application and the toast host. The wall-clock fields of the input trace, the timing probe and the fault
  injection of the writer, and the failure to allocate a node of its retry queue are left out. 7-Zip, zlib-ng and
  LZ4 themselves are third-party code.
\<close>

end
